(* ===== verification/Prelude.thy ===== *)
theory Prelude
  imports Main "HOL-Library.Multiset"
begin

text \<open>
  Shared vocabulary of the development.
  \<^item> Addresses of heap-allocated C++ objects are natural numbers; \<open>0\<close> is the null pointer.
  \<^item> \<open>chain\<close> and \<open>dll\<close> relate a store of link fields to the list of the objects that a
    singly or doubly linked C++ list holds. Every intrusive list of the library
    (\<^verbatim>\<open>message_queue\<close>, \<^verbatim>\<open>cache_deque\<close>, the free lists) is described with them.
  \<^item> generic lemmas on lists updated by index.
\<close>

section \<open>Addresses, outcomes and automation\<close>

type_synonym addr = nat

abbreviation (input) null :: addr where
  "null \<equiv> 0"

text \<open>What the C++ program may do outside the language: reading or writing outside an
  array, following a null pointer, or running into a failed \<^verbatim>\<open>assert\<close>.\<close>

datatype fault = OutOfBounds | NullDeref | AssertFailed | IntOverflow

type_synonym 'a faulty_result = "fault + 'a"

text \<open>Conversion of a wider integer to the 32 bits of \<^verbatim>\<open>int\<close>.\<close>

definition INT_MAX :: int where "INT_MAX = 2147483647"

definition to_int :: "int \<Rightarrow> int" where
  "to_int x = (x + 2 ^ 31) mod 2 ^ 32 - 2 ^ 31"

lemma to_int_id [simp]: "0 \<le> x \<Longrightarrow> x \<le> INT_MAX \<Longrightarrow> to_int x = x"
  by (simp add: to_int_def INT_MAX_def)

text \<open>The first step that goes wrong ends a sequence of steps.\<close>

definition bind_faulty :: "'a faulty_result \<Rightarrow> ('a \<Rightarrow> 'b faulty_result) \<Rightarrow> 'b faulty_result" where
  "bind_faulty x f = (case x of Inl e \<Rightarrow> Inl e | Inr a \<Rightarrow> f a)"

lemma bind_faulty_simps [simp]: "bind_faulty (Inl e) f = Inl e" "bind_faulty (Inr a) f = f a"
  by (simp_all add: bind_faulty_def)

named_theorems link_simps \<open>how a write of one link field acts on the link functions of a store\<close>

section \<open>Lists updated by index\<close>

lemma mset_update_twice:
  assumes "i < length xs" "j < length xs" "i \<noteq> j"
  shows "mset (xs[i := xs ! j, j := v]) = mset (xs[i := v])"
proof -
  have "mset (xs[i := xs ! j, j := v]) = add_mset v (mset (xs[i := xs ! j]) - {#xs ! j#})"
    using assms by (simp add: mset_update)
  also have "\<dots> = add_mset v (add_mset (xs ! j) (mset xs - {#xs ! i#}) - {#xs ! j#})"
    using assms by (simp add: mset_update)
  also have "\<dots> = mset (xs[i := v])"
    using assms by (simp add: mset_update)
  finally show ?thesis .
qed

lemma take_butlast_update [simp]:
  "n \<le> i \<Longrightarrow> take n (xs[i := v]) = take n xs"
  by (simp add: take_update_swap list_update_beyond)

lemma take_Suc_update:
  "n < length xs \<Longrightarrow> take (Suc n) (xs[n := v]) = take n xs @ [v]"
  by (simp add: take_Suc_conv_app_nth)

lemma mset_take_Suc:
  "n < length xs \<Longrightarrow> mset (take (Suc n) xs) = add_mset (xs ! n) (mset (take n xs))"
  by (simp add: take_Suc_conv_app_nth)

section \<open>Singly linked lists in a store\<close>

text \<open>\<open>chain nx p xs q\<close>: following the link field \<open>nx\<close> from \<open>p\<close> one visits exactly the
  objects \<open>xs\<close>, all of them non-null, and arrives at \<open>q\<close>.\<close>

primrec chain :: "(addr \<Rightarrow> addr) \<Rightarrow> addr \<Rightarrow> addr list \<Rightarrow> addr \<Rightarrow> bool" where
  "chain nx p [] q \<longleftrightarrow> p = q"
| "chain nx p (a # as) q \<longleftrightarrow> p = a \<and> a \<noteq> null \<and> chain nx (nx a) as q"

lemma chain_null [simp]: "chain nx null xs q \<longleftrightarrow> xs = [] \<and> q = null"
  by (cases xs) auto

lemma chain_append:
  "chain nx p (xs @ ys) q \<longleftrightarrow> (\<exists>r. chain nx p xs r \<and> chain nx r ys q)"
  by (induction xs arbitrary: p) auto

lemma chain_frame [simp]:
  "a \<notin> set xs \<Longrightarrow> chain (nx(a := b)) p xs q \<longleftrightarrow> chain nx p xs q"
  by (induction xs arbitrary: p) auto

lemma chain_cong:
  "(\<And>a. a \<in> set xs \<Longrightarrow> nx a = nx' a) \<Longrightarrow> chain nx p xs q \<longleftrightarrow> chain nx' p xs q"
  by (induction xs arbitrary: p) auto

lemma chain_not_null: "chain nx p xs q \<Longrightarrow> null \<notin> set xs"
  by (induction xs arbitrary: p) auto

lemma chain_unique:
  "chain nx p xs null \<Longrightarrow> chain nx p ys null \<Longrightarrow> xs = ys"
proof (induction xs arbitrary: p ys)
  case Nil
  then show ?case by simp
next
  case (Cons a xs)
  then show ?case by (cases ys) auto
qed

lemma chain_head: "chain nx p xs null \<Longrightarrow> p = (if xs = [] then null else hd xs)"
  by (cases xs) auto

lemma chain_nonempty: "chain nx p xs null \<Longrightarrow> xs \<noteq> [] \<longleftrightarrow> p \<noteq> null"
  by (cases xs) auto

lemma chain_distinct: "chain nx p xs null \<Longrightarrow> distinct xs"
proof (induction xs arbitrary: p)
  case Nil
  then show ?case by simp
next
  case (Cons a xs)
  then have tail: "chain nx (nx a) xs null" and "distinct xs" by auto
  moreover have "a \<notin> set xs"
  proof
    assume "a \<in> set xs"
    then obtain ys zs where xs: "xs = ys @ a # zs" by (auto simp: in_set_conv_decomp)
    from tail xs have "chain nx (nx a) zs null" by (auto simp: chain_append)
    with tail have "xs = zs" by (rule chain_unique)
    with xs show False by simp
  qed
  ultimately show ?case by simp
qed

lemma chain_next_in:
  "chain nx p (xs @ a # b # ys) q \<Longrightarrow> nx a = b"
  by (auto simp: chain_append)

lemma chain_last: "chain nx p (xs @ [a]) q \<Longrightarrow> nx a = q"
  by (auto simp: chain_append)

lemma chain_relink_last:
  "chain nx p (xs @ [a]) q \<Longrightarrow> a \<notin> set xs \<Longrightarrow> chain (nx(a := r)) p (xs @ [a]) r"
  by (auto simp: chain_append)

text \<open>The first \<open>n\<close> objects of a list.\<close>

fun walk :: "nat \<Rightarrow> (addr \<Rightarrow> addr) \<Rightarrow> addr \<Rightarrow> addr list" where
  "walk 0 link p = []"
| "walk (Suc n) link p = (if p = null then [] else p # walk n link (link p))"

lemma walk_chain: "chain link p xs null \<Longrightarrow> walk (length xs) link p = xs"
  by (induction xs arbitrary: p) auto

section \<open>Doubly linked lists in a store\<close>

text \<open>Forward along the next field from the head, backward along the previous field from
  the tail: the same objects, in opposite orders.\<close>

definition dll :: "(addr \<Rightarrow> addr) \<Rightarrow> (addr \<Rightarrow> addr) \<Rightarrow> addr \<Rightarrow> addr \<Rightarrow> addr list \<Rightarrow> bool" where
  "dll nx pv h t xs \<longleftrightarrow> chain nx h xs null \<and> chain pv t (rev xs) null"

lemma dll_Nil [simp]: "dll nx pv h t [] \<longleftrightarrow> h = null \<and> t = null"
  by (simp add: dll_def)

lemma dll_distinct: "dll nx pv h t xs \<Longrightarrow> distinct xs"
  by (auto simp: dll_def dest: chain_distinct)

lemma dll_not_null: "dll nx pv h t xs \<Longrightarrow> null \<notin> set xs"
  by (auto simp: dll_def dest: chain_not_null)

lemma dll_empty_iff:
  "dll nx pv h t xs \<Longrightarrow> (h = null \<longleftrightarrow> xs = []) \<and> (t = null \<longleftrightarrow> xs = [])"
  using chain_nonempty [of nx h xs] chain_nonempty [of pv t "rev xs"] by (auto simp: dll_def)

lemma dll_head: "dll nx pv h t (a # xs) \<Longrightarrow> h = a"
  by (simp add: dll_def)

lemma dll_tail: "dll nx pv h t (xs @ [a]) \<Longrightarrow> t = a"
  by (simp add: dll_def)

lemma dll_next: "dll nx pv h t (xs @ a # ys) \<Longrightarrow> nx a = (if ys = [] then null else hd ys)"
  by (cases ys) (auto simp: dll_def chain_append)

lemma dll_prev: "dll nx pv h t (xs @ a # ys) \<Longrightarrow> pv a = (if xs = [] then null else last xs)"
  by (cases xs rule: rev_cases) (auto simp: dll_def chain_append)

lemma dll_frame [simp]:
  "a \<notin> set xs \<Longrightarrow> dll (nx(a := b)) pv h t xs \<longleftrightarrow> dll nx pv h t xs"
  "a \<notin> set xs \<Longrightarrow> dll nx (pv(a := b)) h t xs \<longleftrightarrow> dll nx pv h t xs"
  by (simp_all add: dll_def)

lemma dll_unique: "dll nx pv h t xs \<Longrightarrow> dll nx pv h t ys \<Longrightarrow> xs = ys"
  by (auto simp: dll_def dest: chain_unique)

text \<open>Joining two lists end to end, and cutting one list in two.\<close>

lemma dll_join:
  assumes "dll nx pv h t (xs @ [a])" "dll nx pv h' t' (b # ys)"
    and "set (xs @ [a]) \<inter> set (b # ys) = {}"
  shows "dll (nx(a := b)) (pv(b := a)) h t' (xs @ a # b # ys)"
proof -
  have a: "a \<notin> set xs" "a \<notin> set (b # ys)" and b: "b \<notin> set ys" "b \<notin> set (xs @ [a])"
    using assms dll_distinct [OF assms(1)] dll_distinct [OF assms(2)] by auto
  have "chain (nx(a := b)) h (xs @ [a]) b"
    using assms(1) a(1) chain_relink_last unfolding dll_def by blast
  moreover have "chain (nx(a := b)) b (b # ys) null"
    using assms(2) a(2) by (auto simp: dll_def)
  ultimately have nx: "chain (nx(a := b)) h ((xs @ [a]) @ b # ys) null"
    unfolding chain_append by blast
  have "chain pv t' (rev ys @ [b]) null" using assms(2) by (simp add: dll_def)
  then have "chain (pv(b := a)) t' (rev ys @ [b]) a"
    using b(1) by (intro chain_relink_last) auto
  moreover have "chain (pv(b := a)) a (a # rev xs) null"
    using assms(1) b(2) by (auto simp: dll_def)
  ultimately have "chain (pv(b := a)) t' ((rev ys @ [b]) @ a # rev xs) null"
    unfolding chain_append by blast
  with nx show ?thesis by (simp add: dll_def)
qed

lemma dll_cut:
  assumes "dll nx pv h t (xs @ a # b # ys)"
  shows "dll (nx(a := null)) (pv(b := null)) h a (xs @ [a])"
    and "dll (nx(a := null)) (pv(b := null)) b t (b # ys)"
proof -
  have dist: "distinct (xs @ a # b # ys)" using assms by (rule dll_distinct)
  have f: "chain nx h (xs @ a # b # ys) null" and g: "chain pv t (rev ys @ b # a # rev xs) null"
    using assms by (simp_all add: dll_def)
  show "dll (nx(a := null)) (pv(b := null)) h a (xs @ [a])"
    using f g dist by (auto simp: dll_def chain_append)
  show "dll (nx(a := null)) (pv(b := null)) b t (b # ys)"
    using f g dist by (auto simp: dll_def chain_append)
qed

text \<open>Unlinking one object from the middle of a list.\<close>

lemma dll_unlink:
  assumes "dll nx pv h t (xs @ a # x # b # ys)"
  shows "dll (nx(a := b)) (pv(b := a)) h t (xs @ a # b # ys)"
proof -
  have "distinct (xs @ a # x # b # ys)" using assms by (rule dll_distinct)
  then show ?thesis using assms by (auto simp: dll_def chain_append)
qed

lemma dll_unlink_head:
  assumes "dll nx pv h t (x # b # ys)"
  shows "dll nx (pv(b := null)) b t (b # ys)"
  using assms dll_distinct [OF assms] by (auto simp: dll_def chain_append)

lemma dll_unlink_tail:
  assumes "dll nx pv h t (xs @ [a, x])"
  shows "dll (nx(a := null)) pv h a (xs @ [a])"
  using assms dll_distinct [OF assms] by (auto simp: dll_def chain_append)

end
