(* ===== verification/TimeValue.thy ===== *)
theory TimeValue
  imports Prelude "HOL-Library.Word" "HOL-Library.Signed_Division"
begin

text \<open>
  \<^verbatim>\<open>ndk/time_value.h\<close>, \<^verbatim>\<open>ndk/time_value.cpp\<close>: seconds and microseconds, kept in a normal
  form by \<^verbatim>\<open>normalize\<close>. The fields are 64-bit signed; their overflow is undefined
  behaviour of the C++ program and seconds are far from it, so they are integers here.
  The lemmas relate every operation to the microseconds a value denotes.
\<close>

section \<open>The class\<close>

datatype time_value = TimeValue (tv_sec: int) (tv_usec: int)

definition one_sec :: int where
  "one_sec = 1000000"

text \<open>The two \<^verbatim>\<open>do ... while\<close> loops of \<^verbatim>\<open>normalize\<close>.\<close>

function carry_up :: "time_value \<Rightarrow> time_value" where
  "carry_up tv =
     (let tv' = TimeValue (tv_sec tv + 1) (tv_usec tv - one_sec)
      in if one_sec \<le> tv_usec tv' then carry_up tv' else tv')"
  by pat_completeness auto
termination
  by (relation "measure (\<lambda>tv. nat (tv_usec tv))") (auto simp: one_sec_def)

function carry_down :: "time_value \<Rightarrow> time_value" where
  "carry_down tv =
     (let tv' = TimeValue (tv_sec tv - 1) (tv_usec tv + one_sec)
      in if tv_usec tv' \<le> - one_sec then carry_down tv' else tv')"
  by pat_completeness auto
termination
  by (relation "measure (\<lambda>tv. nat (- tv_usec tv))") (auto simp: one_sec_def)

definition borrow :: "time_value \<Rightarrow> time_value" where
  "borrow tv =
     (if 1 \<le> tv_sec tv \<and> tv_usec tv < 0
      then TimeValue (tv_sec tv - 1) (tv_usec tv + one_sec) else tv)"

definition normalize :: "time_value \<Rightarrow> time_value" where
  "normalize tv = borrow
     (if one_sec \<le> tv_usec tv then carry_up tv
      else if tv_usec tv \<le> - one_sec then carry_down tv
      else tv)"

definition tv_set :: "int \<Rightarrow> int \<Rightarrow> time_value" where
  "tv_set sec usec = normalize (TimeValue sec usec)"

definition tv_zero :: time_value where
  "tv_zero = tv_set 0 0"

text \<open>From and to a \<^verbatim>\<open>timespec\<close>: nanoseconds divided with C's truncating division.\<close>

definition tv_set_timespec :: "int \<Rightarrow> int \<Rightarrow> time_value" where
  "tv_set_timespec sec nsec = tv_set sec (nsec sdiv 1000)"

definition tv_timespec :: "time_value \<Rightarrow> int \<times> int" where
  "tv_timespec tv = (tv_sec tv, tv_usec tv * 1000)"

text \<open>\<^verbatim>\<open>msec\<close> computes in signed 64 bits and returns an \<^verbatim>\<open>unsigned long\<close>.\<close>

definition tv_msec :: "time_value \<Rightarrow> 64 word" where
  "tv_msec tv = word_of_int (tv_sec tv * 1000 + tv_usec tv sdiv 1000)"

definition tv_add :: "time_value \<Rightarrow> time_value \<Rightarrow> time_value" where
  "tv_add a b = normalize (TimeValue (tv_sec a + tv_sec b) (tv_usec a + tv_usec b))"

definition tv_add_sec :: "time_value \<Rightarrow> int \<Rightarrow> time_value" where
  "tv_add_sec a s = TimeValue (tv_sec a + s) (tv_usec a)"

definition tv_sub :: "time_value \<Rightarrow> time_value \<Rightarrow> time_value" where
  "tv_sub a b = normalize (TimeValue (tv_sec a - tv_sec b) (tv_usec a - tv_usec b))"

definition tv_sub_sec :: "time_value \<Rightarrow> int \<Rightarrow> time_value" where
  "tv_sub_sec a s = TimeValue (tv_sec a - s) (tv_usec a)"

definition tv_less :: "time_value \<Rightarrow> time_value \<Rightarrow> bool" where
  "tv_less a b =
     (if tv_sec a < tv_sec b then True
      else if tv_sec a = tv_sec b \<and> tv_usec a < tv_usec b then True
      else False)"

definition tv_greater :: "time_value \<Rightarrow> time_value \<Rightarrow> bool" where
  "tv_greater a b = tv_less b a"

definition tv_le :: "time_value \<Rightarrow> time_value \<Rightarrow> bool" where
  "tv_le a b =
     (if tv_sec a < tv_sec b then True
      else if tv_sec a = tv_sec b \<and> tv_usec a \<le> tv_usec b then True
      else False)"

definition tv_ge :: "time_value \<Rightarrow> time_value \<Rightarrow> bool" where
  "tv_ge a b = tv_le b a"

definition tv_eq :: "time_value \<Rightarrow> time_value \<Rightarrow> bool" where
  "tv_eq a b \<longleftrightarrow> tv_sec a = tv_sec b \<and> tv_usec a = tv_usec b"

definition tv_neq :: "time_value \<Rightarrow> time_value \<Rightarrow> bool" where
  "tv_neq a b = (\<not> tv_eq a b)"

text \<open>The comparison operators are a linear order on the pairs.\<close>

instantiation time_value :: linorder
begin
definition less_time_value :: "time_value \<Rightarrow> time_value \<Rightarrow> bool" where
  "less_time_value = tv_less"
definition less_eq_time_value :: "time_value \<Rightarrow> time_value \<Rightarrow> bool" where
  "less_eq_time_value = tv_le"
instance
  by standard
    (auto simp: less_time_value_def less_eq_time_value_def tv_less_def tv_le_def
      time_value.expand split: if_splits)
end

section \<open>Microseconds denoted\<close>

definition usecs :: "time_value \<Rightarrow> int" where
  "usecs tv = tv_sec tv * one_sec + tv_usec tv"

text \<open>What \<^verbatim>\<open>normalize\<close> establishes: less than a second of microseconds, and no negative
  microseconds beside positive seconds.\<close>

definition normalized :: "time_value \<Rightarrow> bool" where
  "normalized tv \<longleftrightarrow>
     - one_sec < tv_usec tv \<and> tv_usec tv < one_sec \<and> (1 \<le> tv_sec tv \<longrightarrow> 0 \<le> tv_usec tv)"

text \<open>The times of a running program: normalized and not before the epoch.\<close>

definition clock_time :: "time_value \<Rightarrow> bool" where
  "clock_time tv \<longleftrightarrow> normalized tv \<and> 0 \<le> usecs tv"

lemma carry_up_correct:
  "one_sec \<le> tv_usec tv \<Longrightarrow>
     usecs (carry_up tv) = usecs tv \<and> 0 \<le> tv_usec (carry_up tv) \<and> tv_usec (carry_up tv) < one_sec"
proof (induction tv rule: carry_up.induct)
  case (1 tv)
  show ?case
    using 1 by (subst (1 2 3) carry_up.simps) (auto simp: Let_def usecs_def algebra_simps)
qed

lemma carry_down_correct:
  "tv_usec tv \<le> - one_sec \<Longrightarrow>
     usecs (carry_down tv) = usecs tv \<and> tv_usec (carry_down tv) \<le> 0 \<and> - one_sec < tv_usec (carry_down tv)"
proof (induction tv rule: carry_down.induct)
  case (1 tv)
  show ?case
    using 1 by (subst (1 2 3) carry_down.simps) (auto simp: Let_def usecs_def algebra_simps)
qed

lemma borrow_correct:
  assumes "- one_sec < tv_usec tv" "tv_usec tv < one_sec"
  shows "usecs (borrow tv) = usecs tv" "normalized (borrow tv)"
  using assms by (auto simp: borrow_def usecs_def normalized_def one_sec_def algebra_simps)

lemma usecs_normalize [simp]: "usecs (normalize tv) = usecs tv"
  and normalized_normalize [simp]: "normalized (normalize tv)"
  using carry_up_correct [of tv] carry_down_correct [of tv]
  by (auto simp: normalize_def borrow_correct one_sec_def not_le)

lemma usecs_tv_add [simp]: "usecs (tv_add a b) = usecs a + usecs b"
  and usecs_tv_sub [simp]: "usecs (tv_sub a b) = usecs a - usecs b"
  and usecs_tv_set [simp]: "usecs (tv_set s u) = s * one_sec + u"
  by (simp_all add: tv_add_def tv_sub_def tv_set_def) (simp_all add: usecs_def algebra_simps)

lemma normalized_ops [simp]:
  "normalized (tv_add a b)" "normalized (tv_sub a b)" "normalized (tv_set s u)"
  by (simp_all add: tv_add_def tv_sub_def tv_set_def)

lemma tv_zero_eq: "tv_zero = TimeValue 0 0"
  by (simp add: tv_zero_def tv_set_def normalize_def borrow_def one_sec_def)

lemma usecs_zero [simp]: "usecs (TimeValue 0 0) = 0"
  by (simp add: usecs_def)

lemma clock_time_fields:
  "clock_time tv \<Longrightarrow> 0 \<le> tv_sec tv \<and> 0 \<le> tv_usec tv \<and> tv_usec tv < one_sec"
  unfolding clock_time_def normalized_def usecs_def one_sec_def by linarith

lemma clock_time_less: "clock_time a \<Longrightarrow> clock_time b \<Longrightarrow> a < b \<longleftrightarrow> usecs a < usecs b"
  using clock_time_fields [of a] clock_time_fields [of b]
  unfolding less_time_value_def tv_less_def usecs_def one_sec_def by (auto; linarith)

lemma clock_time_inj: "clock_time a \<Longrightarrow> clock_time b \<Longrightarrow> usecs a = usecs b \<Longrightarrow> a = b"
  using clock_time_less [of a b] clock_time_less [of b a] by (cases a b rule: linorder_cases) auto

lemma clock_time_le: "clock_time a \<Longrightarrow> clock_time b \<Longrightarrow> a \<le> b \<longleftrightarrow> usecs a \<le> usecs b"
  using clock_time_less [of b a] by (simp flip: not_less)

text \<open>Even where the order does not follow the microseconds (below the epoch), a value not
  above \<open>b\<close> is at most one second of microseconds above it: enough for loops that wait
  for the order to flip.\<close>

lemma normalized_le_bound: "normalized a \<Longrightarrow> a \<le> b \<Longrightarrow> usecs a < (tv_sec b + 1) * one_sec"
  unfolding less_eq_time_value_def tv_le_def normalized_def usecs_def one_sec_def
  by (auto split: if_splits)

lemma positive_usecs: "normalized iv \<Longrightarrow> TimeValue 0 0 < iv \<Longrightarrow> 0 < usecs iv"
  unfolding less_time_value_def tv_less_def normalized_def usecs_def one_sec_def
  by (auto split: if_splits)

section \<open>Properties\<close>

text \<open>C34: \<^verbatim>\<open>normalize\<close> terminates on every value, keeps the amount of time it denotes and
  establishes the normal form (fewer than a million microseconds, none negative beside
  positive seconds).\<close>

theorem normalize_correct:
  "usecs (normalize tv) = usecs tv \<and> normalized (normalize tv)"
  by simp

text \<open>for clock times (normalized, not negative) the source's operators agree with the
  arithmetic of microseconds: \<^verbatim>\<open><\<close>, \<^verbatim>\<open><=\<close>, \<^verbatim>\<open>==\<close> compare the amounts, and subtracting what
  was added gives back the same value.\<close>

theorem clock_time_arith:
  assumes "clock_time a" "clock_time b"
  shows "(tv_less a b \<longleftrightarrow> usecs a < usecs b) \<and> (tv_le a b \<longleftrightarrow> usecs a \<le> usecs b)
    \<and> (tv_eq a b \<longleftrightarrow> usecs a = usecs b) \<and> tv_sub (tv_add a b) b = a"
proof -
  have "tv_eq a b \<longleftrightarrow> usecs a = usecs b"
    using clock_time_inj [OF assms] by (auto simp: tv_eq_def usecs_def)
  moreover have "tv_sub (tv_add a b) b = a"
    using assms by (intro clock_time_inj) (auto simp: clock_time_def)
  ultimately show ?thesis
    using clock_time_less [OF assms] clock_time_le [OF assms]
    by (simp add: less_time_value_def less_eq_time_value_def)
qed

theorem clock_time_arith_witness:
  "clock_time (TimeValue 5 900000) \<and> clock_time (TimeValue 2 300000)
   \<and> tv_sub (tv_add (TimeValue 5 900000) (TimeValue 2 300000)) (TimeValue 2 300000) = TimeValue 5 900000"
proof -
  have a: "clock_time (TimeValue 5 900000)" and b: "clock_time (TimeValue 2 300000)"
    by (simp_all add: clock_time_def normalized_def usecs_def one_sec_def)
  show ?thesis using a b clock_time_arith [OF a b] by blast
qed

text \<open>below the epoch the normal form is not unique and the order does not follow the
  amount of time: minus half a second has two normalized representations, both left alone
  by \<^verbatim>\<open>normalize\<close>, which the operators report as different and ordered.\<close>

theorem negative_normal_form_ambiguous:
  "normalize (TimeValue (-1) 500000) = TimeValue (-1) 500000
   \<and> normalize (TimeValue 0 (-500000)) = TimeValue 0 (-500000)
   \<and> usecs (TimeValue (-1) 500000) = usecs (TimeValue 0 (-500000))
   \<and> tv_neq (TimeValue (-1) 500000) (TimeValue 0 (-500000))
   \<and> tv_less (TimeValue (-1) 500000) (TimeValue 0 (-500000))"
  by (simp add: normalize_def borrow_def one_sec_def usecs_def tv_neq_def tv_eq_def tv_less_def)

end
