(* ===== verification/MessageBlock.thy ===== *)
theory MessageBlock
  imports Prelude "HOL-Library.Word"
begin

text \<open>
  \<^verbatim>\<open>ndk/message_block.h\<close>: a buffer with a read and a write position and the two link fields
  with which a \<^verbatim>\<open>message_queue\<close> chains blocks. Positions and sizes are \<^verbatim>\<open>size_t\<close>, so their
  differences wrap. The memory behind a block is a byte list, \<open>None\<close> for the null pointer;
  an access outside it is a \<open>fault\<close>.
\<close>

section \<open>The class\<close>

type_synonym byte = "8 word"
type_synonym size_t = "64 word"

record message_block =
  release_data :: bool
  mb_data :: "byte list option"
  mb_size :: size_t
  mb_type :: int
  rd_ptr :: size_t
  wr_ptr :: size_t
  mb_prev :: addr
  mb_next :: addr

text \<open>The two constructors. The contents of a fresh \<^verbatim>\<open>new char[size]\<close> are whatever the
  allocator returns, an argument here.\<close>

definition mb_new :: "byte list \<Rightarrow> message_block" where
  "mb_new fresh = \<lparr>release_data = True, mb_data = Some fresh, mb_size = of_nat (length fresh),
     mb_type = 0, rd_ptr = 0, wr_ptr = 0, mb_prev = null, mb_next = null\<rparr>"

definition mb_wrap :: "byte list \<Rightarrow> size_t \<Rightarrow> message_block" where
  "mb_wrap data sz = \<lparr>release_data = False, mb_data = Some data, mb_size = sz,
     mb_type = 0, rd_ptr = 0, wr_ptr = 0, mb_prev = null, mb_next = null\<rparr>"

definition mb_length :: "message_block \<Rightarrow> size_t" where
  "mb_length b = wr_ptr b - rd_ptr b"

definition mb_space :: "message_block \<Rightarrow> size_t" where
  "mb_space b = (if 0 < mb_size b then mb_size b - wr_ptr b else 0)"

definition mb_rd_advance :: "size_t \<Rightarrow> message_block \<Rightarrow> message_block" where
  "mb_rd_advance n b = b\<lparr>rd_ptr := rd_ptr b + n\<rparr>"

definition mb_wr_advance :: "size_t \<Rightarrow> message_block \<Rightarrow> message_block" where
  "mb_wr_advance n b = b\<lparr>wr_ptr := wr_ptr b + n\<rparr>"

definition mb_reset :: "message_block \<Rightarrow> message_block" where
  "mb_reset b = b\<lparr>rd_ptr := 0, wr_ptr := 0\<rparr>"

definition mb_clean :: "message_block \<Rightarrow> message_block" where
  "mb_clean b =
     (if mb_data b \<noteq> None \<and> release_data b then b\<lparr>mb_data := None, mb_size := 0\<rparr> else b)"

text \<open>\<^verbatim>\<open>memcpy\<close> into and out of the memory of a block; copying no byte touches no memory.\<close>

definition mem_store :: "byte list option \<Rightarrow> nat \<Rightarrow> byte list \<Rightarrow> fault + byte list option" where
  "mem_store d pos bs =
     (if bs = [] then Inr d else case d of None \<Rightarrow> Inl NullDeref
      | Some m \<Rightarrow> if pos + length bs \<le> length m
                  then Inr (Some (take pos m @ bs @ drop (pos + length bs) m))
                  else Inl OutOfBounds)"

definition mem_load :: "byte list option \<Rightarrow> nat \<Rightarrow> nat \<Rightarrow> fault + byte list" where
  "mem_load d pos n =
     (if n = 0 then Inr [] else case d of None \<Rightarrow> Inl NullDeref
      | Some m \<Rightarrow> if pos + n \<le> length m then Inr (take n (drop pos m)) else Inl OutOfBounds)"

text \<open>\<^verbatim>\<open>copy\<close>: append bytes at the write position if they fit.\<close>

definition mb_copy :: "byte list \<Rightarrow> message_block \<Rightarrow> fault + (message_block \<times> int)" where
  "mb_copy buf b =
     (let len = of_nat (length buf) :: size_t in
      if mb_space b < len then Inr (b, -1)
      else case mem_store (mb_data b) (unat (wr_ptr b)) buf of
             Inl e \<Rightarrow> Inl e
           | Inr d \<Rightarrow> Inr (mb_wr_advance len (b\<lparr>mb_data := d\<rparr>), 0))"

definition mb_set_eof :: "int \<Rightarrow> message_block \<Rightarrow> fault + message_block" where
  "mb_set_eof pos b =
     (if pos = -1 then map_sum id (\<lambda>d. b\<lparr>mb_data := d\<rparr>) (mem_store (mb_data b) (unat (wr_ptr b)) [0])
      else if pos < 0 then Inl OutOfBounds
      else map_sum id (\<lambda>d. b\<lparr>mb_data := d\<rparr>) (mem_store (mb_data b) (nat pos) [0]))"

text \<open>The object representation of a number of \<open>k\<close> bytes, least significant byte first, as
  the platforms the library supports lay it out.\<close>

fun le_bytes :: "nat \<Rightarrow> nat \<Rightarrow> byte list" where
  "le_bytes 0 v = []"
| "le_bytes (Suc k) v = of_nat v # le_bytes k (v div 256)"

fun le_value :: "byte list \<Rightarrow> nat" where
  "le_value [] = 0"
| "le_value (b # bs) = unat b + 256 * le_value bs"

text \<open>\<^verbatim>\<open>operator <<\<close> and \<^verbatim>\<open>operator >>\<close> for a type of \<open>k\<close> bytes. The reader keeps its old value
  when the block does not hold enough bytes.\<close>

definition mb_put :: "nat \<Rightarrow> nat \<Rightarrow> message_block \<Rightarrow> fault + message_block" where
  "mb_put k v b =
     (if of_nat k \<le> mb_space b
      then case mem_store (mb_data b) (unat (wr_ptr b)) (le_bytes k v) of
             Inl e \<Rightarrow> Inl e
           | Inr d \<Rightarrow> Inr (mb_wr_advance (of_nat k) (b\<lparr>mb_data := d\<rparr>))
      else Inr b)"

definition mb_get :: "nat \<Rightarrow> nat \<Rightarrow> message_block \<Rightarrow> fault + (nat \<times> message_block)" where
  "mb_get k v b =
     (if of_nat k \<le> mb_length b
      then case mem_load (mb_data b) (unat (rd_ptr b)) k of
             Inl e \<Rightarrow> Inl e
           | Inr bs \<Rightarrow> Inr (le_value bs, mb_rd_advance (of_nat k) b)
      else Inr (v, b))"

section \<open>The invariant of a block in use\<close>

definition mb_ok :: "message_block \<Rightarrow> bool" where
  "mb_ok b \<longleftrightarrow> rd_ptr b \<le> wr_ptr b \<and> wr_ptr b \<le> mb_size b
     \<and> (case mb_data b of None \<Rightarrow> mb_size b = 0 | Some m \<Rightarrow> unat (mb_size b) \<le> length m)"

text \<open>The unread bytes.\<close>

definition mb_content :: "message_block \<Rightarrow> byte list" where
  "mb_content b =
     (case mb_data b of None \<Rightarrow> []
      | Some m \<Rightarrow> take (unat (wr_ptr b) - unat (rd_ptr b)) (drop (unat (rd_ptr b)) m))"

lemma length_le_bytes [simp]: "length (le_bytes k v) = k"
  by (induction k arbitrary: v) auto

lemma le_value_bytes: "le_value (le_bytes k v) = v mod 256 ^ k"
  by (induction k arbitrary: v) (simp_all add: unat_of_nat mod_mult2_eq)

lemma unat_space: "mb_ok b \<Longrightarrow> unat (mb_space b) = unat (mb_size b) - unat (wr_ptr b)"
  by (auto simp: mb_space_def mb_ok_def unat_sub word_le_nat_alt unat_eq_0 word_gt_0)

lemma unat_length: "mb_ok b \<Longrightarrow> unat (mb_length b) = unat (wr_ptr b) - unat (rd_ptr b)"
  by (simp add: mb_length_def mb_ok_def unat_sub)

lemma unat_advance:
  "p \<le> (s :: size_t) \<Longrightarrow> n \<le> unat s - unat p \<Longrightarrow> unat (p + of_nat n) = unat p + n"
proof -
  assume "p \<le> s" "n \<le> unat s - unat p"
  then have "unat p + n < 2 ^ 64"
    using unsigned_less [of s, where 'a = nat] by (simp add: word_le_nat_alt)
  then show ?thesis by (simp add: unat_word_ariths unat_of_nat)
qed

lemma of_nat_le_size: "n < 2 ^ 64 \<Longrightarrow> (of_nat n \<le> (s :: size_t)) = (n \<le> unat s)"
  by (simp add: word_le_nat_alt unat_of_nat)

lemma size_less_of_nat: "n < 2 ^ 64 \<Longrightarrow> ((s :: size_t) < of_nat n) = (unat s < n)"
  by (simp add: word_less_nat_alt unat_of_nat)

lemma mb_ok_store:
  assumes "mb_ok b" "length bs \<le> unat (mb_size b) - unat (wr_ptr b)"
  obtains d where "mem_store (mb_data b) (unat (wr_ptr b)) bs = Inr d"
    and "mb_ok (mb_wr_advance (of_nat (length bs)) (b\<lparr>mb_data := d\<rparr>))"
    and "mb_content (mb_wr_advance (of_nat (length bs)) (b\<lparr>mb_data := d\<rparr>)) = mb_content b @ bs"
proof (cases "bs = []")
  case True
  with assms show ?thesis by (intro that [of "mb_data b"]) (auto simp: mem_store_def mb_wr_advance_def)
next
  case False
  with assms obtain m where m: "mb_data b = Some m" "unat (mb_size b) \<le> length m"
    by (auto simp: mb_ok_def split: option.splits)
  let ?w = "unat (wr_ptr b)" and ?r = "unat (rd_ptr b)"
  let ?m = "take ?w m @ bs @ drop (?w + length bs) m"
  have le: "?r \<le> ?w" "?w \<le> unat (mb_size b)"
    using assms(1) by (auto simp: mb_ok_def word_le_nat_alt)
  have w: "unat (wr_ptr b + of_nat (length bs)) = ?w + length bs"
    using assms by (intro unat_advance) (auto simp: mb_ok_def)
  have fit: "?w + length bs \<le> length m" using assms(2) le(2) m(2) False by linarith
  have split: "take (?w + length bs - ?r) (drop ?r ?m) = take (?w - ?r) (drop ?r m) @ bs"
    using le(1) fit by (simp add: drop_take)
  show ?thesis
  proof
    show "mem_store (mb_data b) ?w bs = Inr (Some ?m)"
      using m fit False by (simp add: mem_store_def)
    show "mb_ok (mb_wr_advance (of_nat (length bs)) (b\<lparr>mb_data := Some ?m\<rparr>))"
      using le m fit w assms(2) by (auto simp: mb_ok_def mb_wr_advance_def word_le_nat_alt)
    show "mb_content (mb_wr_advance (of_nat (length bs)) (b\<lparr>mb_data := Some ?m\<rparr>)) = mb_content b @ bs"
      using m w split by (simp add: mb_content_def mb_wr_advance_def)
  qed
qed

lemma mb_ok_load:
  assumes "mb_ok b" "n \<le> length (mb_content b)"
  shows "mem_load (mb_data b) (unat (rd_ptr b)) n = Inr (take n (mb_content b))"
    and "mb_ok (mb_rd_advance (of_nat n) b)"
    and "mb_content (mb_rd_advance (of_nat n) b) = drop n (mb_content b)"
proof -
  let ?w = "unat (wr_ptr b)" and ?r = "unat (rd_ptr b)"
  have le: "?r \<le> ?w" "?w \<le> unat (mb_size b)"
    using assms(1) by (auto simp: mb_ok_def word_le_nat_alt)
  have n: "n \<le> ?w - ?r"
    using assms(2) le by (auto simp: mb_content_def split: option.splits)
  have r: "unat (rd_ptr b + of_nat n) = ?r + n"
    using assms(1) n by (intro unat_advance) (auto simp: mb_ok_def)
  show "mem_load (mb_data b) ?r n = Inr (take n (mb_content b))"
    using assms n le by (auto simp: mem_load_def mb_content_def mb_ok_def split: option.splits)
  show "mb_ok (mb_rd_advance (of_nat n) b)"
    using assms(1) le n r by (auto simp: mb_ok_def mb_rd_advance_def word_le_nat_alt split: option.splits)
  show "mb_content (mb_rd_advance (of_nat n) b) = drop n (mb_content b)"
    using r by (auto simp: mb_content_def mb_rd_advance_def drop_take add.commute split: option.splits)
qed

lemma length_content: "mb_ok b \<Longrightarrow> length (mb_content b) = unat (mb_length b)"
  by (auto simp: unat_length mb_content_def mb_ok_def word_le_nat_alt split: option.splits)

lemma mb_put_fits:
  assumes "mb_ok b" "k < 2 ^ 64" "k \<le> unat (mb_space b)"
  obtains b' where "mb_put k v b = Inr b'" "mb_ok b'"
    "mb_content b' = mb_content b @ le_bytes k v" "unat (mb_space b') = unat (mb_space b) - k"
proof -
  have fit: "length (le_bytes k v) \<le> unat (mb_size b) - unat (wr_ptr b)"
    using assms by (simp add: unat_space)
  obtain d where d: "mem_store (mb_data b) (unat (wr_ptr b)) (le_bytes k v) = Inr d"
    "mb_ok (mb_wr_advance (of_nat k) (b\<lparr>mb_data := d\<rparr>))"
    "mb_content (mb_wr_advance (of_nat k) (b\<lparr>mb_data := d\<rparr>)) = mb_content b @ le_bytes k v"
    using mb_ok_store [OF assms(1) fit] by auto
  have "unat (wr_ptr b + of_nat k) = unat (wr_ptr b) + k"
    using assms(1) fit by (intro unat_advance) (auto simp: mb_ok_def)
  then have "unat (mb_space (mb_wr_advance (of_nat k) (b\<lparr>mb_data := d\<rparr>))) = unat (mb_space b) - k"
    using unat_space [OF d(2)] unat_space [OF assms(1)] by (simp add: mb_wr_advance_def)
  with d assms show ?thesis
    by (intro that [of "mb_wr_advance (of_nat k) (b\<lparr>mb_data := d\<rparr>)"])
      (auto simp: mb_put_def of_nat_le_size)
qed

lemma mb_get_full:
  assumes "mb_ok b" "k < 2 ^ 64" "mb_content b = le_bytes k v @ rest"
  shows "mb_get k x b = Inr (v mod 256 ^ k, mb_rd_advance (of_nat k) b)"
    and "mb_ok (mb_rd_advance (of_nat k) b)" "mb_content (mb_rd_advance (of_nat k) b) = rest"
  using assms mb_ok_load [of b k] length_content [of b]
  by (auto simp: mb_get_def of_nat_le_size le_value_bytes)

section \<open>Writing and reading a sequence of numbers\<close>

fun mb_put_all :: "(nat \<times> nat) list \<Rightarrow> message_block \<Rightarrow> fault + message_block" where
  "mb_put_all [] b = Inr b"
| "mb_put_all ((k, v) # vs) b =
     (case mb_put k v b of Inl e \<Rightarrow> Inl e | Inr b' \<Rightarrow> mb_put_all vs b')"

fun mb_get_all :: "nat list \<Rightarrow> message_block \<Rightarrow> fault + nat list" where
  "mb_get_all [] b = Inr []"
| "mb_get_all (k # ks) b =
     (case mb_get k 0 b of Inl e \<Rightarrow> Inl e
      | Inr (v, b') \<Rightarrow> map_sum id ((#) v) (mb_get_all ks b'))"

definition mb_bytes :: "(nat \<times> nat) list \<Rightarrow> byte list" where
  "mb_bytes vs = concat (map (\<lambda>(k, v). le_bytes k v) vs)"

lemma mb_put_all_correct:
  "mb_ok b \<Longrightarrow> \<forall>(k, v) \<in> set vs. k < 2 ^ 64 \<Longrightarrow> sum_list (map fst vs) \<le> unat (mb_space b) \<Longrightarrow>
    \<exists>b'. mb_put_all vs b = Inr b' \<and> mb_ok b' \<and> mb_content b' = mb_content b @ mb_bytes vs"
proof (induction vs arbitrary: b)
  case Nil
  then show ?case by (simp add: mb_bytes_def)
next
  case (Cons kv vs)
  obtain k v where kv: "kv = (k, v)" by (cases kv)
  obtain b1 where b1: "mb_put k v b = Inr b1" "mb_ok b1"
    "mb_content b1 = mb_content b @ le_bytes k v" "unat (mb_space b1) = unat (mb_space b) - k"
    using Cons.prems kv by (elim mb_put_fits [of b k v]) auto
  moreover have "sum_list (map fst vs) \<le> unat (mb_space b1)"
    using Cons.prems(3) b1(4) kv by simp
  ultimately show ?case using Cons.IH [of b1] Cons.prems(2) kv by (auto simp: mb_bytes_def)
qed

lemma mb_get_all_correct:
  "mb_ok b \<Longrightarrow> \<forall>(k, v) \<in> set vs. k < 2 ^ 64 \<and> v < 256 ^ k \<Longrightarrow> mb_content b = mb_bytes vs @ rest \<Longrightarrow>
    mb_get_all (map fst vs) b = Inr (map snd vs)"
proof (induction vs arbitrary: b)
  case Nil
  then show ?case by simp
next
  case (Cons kv vs)
  obtain k v where kv: "kv = (k, v)" by (cases kv)
  have get: "mb_get k 0 b = Inr (v mod 256 ^ k, mb_rd_advance (of_nat k) b)"
    "mb_ok (mb_rd_advance (of_nat k) b)" "mb_content (mb_rd_advance (of_nat k) b) = mb_bytes vs @ rest"
    using Cons.prems kv by (intro mb_get_full [where v = v]; simp add: mb_bytes_def)+
  show ?case using Cons.IH [OF get(2) _ get(3)] Cons.prems(2) kv get(1) by simp
qed

section \<open>Properties\<close>

text \<open>\<^verbatim>\<open>message_block::copy\<close> on a well-formed block never leaves the buffer: it appends the
  bytes to the unread content and returns 0 if they fit in \<^verbatim>\<open>space()\<close>, and otherwise changes
  nothing and returns -1.\<close>

theorem mb_copy_correct:
  assumes "mb_ok b" "length buf < 2 ^ 64"
  shows "if length buf \<le> unat (mb_space b)
    then \<exists>b'. mb_copy buf b = Inr (b', 0) \<and> mb_ok b' \<and> mb_content b' = mb_content b @ buf
    else mb_copy buf b = Inr (b, -1)"
proof (cases "length buf \<le> unat (mb_space b)")
  case True
  then obtain d where "mem_store (mb_data b) (unat (wr_ptr b)) buf = Inr d"
    "mb_ok (mb_wr_advance (of_nat (length buf)) (b\<lparr>mb_data := d\<rparr>))"
    "mb_content (mb_wr_advance (of_nat (length buf)) (b\<lparr>mb_data := d\<rparr>)) = mb_content b @ buf"
    using mb_ok_store [OF assms(1), of buf] by (auto simp: unat_space [OF assms(1)])
  with True assms(2) show ?thesis by (auto simp: mb_copy_def size_less_of_nat)
next
  case False
  with assms(2) show ?thesis by (simp add: mb_copy_def size_less_of_nat)
qed

theorem mb_copy_correct_witness:
  "\<exists>b'. mb_copy [1, 2] (mb_new [0, 0, 0]) = Inr (b', 0) \<and> mb_content b' = [1, 2]"
proof -
  have ok: "mb_ok (mb_new [0, 0, 0])" and len: "length [1, 2 :: byte] < 2 ^ 64"
    by (simp_all add: mb_ok_def mb_new_def)
  show ?thesis
    using mb_copy_correct [OF ok len] by (auto simp: mb_space_def mb_new_def mb_content_def)
qed

text \<open>C33: numbers written with \<^verbatim>\<open>operator <<\<close> are read back by the same sequence of
  \<^verbatim>\<open>operator >>\<close>: if the block is empty and the values fit, writing them all succeeds and
  reading them all returns exactly the values written, in order.\<close>

theorem mb_put_get_roundtrip:
  assumes "mb_ok b" "mb_content b = []" "\<forall>(k, v) \<in> set vs. k < 2 ^ 64 \<and> v < 256 ^ k"
    and "sum_list (map fst vs) \<le> unat (mb_space b)"
  shows "\<exists>b'. mb_put_all vs b = Inr b' \<and> mb_get_all (map fst vs) b' = Inr (map snd vs)"
proof -
  obtain b' where b': "mb_put_all vs b = Inr b'" "mb_ok b'" "mb_content b' = mb_content b @ mb_bytes vs"
    using mb_put_all_correct [of b vs] assms by fastforce
  then show ?thesis using mb_get_all_correct [of b' vs "[]"] assms by auto
qed

theorem mb_put_get_roundtrip_witness:
  "\<exists>b'. mb_put_all [(2, 513), (1, 7)] (mb_new (replicate 8 0)) = Inr b'
     \<and> mb_get_all [2, 1] b' = Inr [513, 7]"
proof -
  have "mb_ok (mb_new (replicate 8 0))" "mb_content (mb_new (replicate 8 0)) = []"
    "\<forall>(k, v) \<in> set [(2, 513), (1, 7 :: nat)]. k < 2 ^ 64 \<and> v < 256 ^ k"
    "sum_list (map fst [(2, 513), (1, 7)]) \<le> unat (mb_space (mb_new (replicate 8 0)))"
    by (simp_all add: mb_ok_def mb_new_def mb_content_def mb_space_def)
  then show ?thesis using mb_put_get_roundtrip [of "mb_new (replicate 8 0)" "[(2, 513), (1, 7)]"] by simp
qed

end
