(* ===== verification/FifoQueue.thy ===== *)
theory FifoQueue
  imports Prelude
begin

text \<open>
  The contract between the intrusive queues of the library and their clients: a queue has
  a content (a list), \<open>put\<close> appends an element that is ready to be linked, \<open>get\<close> takes the
  oldest one. The client lemma, proved once here, is that whatever sequence of puts and
  gets is run, elements come out in the order they went in, none lost, none twice.
\<close>

datatype 'a fifo_event = Put 'a | Get

fun sent :: "'a fifo_event list \<Rightarrow> 'a list" where
  "sent [] = []"
| "sent (Put a # es) = a # sent es"
| "sent (Get # es) = sent es"

text \<open>Running a sequence of events on given operations: the state, and what the gets
  returned. \<open>None\<close> when a put is not enabled or does not return.\<close>

fun fifo_run :: "('q \<Rightarrow> 'a \<Rightarrow> bool) \<Rightarrow> ('q \<Rightarrow> 'a \<Rightarrow> 'q option) \<Rightarrow> ('q \<Rightarrow> ('a \<times> 'q) option)
    \<Rightarrow> 'q \<Rightarrow> 'a fifo_event list \<Rightarrow> ('a list \<times> 'q) option" where
  "fifo_run ready put get q [] = Some ([], q)"
| "fifo_run ready put get q (Put a # es) =
     (if ready q a
      then case put q a of None \<Rightarrow> None | Some q' \<Rightarrow> fifo_run ready put get q' es
      else None)"
| "fifo_run ready put get q (Get # es) =
     (case get q of None \<Rightarrow> fifo_run ready put get q es
      | Some (a, q') \<Rightarrow> map_option (\<lambda>(as, r). (a # as, r)) (fifo_run ready put get q' es))"

locale fifo_queue =
  fixes ok :: "'q \<Rightarrow> bool"
    and content :: "'q \<Rightarrow> 'a list"
    and ready :: "'q \<Rightarrow> 'a \<Rightarrow> bool"
    and put :: "'q \<Rightarrow> 'a \<Rightarrow> 'q option"
    and get :: "'q \<Rightarrow> ('a \<times> 'q) option"
  assumes put_ok: "ok q \<Longrightarrow> ready q a \<Longrightarrow>
      \<exists>q'. put q a = Some q' \<and> ok q' \<and> content q' = content q @ [a]"
    and get_ok: "ok q \<Longrightarrow> content q = a # as \<Longrightarrow>
      \<exists>q'. get q = Some (a, q') \<and> ok q' \<and> content q' = as"
    and get_empty: "ok q \<Longrightarrow> content q = [] \<Longrightarrow> get q = None"
begin

lemma get_none_iff: "ok q \<Longrightarrow> get q = None \<longleftrightarrow> content q = []"
  using get_ok get_empty by (cases "content q") fastforce+

lemma get_Some:
  assumes "ok q" "get q = Some (a, q')"
  shows "ok q' \<and> content q = a # content q'"
  using assms get_ok [OF assms(1)] get_empty [OF assms(1)] by (cases "content q") fastforce+

lemma run_in_order:
  "ok q \<Longrightarrow> fifo_run ready put get q es = Some (out, q') \<Longrightarrow>
     ok q' \<and> content q @ sent es = out @ content q'"
proof (induction es arbitrary: q out)
  case Nil
  then show ?case by simp
next
  case (Cons e es)
  show ?case
  proof (cases e)
    case (Put a)
    with Cons.prems have r: "ready q a" by (auto split: if_splits)
    obtain q1 where q1: "put q a = Some q1" "ok q1" "content q1 = content q @ [a]"
      using put_ok [OF Cons.prems(1) r] by blast
    with Cons.prems Put r show ?thesis using Cons.IH [OF q1(2)] by simp
  next
    case Get
    show ?thesis
    proof (cases "get q")
      case None
      with Cons Get show ?thesis by simp
    next
      case (Some aq)
      obtain a q1 where aq: "aq = (a, q1)" by (cases aq)
      with Some Cons.prems have q1: "ok q1" "content q = a # content q1" using get_Some by auto
      obtain out' where out': "fifo_run ready put get q1 es = Some (out', q')" "out = a # out'"
        using Cons.prems Get Some aq by auto
      show ?thesis using Cons.IH [OF q1(1) out'(1)] Get q1(2) out'(2) by simp
    qed
  qed
qed

end

end
