(* ===== verification/MessageQueue.thy ===== *)
theory MessageQueue
  imports MessageBlock TimeValue FifoQueue
begin

text \<open>
  \<^verbatim>\<open>ndk/message_queue.h\<close>, \<^verbatim>\<open>ndk/message_queue.cpp\<close>: a bounded queue of message blocks shared
  by threads, an intrusive doubly linked list guarded by a mutex and two conditions.
  The blocks live in a store indexed by their addresses. The operations with the suffix
  \<open>_i\<close> run under the mutex. The public operations first wait on a condition; what
  \<^verbatim>\<open>condition::wait\<close> returns, and what the other threads have made of the queue meanwhile,
  is an argument (\<open>env\<close>) of the model.
\<close>

section \<open>The class\<close>

record message_queue =
  mq_mem :: "addr \<Rightarrow> message_block"
  mb_count :: nat
  high_water_mark :: nat
  mq_head :: addr
  mq_tail :: addr

type_synonym mb_store = "addr \<Rightarrow> message_block"

definition set_next :: "addr \<Rightarrow> addr \<Rightarrow> mb_store \<Rightarrow> mb_store" where
  "set_next a b m = m(a := (m a)\<lparr>mb_next := b\<rparr>)"

definition set_prev :: "addr \<Rightarrow> addr \<Rightarrow> mb_store \<Rightarrow> mb_store" where
  "set_prev a b m = m(a := (m a)\<lparr>mb_prev := b\<rparr>)"

definition mq_new :: "mb_store \<Rightarrow> nat \<Rightarrow> message_queue" where
  "mq_new m hwm = \<lparr>mq_mem = m, mb_count = 0, high_water_mark = hwm, mq_head = null, mq_tail = null\<rparr>"

definition is_empty_i :: "message_queue \<Rightarrow> bool" where
  "is_empty_i q \<longleftrightarrow> mq_tail q = null"

definition is_full_i :: "message_queue \<Rightarrow> bool" where
  "is_full_i q \<longleftrightarrow> high_water_mark q \<le> mb_count q"

text \<open>The loop that counts the blocks of a chained new item and sets their \<^verbatim>\<open>prev\<close> fields.
  On a cyclic chain it does not return.\<close>

partial_function (option) count_seq :: "mb_store \<Rightarrow> addr \<Rightarrow> nat \<Rightarrow> (mb_store \<times> addr \<times> nat) option" where
  "count_seq m seq_tail num =
     (if mb_next (m seq_tail) \<noteq> null
      then count_seq (set_prev (mb_next (m seq_tail)) seq_tail m) (mb_next (m seq_tail)) (Suc num)
      else Some (m, seq_tail, num))"

definition enqueue_tail_i :: "message_queue \<Rightarrow> addr \<Rightarrow> (message_queue \<times> int) option" where
  "enqueue_tail_i q new_item =
     (case count_seq (mq_mem q) new_item 1 of
        None \<Rightarrow> None
      | Some (m, seq_tail, num) \<Rightarrow>
          Some ((if mq_tail q = null
                 then q\<lparr>mq_mem := set_prev new_item null m, mq_head := new_item, mq_tail := seq_tail,
                        mb_count := mb_count q + num\<rparr>
                 else q\<lparr>mq_mem := set_next (mq_tail q) new_item (set_prev new_item (mq_tail q) m),
                        mq_tail := seq_tail, mb_count := mb_count q + num\<rparr>), int num))"

definition enqueue_head_i :: "message_queue \<Rightarrow> addr \<Rightarrow> (message_queue \<times> int) option" where
  "enqueue_head_i q new_item =
     (case count_seq (mq_mem q) new_item 1 of
        None \<Rightarrow> None
      | Some (m, seq_tail, num) \<Rightarrow>
          (let m1 = set_next seq_tail (mq_head q) (set_prev new_item null m) in
           Some ((if mq_head q \<noteq> null
                  then q\<lparr>mq_mem := set_prev (mq_head q) seq_tail m1, mq_head := new_item,
                         mb_count := mb_count q + num\<rparr>
                  else q\<lparr>mq_mem := m1, mq_tail := seq_tail, mq_head := new_item,
                         mb_count := mb_count q + num\<rparr>), int num)))"

text \<open>The dequeue operations return their result code, the new state and, when they set
  their reference argument, the block.\<close>

definition dequeue_head_i :: "message_queue \<Rightarrow> int \<times> addr option \<times> message_queue" where
  "dequeue_head_i q =
     (if mq_head q = null then (-1, None, q)
      else let first_item = mq_head q;
               h = mb_next (mq_mem q first_item);
               q1 = q\<lparr>mq_head := h\<rparr>;
               q2 = (if h = null then q1\<lparr>mq_tail := null\<rparr>
                     else q1\<lparr>mq_mem := set_prev h null (mq_mem q1)\<rparr>)
           in (0, Some first_item,
               q2\<lparr>mb_count := mb_count q2 - 1,
                  mq_mem := set_next first_item null (set_prev first_item null (mq_mem q2))\<rparr>))"

definition dequeue_tail_i :: "message_queue \<Rightarrow> int \<times> addr option \<times> message_queue" where
  "dequeue_tail_i q =
     (if mq_tail q = null then (-1, None, q)
      else let last_item = mq_tail q;
               p = mb_prev (mq_mem q last_item);
               q1 = (if p = null then q\<lparr>mq_head := null, mq_tail := null\<rparr>
                     else q\<lparr>mq_mem := set_next p null (mq_mem q), mq_tail := p\<rparr>)
           in (0, Some last_item,
               q1\<lparr>mb_count := mb_count q1 - 1,
                  mq_mem := set_next last_item null (set_prev last_item null (mq_mem q1))\<rparr>))"

text \<open>\<^verbatim>\<open>while (number-- > 0 && p != 0) { p = link(p); ++count; }\<close>\<close>

fun advance :: "(addr \<Rightarrow> addr) \<Rightarrow> nat \<Rightarrow> addr \<Rightarrow> nat \<Rightarrow> addr \<times> nat" where
  "advance link 0 p cnt = (p, cnt)"
| "advance link (Suc n) p cnt =
     (if p \<noteq> null then advance link n (link p) (Suc cnt) else (p, cnt))"

text \<open>\<^verbatim>\<open>dequeue_head_n_i\<close>: all blocks for -1, otherwise up to \<open>number\<close> of them. Any other
  negative number walks no block and then follows the null \<^verbatim>\<open>prev\<close> of the head.\<close>

definition dequeue_head_n_i :: "message_queue \<Rightarrow> int \<Rightarrow> fault + (int \<times> addr option \<times> message_queue)" where
  "dequeue_head_n_i q number =
     (if mq_head q = null then Inr (0, None, q)
      else if number = -1
      then Inr (int (mb_count q), Some (mq_head q), q\<lparr>mq_head := null, mq_tail := null, mb_count := 0\<rparr>)
      else let items = mq_head q;
               (h, cnt) = advance (\<lambda>a. mb_next (mq_mem q a)) (nat number) items 0
           in if h = null
              then Inr (int cnt, Some items, q\<lparr>mq_head := h, mq_tail := null, mb_count := 0\<rparr>)
              else if mb_prev (mq_mem q h) = null then Inl NullDeref
              else Inr (int cnt, Some items,
                     q\<lparr>mq_head := h, mb_count := mb_count q - cnt,
                       mq_mem := set_prev h null (set_next (mb_prev (mq_mem q h)) null (mq_mem q))\<rparr>))"

definition dequeue_tail_n_i :: "message_queue \<Rightarrow> int \<Rightarrow> fault + (int \<times> addr option \<times> message_queue)" where
  "dequeue_tail_n_i q number =
     (if mq_tail q = null then Inr (0, None, q)
      else if number = -1
      then Inr (int (mb_count q), Some (mq_head q), q\<lparr>mq_head := null, mq_tail := null, mb_count := 0\<rparr>)
      else let (t, cnt) = advance (\<lambda>a. mb_prev (mq_mem q a)) (nat number) (mq_tail q) 0
           in if t = null
              then Inr (int (mb_count q), Some (mq_head q), q\<lparr>mq_head := null, mq_tail := t, mb_count := 0\<rparr>)
              else let items = mb_next (mq_mem q t)
                   in if items = null then Inl NullDeref
                      else Inr (int cnt, Some items,
                             q\<lparr>mq_tail := t, mb_count := mb_count q - cnt,
                               mq_mem := set_next t null (set_prev items null (mq_mem q))\<rparr>))"

section \<open>Waiting and the public operations\<close>

text \<open>\<open>env k q\<close> is the \<open>k\<close>-th wait: the mutex is released with the queue at \<open>q\<close>, other threads
  run, and the mutex is taken again with the queue at the second component; the first is
  the return value of \<^verbatim>\<open>pthread_cond_(timed)wait\<close> as \<^verbatim>\<open>condition::wait\<close> reports it.\<close>

type_synonym wait_env = "nat \<Rightarrow> message_queue \<Rightarrow> int \<times> message_queue"

partial_function (option) wait_not_full_cond ::
  "wait_env \<Rightarrow> time_value option \<Rightarrow> nat \<Rightarrow> message_queue \<Rightarrow> (int \<times> message_queue) option" where
  "wait_not_full_cond env timeout k q =
     (if is_full_i q
      then if timeout = Some tv_zero then Some (-1, q)
           else if fst (env k q) \<noteq> 0 then Some (-1, snd (env k q))
           else wait_not_full_cond env timeout (Suc k) (snd (env k q))
      else Some (0, q))"

partial_function (option) wait_not_empty_cond ::
  "wait_env \<Rightarrow> time_value option \<Rightarrow> nat \<Rightarrow> message_queue \<Rightarrow> (int \<times> message_queue) option" where
  "wait_not_empty_cond env timeout k q =
     (if is_empty_i q
      then if timeout = Some tv_zero then Some (-1, q)
           else if fst (env k q) \<noteq> 0 then Some (-1, snd (env k q))
           else wait_not_empty_cond env timeout (Suc k) (snd (env k q))
      else Some (0, q))"

definition enqueue_tail :: "wait_env \<Rightarrow> message_queue \<Rightarrow> addr \<Rightarrow> time_value option
    \<Rightarrow> (message_queue \<times> int) option" where
  "enqueue_tail env q new_item timeout =
     (if new_item = null then Some (q, -1)
      else case wait_not_full_cond env timeout 0 q of
             None \<Rightarrow> None
           | Some (r, q') \<Rightarrow> if r \<noteq> 0 then Some (q', -1) else enqueue_tail_i q' new_item)"

definition enqueue_head :: "wait_env \<Rightarrow> message_queue \<Rightarrow> addr \<Rightarrow> time_value option
    \<Rightarrow> (message_queue \<times> int) option" where
  "enqueue_head env q new_item timeout =
     (if new_item = null then Some (q, -1)
      else case wait_not_full_cond env timeout 0 q of
             None \<Rightarrow> None
           | Some (r, q') \<Rightarrow> if r \<noteq> 0 then Some (q', -1) else enqueue_head_i q' new_item)"

definition dequeue_head :: "wait_env \<Rightarrow> message_queue \<Rightarrow> time_value option
    \<Rightarrow> (int \<times> addr option \<times> message_queue) option" where
  "dequeue_head env q timeout =
     (case wait_not_empty_cond env timeout 0 q of
        None \<Rightarrow> None
      | Some (r, q') \<Rightarrow> Some (if r \<noteq> 0 then (-1, None, q') else dequeue_head_i q'))"

definition dequeue_tail :: "wait_env \<Rightarrow> message_queue \<Rightarrow> time_value option
    \<Rightarrow> (int \<times> addr option \<times> message_queue) option" where
  "dequeue_tail env q timeout =
     (case wait_not_empty_cond env timeout 0 q of
        None \<Rightarrow> None
      | Some (r, q') \<Rightarrow> Some (if r \<noteq> 0 then (-1, None, q') else dequeue_tail_i q'))"

definition dequeue_head_n :: "wait_env \<Rightarrow> message_queue \<Rightarrow> int \<Rightarrow> time_value option
    \<Rightarrow> (fault + (int \<times> addr option \<times> message_queue)) option" where
  "dequeue_head_n env q number timeout =
     (if number = 0 then Some (Inr (0, None, q))
      else case wait_not_empty_cond env timeout 0 q of
             None \<Rightarrow> None
           | Some (r, q') \<Rightarrow> Some (if r \<noteq> 0 then Inr (-1, None, q') else dequeue_head_n_i q' number))"

definition dequeue_tail_n :: "wait_env \<Rightarrow> message_queue \<Rightarrow> int \<Rightarrow> time_value option
    \<Rightarrow> (fault + (int \<times> addr option \<times> message_queue)) option" where
  "dequeue_tail_n env q number timeout =
     (if number = 0 then Some (Inr (0, None, q))
      else case wait_not_empty_cond env timeout 0 q of
             None \<Rightarrow> None
           | Some (r, q') \<Rightarrow> Some (if r \<noteq> 0 then Inr (-1, None, q') else dequeue_tail_n_i q' number))"

text \<open>The destructor: every block is cleaned and deleted, first to last. The result is the
  list of deleted blocks and the cleaned contents they had.\<close>

partial_function (option) delete_blocks :: "mb_store \<Rightarrow> addr \<Rightarrow> (addr \<times> message_block) list
    \<Rightarrow> (addr \<times> message_block) list option" where
  "delete_blocks m h deleted =
     (if h \<noteq> null then delete_blocks m (mb_next (m h)) (deleted @ [(h, mb_clean (m h))])
      else Some deleted)"

definition mq_destroy :: "message_queue \<Rightarrow> (addr \<times> message_block) list option" where
  "mq_destroy q = (if mq_head q \<noteq> null then delete_blocks (mq_mem q) (mq_head q) [] else Some [])"

section \<open>The list a queue holds\<close>

definition nx :: "mb_store \<Rightarrow> addr \<Rightarrow> addr" where
  "nx m = (\<lambda>a. mb_next (m a))"

definition pv :: "mb_store \<Rightarrow> addr \<Rightarrow> addr" where
  "pv m = (\<lambda>a. mb_prev (m a))"

definition mq_content :: "message_queue \<Rightarrow> addr list" where
  "mq_content q = walk (mb_count q) (nx (mq_mem q)) (mq_head q)"

definition mq_ok :: "message_queue \<Rightarrow> bool" where
  "mq_ok q \<longleftrightarrow> dll (nx (mq_mem q)) (pv (mq_mem q)) (mq_head q) (mq_tail q) (mq_content q)
     \<and> mb_count q = length (mq_content q)"

lemma nx_pv_simps [link_simps]:
  "nx (set_next a b m) = (nx m)(a := b)" "pv (set_next a b m) = pv m"
  "pv (set_prev a b m) = (pv m)(a := b)" "nx (set_prev a b m) = nx m"
  by (auto simp: nx_def pv_def set_next_def set_prev_def)

lemma unlinked_simps [link_simps]:
  "mb_next (set_next a b m a) = b" "mb_prev (set_next a b (set_prev a c m) a) = c"
  by (simp_all add: set_next_def set_prev_def)

lemma mq_okI:
  assumes "dll (nx (mq_mem q)) (pv (mq_mem q)) (mq_head q) (mq_tail q) xs" "mb_count q = length xs"
  shows "mq_ok q" "mq_content q = xs"
proof -
  show "mq_content q = xs"
    using assms walk_chain unfolding mq_content_def dll_def by auto
  with assms show "mq_ok q" by (simp add: mq_ok_def)
qed

lemma mq_ok_dll:
  "mq_ok q \<Longrightarrow> dll (nx (mq_mem q)) (pv (mq_mem q)) (mq_head q) (mq_tail q) (mq_content q)"
  by (simp add: mq_ok_def)

lemma mq_ok_count: "mq_ok q \<Longrightarrow> mb_count q = length (mq_content q)"
  by (simp add: mq_ok_def)

lemma mq_ok_ends:
  "mq_ok q \<Longrightarrow> (mq_head q = null \<longleftrightarrow> mq_content q = []) \<and> (mq_tail q = null \<longleftrightarrow> mq_content q = [])"
  using dll_empty_iff mq_ok_dll by blast

lemma mq_ok_hd: "mq_ok q \<Longrightarrow> mq_content q \<noteq> [] \<Longrightarrow> hd (mq_content q) = mq_head q"
  using mq_ok_dll [of q] by (cases "mq_content q") (auto dest: dll_head)

lemma mq_ok_last: "mq_ok q \<Longrightarrow> mq_content q \<noteq> [] \<Longrightarrow> last (mq_content q) = mq_tail q"
  using mq_ok_dll [of q] by (cases "mq_content q" rule: rev_cases) (auto dest: dll_tail)

text \<open>The counting loop returns on every finite chain, and links it backwards.\<close>

lemma count_seq_chain:
  "chain (nx m) p (p # ys) null \<Longrightarrow>
     \<exists>m'. count_seq m p n = Some (m', last (p # ys), n + length ys) \<and> nx m' = nx m
       \<and> (\<forall>a. a \<notin> set ys \<longrightarrow> m' a = m a) \<and> chain (pv m') (last (p # ys)) (rev ys) p"
proof (induction ys arbitrary: m p n)
  case Nil
  then show ?case by (simp add: count_seq.simps nx_def)
next
  case (Cons y ys)
  let ?m = "set_prev y p m"
  have step: "mb_next (m p) = y" "y \<noteq> null" using Cons.prems by (auto simp: nx_def)
  have dist: "y \<notin> set ys" using Cons.prems chain_distinct by fastforce
  have "chain (nx ?m) y (y # ys) null" using Cons.prems by (simp add: link_simps)
  from Cons.IH [OF this, of "Suc n"] obtain m' where m':
    "count_seq ?m y (Suc n) = Some (m', last (y # ys), Suc n + length ys)" "nx m' = nx ?m"
    "\<forall>a. a \<notin> set ys \<longrightarrow> m' a = ?m a" "chain (pv m') (last (y # ys)) (rev ys) y"
    by blast
  have "pv m' y = p" using m'(3) dist by (simp add: pv_def set_prev_def)
  then have "chain (pv m') (last (p # y # ys)) (rev (y # ys)) p"
    using m'(4) step(2) by (simp add: chain_append)
  moreover have "\<forall>a. a \<notin> set (y # ys) \<longrightarrow> m' a = m a"
    using m'(3) by (auto simp: set_prev_def)
  ultimately show ?case
    using m'(1,2) step by (subst count_seq.simps) (auto simp: link_simps)
qed

lemma count_seq_dll:
  assumes "chain (nx m) p ys null" "ys \<noteq> []"
  obtains m' where "count_seq m p 1 = Some (m', last ys, length ys)" "nx m' = nx m"
    "\<forall>a. a \<notin> set (tl ys) \<longrightarrow> m' a = m a" "dll (nx m') ((pv m')(p := null)) p (last ys) ys"
proof -
  obtain zs where ys: "ys = p # zs" using assms by (cases ys) auto
  with assms obtain m' where m': "count_seq m p 1 = Some (m', last ys, 1 + length zs)" "nx m' = nx m"
    "\<forall>a. a \<notin> set zs \<longrightarrow> m' a = m a" "chain (pv m') (last ys) (rev zs) p"
    using count_seq_chain [of m p zs 1] by auto
  have "p \<notin> set zs" "p \<noteq> null" using assms(1) ys chain_distinct chain_not_null by fastforce+
  then have "chain ((pv m')(p := null)) (last ys) (rev ys) null"
    using m'(4) ys by (simp add: chain_append)
  then have "dll (nx m') ((pv m')(p := null)) p (last ys) ys"
    using assms(1) m'(2) by (simp add: dll_def)
  with m' ys that show thesis by auto
qed

lemma dll_pv_cong: "(\<And>a. a \<in> set xs \<Longrightarrow> pv1 a = pv2 a) \<Longrightarrow> dll link pv1 h t xs = dll link pv2 h t xs"
  unfolding dll_def by (metis chain_cong set_rev)

text \<open>What an enqueued item must be: a finite chain of blocks, none of them in the queue.\<close>

definition mq_item :: "message_queue \<Rightarrow> addr \<Rightarrow> addr list \<Rightarrow> bool" where
  "mq_item q p ys \<longleftrightarrow> chain (nx (mq_mem q)) p ys null \<and> ys \<noteq> [] \<and> set ys \<inter> set (mq_content q) = {}"

lemma mq_item_seq:
  assumes "mq_ok q" "mq_item q p ys"
  obtains m where "count_seq (mq_mem q) p 1 = Some (m, last ys, length ys)"
    "dll (nx m) ((pv m)(p := null)) p (last ys) ys"
    "dll (nx m) ((pv m)(p := null)) (mq_head q) (mq_tail q) (mq_content q)"
    "p \<in> set ys" "p \<noteq> null" "nx m = nx (mq_mem q)" "\<forall>a. a \<notin> set (tl ys) \<longrightarrow> m a = mq_mem q a"
proof -
  from assms(2) obtain m where m: "count_seq (mq_mem q) p 1 = Some (m, last ys, length ys)"
    "nx m = nx (mq_mem q)" "\<forall>a. a \<notin> set (tl ys) \<longrightarrow> m a = mq_mem q a"
    "dll (nx m) ((pv m)(p := null)) p (last ys) ys"
    using count_seq_dll unfolding mq_item_def by blast
  have p: "p \<in> set ys" "p \<noteq> null" using assms(2) by (cases ys; auto simp: mq_item_def)+
  have "a \<in> set (mq_content q) \<Longrightarrow> ((pv m)(p := null)) a = pv (mq_mem q) a" for a
  proof -
    assume "a \<in> set (mq_content q)"
    then have "a \<notin> set ys" using assms(2) by (auto simp: mq_item_def)
    then have "a \<notin> set (tl ys)" "a \<noteq> p" using p(1) by (auto dest: list.set_sel(2) [rotated])
    then show ?thesis using m(3) by (simp add: pv_def)
  qed
  then have "dll (nx m) ((pv m)(p := null)) (mq_head q) (mq_tail q) (mq_content q)
      = dll (nx m) (pv (mq_mem q)) (mq_head q) (mq_tail q) (mq_content q)"
    by (intro dll_pv_cong)
  with m(2) mq_ok_dll [OF assms(1)] show thesis using that m p by simp
qed

lemma enqueue_tail_i_spec:
  assumes "mq_ok q" "mq_item q p ys"
  shows "\<exists>q'. enqueue_tail_i q p = Some (q', int (length ys)) \<and> mq_ok q'
      \<and> mq_content q' = mq_content q @ ys \<and> high_water_mark q' = high_water_mark q"
proof -
  obtain m where m: "count_seq (mq_mem q) p 1 = Some (m, last ys, length ys)"
    "dll (nx m) ((pv m)(p := null)) p (last ys) ys"
    "dll (nx m) ((pv m)(p := null)) (mq_head q) (mq_tail q) (mq_content q)"
    "p \<in> set ys" "p \<noteq> null"
    using mq_item_seq [OF assms] by blast
  show ?thesis
  proof (cases "mq_tail q = null")
    case True
    let ?q = "q\<lparr>mq_mem := set_prev p null m, mq_head := p, mq_tail := last ys,
      mb_count := mb_count q + length ys\<rparr>"
    have "mq_content q = []" using True mq_ok_ends [OF assms(1)] by blast
    then have "mq_ok ?q \<and> mq_content ?q = mq_content q @ ys"
      using m mq_okI [of ?q ys] mq_ok_count [OF assms(1)] by (simp add: link_simps)
    then show ?thesis using True m(1) by (simp add: enqueue_tail_i_def)
  next
    case False
    let ?t = "mq_tail q"
    let ?q = "q\<lparr>mq_mem := set_next ?t p (set_prev p ?t m), mq_tail := last ys,
      mb_count := mb_count q + length ys\<rparr>"
    obtain xs where xs: "mq_content q = xs @ [?t]"
      using False mq_ok_ends [OF assms(1)] mq_ok_last [OF assms(1)]
      by (metis append_butlast_last_id)
    obtain zs where zs: "ys = p # zs" using assms(2) by (cases ys) (auto simp: mq_item_def)
    have "dll ((nx m)(?t := p)) ((pv m)(p := null, p := ?t)) (mq_head q) (last ys) (xs @ ?t # p # zs)"
      using m(2,3) xs zs assms(2) by (intro dll_join) (auto simp: mq_item_def)
    then have "mq_ok ?q \<and> mq_content ?q = mq_content q @ ys"
      using mq_okI [of ?q "mq_content q @ ys"] mq_ok_count [OF assms(1)] xs zs
      by (simp add: link_simps)
    then show ?thesis using False m(1) by (simp add: enqueue_tail_i_def)
  qed
qed

lemma enqueue_head_i_spec:
  assumes "mq_ok q" "mq_item q p ys"
  shows "\<exists>q'. enqueue_head_i q p = Some (q', int (length ys)) \<and> mq_ok q'
      \<and> mq_content q' = ys @ mq_content q \<and> high_water_mark q' = high_water_mark q"
proof -
  obtain m where m: "count_seq (mq_mem q) p 1 = Some (m, last ys, length ys)"
    "dll (nx m) ((pv m)(p := null)) p (last ys) ys"
    "dll (nx m) ((pv m)(p := null)) (mq_head q) (mq_tail q) (mq_content q)"
    "p \<in> set ys" "p \<noteq> null"
    using mq_item_seq [OF assms] by blast
  obtain zs l where ys: "ys = zs @ [l]" using m(4) by (cases ys rule: rev_cases) auto
  let ?m1 = "set_next l (mq_head q) (set_prev p null m)"
  show ?thesis
  proof (cases "mq_head q = null")
    case True
    let ?q = "q\<lparr>mq_mem := ?m1, mq_tail := l, mq_head := p, mb_count := mb_count q + length ys\<rparr>"
    have empty: "mq_content q = []" using True mq_ok_ends [OF assms(1)] by blast
    have "(nx m)(l := null) = nx m"
      using m(2) ys chain_last [of "nx m" p zs l null] by (auto simp: dll_def)
    then have "mq_ok ?q \<and> mq_content ?q = ys @ mq_content q"
      using m ys empty True mq_okI [of ?q ys] mq_ok_count [OF assms(1)] by (simp add: link_simps)
    then show ?thesis using True m(1) ys by (simp add: enqueue_head_i_def Let_def)
  next
    case False
    let ?h = "mq_head q"
    let ?q = "q\<lparr>mq_mem := set_prev ?h l ?m1, mq_head := p, mb_count := mb_count q + length ys\<rparr>"
    obtain xs where xs: "mq_content q = ?h # xs"
      using False mq_ok_ends [OF assms(1)] mq_ok_hd [OF assms(1)]
      by (metis list.collapse)
    have "dll ((nx m)(l := ?h)) ((pv m)(p := null, ?h := l)) p (mq_tail q) (zs @ l # ?h # xs)"
      using m(2,3) xs ys assms(2) by (intro dll_join) (auto simp: mq_item_def)
    then have "mq_ok ?q \<and> mq_content ?q = ys @ mq_content q"
      using mq_okI [of ?q "ys @ mq_content q"] mq_ok_count [OF assms(1)] xs ys
      by (simp add: link_simps)
    then show ?thesis using False m(1) ys by (simp add: enqueue_head_i_def Let_def)
  qed
qed

text \<open>Blocks that leave the queue do not matter to it any more.\<close>

lemma dequeue_head_i_spec:
  assumes "mq_ok q" "mq_content q = a # xs"
  shows "\<exists>q'. dequeue_head_i q = (0, Some a, q') \<and> mq_ok q' \<and> mq_content q' = xs
    \<and> mb_next (mq_mem q' a) = null \<and> mb_prev (mq_mem q' a) = null"
proof -
  have d: "dll (nx (mq_mem q)) (pv (mq_mem q)) a (mq_tail q) (a # xs)" and h: "mq_head q = a" "a \<noteq> null"
    using assms mq_ok_dll [OF assms(1)] dll_head dll_not_null by fastforce+
  have dist: "a \<notin> set xs" using d dll_distinct by fastforce
  have cnt: "mb_count q = Suc (length xs)" using assms mq_ok_count by simp
  show ?thesis
  proof (cases xs)
    case Nil
    have n: "mb_next (mq_mem q a) = null" using d Nil by (simp add: dll_def nx_def)
    let ?q = "q\<lparr>mq_head := null, mq_tail := null, mb_count := mb_count q - 1,
      mq_mem := set_next a null (set_prev a null (mq_mem q))\<rparr>"
    have "mq_ok ?q \<and> mq_content ?q = []" using mq_okI [of ?q "[]"] cnt Nil by simp
    then show ?thesis using h n Nil
      by (simp add: dequeue_head_i_def Let_def link_simps)
  next
    case (Cons b ys)
    have n: "mb_next (mq_mem q a) = b" "b \<noteq> null"
      using d Cons by (auto simp: dll_def nx_def)
    let ?q = "q\<lparr>mq_head := b, mb_count := mb_count q - 1,
      mq_mem := set_next a null (set_prev a null (set_prev b null (mq_mem q)))\<rparr>"
    have "dll (nx (mq_mem q)) ((pv (mq_mem q))(b := null)) b (mq_tail q) (b # ys)"
      using d Cons dll_unlink_head by blast
    then have "mq_ok ?q \<and> mq_content ?q = xs"
      using mq_okI [of ?q xs] cnt Cons dist by (simp add: link_simps)
    then show ?thesis using h n
      by (simp add: dequeue_head_i_def Let_def link_simps)
  qed
qed

lemma dequeue_tail_i_spec:
  assumes "mq_ok q" "mq_content q = xs @ [a]"
  shows "\<exists>q'. dequeue_tail_i q = (0, Some a, q') \<and> mq_ok q' \<and> mq_content q' = xs
    \<and> mb_next (mq_mem q' a) = null \<and> mb_prev (mq_mem q' a) = null"
proof -
  have d: "dll (nx (mq_mem q)) (pv (mq_mem q)) (mq_head q) a (xs @ [a])" and t: "mq_tail q = a" "a \<noteq> null"
    using assms mq_ok_dll [OF assms(1)] dll_tail dll_not_null by fastforce+
  have dist: "a \<notin> set xs" using d dll_distinct by fastforce
  have cnt: "mb_count q = Suc (length xs)" using assms mq_ok_count by simp
  show ?thesis
  proof (cases xs rule: rev_cases)
    case Nil
    have n: "mb_prev (mq_mem q a) = null" using d Nil by (simp add: dll_def pv_def)
    let ?q = "q\<lparr>mq_head := null, mq_tail := null, mb_count := mb_count q - 1,
      mq_mem := set_next a null (set_prev a null (mq_mem q))\<rparr>"
    have "mq_ok ?q \<and> mq_content ?q = []" using mq_okI [of ?q "[]"] cnt Nil by simp
    then show ?thesis using t n Nil
      by (simp add: dequeue_tail_i_def Let_def link_simps)
  next
    case (snoc ys b)
    have n: "mb_prev (mq_mem q a) = b" "b \<noteq> null"
      using d snoc by (auto simp: dll_def pv_def)
    let ?q = "q\<lparr>mq_tail := b, mb_count := mb_count q - 1,
      mq_mem := set_next a null (set_prev a null (set_next b null (mq_mem q)))\<rparr>"
    have "dll ((nx (mq_mem q))(b := null)) (pv (mq_mem q)) (mq_head q) b (ys @ [b])"
      using d snoc dll_unlink_tail [of _ _ _ _ ys b a] by simp
    then have "mq_ok ?q \<and> mq_content ?q = xs"
      using mq_okI [of ?q xs] cnt snoc dist by (simp add: link_simps)
    then show ?thesis using t n
      by (simp add: dequeue_tail_i_def Let_def link_simps)
  qed
qed

lemma advance_chain:
  "chain link p xs null \<Longrightarrow>
     advance link n p c = (if n < length xs then xs ! n else null, c + min n (length xs))"
proof (induction n arbitrary: p xs c)
  case 0
  then show ?case by (cases xs) auto
next
  case (Suc n)
  then show ?case by (cases xs) auto
qed

text \<open>How many blocks a request for \<open>number\<close> of them gets.\<close>

definition granted :: "int \<Rightarrow> nat \<Rightarrow> nat" where
  "granted number len = (if number = -1 then len else min (nat number) len)"

lemma granted_cases:
  assumes "number = -1 \<or> 0 < number" "0 < len"
  obtains "granted number len = len"
    | "number \<noteq> -1" "0 < granted number len" "granted number len < len" "granted number len = nat number"
proof (cases "number = -1 \<or> len \<le> nat number")
  case True
  then show thesis using that(1) by (auto simp: granted_def)
next
  case False
  then show thesis using that(2) assms by (auto simp: granted_def)
qed

lemma dequeue_head_n_i_spec:
  assumes "mq_ok q" "mq_content q \<noteq> []" "number = -1 \<or> 0 < number"
  defines "n \<equiv> granted number (length (mq_content q))"
  shows "\<exists>q'. dequeue_head_n_i q number = Inr (int n, Some (mq_head q), q') \<and> mq_ok q'
    \<and> mq_content q' = drop n (mq_content q)
    \<and> chain (nx (mq_mem q')) (mq_head q) (take n (mq_content q)) null"
proof -
  let ?xs = "mq_content q"
  have h: "mq_head q \<noteq> null" using assms(1,2) mq_ok_ends by blast
  have d: "dll (nx (mq_mem q)) (pv (mq_mem q)) (mq_head q) (mq_tail q) ?xs"
    using assms(1) by (rule mq_ok_dll)
  have c: "mb_count q = length ?xs" using assms(1) by (rule mq_ok_count)
  have all: "mq_ok (q\<lparr>mq_head := null, mq_tail := null, mb_count := 0\<rparr>)
    \<and> mq_content (q\<lparr>mq_head := null, mq_tail := null, mb_count := 0\<rparr>) = []"
    using mq_okI [of "q\<lparr>mq_head := null, mq_tail := null, mb_count := 0\<rparr>" "[]"] by simp
  have adv: "advance (\<lambda>a. mb_next (mq_mem q a)) (nat number) (mq_head q) 0
      = (if nat number < length ?xs then ?xs ! nat number else null, min (nat number) (length ?xs))"
    using advance_chain [of "nx (mq_mem q)" "mq_head q" ?xs] d by (simp add: dll_def nx_def)
  have len: "0 < length ?xs" using assms(2) by simp
  consider "n = length ?xs" | "number \<noteq> -1" "0 < n" "n < length ?xs" "n = nat number"
    by (rule granted_cases [OF assms(3) len]) (simp_all add: n_def)
  then show ?thesis
  proof cases
    case 1
    then have "dequeue_head_n_i q number
        = Inr (int n, Some (mq_head q), q\<lparr>mq_head := null, mq_tail := null, mb_count := 0\<rparr>)"
      using h adv c by (auto simp: dequeue_head_n_i_def n_def granted_def min_def split: if_splits)
    then show ?thesis using 1 all d by (simp add: dll_def)
  next
    case 2
    let ?a = "?xs ! (n - 1)" and ?b = "?xs ! n"
    have split: "?xs = take (n - 1) ?xs @ ?a # ?b # drop (Suc n) ?xs"
      using 2 id_take_nth_drop [of "n - 1" ?xs] Cons_nth_drop_Suc [of n ?xs] by simp
    have t: "take n ?xs = take (n - 1) ?xs @ [?a]"
      using 2 take_Suc_conv_app_nth [of "n - 1" ?xs] by simp
    have dr: "drop n ?xs = ?b # drop (Suc n) ?xs" using 2 by (simp add: Cons_nth_drop_Suc)
    have nn: "?a \<noteq> null" "?b \<noteq> null" using dll_not_null [OF d] 2 by (metis nth_mem less_imp_diff_less)+
    have pb: "mb_prev (mq_mem q ?b) = ?a"
      using dll_prev [of "nx (mq_mem q)" "pv (mq_mem q)" "mq_head q" "mq_tail q"
          "take (n - 1) ?xs @ [?a]" ?b "drop (Suc n) ?xs"] d split by (simp add: pv_def)
    let ?q = "q\<lparr>mq_head := ?b, mb_count := mb_count q - n,
      mq_mem := set_prev ?b null (set_next ?a null (mq_mem q))\<rparr>"
    have cut: "dll ((nx (mq_mem q))(?a := null)) ((pv (mq_mem q))(?b := null)) (mq_head q) ?a (take n ?xs)"
      "dll ((nx (mq_mem q))(?a := null)) ((pv (mq_mem q))(?b := null)) ?b (mq_tail q) (drop n ?xs)"
      using dll_cut [of "nx (mq_mem q)" "pv (mq_mem q)" "mq_head q" "mq_tail q"
          "take (n - 1) ?xs" ?a ?b "drop (Suc n) ?xs"] d split t dr by simp_all
    have "mq_ok ?q \<and> mq_content ?q = drop n ?xs"
      using mq_okI [of ?q "drop n ?xs"] cut(2) c by (simp add: link_simps)
    moreover have "dequeue_head_n_i q number = Inr (int n, Some (mq_head q), ?q)"
      using h adv 2 nn pb by (simp add: dequeue_head_n_i_def)
    ultimately show ?thesis using cut(1) by (simp add: link_simps dll_def)
  qed
qed


lemma delete_blocks_chain:
  "chain (nx m) p xs null \<Longrightarrow>
     delete_blocks m p ds = Some (ds @ map (\<lambda>a. (a, mb_clean (m a))) xs)"
proof (induction xs arbitrary: p ds)
  case Nil
  then show ?case by (subst delete_blocks.simps) simp
next
  case (Cons a xs)
  then show ?case by (subst delete_blocks.simps) (simp add: nx_def)
qed

section \<open>Waiting\<close>

text \<open>If the other threads keep a property of the queue, then it holds when the wait is over,
  and a successful wait ends with the condition waited for.\<close>

lemma wait_not_full_result:
  assumes ret: "wait_not_full_cond env timeout k q = Some (r, q')"
    and keep: "\<And>k q. I q \<Longrightarrow> I (snd (env k q))" and I: "I q"
  shows "I q' \<and> (r = 0 \<and> \<not> is_full_i q' \<or> r = -1)"
proof -
  let ?P = "\<lambda>env timeout k q res. (\<forall>k q. I q \<longrightarrow> I (snd (env k q))) \<longrightarrow> I q \<longrightarrow>
    I (snd res) \<and> (fst res = 0 \<and> \<not> is_full_i (snd res) \<or> fst res = -1)"
  have "?P env timeout k q (r, q')"
    by (rule wait_not_full_cond.raw_induct [where P = ?P, OF _ ret]) (auto split: if_splits)
  with keep I show ?thesis by simp
qed

lemma wait_not_empty_result:
  assumes ret: "wait_not_empty_cond env timeout k q = Some (r, q')"
    and keep: "\<And>k q. I q \<Longrightarrow> I (snd (env k q))" and I: "I q"
  shows "I q' \<and> (r = 0 \<and> \<not> is_empty_i q' \<or> r = -1)"
proof -
  let ?P = "\<lambda>env timeout k q res. (\<forall>k q. I q \<longrightarrow> I (snd (env k q))) \<longrightarrow> I q \<longrightarrow>
    I (snd res) \<and> (fst res = 0 \<and> \<not> is_empty_i (snd res) \<or> fst res = -1)"
  have "?P env timeout k q (r, q')"
    by (rule wait_not_empty_cond.raw_induct [where P = ?P, OF _ ret]) (auto split: if_splits)
  with keep I show ?thesis by simp
qed

lemma wait_now:
  "\<not> is_full_i q \<Longrightarrow> wait_not_full_cond env timeout k q = Some (0, q)"
  "is_full_i q \<Longrightarrow> wait_not_full_cond env (Some tv_zero) k q = Some (-1, q)"
  "\<not> is_empty_i q \<Longrightarrow> wait_not_empty_cond env timeout k q = Some (0, q)"
  "is_empty_i q \<Longrightarrow> wait_not_empty_cond env (Some tv_zero) k q = Some (-1, q)"
  by (subst wait_not_full_cond.simps wait_not_empty_cond.simps; simp)+

lemma is_empty_content: "mq_ok q \<Longrightarrow> is_empty_i q \<longleftrightarrow> mq_content q = []"
  using mq_ok_ends by (auto simp: is_empty_i_def)

section \<open>The queue as a FIFO\<close>

definition mq_ready :: "message_queue \<Rightarrow> addr \<Rightarrow> bool" where
  "mq_ready q a \<longleftrightarrow> \<not> is_full_i q \<and> mq_item q a [a]"

definition mq_put :: "wait_env \<Rightarrow> message_queue \<Rightarrow> addr \<Rightarrow> message_queue option" where
  "mq_put env q a =
     (case enqueue_tail env q a (Some tv_zero) of
        None \<Rightarrow> None | Some (q', n) \<Rightarrow> if 0 < n then Some q' else None)"

definition mq_get :: "wait_env \<Rightarrow> message_queue \<Rightarrow> (addr \<times> message_queue) option" where
  "mq_get env q =
     (case dequeue_head env q (Some tv_zero) of
        None \<Rightarrow> None | Some (r, x, q') \<Rightarrow> map_option (\<lambda>a. (a, q')) x)"

interpretation mqf: fifo_queue mq_ok mq_content mq_ready "mq_put env" "mq_get env" for env
proof unfold_locales
  fix q a
  assume ok: "mq_ok q" and r: "mq_ready q a"
  then have "\<not> is_full_i q" "mq_item q a [a]" "a \<noteq> null"
    by (auto simp: mq_ready_def mq_item_def)
  with enqueue_tail_i_spec [OF ok, of a "[a]"]
  show "\<exists>q'. mq_put env q a = Some q' \<and> mq_ok q' \<and> mq_content q' = mq_content q @ [a]"
    by (auto simp: mq_put_def enqueue_tail_def wait_now)
next
  fix q a as
  assume ok: "mq_ok q" and c: "mq_content q = a # as"
  with dequeue_head_i_spec [OF ok c]
  show "\<exists>q'. mq_get env q = Some (a, q') \<and> mq_ok q' \<and> mq_content q' = as"
    by (auto simp: mq_get_def dequeue_head_def wait_now is_empty_content)
next
  fix q
  assume "mq_ok q" "mq_content q = []"
  then show "mq_get env q = None"
    by (auto simp: mq_get_def dequeue_head_def wait_now(4) is_empty_content)
qed

section \<open>Interleavings of threads\<close>

text \<open>The steps that threads take on a shared queue, each under the mutex: a producer whose
  wait is over links its item at the tail, a consumer takes one or several blocks from the
  head, and a thread changes blocks it owns, that is, blocks not in the queue. The two lists
  record what was enqueued and what was handed to consumers.\<close>

inductive mq_step :: "message_queue \<times> addr list \<times> addr list
    \<Rightarrow> message_queue \<times> addr list \<times> addr list \<Rightarrow> bool" where
  produce: "\<not> is_full_i q \<Longrightarrow> mq_item q p ys \<Longrightarrow> enqueue_tail_i q p = Some (q', n) \<Longrightarrow>
    mq_step (q, ins, outs) (q', ins @ ys, outs)"
| consume: "\<not> is_empty_i q \<Longrightarrow> dequeue_head_i q = (0, Some a, q') \<Longrightarrow>
    mq_step (q, ins, outs) (q', ins, outs @ [a])"
| consume_n: "\<not> is_empty_i q \<Longrightarrow> number = -1 \<or> 0 < number \<Longrightarrow>
    dequeue_head_n_i q number = Inr (n, Some p, q') \<Longrightarrow>
    mq_step (q, ins, outs) (q', ins, outs @ walk (nat n) (nx (mq_mem q')) p)"
| own: "\<forall>a \<in> set (mq_content q). mb_next (m a) = mb_next (mq_mem q a) \<and> mb_prev (m a) = mb_prev (mq_mem q a) \<Longrightarrow>
    mq_step (q, ins, outs) (q\<lparr>mq_mem := m\<rparr>, ins, outs)"

inductive_cases mq_stepE: "mq_step (q, ins, outs) s'"

definition mq_log_inv :: "message_queue \<times> addr list \<times> addr list \<Rightarrow> bool" where
  "mq_log_inv s = (case s of (q, ins, outs) \<Rightarrow> mq_ok q \<and> ins = outs @ mq_content q)"

lemma mq_own_step:
  assumes "mq_ok q"
    and same: "\<forall>a \<in> set (mq_content q). mb_next (m a) = mb_next (mq_mem q a) \<and> mb_prev (m a) = mb_prev (mq_mem q a)"
  shows "mq_ok (q\<lparr>mq_mem := m\<rparr>)" "mq_content (q\<lparr>mq_mem := m\<rparr>) = mq_content q"
proof -
  have "dll (nx (mq_mem q)) (pv (mq_mem q)) (mq_head q) (mq_tail q) (mq_content q)
      = dll (nx m) (pv m) (mq_head q) (mq_tail q) (mq_content q)"
    unfolding dll_def
    by (intro arg_cong2 [where f = "(\<and>)"] chain_cong) (use same in \<open>simp_all add: nx_def pv_def\<close>)
  with assms(1) have "dll (nx m) (pv m) (mq_head q) (mq_tail q) (mq_content q)"
    "mb_count q = length (mq_content q)" by (auto simp: mq_ok_def)
  then show "mq_ok (q\<lparr>mq_mem := m\<rparr>)" "mq_content (q\<lparr>mq_mem := m\<rparr>) = mq_content q"
    using mq_okI [of "q\<lparr>mq_mem := m\<rparr>" "mq_content q"] by simp_all
qed

lemma mq_step_inv: "mq_step s s' \<Longrightarrow> mq_log_inv s \<Longrightarrow> mq_log_inv s'"
proof (induction rule: mq_step.induct)
  case (produce q p ys q' n ins outs)
  then show ?case using enqueue_tail_i_spec [of q p ys] by (auto simp: mq_log_inv_def)
next
  case (consume q a q' ins outs)
  then have ok: "mq_ok q" "mq_content q \<noteq> []" by (auto simp: mq_log_inv_def is_empty_content)
  then obtain b bs where "mq_content q = b # bs" by (cases "mq_content q") auto
  with consume ok show ?case using dequeue_head_i_spec [OF ok(1)] by (fastforce simp: mq_log_inv_def)
next
  case (consume_n q number n p q' ins outs)
  then have ok: "mq_ok q" "mq_content q \<noteq> []" by (auto simp: mq_log_inv_def is_empty_content)
  let ?n = "granted number (length (mq_content q))"
  have res: "n = int ?n" "p = mq_head q" "mq_ok q'" "mq_content q' = drop ?n (mq_content q)"
    "chain (nx (mq_mem q')) p (take ?n (mq_content q)) null"
    using dequeue_head_n_i_spec [OF ok consume_n(2)] consume_n(3) by auto
  have "length (take ?n (mq_content q)) = ?n" by (simp add: granted_def)
  then have "walk (nat n) (nx (mq_mem q')) p = take ?n (mq_content q)"
    using walk_chain [OF res(5)] res(1) by simp
  with consume_n res show ?case by (simp add: mq_log_inv_def)
next
  case (own q m ins outs)
  then show ?case using mq_own_step [of q m] by (auto simp: mq_log_inv_def)
qed

lemma mq_new_ok: "mq_ok (mq_new m hwm)" "mq_content (mq_new m hwm) = []"
  using mq_okI [of "mq_new m hwm" "[]"] by (simp_all add: mq_new_def)

lemma mq_new_hwm: "high_water_mark (mq_new m hwm) = hwm"
  by (simp add: mq_new_def)

section \<open>Properties\<close>

text \<open>C28: whatever producers and consumers share the queue and however their critical sections
  interleave, the doubly linked list stays well formed and the blocks are handed out in the
  order they were enqueued: what went in is what came out followed by what is still queued.\<close>

theorem mq_interleaving_fifo:
  assumes "mq_step\<^sup>*\<^sup>* (mq_new m hwm, [], []) (q, ins, outs)"
  shows "mq_ok q \<and> ins = outs @ mq_content q"
proof -
  have "mq_log_inv (q, ins, outs)"
    using assms
  proof (induction rule: rtranclp_induct)
    case base
    show ?case by (simp add: mq_log_inv_def mq_new_ok)
  next
    case (step y z)
    then show ?case by (blast intro: mq_step_inv)
  qed
  then show ?thesis by (simp add: mq_log_inv_def)
qed

theorem mq_interleaving_fifo_witness:
  "\<exists>q. mq_step\<^sup>*\<^sup>* (mq_new (\<lambda>_. mb_new []) 2, [], []) (q, [7, 8], [7]) \<and> mq_content q = [8]"
proof -
  let ?q0 = "mq_new (\<lambda>_. mb_new []) 2"
  have i0: "mq_item ?q0 7 [7]" and f0: "\<not> is_full_i ?q0"
    by (simp_all add: mq_item_def mq_new_ok is_full_i_def) (simp_all add: mq_new_def nx_def mb_new_def)
  obtain q1 where q1: "enqueue_tail_i ?q0 7 = Some (q1, 1)" "mq_ok q1" "mq_content q1 = [7]"
    "high_water_mark q1 = 2"
    using enqueue_tail_i_spec [OF mq_new_ok(1) i0] by (auto simp: mq_new_ok mq_new_hwm)
  have m1: "mb_next (mq_mem q1 8) = null"
    using q1(1) by (simp add: enqueue_tail_i_def mq_new_def mb_new_def count_seq.simps set_prev_def)
      (auto simp: mb_new_def)
  then have i1: "mq_item q1 8 [8]" and f1: "\<not> is_full_i q1"
    using q1 mq_ok_count [OF q1(2)] by (simp_all add: mq_item_def is_full_i_def nx_def)
  obtain q2 where q2: "enqueue_tail_i q1 8 = Some (q2, 1)" "mq_ok q2" "mq_content q2 = [7, 8]"
    using enqueue_tail_i_spec [OF q1(2) i1] q1(3) by auto
  obtain q3 where q3: "dequeue_head_i q2 = (0, Some 7, q3)"
    using dequeue_head_i_spec [OF q2(2,3)] by auto
  have "\<not> is_empty_i q2" using q2 by (simp add: is_empty_content)
  then have run: "mq_step\<^sup>*\<^sup>* (?q0, [], []) (q3, [7, 8], [7])"
    using mq_step.produce [OF f0 i0 q1(1), of "[]" "[]"] mq_step.produce [OF f1 i1 q2(1), of "[7]" "[]"]
      mq_step.consume [of q2 7 q3 "[7, 8]" "[]"] q3 by (auto intro: converse_rtranclp_into_rtranclp)
  show ?thesis using run mq_interleaving_fifo [OF run] by auto
qed

text \<open>a sequence of non-blocking \<^verbatim>\<open>enqueue_tail\<close> and \<^verbatim>\<open>dequeue_head\<close> calls with a zero timeout
  delivers the blocks in order: the blocks dequeued, followed by the final content, are the
  initial content followed by the blocks enqueued.\<close>

theorem mq_run_in_order:
  assumes "mq_ok q" "fifo_run mq_ready (mq_put env) (mq_get env) q es = Some (out, q')"
  shows "mq_ok q' \<and> mq_content q @ sent es = out @ mq_content q'"
  using assms by (rule mqf.run_in_order)

theorem mq_run_in_order_witness:
  "\<exists>out q'. fifo_run mq_ready (mq_put (\<lambda>k q. (0, q))) (mq_get (\<lambda>k q. (0, q)))
       (mq_new (\<lambda>_. mb_new []) 4) [Put 3, Get, Get] = Some (out, q')
     \<and> [3] = out @ mq_content q'"
proof -
  let ?q = "mq_new (\<lambda>_. mb_new []) 4" and ?env = "\<lambda>k q. (0, q)"
  have ready: "mq_ready ?q 3"
    by (simp add: mq_ready_def mq_item_def mq_new_ok is_full_i_def) (simp add: mq_new_def nx_def mb_new_def)
  obtain q1 where q1: "mq_put ?env ?q 3 = Some q1" "mq_ok q1" "mq_content q1 = [3]"
    using mqf.put_ok [OF mq_new_ok(1) ready, of ?env] by (auto simp: mq_new_ok)
  obtain q2 where q2: "mq_get ?env q1 = Some (3, q2)" "mq_ok q2" "mq_content q2 = []"
    using mqf.get_ok [OF q1(2,3), of ?env] by auto
  have run: "fifo_run mq_ready (mq_put ?env) (mq_get ?env) ?q [Put 3, Get, Get] = Some ([3], q2)"
    using ready q1 q2 mqf.get_empty [OF q2(2,3), of ?env] by simp
  show ?thesis using run mq_run_in_order [OF mq_new_ok(1) run] by (auto simp: mq_new_ok)
qed

text \<open>The queue when the \<open>n\<close>-th wait of a call is over.\<close>

fun after_waits :: "wait_env \<Rightarrow> message_queue \<Rightarrow> nat \<Rightarrow> message_queue" where
  "after_waits env q 0 = q"
| "after_waits env q (Suc n) = snd (env n (after_waits env q n))"

lemma waits_for_room:
  assumes "\<forall>k<n. is_full_i (after_waits env q k) \<and> fst (env k (after_waits env q k)) = 0" "0 < n \<longrightarrow> timeout \<noteq> Some tv_zero"
  shows "wait_not_full_cond env timeout 0 q = wait_not_full_cond env timeout n (after_waits env q n)"
  using assms
proof (induction n)
  case (Suc n)
  then have "wait_not_full_cond env timeout 0 q = wait_not_full_cond env timeout n (after_waits env q n)" by simp
  also have "\<dots> = wait_not_full_cond env timeout (Suc n) (after_waits env q (Suc n))"
    using Suc.prems by (subst wait_not_full_cond.simps) simp
  finally show ?case .
qed simp

lemma after_waits_keep:
  assumes "mq_ok q" "mq_item q p ys"
    "\<forall>k q. mq_ok q \<and> mq_item q p ys \<longrightarrow> mq_ok (snd (env k q)) \<and> mq_item (snd (env k q)) p ys"
  shows "mq_ok (after_waits env q n) \<and> mq_item (after_waits env q n) p ys"
  using assms by (induction n) auto

text \<open>C29: a blocking \<^verbatim>\<open>enqueue_tail\<close>. Let the first \<open>n\<close> waits find the queue full and return 0. If there
  is room then, the call returns: it has appended its whole item to the content the queue had when
  the wait ended, and returns the number of its blocks. If the queue is still full, the call returns
  -1, without another wait when the timeout is zero, and otherwise if the next wait fails; the item
  is not linked. In between other threads may do anything that keeps the queue well formed and
  leaves the caller's item alone; with a zero timeout \<open>n\<close> is 0.\<close>

theorem enqueue_tail_blocking:
  assumes "mq_ok q" "mq_item q p ys"
    and others: "\<forall>k q. mq_ok q \<and> mq_item q p ys \<longrightarrow> mq_ok (snd (env k q)) \<and> mq_item (snd (env k q)) p ys"
    and waits: "\<forall>k<n. is_full_i (after_waits env q k) \<and> fst (env k (after_waits env q k)) = 0"
      "0 < n \<longrightarrow> timeout \<noteq> Some tv_zero"
  shows "if \<not> is_full_i (after_waits env q n)
    then \<exists>q'. enqueue_tail env q p timeout = Some (q', int (length ys)) \<and> mq_ok q' \<and> ys \<noteq> []
      \<and> mq_content q' = mq_content (after_waits env q n) @ ys
    else if timeout = Some tv_zero then enqueue_tail env q p timeout = Some (q, -1)
    else fst (env n (after_waits env q n)) \<noteq> 0 \<longrightarrow> enqueue_tail env q p timeout = Some (after_waits env q (Suc n), -1)"
proof -
  have p: "p \<noteq> null" "ys \<noteq> []" using assms(2) by (cases ys; auto simp: mq_item_def)+
  note w = waits_for_room [OF waits] and ok = after_waits_keep [OF assms(1-3), of n]
  show ?thesis
    using p w ok enqueue_tail_i_spec [of "after_waits env q n" p ys] waits(2)
    by (auto simp: enqueue_tail_def wait_now wait_not_full_cond.simps [of env timeout n] split: if_splits)
qed

text \<open>A consumer takes the first block while the producer waits.\<close>

definition take_one :: wait_env where
  "take_one k q = (0, snd (snd (dequeue_head_i q)))"

lemma take_one_keeps:
  assumes "mq_ok q" "mq_item q p ys"
  shows "mq_ok (snd (take_one k q)) \<and> mq_item (snd (take_one k q)) p ys"
proof (cases "mq_content q")
  case Nil
  then have "dequeue_head_i q = (-1, None, q)" using mq_ok_ends [OF assms(1)] by (simp add: dequeue_head_i_def)
  then show ?thesis using assms by (simp add: take_one_def)
next
  case (Cons a xs)
  have h: "mq_head q = a" using mq_ok_hd [OF assms(1)] Cons by simp
  have "nx (mq_mem (snd (snd (dequeue_head_i q)))) = (nx (mq_mem q))(mq_head q := null)" if "mq_head q \<noteq> null"
    using that by (auto simp: dequeue_head_i_def Let_def link_simps)
  moreover have "mq_head q \<noteq> null" using mq_ok_ends [OF assms(1)] Cons by simp
  ultimately have "nx (mq_mem (snd (snd (dequeue_head_i q)))) x = nx (mq_mem q) x" if "x \<in> set ys" for x
    using that assms(2) Cons h by (auto simp: mq_item_def)
  then have "chain (nx (mq_mem (snd (snd (dequeue_head_i q))))) p ys null"
    using assms(2) chain_cong [of ys "nx (mq_mem q)" "nx (mq_mem (snd (snd (dequeue_head_i q))))"] by (auto simp: mq_item_def)
  then show ?thesis using dequeue_head_i_spec [OF assms(1) Cons] assms(2) Cons by (auto simp: take_one_def mq_item_def)
qed

theorem enqueue_tail_blocking_witness:
  "\<exists>q q'. enqueue_tail_i (mq_new (\<lambda>_. mb_new []) 1) 3 = Some (q, 1) \<and> is_full_i q
     \<and> enqueue_tail take_one q 5 None = Some (q', 1) \<and> mq_content q' = [5]"
proof -
  let ?q = "mq_new (\<lambda>_. mb_new []) 1"
  have "mq_item ?q 3 [3]" by (simp add: mq_item_def mq_new_ok) (simp add: mq_new_def nx_def mb_new_def)
  from enqueue_tail_i_spec [OF mq_new_ok(1) this] obtain q where q: "enqueue_tail_i ?q 3 = Some (q, 1)" "mq_ok q"
    "mq_content q = [3]" "high_water_mark q = 1" by (auto simp: mq_new_ok mq_new_hwm)
  have m: "mq_mem q = set_prev 3 null (\<lambda>_. mb_new [])"
    using q(1) by (auto simp: enqueue_tail_i_def mq_new_def count_seq.simps mb_new_def Let_def)
  have item: "mq_item q 5 [5]" using q(3) by (simp add: mq_item_def m link_simps) (simp add: nx_def mb_new_def)
  have full: "is_full_i q" using q mq_ok_count [OF q(2)] by (simp add: is_full_i_def)
  have a1: "mq_ok (after_waits take_one q 1)" "mq_content (after_waits take_one q 1) = []"
    using dequeue_head_i_spec [OF q(2,3)] by (auto simp: take_one_def)
  have "high_water_mark (after_waits take_one q 1) = 1"
    using q(4) by (auto simp: take_one_def dequeue_head_i_def Let_def)
  then have room: "\<not> is_full_i (after_waits take_one q 1)" using a1 mq_ok_count [OF a1(1)] by (simp add: is_full_i_def)
  have "\<forall>k q. mq_ok q \<and> mq_item q 5 [5] \<longrightarrow> mq_ok (snd (take_one k q)) \<and> mq_item (snd (take_one k q)) 5 [5]"
    using take_one_keeps by blast
  moreover have "\<forall>k<1. is_full_i (after_waits take_one q k) \<and> fst (take_one k (after_waits take_one q k)) = 0"
    using full by (simp add: take_one_def)
  ultimately show ?thesis
    using enqueue_tail_blocking [OF q(2) item, of take_one 1 None] room q(1) full a1(2) by auto
qed

text \<open>with a zero timeout the operations never block: \<^verbatim>\<open>enqueue_tail\<close> and \<^verbatim>\<open>enqueue_head\<close> return
  -1 and leave a full queue unchanged, and otherwise link the item at the tail or at the
  head and return the number of its blocks.\<close>

theorem enqueue_nonblocking:
  assumes "mq_ok q" "mq_item q p ys"
  shows "if is_full_i q
    then enqueue_tail env q p (Some tv_zero) = Some (q, -1) \<and> enqueue_head env q p (Some tv_zero) = Some (q, -1)
    else \<exists>qt qh. enqueue_tail env q p (Some tv_zero) = Some (qt, int (length ys))
      \<and> enqueue_head env q p (Some tv_zero) = Some (qh, int (length ys))
      \<and> mq_ok qt \<and> mq_content qt = mq_content q @ ys \<and> mq_ok qh \<and> mq_content qh = ys @ mq_content q"
proof -
  have "p \<noteq> null" using assms(2) by (cases ys) (auto simp: mq_item_def)
  then show ?thesis
    using enqueue_tail_i_spec [OF assms] enqueue_head_i_spec [OF assms]
    by (auto simp: enqueue_tail_def enqueue_head_def wait_now)
qed

theorem enqueue_nonblocking_witness:
  "enqueue_tail (\<lambda>k q. (0, q)) (mq_new (\<lambda>_. mb_new []) 0) 5 (Some tv_zero)
     = Some (mq_new (\<lambda>_. mb_new []) 0, -1)"
proof -
  let ?q = "mq_new (\<lambda>_. mb_new []) 0"
  have item: "mq_item ?q 5 [5]" and full: "is_full_i ?q"
    by (simp_all add: mq_item_def mq_new_ok is_full_i_def) (simp_all add: mq_new_def nx_def mb_new_def)
  show ?thesis using enqueue_nonblocking [OF mq_new_ok(1) item, of "\<lambda>k q. (0, q)"] full by simp
qed



text \<open>asking \<^verbatim>\<open>dequeue_head_n\<close> or \<^verbatim>\<open>dequeue_tail_n\<close> for a negative number other than -1 makes
  the program follow a null pointer as soon as the queue is not empty.\<close>

theorem dequeue_n_negative_faults:
  assumes "mq_ok q" "mq_content q \<noteq> []" "number < -1"
  shows "dequeue_head_n env q number timeout = Some (Inl NullDeref)
    \<and> dequeue_tail_n env q number timeout = Some (Inl NullDeref)"
proof -
  have d: "dll (nx (mq_mem q)) (pv (mq_mem q)) (mq_head q) (mq_tail q) (mq_content q)"
    using assms(1) by (rule mq_ok_dll)
  obtain xs where xs: "mq_content q = mq_head q # xs"
    using assms(2) mq_ok_hd [OF assms(1)] by (metis list.collapse)
  obtain ys where ys: "mq_content q = ys @ [mq_tail q]"
    using assms(2) mq_ok_last [OF assms(1)] by (metis append_butlast_last_id)
  have "mb_prev (mq_mem q (mq_head q)) = null" "mb_next (mq_mem q (mq_tail q)) = null"
    using dll_prev [of _ _ _ _ "[]" "mq_head q" xs] dll_next [of _ _ _ _ ys "mq_tail q" "[]"] d xs ys
    by (auto simp: nx_def pv_def)
  moreover have "mq_head q \<noteq> null" "mq_tail q \<noteq> null" using assms(1,2) mq_ok_ends by blast+
  ultimately show ?thesis
    using assms by (simp add: dequeue_head_n_def dequeue_tail_n_def wait_now is_empty_content
        dequeue_head_n_i_def dequeue_tail_n_i_def)
qed

theorem dequeue_n_negative_faults_witness:
  "dequeue_head_n (\<lambda>k q. (0, q)) (the (mq_put (\<lambda>k q. (0, q)) (mq_new (\<lambda>_. mb_new []) 2) 5)) (-2) None
     = Some (Inl NullDeref)"
proof -
  let ?q = "mq_new (\<lambda>_. mb_new []) 2" and ?env = "\<lambda>k q. (0, q)"
  have ready: "mq_ready ?q 5"
    by (simp add: mq_ready_def mq_item_def mq_new_ok is_full_i_def) (simp add: mq_new_def nx_def mb_new_def)
  obtain q1 where q1: "mq_put ?env ?q 5 = Some q1" "mq_ok q1" "mq_content q1 = [5]"
    using mqf.put_ok [OF mq_new_ok(1) ready, of ?env] by (auto simp: mq_new_ok)
  show ?thesis using q1 dequeue_n_negative_faults [OF q1(2), of "-2" ?env None] by auto
qed

text \<open>C30: the destructor terminates on a well-formed queue and cleans and deletes every queued
  block exactly once, in queue order.\<close>

theorem mq_destroy_correct:
  assumes "mq_ok q"
  shows "\<exists>ds. mq_destroy q = Some ds \<and> ds = map (\<lambda>a. (a, mb_clean (mq_mem q a))) (mq_content q)
    \<and> distinct (map fst ds)"
proof -
  have d: "dll (nx (mq_mem q)) (pv (mq_mem q)) (mq_head q) (mq_tail q) (mq_content q)"
    using assms by (rule mq_ok_dll)
  then have "mq_destroy q = Some (map (\<lambda>a. (a, mb_clean (mq_mem q a))) (mq_content q))"
    using delete_blocks_chain [of "mq_mem q" "mq_head q" "mq_content q" "[]"] mq_ok_ends [OF assms]
    by (auto simp: mq_destroy_def dll_def)
  moreover have "map fst (map (\<lambda>a. (a, mb_clean (mq_mem q a))) (mq_content q)) = mq_content q"
    by (simp add: comp_def)
  ultimately show ?thesis using dll_distinct [OF d] by simp
qed

theorem mq_destroy_correct_witness: "mq_destroy (mq_new (\<lambda>_. mb_new []) 2) = Some []"
  using mq_destroy_correct [OF mq_new_ok(1), of "\<lambda>_. mb_new []" 2] by (simp add: mq_new_ok)

end
