(* ===== verification/IndexedHeap.thy ===== *)
theory IndexedHeap
  imports Prelude
begin

text \<open>
  The library sifts in three places with the same algorithm: \<^verbatim>\<open>min_heap\<close> and \<^verbatim>\<open>max_heap\<close> of
  \<^verbatim>\<open>ndk/heap.h\<close> and the timer heap of \<^verbatim>\<open>ndk/timer_queue.cpp\<close>. Each moves elements of an array
  through one operation that writes a slot and records the slot in an index (the
  \<^verbatim>\<open>heap_idx_\<close> of the item, the \<^verbatim>\<open>timer_ids_\<close> entry of the timer). The locale
  \<open>indexed_heap\<close> states what this operation and the two sift loops do; the lemmas in it show
  that sifting restores the heap order, permutes the array and keeps the index exact.
\<close>

section \<open>Heap order with a hole\<close>

definition par :: "nat \<Rightarrow> nat" where
  "par i = (i - 1) div 2"

lemma par_less: "0 < i \<Longrightarrow> par i < i"
  by (auto simp: par_def)

lemma par_le: "par i \<le> i"
  by (auto simp: par_def)

lemma par_neq [simp]: "0 < i \<Longrightarrow> par i \<noteq> i" "0 < i \<Longrightarrow> i \<noteq> par i"
  using par_less [of i] by auto

lemma par_child_iff: "0 < i \<Longrightarrow> par i = p \<longleftrightarrow> i = 2 * p + 1 \<or> i = 2 * p + 2"
  by (auto simp: par_def)

lemma par_child [simp]: "par (2 * p + 1) = p" "par (2 * p + 2) = p" "par (Suc (2 * p)) = p"
  "par (Suc (Suc (2 * p))) = p"
  by (simp_all add: par_def)

definition heap_on :: "('a \<Rightarrow> 'a \<Rightarrow> bool) \<Rightarrow> 'a list \<Rightarrow> nat \<Rightarrow> bool" where
  "heap_on lt a n \<longleftrightarrow> (\<forall>i. 0 < i \<and> i < n \<longrightarrow> \<not> lt (a ! i) (a ! par i))"

text \<open>In order but for the element at \<open>pos\<close>, which may be too small for its place
  (\<open>up_hole\<close>) or too large for it (\<open>down_hole\<close>).\<close>

definition skips :: "('a \<Rightarrow> 'a \<Rightarrow> bool) \<Rightarrow> 'a list \<Rightarrow> nat \<Rightarrow> nat \<Rightarrow> bool" where
  "skips lt a n pos \<longleftrightarrow> (\<forall>i. 0 < i \<and> i < n \<and> 0 < pos \<and> par i = pos \<longrightarrow> \<not> lt (a ! i) (a ! par pos))"

definition up_hole :: "('a \<Rightarrow> 'a \<Rightarrow> bool) \<Rightarrow> 'a list \<Rightarrow> nat \<Rightarrow> nat \<Rightarrow> bool" where
  "up_hole lt a n pos \<longleftrightarrow>
     (\<forall>i. 0 < i \<and> i < n \<and> i \<noteq> pos \<longrightarrow> \<not> lt (a ! i) (a ! par i)) \<and> skips lt a n pos"

definition down_hole :: "('a \<Rightarrow> 'a \<Rightarrow> bool) \<Rightarrow> 'a list \<Rightarrow> nat \<Rightarrow> nat \<Rightarrow> bool" where
  "down_hole lt a n pos \<longleftrightarrow>
     (\<forall>i. 0 < i \<and> i < n \<and> par i \<noteq> pos \<longrightarrow> \<not> lt (a ! i) (a ! par i)) \<and> skips lt a n pos"

text \<open>In order when the element at \<open>k\<close> is left out.\<close>

definition heap_but :: "('a \<Rightarrow> 'a \<Rightarrow> bool) \<Rightarrow> 'a list \<Rightarrow> nat \<Rightarrow> nat \<Rightarrow> bool" where
  "heap_but lt a n k \<longleftrightarrow>
     (\<forall>i. 0 < i \<and> i < n \<and> i \<noteq> k \<and> par i \<noteq> k \<longrightarrow> \<not> lt (a ! i) (a ! par i))
     \<and> (\<forall>i. 0 < i \<and> i < n \<and> 0 < k \<and> par i = k \<longrightarrow> \<not> lt (a ! i) (a ! par k))"

text \<open>The child that the loops of \<^verbatim>\<open>shift_down\<close> and \<^verbatim>\<open>reheap_down\<close> choose.\<close>

definition pick_child :: "('a \<Rightarrow> 'a \<Rightarrow> bool) \<Rightarrow> 'a list \<Rightarrow> nat \<Rightarrow> nat \<Rightarrow> nat" where
  "pick_child lt a n l = (if l + 1 < n \<and> lt (a ! (l + 1)) (a ! l) then l + 1 else l)"

locale strict_weak =
  fixes lt :: "'a \<Rightarrow> 'a \<Rightarrow> bool"
  assumes asym: "lt x y \<Longrightarrow> \<not> lt y x"
    and neg_trans: "\<not> lt x y \<Longrightarrow> \<not> lt y z \<Longrightarrow> \<not> lt x z"
begin

lemma irrefl: "\<not> lt x x"
  using asym by blast

lemma less_not_less: "lt m p \<Longrightarrow> \<not> lt i p \<Longrightarrow> \<not> lt i m"
  using asym neg_trans by blast

lemma up_hole_step:
  assumes "up_hole lt (a[pos := m]) n pos" "0 < pos" "pos < n" "n \<le> length a"
    and small: "lt m (a ! par pos)"
  shows "up_hole lt (a[pos := a ! par pos, par pos := m]) n (par pos)"
proof -
  let ?p = "par pos" and ?b = "a[pos := m]"
  let ?b' = "a[pos := a ! par pos, par pos := m]"
  have p: "?p < pos" "?p \<noteq> pos" using assms(2) par_less [of pos] by auto
  have b': "?b' ! ?p = m" "?b' ! pos = a ! ?p" using assms(3,4) p by auto
  have rest: "i \<noteq> pos \<Longrightarrow> i \<noteq> ?p \<Longrightarrow> ?b' ! i = a ! i" for i by simp
  have ord: "0 < i \<Longrightarrow> i < n \<Longrightarrow> i \<noteq> pos \<Longrightarrow> \<not> lt (?b ! i) (?b ! par i)"
    and gp: "0 < i \<Longrightarrow> i < n \<Longrightarrow> par i = pos \<Longrightarrow> \<not> lt (?b ! i) (?b ! ?p)" for i
    using assms(1,2) by (auto simp: up_hole_def skips_def)
  have sib: "0 < i \<Longrightarrow> i < n \<Longrightarrow> i \<noteq> pos \<Longrightarrow> par i = ?p \<Longrightarrow> \<not> lt (a ! i) (a ! ?p)" for i
    using ord [of i] p by simp
  have "\<not> lt (?b' ! i) (?b' ! par i)" if "0 < i" "i < n" "i \<noteq> ?p" for i
  proof -
    consider "i = pos" | "i \<noteq> pos" "par i = pos" | "i \<noteq> pos" "par i = ?p"
      | "i \<noteq> pos" "par i \<noteq> pos" "par i \<noteq> ?p" by blast
    then show ?thesis
    proof cases
      case 1
      then show ?thesis using b' asym [OF small] by simp
    next
      case 2
      then show ?thesis using gp [OF that(1,2)] b' rest [of i] that p by simp
    next
      case 3
      then show ?thesis using sib [OF that(1,2)] b' rest [of i] that less_not_less [OF small] by simp
    next
      case 4
      then show ?thesis using ord [OF that(1,2)] rest [of i] rest [of "par i"] that by simp
    qed
  qed
  moreover have "\<not> lt (?b' ! i) (?b' ! par ?p)" if "0 < i" "i < n" "0 < ?p" "par i = ?p" for i
  proof -
    have top: "\<not> lt (a ! ?p) (a ! par ?p)"
      using ord [of ?p] that(3) p assms(3) par_less [OF that(3)] by simp
    have gpp: "?b' ! par ?p = a ! par ?p" using rest [of "par ?p"] p par_less [OF that(3)] by simp
    have ip: "i \<noteq> ?p" using that par_less [OF that(1)] by auto
    show ?thesis
      using that b' gpp top sib [of i] rest [of i] ip neg_trans [OF _ top] by (cases "i = pos") auto
  qed
  ultimately show ?thesis by (auto simp: up_hole_def skips_def)
qed

lemma up_hole_done:
  "up_hole lt (a[pos := m]) n pos \<Longrightarrow> pos < n \<Longrightarrow> n \<le> length a \<Longrightarrow>
     \<not> (0 < pos \<and> lt m (a ! par pos)) \<Longrightarrow> heap_on lt (a[pos := m]) n"
  using par_less [of pos] by (auto simp: up_hole_def heap_on_def nth_list_update)

lemma pick_child_min:
  assumes "l = 2 * pos + 1" "l < n" "c = pick_child lt a n l" "0 < i" "i < n" "par i = pos"
  shows "\<not> lt (a ! i) (a ! c)"
proof -
  have "i = l \<or> i = l + 1" using assms(1,4,6) par_child_iff by auto
  then show ?thesis using assms(2,3,5) asym irrefl by (auto simp: pick_child_def split: if_splits)
qed

lemma pick_child_props:
  "l = 2 * pos + 1 \<Longrightarrow> l < n \<Longrightarrow> c = pick_child lt a n l \<Longrightarrow> pos < c \<and> c < n \<and> par c = pos"
  by (auto simp: pick_child_def)

lemma down_hole_step:
  assumes "down_hole lt (a[pos := m]) n pos" "2 * pos + 1 < n" "n \<le> length a"
    and c: "c = pick_child lt a n (2 * pos + 1)" and big: "lt (a ! c) m"
  shows "down_hole lt (a[pos := a ! c, c := m]) n c"
proof -
  let ?b = "a[pos := m]" and ?b' = "a[pos := a ! c, c := m]"
  have cp: "pos < c" "c < n" "par c = pos" using pick_child_props [OF refl assms(2) c] by auto
  have b': "?b' ! c = m" "?b' ! pos = a ! c" using cp assms(3) by auto
  have rest: "i \<noteq> pos \<Longrightarrow> i \<noteq> c \<Longrightarrow> ?b' ! i = a ! i" for i by simp
  have ord: "0 < i \<Longrightarrow> i < n \<Longrightarrow> par i \<noteq> pos \<Longrightarrow> \<not> lt (?b ! i) (?b ! par i)"
    and gp: "0 < i \<Longrightarrow> i < n \<Longrightarrow> 0 < pos \<Longrightarrow> par i = pos \<Longrightarrow> \<not> lt (?b ! i) (?b ! par pos)" for i
    using assms(1) by (auto simp: down_hole_def skips_def)
  have min: "0 < i \<Longrightarrow> i < n \<Longrightarrow> par i = pos \<Longrightarrow> \<not> lt (a ! i) (a ! c)" for i
    using pick_child_min [OF refl assms(2) c] by blast
  have "\<not> lt (?b' ! i) (?b' ! par i)" if "0 < i" "i < n" "par i \<noteq> c" for i
  proof -
    consider "i = c" | "i \<noteq> c" "par i = pos" | "i = pos" | "i \<noteq> c" "i \<noteq> pos" "par i \<noteq> pos" by blast
    then show ?thesis
    proof cases
      case 1
      then show ?thesis using b' cp asym [OF big] by simp
    next
      case 2
      then show ?thesis using min [OF that(1,2)] b' rest [of i] that par_less [OF that(1)] by auto
    next
      case 3
      then show ?thesis
        using gp [of c] cp b' rest [of "par pos"] that par_less [of pos] by simp
    next
      case 4
      then show ?thesis using ord [OF that(1,2)] rest [of i] rest [of "par i"] that by simp
    qed
  qed
  moreover have "\<not> lt (?b' ! i) (?b' ! par c)" if "0 < i" "i < n" "par i = c" for i
  proof -
    have "i \<noteq> c" "i \<noteq> pos" using that cp par_less [OF that(1)] by auto
    then show ?thesis using ord [OF that(1,2)] that cp b' rest [of i] by simp
  qed
  ultimately show ?thesis unfolding down_hole_def skips_def by blast
qed

lemma down_hole_done:
  assumes "down_hole lt (a[pos := m]) n pos" "pos < length a"
    and stop: "2 * pos + 1 < n \<Longrightarrow> \<not> lt (a ! pick_child lt a n (2 * pos + 1)) m"
  shows "heap_on lt (a[pos := m]) n"
proof -
  have "\<not> lt (a[pos := m] ! i) (a[pos := m] ! par i)" if "0 < i" "i < n" for i
  proof (cases "par i = pos")
    case True
    have l: "2 * pos + 1 < n" using True that par_child_iff [OF that(1), of pos] by auto
    have "i \<noteq> pos" using True par_less [OF that(1)] by auto
    then show ?thesis
      using True that assms(2) neg_trans [OF pick_child_min [OF refl l refl that True] stop [OF l]]
      by simp
  next
    case False
    then show ?thesis using assms(1) that by (auto simp: down_hole_def)
  qed
  then show ?thesis by (auto simp: heap_on_def)
qed

text \<open>Where the holes come from: appending at the end, and replacing a slot by the last one.\<close>

lemma heap_on_append: "heap_on lt a n \<Longrightarrow> up_hole lt (a[n := m]) (Suc n) n"
proof -
  assume h: "heap_on lt a n"
  have "\<not> lt (a[n := m] ! i) (a[n := m] ! par i)" if "0 < i" "i < Suc n" "i \<noteq> n" for i
    using that h par_less [OF that(1)] by (auto simp: heap_on_def)
  moreover have "skips lt (a[n := m]) (Suc n) n"
    unfolding skips_def by (metis less_antisym less_asym par_less)
  ultimately show ?thesis by (auto simp: up_hole_def)
qed

lemma heap_on_but:
  assumes "heap_on lt a n" "k < n"
  shows "heap_but lt a n k"
proof -
  have "\<not> lt (a ! i) (a ! par k)" if "0 < i" "i < n" "0 < k" "par i = k" for i
    using neg_trans [of "a ! i" "a ! k" "a ! par k"] assms that by (auto simp: heap_on_def)
  then show ?thesis using assms by (auto simp: heap_but_def heap_on_def)
qed

lemma heap_but_skips: "heap_but lt a (Suc n) k \<Longrightarrow> skips lt (a[k := m]) n k"
  unfolding skips_def heap_but_def
  by (metis less_SucI nth_list_update_neq par_neq(1) par_neq(2))

lemma heap_but_up:
  assumes "heap_but lt a (Suc n) k" "k < n" "Suc n \<le> length a" "lt m (a ! par k)" "0 < k"
  shows "up_hole lt (a[k := m]) n k"
proof -
  have "\<not> lt (a[k := m] ! i) (a[k := m] ! par i)" if "0 < i" "i < n" "i \<noteq> k" for i
  proof (cases "par i = k")
    case True
    then have "\<not> lt (a ! i) (a ! par k)" using assms(1,5) that by (simp add: heap_but_def)
    then have "\<not> lt (a ! i) m" by (rule less_not_less [OF assms(4)])
    then show ?thesis using True that assms(2,3) by simp
  next
    case False
    then show ?thesis using assms(1) that by (simp add: heap_but_def)
  qed
  then show ?thesis using heap_but_skips [OF assms(1)] by (auto simp: up_hole_def)
qed

lemma heap_but_down:
  assumes "heap_but lt a (Suc n) k" "k < n" "Suc n \<le> length a" "0 < k \<Longrightarrow> \<not> lt m (a ! par k)"
  shows "down_hole lt (a[k := m]) n k"
proof -
  have "\<not> lt (a[k := m] ! i) (a[k := m] ! par i)" if "0 < i" "i < n" "par i \<noteq> k" for i
    using assms that par_less [of k] by (cases "i = k") (auto simp: heap_but_def)
  then show ?thesis using heap_but_skips [OF assms(1)] by (auto simp: down_hole_def)
qed

lemma heap_on_root: "heap_on lt a n \<Longrightarrow> i < n \<Longrightarrow> \<not> lt (a ! i) (a ! 0)"
proof (induction i rule: less_induct)
  case (less i)
  show ?case
  proof (cases "i = 0")
    case True
    then show ?thesis by (simp add: irrefl)
  next
    case False
    then have "\<not> lt (a ! i) (a ! par i)" using less.prems by (auto simp: heap_on_def)
    moreover have "\<not> lt (a ! par i) (a ! 0)"
      using less.IH [of "par i"] less.prems False par_less [of i] by simp
    ultimately show ?thesis by (rule neg_trans)
  qed
qed

end

section \<open>The contract of an indexed heap\<close>

lemma distinct_map_cong_mset: "mset xs = mset ys \<Longrightarrow> distinct (map f xs) = distinct (map f ys)"
  by (metis mset_eq_imp_distinct_iff mset_map)

lemma nth_update_either: "P v \<Longrightarrow> P (xs ! j) \<Longrightarrow> P (xs[i := v] ! j)"
  by (cases "i < length xs") (auto simp: nth_list_update list_update_beyond)

lemma mset_take_swap:
  assumes "i < n" "j < n" "i \<noteq> j" "n \<le> length a"
  shows "mset (take n (a[i := a ! j, j := v])) = mset (take n (a[i := v]))"
  using assms mset_update_twice [of i "take n a" j v] by (simp add: take_update_swap)

text \<open>\<open>arr\<close> is the array of slots, \<open>idx\<close> the recorded slot of an object, \<open>tag\<close> what the record is
  keyed by, \<open>okn\<close> that the object can be recorded at all, \<open>bad\<close> that a write has left an
  array, \<open>sz\<close> the number of slots in use. \<open>put\<close> writes a slot and its index entry; \<open>up\<close> and
  \<open>down\<close> are the loops built on it.\<close>

locale indexed_heap =
  fixes arr :: "'s \<Rightarrow> addr list"
    and idx :: "'s \<Rightarrow> addr \<Rightarrow> int"
    and tag :: "'s \<Rightarrow> addr \<Rightarrow> 'k"
    and okn :: "'s \<Rightarrow> addr \<Rightarrow> bool"
    and bad :: "'s \<Rightarrow> bool"
    and lt :: "'s \<Rightarrow> addr \<Rightarrow> addr \<Rightarrow> bool"
    and sz :: "'s \<Rightarrow> nat"
    and put :: "nat \<Rightarrow> addr \<Rightarrow> 's \<Rightarrow> 's"
    and up :: "'s \<Rightarrow> addr \<Rightarrow> nat \<Rightarrow> 's"
    and down :: "'s \<Rightarrow> addr \<Rightarrow> nat \<Rightarrow> 's"
  assumes lt_weak: "strict_weak (lt s)"
    and put_arr: "arr (put i a s) = (arr s)[i := a]"
    and put_idx: "okn s a \<Longrightarrow> okn s b \<Longrightarrow>
      idx (put i a s) b = (if tag s b = tag s a then int i else idx s b)"
    and put_tag: "tag (put i a s) = tag s"
    and put_okn: "okn (put i a s) = okn s"
    and put_lt: "lt (put i a s) = lt s"
    and put_sz: "sz (put i a s) = sz s"
    and put_bad: "okn s a \<Longrightarrow> i < length (arr s) \<Longrightarrow> bad (put i a s) = bad s"
    and up_eq: "up s m pos =
      (if 0 < pos \<and> lt s m (arr s ! par pos)
       then up (put pos (arr s ! par pos) s) m (par pos) else put pos m s)"
    and down_eq: "down s m pos =
      (if 2 * pos + 1 < sz s \<and> lt s (arr s ! pick_child (lt s) (arr s) (sz s) (2 * pos + 1)) m
       then down (put pos (arr s ! pick_child (lt s) (arr s) (sz s) (2 * pos + 1)) s) m
              (pick_child (lt s) (arr s) (sz s) (2 * pos + 1))
       else put pos m s)"
begin

lemmas put_simps = put_arr put_tag put_okn put_lt put_sz

definition index_hole :: "'s \<Rightarrow> nat \<Rightarrow> nat \<Rightarrow> addr \<Rightarrow> bool" where
  "index_hole s n pos m \<longleftrightarrow>
     distinct (map (tag s) (take n ((arr s)[pos := m])))
     \<and> (\<forall>i < n. okn s ((arr s)[pos := m] ! i))
     \<and> (\<forall>i < n. i \<noteq> pos \<longrightarrow> idx s ((arr s)[pos := m] ! i) = int i)"

definition good :: "'s \<Rightarrow> nat \<Rightarrow> bool" where
  "good s n \<longleftrightarrow> n \<le> length (arr s) \<and> heap_on (lt s) (arr s) n
     \<and> distinct (map (tag s) (take n (arr s)))
     \<and> (\<forall>i < n. okn s (arr s ! i) \<and> idx s (arr s ! i) = int i)"

definition good_but :: "'s \<Rightarrow> nat \<Rightarrow> nat \<Rightarrow> bool" where
  "good_but s n k \<longleftrightarrow> n \<le> length (arr s) \<and> heap_but (lt s) (arr s) n k
     \<and> distinct (map (tag s) (take n (arr s)))
     \<and> (\<forall>i < n. okn s (arr s ! i) \<and> idx s (arr s ! i) = int i)"

text \<open>What a sift leaves behind: the new state is good on \<open>n\<close> slots, the slots hold the old
  elements with \<open>m\<close> in the hole, nothing else has changed.\<close>

definition sifted :: "'s \<Rightarrow> nat \<Rightarrow> nat \<Rightarrow> addr \<Rightarrow> 's \<Rightarrow> bool" where
  "sifted s n pos m s' \<longleftrightarrow> good s' n
     \<and> mset (take n (arr s')) = mset (take n ((arr s)[pos := m]))
     \<and> drop n (arr s') = drop n (arr s) \<and> length (arr s') = length (arr s)
     \<and> lt s' = lt s \<and> tag s' = tag s \<and> okn s' = okn s \<and> sz s' = sz s \<and> bad s' = bad s"

lemma tag_nth_inj:
  assumes "distinct (map (tag s) (take n a))" "i < n" "j < n" "n \<le> length a" "tag s (a ! i) = tag s (a ! j)"
  shows "i = j"
  using assms nth_eq_iff_index_eq [OF assms(1), of i j] by simp

lemma index_hole_move:
  assumes "index_hole s n pos m" "pos < n" "j < n" "j \<noteq> pos" "n \<le> length (arr s)"
  shows "index_hole (put pos (arr s ! j) s) n j m"
    and "okn s (arr s ! j)"
    and "mset (take n ((arr (put pos (arr s ! j) s))[j := m])) = mset (take n ((arr s)[pos := m]))"
proof -
  let ?a = "(arr s)[pos := m]" and ?b = "(arr s)[pos := arr s ! j, j := m]"
  show ms: "mset (take n ((arr (put pos (arr s ! j) s))[j := m])) = mset (take n ?a)"
    using assms mset_take_swap [of pos n j "arr s" m] by (simp add: put_simps)
  have aj: "?a ! j = arr s ! j" using assms(4) by simp
  show okj: "okn s (arr s ! j)"
    using assms(1,3) aj unfolding index_hole_def by metis
  have ok: "okn s (?b ! i)" if "i < n" for i
  proof -
    have "?b ! i = m \<or> ?b ! i = ?a ! i \<or> ?b ! i = arr s ! j"
      using assms that by (auto simp: nth_list_update)
    moreover have "okn s m" using assms unfolding index_hole_def
      by (metis length_list_update less_le_trans nth_list_update_eq)
    ultimately show ?thesis using okj assms(1) that unfolding index_hole_def by metis
  qed
  have "idx (put pos (arr s ! j) s) (?b ! i) = int i" if i: "i < n" "i \<noteq> j" for i
  proof (cases "i = pos")
    case True
    then show ?thesis using put_idx [OF okj okj, of pos] assms i by simp
  next
    case False
    then have bi: "?b ! i = ?a ! i" using i by simp
    have "tag s (?a ! i) \<noteq> tag s (?a ! j)"
      using tag_nth_inj [of s n ?a i j] assms i unfolding index_hole_def by auto
    then show ?thesis
      using put_idx [OF okj, of "?a ! i" pos] bi aj assms(1) i False ok [OF i(1)]
      unfolding index_hole_def by auto
  qed
  with ok distinct_map_cong_mset [OF ms, of "tag s"] assms(1)
  show "index_hole (put pos (arr s ! j) s) n j m"
    unfolding index_hole_def by (simp add: put_simps)
qed

lemma index_hole_fill:
  assumes "index_hole s n pos m" "pos < n" "n \<le> length (arr s)" "heap_on (lt s) ((arr s)[pos := m]) n"
  shows "sifted s n pos m (put pos m s)"
proof -
  let ?a = "(arr s)[pos := m]"
  have m: "?a ! pos = m" using assms(2,3) by simp
  have okm: "okn s m" using assms(1,2) m unfolding index_hole_def by metis
  have "idx (put pos m s) (?a ! i) = int i" if "i < n" for i
  proof (cases "i = pos")
    case True
    then show ?thesis using put_idx [OF okm okm, of pos] m by simp
  next
    case False
    then have "tag s (?a ! i) \<noteq> tag s m"
      using tag_nth_inj [of s n ?a i pos] assms m that unfolding index_hole_def by auto
    then show ?thesis
      using put_idx [OF okm, of "?a ! i" pos] assms(1) that False unfolding index_hole_def by auto
  qed
  then have "good (put pos m s) n"
    using assms unfolding good_def index_hole_def by (simp add: put_simps)
  then show ?thesis
    using assms(2,3) put_bad [OF okm] by (simp add: sifted_def put_simps)
qed

lemma sifted_step:
  assumes "index_hole s n pos m" "pos < n" "j < n" "j \<noteq> pos" "n \<le> length (arr s)"
    and "sifted (put pos (arr s ! j) s) n j m s'"
  shows "sifted s n pos m s'"
  using assms(6) index_hole_move [OF assms(1-5)] put_bad [of s "arr s ! j" pos] assms(2,5)
  by (simp add: sifted_def put_simps)

lemma up_sifts:
  assumes "index_hole s n pos m" "up_hole (lt s) ((arr s)[pos := m]) n pos" "pos < n" "n \<le> length (arr s)"
  shows "sifted s n pos m (up s m pos)"
  using assms
proof (induction pos arbitrary: s rule: less_induct)
  case (less pos s)
  let ?s = "put pos (arr s ! par pos) s"
  show ?case
  proof (cases "0 < pos \<and> lt s m (arr s ! par pos)")
    case True
    have p: "par pos < pos" "par pos < n" "par pos \<noteq> pos"
      using True less.prems(3) par_less [of pos] by auto
    have "up_hole (lt s) ((arr s)[pos := arr s ! par pos, par pos := m]) n (par pos)"
      using strict_weak.up_hole_step [OF lt_weak less.prems(2)] True less.prems by blast
    then have "sifted ?s n (par pos) m (up ?s m (par pos))"
      using less.IH [OF p(1), of ?s] index_hole_move(1) [OF less.prems(1,3) p(2,3) less.prems(4)] p less.prems(4)
      by (simp add: put_simps)
    then have "sifted s n pos m (up ?s m (par pos))"
      by (rule sifted_step [OF less.prems(1,3) p(2,3) less.prems(4)])
    with True show ?thesis by (subst up_eq) simp
  next
    case False
    then have "heap_on (lt s) ((arr s)[pos := m]) n"
      using strict_weak.up_hole_done [OF lt_weak less.prems(2-4)] by blast
    with index_hole_fill [OF less.prems(1,3,4)] False show ?thesis by (subst up_eq) auto
  qed
qed

lemma down_sifts:
  assumes "index_hole s n pos m" "down_hole (lt s) ((arr s)[pos := m]) n pos" "pos < n"
    "n \<le> length (arr s)" "sz s = n"
  shows "sifted s n pos m (down s m pos)"
  using assms
proof (induction "n - pos" arbitrary: s pos rule: less_induct)
  case less
  let ?c = "pick_child (lt s) (arr s) n (2 * pos + 1)"
  let ?s = "put pos (arr s ! ?c) s"
  show ?case
  proof (cases "2 * pos + 1 < n \<and> lt s (arr s ! ?c) m")
    case True
    have c: "pos < ?c" "?c < n" "?c \<noteq> pos"
      using strict_weak.pick_child_props [OF lt_weak refl _ refl, of pos n s "arr s"] True by auto
    have "down_hole (lt s) ((arr s)[pos := arr s ! ?c, ?c := m]) n ?c"
      using strict_weak.down_hole_step [OF lt_weak less.prems(2) _ less.prems(4) refl] True by blast
    then have "sifted ?s n ?c m (down ?s m ?c)"
      using less.hyps [of ?c ?s] index_hole_move(1) [OF less.prems(1,3) c(2,3) less.prems(4)] c less.prems
      by (simp add: put_simps)
    then have "sifted s n pos m (down ?s m ?c)"
      by (rule sifted_step [OF less.prems(1,3) c(2,3) less.prems(4)])
    with True less.prems(5) show ?thesis by (subst down_eq) simp
  next
    case False
    then have "heap_on (lt s) ((arr s)[pos := m]) n"
      using strict_weak.down_hole_done [OF lt_weak less.prems(2)] less.prems(3,4) by auto
    with index_hole_fill [OF less.prems(1,3,4)] False less.prems(5) show ?thesis by (subst down_eq) auto
  qed
qed

text \<open>Insertion at the end, and removal of any slot by moving the last element into it.\<close>

lemma good_prefix:
  assumes "good s n" "k \<le> n"
  shows "good s k"
proof -
  have "map (tag s) (take k (arr s)) = take k (map (tag s) (take n (arr s)))"
    using assms(2) by (simp add: take_map min_def)
  then have "distinct (map (tag s) (take k (arr s)))"
    using assms(1) unfolding good_def by (metis distinct_take)
  then show ?thesis using assms by (auto simp: good_def heap_on_def)
qed

lemma insert_sifts:
  assumes "good s n" "n < length (arr s)" "okn s m" "tag s m \<notin> tag s ` set (take n (arr s))"
  shows "sifted s (Suc n) n m (up s m n)"
proof (rule up_sifts)
  have [simp]: "take (Suc n) ((arr s)[n := m]) = take n (arr s) @ [m]"
    using assms(2) by (simp add: take_Suc_update)
  show "index_hole s (Suc n) n m"
    using assms unfolding index_hole_def good_def by (auto simp: less_Suc_eq)
  show "up_hole (lt s) ((arr s)[n := m]) (Suc n) n"
    using strict_weak.heap_on_append [OF lt_weak] assms(1) by (auto simp: good_def)
qed (use assms in auto)

definition refill :: "'s \<Rightarrow> nat \<Rightarrow> nat \<Rightarrow> 's" where
  "refill s n k = (if lt s (arr s ! n) (arr s ! par k) then up s (arr s ! n) k else down s (arr s ! n) k)"

lemma good_good_but: "good s n \<Longrightarrow> k < n \<Longrightarrow> good_but s n k"
  using strict_weak.heap_on_but [OF lt_weak] by (auto simp: good_def good_but_def)

lemma good_not_lt:
  "good s (Suc n) \<Longrightarrow> k = 0 \<or> k = n \<Longrightarrow> \<not> lt s (arr s ! n) (arr s ! par k)"
  using strict_weak.heap_on_root [OF lt_weak, of s "arr s" "Suc n" n]
  by (cases "k = 0") (auto simp: good_def par_def heap_on_def)

lemma refill_root: "good s (Suc n) \<Longrightarrow> refill s n 0 = down s (arr s ! n) 0"
  using good_not_lt [of s n 0] by (simp add: refill_def)

lemma refill_sifts:
  assumes "good_but s (Suc n) k" "sz s = n" "k < n" "k = 0 \<Longrightarrow> \<not> lt s (arr s ! n) (arr s ! par k)"
  shows "sifted s n k (arr s ! n) (refill s n k)"
proof -
  let ?m = "arr s ! n"
  have len: "Suc n \<le> length (arr s)" "n \<le> length (arr s)" using assms(1) by (auto simp: good_but_def)
  have h: "heap_but (lt s) (arr s) (Suc n) k" using assms(1) by (simp add: good_but_def)
  have "mset (take (Suc n) ((arr s)[k := ?m, n := arr s ! k])) = mset (take (Suc n) (arr s))"
    using mset_take_swap [of k "Suc n" n "arr s" "arr s ! k"] assms(3) len by simp
  then have "distinct (map (tag s) (take (Suc n) ((arr s)[k := ?m, n := arr s ! k])))"
    using distinct_map_cong_mset assms(1) unfolding good_but_def by metis
  then have "distinct (map (tag s) (take n ((arr s)[k := ?m])))"
    using len assms(3) by (simp add: take_Suc_update)
  then have hole: "index_hole s n k ?m"
    using assms(1,3) unfolding index_hole_def good_but_def by (auto simp: nth_list_update)
  show ?thesis
  proof (cases "lt s ?m (arr s ! par k)")
    case True
    then have "0 < k" using assms(4) by blast
    then show ?thesis
      using up_sifts [OF hole strict_weak.heap_but_up [OF lt_weak h assms(3) len(1) True] assms(3) len(2)]
        True by (simp add: refill_def)
  next
    case False
    then show ?thesis
      using down_sifts [OF hole strict_weak.heap_but_down [OF lt_weak h assms(3) len(1)] assms(3) len(2) assms(2)]
      by (simp add: refill_def)
  qed
qed

lemma refill_last:
  assumes "sz s = n" "\<not> lt s (arr s ! n) (arr s ! par n)"
  shows "refill s n n = put n (arr s ! n) s"
  using assms down_eq [of s "arr s ! n" n] by (simp add: refill_def)

lemma put_last:
  assumes "good_but s (Suc n) n"
  shows "good (put n (arr s ! n) s) n" "bad (put n (arr s ! n) s) = bad s"
proof -
  have len: "Suc n \<le> length (arr s)" and d: "distinct (map (tag s) (take (Suc n) (arr s)))"
    and ok: "\<And>i. i < Suc n \<Longrightarrow> okn s (arr s ! i) \<and> idx s (arr s ! i) = int i"
    using assms by (auto simp: good_but_def)
  have "tag s (arr s ! i) \<noteq> tag s (arr s ! n)" if "i < n" for i
    using tag_nth_inj [OF d _ _ len, of i n] that by auto
  then have "idx (put n (arr s ! n) s) (arr s ! i) = int i" if "i < n" for i
    using that ok put_idx [of s "arr s ! n" "arr s ! i" n] by auto
  moreover have "heap_on (lt s) (arr s) n"
    using assms par_le unfolding good_but_def heap_but_def heap_on_def
    by (metis leD less_SucI nat_neq_iff)
  moreover have "distinct (map (tag s) (take n (arr s)))"
    using d distinct_take [of "map (tag s) (take (Suc n) (arr s))" n] by (simp add: take_map)
  ultimately show "good (put n (arr s ! n) s) n"
    using len ok by (simp add: good_def put_simps)
  show "bad (put n (arr s ! n) s) = bad s"
    using len ok [of n] put_bad [of s "arr s ! n" n] by simp
qed

text \<open>Removing slot \<open>k\<close> of \<open>Suc n\<close> takes exactly its element out. The order of the element that
  leaves matters only where it is compared: at the root, which is its own parent, and at the
  last slot, which is the element moved.\<close>

definition removed :: "'s \<Rightarrow> nat \<Rightarrow> nat \<Rightarrow> 's \<Rightarrow> bool" where
  "removed s n k s' \<longleftrightarrow> good s' n
     \<and> mset (take n (arr s')) + {#arr s ! k#} = mset (take (Suc n) (arr s))
     \<and> length (arr s') = length (arr s)
     \<and> lt s' = lt s \<and> tag s' = tag s \<and> okn s' = okn s \<and> sz s' = sz s \<and> bad s' = bad s"

lemma refill_removes_but:
  assumes "good_but s (Suc n) k" "sz s = n" "k \<le> n"
    and edge: "k = 0 \<or> k = n \<Longrightarrow> \<not> lt s (arr s ! n) (arr s ! par k)"
  shows "removed s n k (refill s n k)"
proof (cases "k = n")
  case True
  have "n < length (arr s)" using assms(1) by (auto simp: good_but_def)
  then show ?thesis
    using True assms(1) refill_last [OF assms(2)] edge put_last [of s n]
    by (simp add: removed_def put_simps mset_take_Suc)
next
  case False
  then have k: "k < n" and len: "n < length (arr s)" using assms(1,3) by (auto simp: good_but_def)
  have "mset (take (Suc n) ((arr s)[k := arr s ! n, n := arr s ! k])) = mset (take (Suc n) (arr s))"
    using mset_take_swap [of k "Suc n" n "arr s" "arr s ! k"] k len by simp
  then have "mset (take n ((arr s)[k := arr s ! n])) + {#arr s ! k#} = mset (take (Suc n) (arr s))"
    using len k by (simp add: take_Suc_update)
  moreover have "sifted s n k (arr s ! n) (refill s n k)"
    using refill_sifts [OF assms(1,2) k] edge by blast
  ultimately show ?thesis by (simp add: sifted_def removed_def)
qed

lemma refill_removes:
  "good s (Suc n) \<Longrightarrow> sz s = n \<Longrightarrow> k \<le> n \<Longrightarrow> removed s n k (refill s n k)"
  using refill_removes_but [of s n k] good_good_but [of s "Suc n" k] good_not_lt [of s n k] by simp

lemma good_root: "good s n \<Longrightarrow> a \<in> set (take n (arr s)) \<Longrightarrow> \<not> lt s a (arr s ! 0)"
  using strict_weak.heap_on_root [OF lt_weak, of s "arr s" n]
  by (auto simp: good_def in_set_conv_nth)

text \<open>A component of the state that a slot write keeps is kept by both loops.\<close>

lemma up_frame:
  assumes "\<And>i a s. f (put i a s) = f s"
  shows "f (up s m pos) = f s"
proof (induction pos arbitrary: s rule: less_induct)
  case (less pos)
  then show ?case by (subst up_eq) (auto simp: assms par_less)
qed

lemma down_frame:
  assumes "\<And>i a s. f (put i a s) = f s"
  shows "f (down s m pos) = f s"
proof (induction "sz s - pos" arbitrary: s pos rule: less_induct)
  case less
  then show ?case
    by (subst down_eq) (auto simp: assms put_sz pick_child_def diff_less_mono2)
qed

lemma refill_frame:
  assumes "\<And>i a s. f (put i a s) = f s"
  shows "f (refill s n k) = f s"
  by (simp add: refill_def up_frame [where f = f, OF assms] down_frame [where f = f, OF assms])

text \<open>A component that only writes of certain tags change is kept when those tags are not moved.\<close>

lemma up_keeps:
  assumes fr: "\<And>j a s. Q (tag s a) \<Longrightarrow> f (put j a s) = f s"
    and "\<forall>j < pos. Q (tag s (arr s ! j))" "Q (tag s m)"
  shows "f (up s m pos) = f s"
  using assms(2,3)
proof (induction pos arbitrary: s rule: less_induct)
  case (less pos)
  have "f (up (put pos (arr s ! par pos) s) m (par pos)) = f s" if "0 < pos"
  proof -
    have p: "par pos < pos" using par_less [OF that] .
    have "f (up (put pos (arr s ! par pos) s) m (par pos)) = f (put pos (arr s ! par pos) s)"
      by (rule less.IH) (use less.prems p in \<open>auto simp: put_simps\<close>)
    then show ?thesis using fr [of s "arr s ! par pos" pos] less.prems(1) p by simp
  qed
  then show ?case using fr less.prems(2) by (subst up_eq) auto
qed

lemma down_keeps:
  assumes fr: "\<And>j a s. Q (tag s a) \<Longrightarrow> f (put j a s) = f s"
    and "\<forall>j < sz s. Q (tag s (arr s ! j))" "Q (tag s m)"
  shows "f (down s m pos) = f s"
  using assms(2,3)
proof (induction "sz s - pos" arbitrary: s pos rule: less_induct)
  case less
  let ?c = "pick_child (lt s) (arr s) (sz s) (2 * pos + 1)"
  have "f (down (put pos (arr s ! ?c) s) m ?c) = f s" if "2 * pos + 1 < sz s"
  proof -
    have c: "pos < ?c" "?c < sz s" using that by (auto simp: pick_child_def)
    then have "f (down (put pos (arr s ! ?c) s) m ?c) = f (put pos (arr s ! ?c) s)"
      using less by (intro less.hyps) (auto simp: put_simps intro!: nth_update_either [where P = "\<lambda>x. Q (tag s x)"])
    then show ?thesis using fr [of s "arr s ! ?c" pos] less.prems(1) c by simp
  qed
  then show ?case using fr less.prems(2) by (subst down_eq) auto
qed

text \<open>The timer queue writes the moved element into the slot before it compares.\<close>

definition refill_copy :: "'s \<Rightarrow> nat \<Rightarrow> nat \<Rightarrow> 's" where
  "refill_copy s n k =
     (let m = arr s ! n; s1 = put k m s
      in if lt s1 m (arr s1 ! par k) then up s1 m k else down s1 m k)"

lemma index_hole_put: "index_hole s n pos m \<Longrightarrow> pos < n \<Longrightarrow> n \<le> length (arr s) \<Longrightarrow> index_hole (put pos m s) n pos m"
proof -
  assume h: "index_hole s n pos m" and p: "pos < n" "n \<le> length (arr s)"
  let ?a = "(arr s)[pos := m]"
  have am: "?a ! pos = m" using p by simp
  have okm: "okn s m" using h p(1) am unfolding index_hole_def by metis
  have "idx (put pos m s) (?a ! i) = int i" if "i < n" "i \<noteq> pos" for i
  proof -
    have "tag s (?a ! i) \<noteq> tag s m"
      using tag_nth_inj [of s n ?a i pos] h p am that unfolding index_hole_def by auto
    then show ?thesis using put_idx [OF okm, of "?a ! i" pos] h that unfolding index_hole_def by auto
  qed
  then show ?thesis using h unfolding index_hole_def by (simp add: put_simps)
qed

lemma refill_copy_removes:
  assumes "good s (Suc n)" "sz s = n" "k < n"
  shows "removed s n k (refill_copy s n k)"
proof -
  let ?m = "arr s ! n"
  let ?s = "put k ?m s"
  have len: "Suc n \<le> length (arr s)" "n \<le> length (arr s)" using assms(1) by (auto simp: good_def)
  have b: "heap_but (lt s) (arr s) (Suc n) k" using good_good_but [OF assms(1)] assms(3) by (simp add: good_but_def)
  have okm: "okn s ?m" using assms(1) by (simp add: good_def)
  have swap: "mset (take (Suc n) ((arr s)[k := ?m, n := arr s ! k])) = mset (take (Suc n) (arr s))"
    using mset_take_swap [of k "Suc n" n "arr s" "arr s ! k"] assms(3) len by simp
  then have "distinct (map (tag s) (take (Suc n) ((arr s)[k := ?m, n := arr s ! k])))"
    using distinct_map_cong_mset assms(1) unfolding good_def by metis
  then have "distinct (map (tag s) (take n ((arr s)[k := ?m])))"
    using len assms(3) by (simp add: take_Suc_update)
  then have "index_hole s n k ?m"
    using assms(1,3) unfolding index_hole_def good_def by (auto simp: nth_list_update)
  then have hole: "index_hole ?s n k ?m" by (rule index_hole_put [OF _ assms(3) len(2)])
  have "sifted ?s n k ?m (refill_copy s n k)"
  proof (cases "lt ?s ?m (arr ?s ! par k)")
    case True
    have "(arr s)[k := ?m] ! k = ?m" using len assms(3) by simp
    then have k: "0 < k" using True strict_weak.irrefl [OF lt_weak, of s ?m]
      by (cases k) (auto simp: put_simps par_def)
    then have "par k \<noteq> k" by simp
    then have "up_hole (lt ?s) ((arr ?s)[k := ?m]) n k"
      using strict_weak.heap_but_up [OF lt_weak b assms(3) len(1), of ?m] True k by (simp add: put_simps)
    then show ?thesis
      using up_sifts [OF hole _ assms(3)] True len by (simp add: refill_copy_def Let_def put_simps)
  next
    case False
    have "0 < k \<Longrightarrow> \<not> lt s ?m (arr s ! par k)" using False by (simp add: put_simps)
    then have "down_hole (lt ?s) ((arr ?s)[k := ?m]) n k"
      using strict_weak.heap_but_down [OF lt_weak b assms(3) len(1)] by (simp add: put_simps)
    then show ?thesis
      using down_sifts [OF hole _ assms(3)] False len assms(2) by (simp add: refill_copy_def Let_def put_simps)
  qed
  moreover have "mset (take n ((arr s)[k := ?m])) + {#arr s ! k#} = mset (take (Suc n) (arr s))"
    using swap len assms(3) by (simp add: take_Suc_update)
  ultimately show ?thesis
    using put_bad [OF okm, of k] len assms(3) by (simp add: sifted_def removed_def put_simps)
qed

lemma refill_copy_keeps:
  assumes fr: "\<And>j a s. Q (tag s a) \<Longrightarrow> f (put j a s) = f s"
    and q: "\<forall>j \<le> sz s. Q (tag s (arr s ! j))" and k: "k < sz s"
  shows "f (refill_copy s (sz s) k) = f s"
proof -
  let ?m = "arr s ! sz s"
  let ?s = "put k ?m s"
  have e: "\<forall>j < sz ?s. Q (tag ?s (arr ?s ! j))" "Q (tag ?s ?m)" "f ?s = f s"
    using q fr [of s ?m k] by (auto simp: put_simps intro!: nth_update_either [where P = "\<lambda>x. Q (tag s x)"])
  have "f (up ?s ?m k) = f ?s" using up_keeps [of Q f k ?s ?m, OF fr] e k by (auto simp: put_sz)
  moreover have "f (down ?s ?m k) = f ?s" using down_keeps [of Q f ?s ?m k, OF fr] e by auto
  ultimately show ?thesis using e(3) by (simp add: refill_copy_def Let_def)
qed

lemma refill_copy_frame:
  assumes "\<And>i a s. f (put i a s) = f s"
  shows "f (refill_copy s n k) = f s"
  by (simp add: refill_copy_def Let_def assms up_frame [where f = f, OF assms] down_frame [where f = f, OF assms])

end

end
