(* ===== verification/BinHeap.thy ===== *)
theory BinHeap
  imports IndexedHeap
begin

text \<open>
  The binary heaps of \<^verbatim>\<open>ndk/heap.h\<close>: the abstract class \<^verbatim>\<open>heap\<close> with its derived classes
  \<^verbatim>\<open>min_heap\<close> and \<^verbatim>\<open>max_heap\<close>. An item is an address; the fields the heap touches
  (\<^verbatim>\<open>heap_idx_\<close> and the priority its comparison operators read) are stores indexed by
  addresses. The virtual calls are dispatched on \<open>heap_kind\<close>. Leaving the slot array, a null
  dereference and a failed \<^verbatim>\<open>assert\<close> are values of \<open>fault\<close>.
\<close>

section \<open>State and operations\<close>

datatype heap_kind = MinHeap | MaxHeap

record bin_heap =
  hp_max_size :: nat
  hp_size :: nat
  hp_heap :: "addr list"
  heap_idx :: "addr \<Rightarrow> int"
  priority :: "addr \<Rightarrow> int"

text \<open>The constructor; a negative capacity makes \<^verbatim>\<open>new[]\<close> throw. Items are built elsewhere with
  their own \<^verbatim>\<open>heap_idx_\<close> and priority.\<close>

definition hp_new :: "int \<Rightarrow> (addr \<Rightarrow> int) \<Rightarrow> (addr \<Rightarrow> int) \<Rightarrow> bin_heap option" where
  "hp_new max_size hidx pri =
     (if max_size < 0 then None
      else Some \<lparr>hp_max_size = nat max_size, hp_size = 0, hp_heap = replicate (nat max_size) null,
                 heap_idx = hidx, priority = pri\<rparr>)"

definition hp_destroy :: "bin_heap \<Rightarrow> bin_heap" where
  "hp_destroy h = h\<lparr>hp_heap := []\<rparr>"

definition hp_is_empty :: "bin_heap \<Rightarrow> bool" where
  "hp_is_empty h \<longleftrightarrow> hp_size h = 0"

definition hp_is_full :: "bin_heap \<Rightarrow> bool" where
  "hp_is_full h \<longleftrightarrow> hp_size h = hp_max_size h"

text \<open>\<^verbatim>\<open>(this->heap_[pos] = item)->heap_idx_ = pos\<close>\<close>

definition hp_put :: "nat \<Rightarrow> addr \<Rightarrow> bin_heap \<Rightarrow> bin_heap" where
  "hp_put pos item h = h\<lparr>hp_heap := (hp_heap h)[pos := item], heap_idx := (heap_idx h)(item := int pos)\<rparr>"

lemma hp_put_sel [simp]:
  "hp_max_size (hp_put i a h) = hp_max_size h" "hp_size (hp_put i a h) = hp_size h"
  "hp_heap (hp_put i a h) = (hp_heap h)[i := a]" "heap_idx (hp_put i a h) = (heap_idx h)(a := int i)"
  "priority (hp_put i a h) = priority h"
  by (simp_all add: hp_put_def)

function min_shift_up :: "bin_heap \<Rightarrow> addr \<Rightarrow> nat \<Rightarrow> bin_heap" where
  "min_shift_up h moved_item pos =
     (let parent = par pos in
      if 0 < pos \<and> priority h (hp_heap h ! parent) > priority h moved_item
      then min_shift_up (hp_put pos (hp_heap h ! parent) h) moved_item parent
      else hp_put pos moved_item h)"
  by pat_completeness auto
termination by (relation "measure (\<lambda>(h, m, pos). pos)") (auto simp: par_less)

function min_shift_down :: "bin_heap \<Rightarrow> addr \<Rightarrow> nat \<Rightarrow> bin_heap" where
  "min_shift_down h moved_item pos =
     (let lchild = 2 * pos + 1 in
      if lchild < hp_size h then
        (let c = (if lchild + 1 < hp_size h
                     \<and> priority h (hp_heap h ! lchild) > priority h (hp_heap h ! (lchild + 1))
                  then lchild + 1 else lchild) in
         if priority h moved_item \<le> priority h (hp_heap h ! c) then hp_put pos moved_item h
         else min_shift_down (hp_put pos (hp_heap h ! c) h) moved_item c)
      else hp_put pos moved_item h)"
  by pat_completeness auto
termination by (relation "measure (\<lambda>(h, m, pos). hp_size h - pos)") auto

function max_shift_up :: "bin_heap \<Rightarrow> addr \<Rightarrow> nat \<Rightarrow> bin_heap" where
  "max_shift_up h moved_item pos =
     (let parent = par pos in
      if 0 < pos \<and> priority h (hp_heap h ! parent) < priority h moved_item
      then max_shift_up (hp_put pos (hp_heap h ! parent) h) moved_item parent
      else hp_put pos moved_item h)"
  by pat_completeness auto
termination by (relation "measure (\<lambda>(h, m, pos). pos)") (auto simp: par_less)

function max_shift_down :: "bin_heap \<Rightarrow> addr \<Rightarrow> nat \<Rightarrow> bin_heap" where
  "max_shift_down h moved_item pos =
     (let lchild = 2 * pos + 1 in
      if lchild < hp_size h then
        (let c = (if lchild + 1 < hp_size h
                     \<and> priority h (hp_heap h ! lchild) < priority h (hp_heap h ! (lchild + 1))
                  then lchild + 1 else lchild) in
         if priority h moved_item \<ge> priority h (hp_heap h ! c) then hp_put pos moved_item h
         else max_shift_down (hp_put pos (hp_heap h ! c) h) moved_item c)
      else hp_put pos moved_item h)"
  by pat_completeness auto
termination by (relation "measure (\<lambda>(h, m, pos). hp_size h - pos)") auto

declare min_shift_up.simps [simp del] min_shift_down.simps [simp del]
  max_shift_up.simps [simp del] max_shift_down.simps [simp del]

text \<open>The virtual calls \<^verbatim>\<open>this->shift_up\<close> and \<^verbatim>\<open>this->shift_down\<close>.\<close>

definition shift_up :: "heap_kind \<Rightarrow> bin_heap \<Rightarrow> addr \<Rightarrow> nat \<Rightarrow> bin_heap" where
  "shift_up k = (case k of MinHeap \<Rightarrow> min_shift_up | MaxHeap \<Rightarrow> max_shift_up)"

definition shift_down :: "heap_kind \<Rightarrow> bin_heap \<Rightarrow> addr \<Rightarrow> nat \<Rightarrow> bin_heap" where
  "shift_down k = (case k of MinHeap \<Rightarrow> min_shift_down | MaxHeap \<Rightarrow> max_shift_down)"

definition push :: "heap_kind \<Rightarrow> addr \<Rightarrow> bin_heap \<Rightarrow> fault + (int \<times> bin_heap)" where
  "push k item h =
     (if hp_size h \<ge> hp_max_size h then Inr (-1, h)
      else if item = null then Inl NullDeref
      else Inr (0, shift_up k (h\<lparr>hp_size := Suc (hp_size h)\<rparr>) item (hp_size h)))"

definition pop :: "heap_kind \<Rightarrow> bin_heap \<Rightarrow> addr \<times> bin_heap" where
  "pop k h =
     (if hp_size h = 0 then (null, h)
      else (let item = hp_heap h ! 0; h' = h\<lparr>hp_size := hp_size h - 1\<rparr>
            in (item, shift_down k h' (hp_heap h ! hp_size h') 0)))"

definition min_pop_idx :: "int \<Rightarrow> bin_heap \<Rightarrow> fault + (addr \<times> bin_heap)" where
  "min_pop_idx idx h =
     (if hp_size h = 0 \<or> idx < 0 then Inr (null, h)
      else if idx \<ge> int (hp_max_size h) then Inl OutOfBounds
      else (let item = hp_heap h ! nat idx; h' = h\<lparr>hp_size := hp_size h - 1\<rparr>;
                parent = hp_heap h ! par (nat idx); lst = hp_heap h ! hp_size h'
            in if item = null then Inl NullDeref
               else if \<not> (heap_idx h item \<noteq> -1 \<and> idx = heap_idx h item) then Inl AssertFailed
               else if parent = null \<or> lst = null then Inl NullDeref
               else if priority h parent > priority h lst
               then Inr (item, min_shift_up h' lst (nat idx))
               else Inr (item, min_shift_down h' lst (nat idx))))"

definition max_pop_idx :: "int \<Rightarrow> bin_heap \<Rightarrow> fault + (addr \<times> bin_heap)" where
  "max_pop_idx idx h =
     (if hp_size h = 0 \<or> idx < 0 then Inr (null, h)
      else if idx \<ge> int (hp_max_size h) then Inl OutOfBounds
      else (let item = hp_heap h ! nat idx; h' = h\<lparr>hp_size := hp_size h - 1\<rparr>;
                parent = hp_heap h ! par (nat idx); lst = hp_heap h ! hp_size h'
            in if item = null then Inl NullDeref
               else if \<not> (heap_idx h item \<noteq> -1 \<and> idx = heap_idx h item) then Inl AssertFailed
               else if parent = null \<or> lst = null then Inl NullDeref
               else if priority h parent < priority h lst
               then Inr (item, max_shift_up h' lst (nat idx))
               else Inr (item, max_shift_down h' lst (nat idx))))"

definition pop_idx :: "heap_kind \<Rightarrow> int \<Rightarrow> bin_heap \<Rightarrow> fault + (addr \<times> bin_heap)" where
  "pop_idx k = (case k of MinHeap \<Rightarrow> min_pop_idx | MaxHeap \<Rightarrow> max_pop_idx)"

definition erase :: "heap_kind \<Rightarrow> addr \<Rightarrow> bin_heap \<Rightarrow> fault + (int \<times> bin_heap)" where
  "erase k item h =
     (if item = null then Inr (-1, h)
      else (case pop_idx k (heap_idx h item) h of
              Inl e \<Rightarrow> Inl e
            | Inr (p, h') \<Rightarrow> Inr (if p = null then -1 else 0, h')))"

definition adjust :: "heap_kind \<Rightarrow> addr \<Rightarrow> bin_heap \<Rightarrow> fault + (int \<times> bin_heap)" where
  "adjust k item h =
     (if item = null then Inr (-1, h)
      else if heap_idx h item < 0 \<or> heap_idx h item \<ge> int (hp_max_size h) then Inl OutOfBounds
      else if hp_heap h ! nat (heap_idx h item) \<noteq> item then Inl AssertFailed
      else (case pop_idx k (heap_idx h item) h of
              Inl e \<Rightarrow> Inl e
            | Inr (p, h') \<Rightarrow> push k item (h'\<lparr>heap_idx := (heap_idx h')(item := -1)\<rparr>)))"

text \<open>The debugging pass: an \<^verbatim>\<open>assert\<close> for every slot against its parent.\<close>

definition min_check :: "bin_heap \<Rightarrow> fault + unit" where
  "min_check h = (if list_all (\<lambda>i. priority h (hp_heap h ! i) \<ge> priority h (hp_heap h ! par i)) [0..<hp_size h]
                  then Inr () else Inl AssertFailed)"

definition max_check :: "bin_heap \<Rightarrow> fault + unit" where
  "max_check h = (if list_all (\<lambda>i. priority h (hp_heap h ! i) \<le> priority h (hp_heap h ! par i)) [0..<hp_size h]
                  then Inr () else Inl AssertFailed)"

definition hp_check :: "heap_kind \<Rightarrow> bin_heap \<Rightarrow> fault + unit" where
  "hp_check k = (case k of MinHeap \<Rightarrow> min_check | MaxHeap \<Rightarrow> max_check)"

section \<open>Invariant\<close>

definition hp_lt :: "heap_kind \<Rightarrow> bin_heap \<Rightarrow> addr \<Rightarrow> addr \<Rightarrow> bool" where
  "hp_lt k h a b = (case k of MinHeap \<Rightarrow> priority h a < priority h b | MaxHeap \<Rightarrow> priority h b < priority h a)"

definition hp_items :: "bin_heap \<Rightarrow> addr multiset" where
  "hp_items h = mset (take (hp_size h) (hp_heap h))"

definition hp_ok :: "heap_kind \<Rightarrow> bin_heap \<Rightarrow> bool" where
  "hp_ok k h \<longleftrightarrow> length (hp_heap h) = hp_max_size h \<and> hp_size h \<le> hp_max_size h
     \<and> heap_on (hp_lt k h) (hp_heap h) (hp_size h)
     \<and> distinct (take (hp_size h) (hp_heap h))
     \<and> (\<forall>i < hp_size h. hp_heap h ! i \<noteq> null \<and> heap_idx h (hp_heap h ! i) = int i)"

lemma hp_lt_simps [simp]:
  "hp_lt k (hp_put i a h) = hp_lt k h" "hp_lt k (h\<lparr>hp_size := n\<rparr>) = hp_lt k h"
  "hp_lt k (h\<lparr>heap_idx := f\<rparr>) = hp_lt k h"
  by (simp_all add: hp_lt_def fun_eq_iff split: heap_kind.splits)

lemma hp_lt_weak: "strict_weak (hp_lt k h)"
  by unfold_locales (auto simp: hp_lt_def split: heap_kind.splits)

lemma shift_up_eq:
  "shift_up k s m pos =
     (if 0 < pos \<and> hp_lt k s m (hp_heap s ! par pos)
      then shift_up k (hp_put pos (hp_heap s ! par pos) s) m (par pos) else hp_put pos m s)"
  by (cases k) (simp_all add: shift_up_def hp_lt_def min_shift_up.simps [of s m pos]
        max_shift_up.simps [of s m pos] Let_def)

lemma shift_down_eq:
  "shift_down k s m pos =
     (if 2 * pos + 1 < hp_size s
         \<and> hp_lt k s (hp_heap s ! pick_child (hp_lt k s) (hp_heap s) (hp_size s) (2 * pos + 1)) m
      then shift_down k (hp_put pos (hp_heap s ! pick_child (hp_lt k s) (hp_heap s) (hp_size s) (2 * pos + 1)) s) m
             (pick_child (hp_lt k s) (hp_heap s) (hp_size s) (2 * pos + 1))
      else hp_put pos m s)"
  by (cases k) (simp_all add: shift_down_def hp_lt_def min_shift_down.simps [of s m pos]
        max_shift_down.simps [of s m pos] Let_def pick_child_def not_le)

definition hp_item :: "bin_heap \<Rightarrow> addr \<Rightarrow> bool" where
  "hp_item h a \<longleftrightarrow> a \<noteq> null"

interpretation hpi: indexed_heap hp_heap heap_idx "\<lambda>h a. a" hp_item "\<lambda>h. False" "hp_lt k" hp_size
  hp_put "shift_up k" "shift_down k"
  by (unfold_locales; (rule shift_up_eq | rule shift_down_eq | rule strict_weak.asym [OF hp_lt_weak], assumption
      | rule strict_weak.neg_trans [OF hp_lt_weak], assumption, assumption
      | simp add: fun_eq_iff hp_item_def))

lemma hp_ok_good:
  "hp_ok k h \<longleftrightarrow> length (hp_heap h) = hp_max_size h \<and> hp_size h \<le> hp_max_size h \<and> hpi.good k h (hp_size h)"
  by (auto simp: hp_ok_def hpi.good_def hp_item_def)

lemma hp_good_resize: "hpi.good k (h\<lparr>hp_size := m\<rparr>) n = hpi.good k h n"
  by (simp add: hpi.good_def hp_item_def)

lemma shift_frame [simp]:
  "hp_max_size (shift_up k h m i) = hp_max_size h" "priority (shift_up k h m i) = priority h"
  "hp_max_size (shift_down k h m i) = hp_max_size h" "priority (shift_down k h m i) = priority h"
  by (simp_all add: hpi.up_frame hpi.down_frame)

text \<open>The indexed pop of either class, once its checks have passed, is the refill of the slot.\<close>

lemma pop_idx_refill:
  assumes "length (hp_heap h) = hp_max_size h" "i < hp_size h" "hp_size h \<le> hp_max_size h"
    and "hp_heap h ! i \<noteq> null" "heap_idx h (hp_heap h ! i) = int i"
    and "hp_heap h ! par i \<noteq> null" "hp_heap h ! (hp_size h - 1) \<noteq> null"
  shows "pop_idx k (int i) h =
    Inr (hp_heap h ! i, hpi.refill k (h\<lparr>hp_size := hp_size h - 1\<rparr>) (hp_size h - 1) i)"
  using assms unfolding hpi.refill_def
  by (cases k) (simp_all add: pop_idx_def min_pop_idx_def max_pop_idx_def hp_lt_def
      shift_up_def shift_down_def Let_def)

lemma hp_removed:
  assumes "hpi.removed k (h\<lparr>hp_size := n\<rparr>) n i h'" "hp_size h = Suc n"
    and "length (hp_heap h) = hp_max_size h" "Suc n \<le> hp_max_size h" "hp_max_size h' = hp_max_size h"
  shows "hp_ok k h'" "hp_items h = add_mset (hp_heap h ! i) (hp_items h')" "hp_size h' = n"
proof -
  have "hp_size h' = n" "hpi.good k h' n" "length (hp_heap h') = length (hp_heap h)"
    and m: "mset (take n (hp_heap h')) + {#hp_heap h ! i#} = mset (take (Suc n) (hp_heap h))"
    using assms(1) by (simp_all add: hpi.removed_def)
  then show "hp_ok k h'" "hp_items h = add_mset (hp_heap h ! i) (hp_items h')" "hp_size h' = n"
    using assms(2-5) by (simp_all add: hp_ok_good hp_items_def)
qed

lemma refill_max_size [simp]: "hp_max_size (hpi.refill k h n i) = hp_max_size h"
  by (rule hpi.refill_frame) simp

lemma refill_priority [simp]: "priority (hpi.refill k h n i) = priority h"
  by (rule hpi.refill_frame) simp

lemma hp_ok_nth:
  "hp_ok k h \<Longrightarrow> i < hp_size h \<Longrightarrow> hp_heap h ! i \<noteq> null \<and> heap_idx h (hp_heap h ! i) = int i
     \<and> hp_heap h ! par i \<noteq> null \<and> hp_heap h ! (hp_size h - 1) \<noteq> null"
  using par_le [of i] by (auto simp: hp_ok_def)

text \<open>Popping the slot at an index in use.\<close>

lemma pop_idx_ok:
  assumes "hp_ok k h" "i < hp_size h"
  obtains h' where "pop_idx k (int i) h = Inr (hp_heap h ! i, h')" "hp_ok k h'"
    "hp_items h = add_mset (hp_heap h ! i) (hp_items h')" "priority h' = priority h"
    "hp_max_size h' = hp_max_size h" "hp_size h = Suc (hp_size h')"
proof -
  obtain n where n: "hp_size h = Suc n" using assms(2) by (cases "hp_size h") auto
  let ?h = "h\<lparr>hp_size := n\<rparr>" and ?h' = "hpi.refill k (h\<lparr>hp_size := n\<rparr>) n i"
  have len: "length (hp_heap h) = hp_max_size h" "Suc n \<le> hp_max_size h"
    using assms(1) n by (auto simp: hp_ok_def)
  have "hpi.good k ?h (Suc n)" using assms(1) n by (simp add: hp_good_resize hp_ok_good)
  then have "hpi.removed k ?h n i ?h'"
    using assms(2) n by (intro hpi.refill_removes) auto
  note r = hp_removed [OF this n len]
  have "pop_idx k (int i) h = Inr (hp_heap h ! i, ?h')"
    using pop_idx_refill [OF len(1) assms(2), of k] hp_ok_nth [OF assms] len n by simp
  then show ?thesis using that [of ?h'] r n by simp
qed

lemma hp_items_nth:
  "a \<in># hp_items h \<Longrightarrow> hp_ok k h \<Longrightarrow> heap_idx h a \<ge> 0 \<and> nat (heap_idx h a) < hp_size h
     \<and> hp_heap h ! nat (heap_idx h a) = a \<and> a \<noteq> null"
  by (auto simp: hp_items_def hp_ok_def in_set_conv_nth)

lemma hp_ok_outside:
  "hp_ok k h \<Longrightarrow> a \<notin># hp_items h \<Longrightarrow> hp_ok k (h\<lparr>heap_idx := (heap_idx h)(a := v)\<rparr>)"
  by (auto simp: hp_ok_def hp_items_def in_set_conv_nth)

lemma hp_items_idx [simp]: "hp_items (h\<lparr>heap_idx := f\<rparr>) = hp_items h"
  by (simp add: hp_items_def)

lemma push_full: "hp_size h = hp_max_size h \<Longrightarrow> push k item h = Inr (-1, h)"
  by (simp add: push_def)

lemma push_ok:
  assumes "hp_ok k h" "item \<noteq> null" "item \<notin># hp_items h" "hp_size h < hp_max_size h"
  obtains h' where "push k item h = Inr (0, h')" "hp_ok k h'" "hp_items h' = add_mset item (hp_items h)"
    "priority h' = priority h" "hp_max_size h' = hp_max_size h" "hp_size h' = Suc (hp_size h)"
proof -
  let ?n = "hp_size h"
  let ?h = "h\<lparr>hp_size := Suc ?n\<rparr>"
  have s: "hpi.sifted k ?h (Suc ?n) ?n item (shift_up k ?h item ?n)"
    by (rule hpi.insert_sifts) (use assms in \<open>auto simp: hp_good_resize hp_ok_good hp_item_def hp_items_def\<close>)
  moreover have "mset (take (Suc ?n) ((hp_heap h)[?n := item])) = add_mset item (hp_items h)"
    using assms(1,4) by (simp add: take_Suc_update hp_items_def hp_ok_def)
  ultimately have "hp_ok k (shift_up k ?h item ?n)" "hp_size (shift_up k ?h item ?n) = Suc ?n"
    "hp_items (shift_up k ?h item ?n) = add_mset item (hp_items h)"
    using assms(1,4) by (simp_all add: hpi.sifted_def hp_ok_good hp_items_def)
  then show ?thesis using that [of "shift_up k ?h item ?n"] assms(2,4) by (simp add: push_def)
qed

lemma pop_is_pop_idx:
  assumes "hp_ok k h" "0 < hp_size h"
  shows "pop_idx k 0 h = Inr (pop k h)"
proof -
  obtain n where n: "hp_size h = Suc n" using assms(2) by (cases "hp_size h") auto
  have "hpi.good k (h\<lparr>hp_size := n\<rparr>) (Suc n)"
    using assms(1) n by (simp add: hp_good_resize hp_ok_good)
  from hpi.refill_root [OF this] show ?thesis
    using pop_idx_refill [of h 0 k] hp_ok_nth [OF assms] assms n
    by (simp add: pop_def hp_ok_def)
qed

text \<open>A heap in which the item has got a new priority: the order of the other slots is the old
  one.\<close>

lemma heap_but_reprioritised:
  assumes "hp_ok k (h\<lparr>priority := p0\<rparr>)" "i < hp_size h"
    and "\<And>a. a \<noteq> hp_heap h ! i \<Longrightarrow> p0 a = priority h a"
  shows "heap_but (hp_lt k h) (hp_heap h) (hp_size h) i"
proof -
  let ?h0 = "h\<lparr>priority := p0\<rparr>"
  have d: "distinct (take (hp_size h) (hp_heap h))" and len: "hp_size h \<le> length (hp_heap h)"
    and hp: "heap_on (hp_lt k ?h0) (hp_heap h) (hp_size h)"
    using assms(1) by (auto simp: hp_ok_def)
  have "hp_heap h ! j \<noteq> hp_heap h ! i" if "j < hp_size h" "j \<noteq> i" for j
    using nth_eq_iff_index_eq [OF d, of j i] that assms(2) len by simp
  then have lt: "hp_lt k ?h0 (hp_heap h ! j) (hp_heap h ! l) = hp_lt k h (hp_heap h ! j) (hp_heap h ! l)"
    if "j < hp_size h" "l < hp_size h" "j \<noteq> i" "l \<noteq> i" for j l
    using that assms(3) by (simp add: hp_lt_def split: heap_kind.splits)
  have p: "j < hp_size h \<Longrightarrow> par j < hp_size h" for j using par_le [of j] by simp
  have "heap_but (hp_lt k ?h0) (hp_heap h) (hp_size h) i"
    using strict_weak.heap_on_but [OF hp_lt_weak hp assms(2)] .
  then show ?thesis
    using lt p assms(2) unfolding heap_but_def by (metis par_neq(1))
qed

lemma adjust_ok:
  assumes "hp_ok k (h\<lparr>priority := p0\<rparr>)" "item \<in># hp_items h"
    and p0: "\<And>a. a \<noteq> item \<Longrightarrow> p0 a = priority h a"
    and i: "i = nat (heap_idx h item)"
    and edge: "i = 0 \<or> i = hp_size h - 1 \<Longrightarrow> \<not> hp_lt k h (hp_heap h ! (hp_size h - 1)) (hp_heap h ! par i)"
  obtains h' where "adjust k item h = Inr (0, h')" "hp_ok k h'" "hp_items h' = hp_items h"
    "priority h' = priority h"
proof -
  have it: "heap_idx h item = int i" "i < hp_size h" "hp_heap h ! i = item" "item \<noteq> null"
    using hp_items_nth [of item "h\<lparr>priority := p0\<rparr>" k] assms(1,2) i by (auto simp: hp_items_def)
  obtain n where n: "hp_size h = Suc n" using it(2) by (cases "hp_size h") auto
  let ?h = "h\<lparr>hp_size := n\<rparr>" and ?h' = "hpi.refill k (h\<lparr>hp_size := n\<rparr>) n i"
  have len: "length (hp_heap h) = hp_max_size h" "Suc n \<le> hp_max_size h"
    and nth: "\<And>j. j < Suc n \<Longrightarrow> hp_heap h ! j \<noteq> null \<and> heap_idx h (hp_heap h ! j) = int j"
    using assms(1) n by (auto simp: hp_ok_def)
  have "hpi.good_but k ?h (Suc n) i"
    using heap_but_reprioritised [OF assms(1) it(2)] p0 it(3) assms(1) n
    by (simp add: hpi.good_but_def hp_ok_def hp_item_def)
  then have "hpi.removed k ?h n i ?h'"
    using it(2) n edge by (intro hpi.refill_removes_but) auto
  note r = hp_removed [OF this n len]
  let ?h2 = "?h'\<lparr>heap_idx := (heap_idx ?h')(item := -1)\<rparr>"
  have items: "hp_items h = add_mset item (hp_items ?h')" using r(2) it by simp
  have "item \<notin># hp_items ?h'"
  proof
    assume "item \<in># hp_items ?h'"
    then have "Multiset.count (hp_items h) item > 1" using items by (simp add: not_in_iff)
    moreover have "distinct (take (hp_size h) (hp_heap h))" using assms(1) by (simp add: hp_ok_def)
    ultimately show False by (simp add: hp_items_def distinct_count_atmost_1 split: if_splits)
  qed
  then have ok2: "hp_ok k ?h2" "item \<notin># hp_items ?h2"
    using hp_ok_outside [OF r(1)] by auto
  have full: "hp_size ?h2 < hp_max_size ?h2" using r(3) len by simp
  obtain h'' where h'': "push k item ?h2 = Inr (0, h'')" "hp_ok k h''"
    "hp_items h'' = add_mset item (hp_items ?h2)" "priority h'' = priority ?h2"
    by (rule push_ok [OF ok2(1) it(4) ok2(2) full])
  have "pop_idx k (int i) h = Inr (hp_heap h ! i, ?h')"
    using pop_idx_refill [OF len(1) it(2), of k] len n nth it par_le [of i] by simp
  then have "adjust k item h = Inr (0, h'')"
    using h''(1) it len n by (simp add: adjust_def)
  then show ?thesis
    using that [of h''] h'' items by (simp add: hp_items_def)
qed

lemma pop_ok:
  assumes "hp_ok k h" "0 < hp_size h" "pop k h = (item, h')"
  shows "item \<in># hp_items h \<and> (\<forall>a \<in># hp_items h. \<not> hp_lt k h a item)
     \<and> hp_ok k h' \<and> hp_items h = add_mset item (hp_items h') \<and> priority h' = priority h"
proof -
  obtain h'' where "pop_idx k (int 0) h = Inr (hp_heap h ! 0, h'')" "hp_ok k h''"
    "hp_items h = add_mset (hp_heap h ! 0) (hp_items h'')" "priority h'' = priority h"
    by (rule pop_idx_ok [OF assms(1,2)])
  moreover have "\<forall>a \<in># hp_items h. \<not> hp_lt k h a (hp_heap h ! 0)"
    using hpi.good_root [of k h "hp_size h"] assms(1) by (simp add: hp_items_def hp_ok_good)
  ultimately show ?thesis using pop_is_pop_idx [OF assms(1,2)] assms(3) by simp
qed

section \<open>Properties\<close>

text \<open>C12: A push refuses an item only when the heap is full (-1, nothing changed); otherwise it
  returns 0, keeps the heap in order with exact back indices, and adds exactly the item.\<close>

theorem push_correct:
  assumes "hp_ok k h" "item \<noteq> null" "item \<notin># hp_items h"
  shows "if hp_size h = hp_max_size h then push k item h = Inr (-1, h)
         else \<exists>h'. push k item h = Inr (0, h') \<and> hp_ok k h' \<and> hp_items h' = add_mset item (hp_items h)
                \<and> priority h' = priority h \<and> hp_max_size h' = hp_max_size h"
proof (cases "hp_size h = hp_max_size h")
  case False
  then have "hp_size h < hp_max_size h" using assms(1) by (simp add: hp_ok_def)
  from push_ok [OF assms this] False show ?thesis by (metis (no_types))
qed (simp add: push_full)

text \<open>C13: Popping returns null on an empty heap; otherwise it takes out exactly one item, one
  that no other item precedes (a least one in a min heap, a greatest one in a max heap), and
  the rest is again a heap.\<close>

theorem pop_correct:
  assumes "hp_ok k h" "pop k h = (item, h')"
  shows "if hp_size h = 0 then item = null \<and> h' = h
         else item \<in># hp_items h \<and> (\<forall>a \<in># hp_items h. \<not> hp_lt k h a item)
              \<and> hp_ok k h' \<and> hp_items h = add_mset item (hp_items h') \<and> priority h' = priority h"
proof (cases "hp_size h = 0")
  case False
  then show ?thesis using pop_ok [OF assms(1) _ assms(2)] by simp
qed (use assms in \<open>simp add: pop_def\<close>)

text \<open>Emptying a heap by repeated \<^verbatim>\<open>pop()\<close>, as the debugging code of \<^verbatim>\<open>check\<close> does.\<close>

function hp_drain :: "heap_kind \<Rightarrow> bin_heap \<Rightarrow> addr list" where
  "hp_drain k h = (if hp_size h = 0 then [] else fst (pop k h) # hp_drain k (snd (pop k h)))"
  by pat_completeness auto

lemma pop_size: "hp_size (snd (pop k h)) = hp_size h - 1"
  by (simp add: pop_def Let_def hpi.down_frame [where f = hp_size])

termination hp_drain by (relation "measure (\<lambda>(k, h). hp_size h)") (auto simp: pop_size)

declare hp_drain.simps [simp del]

text \<open>Emptying a heap by popping delivers every item exactly once, in priority order.\<close>

theorem hp_drain_sorted:
  "hp_ok k h \<Longrightarrow> mset (hp_drain k h) = hp_items h \<and> sorted_wrt (\<lambda>a b. \<not> hp_lt k h b a) (hp_drain k h)"
proof (induction k h rule: hp_drain.induct)
  case (1 k h)
  show ?case
  proof (cases "hp_size h = 0")
    case True
    then show ?thesis by (simp add: hp_drain.simps hp_items_def)
  next
    case False
    obtain item h' where p: "pop k h = (item, h')" by fastforce
    have c: "\<forall>a \<in># hp_items h. \<not> hp_lt k h a item" "hp_ok k h'" "hp_items h = add_mset item (hp_items h')"
      "priority h' = priority h" using pop_ok [OF 1(2) _ p] False by auto
    have "hp_lt k h' = hp_lt k h" using c(4) by (simp add: hp_lt_def fun_eq_iff split: heap_kind.splits)
    moreover have d: "hp_drain k h = item # hp_drain k h'"
      using False p by (simp add: hp_drain.simps [of k h])
    moreover have ih: "mset (hp_drain k h') = hp_items h'"
      "sorted_wrt (\<lambda>a b. \<not> hp_lt k h' b a) (hp_drain k h')"
      using 1(1) False p c(2) by auto
    ultimately show ?thesis
      using c(1,3) set_mset_mset [of "hp_drain k h'"] by simp
  qed
qed

text \<open>Erasing an item that is in the heap succeeds and takes out that item and no other.\<close>

theorem erase_correct:
  assumes "hp_ok k h" "item \<in># hp_items h"
  shows "\<exists>h'. erase k item h = Inr (0, h') \<and> hp_ok k h' \<and> hp_items h = add_mset item (hp_items h')"
proof -
  have i: "heap_idx h item \<ge> 0" "nat (heap_idx h item) < hp_size h"
    "hp_heap h ! nat (heap_idx h item) = item" "item \<noteq> null"
    using hp_items_nth [OF assms(2,1)] by auto
  show ?thesis
    by (rule pop_idx_ok [OF assms(1) i(2)]) (use i in \<open>auto simp: erase_def\<close>)
qed

text \<open>Finding. \<^verbatim>\<open>pop\<close> and \<^verbatim>\<open>erase\<close> leave the \<^verbatim>\<open>heap_idx_\<close> of the item they take out as it was, and
  \<^verbatim>\<open>erase\<close> trusts it: erasing an item that is no longer in the heap, with a stale index below the
  current size, reports success and takes out the other item that now sits at that index.\<close>

theorem erase_stale_takes_other:
  assumes "hp_ok k h" "item \<noteq> null" "item \<notin># hp_items h" "heap_idx h item = int i" "i < hp_size h"
  shows "\<exists>h'. erase k item h = Inr (0, h') \<and> hp_heap h ! i \<noteq> item
           \<and> hp_items h = add_mset (hp_heap h ! i) (hp_items h')"
proof -
  have "hp_heap h ! i \<in># hp_items h" "hp_heap h ! i \<noteq> null"
    using assms(1,5) by (auto simp: hp_items_def hp_ok_def in_set_conv_nth)
  moreover obtain h' where "pop_idx k (int i) h = Inr (hp_heap h ! i, h')"
    "hp_items h = add_mset (hp_heap h ! i) (hp_items h')"
    by (rule pop_idx_ok [OF assms(1,5)])
  ultimately show ?thesis using assms(2-4) by (auto simp: erase_def)
qed

text \<open>C20: \<^verbatim>\<open>adjust\<close>, called after the priority of one item was changed at will, restores a heap of
  the same items, provided the item sits neither at the root nor in the last slot; there it
  needs that the comparison of the last item with the parent slot does not turn out less.\<close>

theorem adjust_correct:
  assumes "hp_ok k (h\<lparr>priority := p0\<rparr>)" "item \<in># hp_items h"
    and "\<forall>a. a \<noteq> item \<longrightarrow> p0 a = priority h a"
    and "i = nat (heap_idx h item)"
    and "i = 0 \<or> i = hp_size h - 1 \<longrightarrow>
           \<not> hp_lt k h (hp_heap h ! (hp_size h - 1)) (hp_heap h ! par i)"
  shows "\<exists>h'. adjust k item h = Inr (0, h') \<and> hp_ok k h' \<and> hp_items h' = hp_items h
           \<and> priority h' = priority h"
proof -
  have p0: "a \<noteq> item \<Longrightarrow> p0 a = priority h a" for a using assms(3) by simp
  have edge: "i = 0 \<or> i = hp_size h - 1 \<Longrightarrow>
    \<not> hp_lt k h (hp_heap h ! (hp_size h - 1)) (hp_heap h ! par i)" using assms(5) by simp
  show ?thesis by (rule adjust_ok [OF assms(1,2) p0 assms(4) edge]) blast+
qed

text \<open>A heap of the items 1 to \<open>n\<close> in their slots, with given priorities.\<close>

definition hp_demo :: "nat \<Rightarrow> nat \<Rightarrow> (addr \<Rightarrow> int) \<Rightarrow> bin_heap" where
  "hp_demo cap n pri = \<lparr>hp_max_size = cap, hp_size = n, hp_heap = map Suc [0..<n] @ replicate (cap - n) 0,
     heap_idx = (\<lambda>a. int a - 1), priority = pri\<rparr>"

lemma hp_demo_sel [simp]:
  "hp_size (hp_demo cap n pri) = n" "hp_max_size (hp_demo cap n pri) = cap"
  "hp_heap (hp_demo cap n pri) = map Suc [0..<n] @ replicate (cap - n) 0"
  "heap_idx (hp_demo cap n pri) a = int a - 1" "priority (hp_demo cap n pri) = pri"
  "hp_items (hp_demo cap n pri) = mset (map Suc [0..<n])"
  "(hp_demo cap n pri)\<lparr>priority := pri'\<rparr> = hp_demo cap n pri'"
  by (simp_all add: hp_items_def hp_demo_def)

lemma hp_demo_ok:
  assumes "n \<le> cap"
  shows "hp_ok MinHeap (hp_demo cap n int)"
proof -
  have "par i < n" if "i < n" for i using that par_le [of i] by simp
  then show ?thesis
    using assms par_le
    by (auto simp: hp_ok_def heap_on_def hp_lt_def nth_append distinct_map not_less)
qed

lemmas demo_num = numeral_2_eq_2 numeral_3_eq_3

lemma push_correct_witness:
  "\<exists>h'. push MinHeap 4 (hp_demo 5 3 int) = Inr (0, h') \<and> hp_ok MinHeap h'
     \<and> hp_items h' = add_mset 4 (hp_items (hp_demo 5 3 int))"
  using push_correct [OF hp_demo_ok, of 3 5 4] by (simp add: image_iff) blast

lemma pop_correct_witness:
  "hp_ok MinHeap (snd (pop MinHeap (hp_demo 5 3 int)))"
  using pop_correct [OF hp_demo_ok surjective_pairing, of 3 5] by simp

lemma hp_drain_sorted_witness:
  "mset (hp_drain MinHeap (hp_demo 5 3 int)) = {#1, 2, 3#}"
  using hp_drain_sorted [OF hp_demo_ok, of 3 5] by (simp add: upt_rec demo_num)

lemma erase_correct_witness:
  "\<exists>h'. erase MinHeap 2 (hp_demo 5 3 int) = Inr (0, h')
     \<and> mset (map Suc [0..<3]) = add_mset 2 (hp_items h')"
  using erase_correct [OF hp_demo_ok, of 3 5 2] by (fastforce simp: image_iff)

lemma erase_stale_takes_other_witness:
  "\<exists>h'. erase MinHeap 9 ((hp_demo 5 3 int)\<lparr>heap_idx := (heap_idx (hp_demo 5 3 int))(9 := 0)\<rparr>) = Inr (0, h')
     \<and> mset (map Suc [0..<3]) = add_mset 1 (hp_items h')"
proof -
  let ?h = "(hp_demo 5 3 int)\<lparr>heap_idx := (heap_idx (hp_demo 5 3 int))(9 := 0)\<rparr>"
  have "hp_ok MinHeap ?h" by (rule hp_ok_outside [OF hp_demo_ok]) auto
  from erase_stale_takes_other [OF this, of 9 0] show ?thesis
    by (auto simp: nth_append)
qed

lemma adjust_correct_witness:
  "\<exists>h'. adjust MinHeap 2 (hp_demo 5 3 (int(2 := 7))) = Inr (0, h') \<and> hp_ok MinHeap h'"
  using adjust_correct [of MinHeap _ _ 2 1, where h = "hp_demo 5 3 (int(2 := 7))" and ?p0.0 = int] hp_demo_ok [of 3 5]
  by (auto simp: image_iff)

lemma hp_check_iff: "hp_check k h = Inr () \<longleftrightarrow> heap_on (hp_lt k h) (hp_heap h) (hp_size h)"
proof -
  have eq: "(\<forall>i < n. \<not> hp_lt k h (hp_heap h ! i) (hp_heap h ! par i)) \<longleftrightarrow> heap_on (hp_lt k h) (hp_heap h) n" for n
    unfolding heap_on_def by (metis bot_nat_0.not_eq_extremum le_zero_eq par_le strict_weak.irrefl [OF hp_lt_weak])
  show ?thesis
    unfolding eq [symmetric]
    by (cases k) (auto simp: hp_check_def min_check_def max_check_def hp_lt_def list_all_iff not_less)
qed

lemma hp_ok_check: "hp_ok k h \<Longrightarrow> hp_check k h = Inr ()"
  by (simp add: hp_check_iff hp_ok_def)

lemma adjust_root_run:
  "case adjust MinHeap 1 (hp_demo 3 3 (int(1 := 9))) of
     Inl e \<Rightarrow> False
   | Inr (r, h') \<Rightarrow> r = 0 \<and> hp_check MinHeap h' = Inl AssertFailed \<and> fst (pop MinHeap h') = 3"
  by code_simp

lemma adjust_last_run:
  "case adjust MinHeap 3 (hp_demo 3 3 (int(3 := 0))) of
     Inl e \<Rightarrow> False
   | Inr (r, h') \<Rightarrow> r = 0 \<and> take (hp_size h') (hp_heap h') = [3, 2, 3]"
  by code_simp

text \<open>Finding. When the priority of the root is raised, \<^verbatim>\<open>adjust\<close> compares the root with the last
  item, takes the \<^verbatim>\<open>shift_up\<close> branch and leaves that item at the root without sifting it down:
  the result is not a heap, and the next \<^verbatim>\<open>pop\<close> does not return a least item.\<close>

theorem adjust_root_breaks_order:
  "\<exists>h'. adjust MinHeap 1 (hp_demo 3 3 (int(1 := 9))) = Inr (0, h')
     \<and> \<not> hp_ok MinHeap h' \<and> hp_check MinHeap h' = Inl AssertFailed \<and> fst (pop MinHeap h') = 3"
  using adjust_root_run hp_ok_check [of MinHeap] by (auto split: sum.splits)

text \<open>Finding. When the priority of the last item is lowered below its parent's, \<^verbatim>\<open>adjust\<close> sifts
  the item up while popping it, which pushes the parent out of the used slots; the item is then
  pushed a second time. The heap has lost one item and holds the other twice.\<close>

theorem adjust_last_loses_item:
  "\<exists>h'. adjust MinHeap 3 (hp_demo 3 3 (int(3 := 0))) = Inr (0, h') \<and> hp_items h' = {#2, 3, 3#}"
  using adjust_last_run by (auto simp: hp_items_def split: sum.splits)

end
