(* ===== verification/TimerQueue.thy ===== *)
theory TimerQueue
  imports IndexedHeap TimeValue
begin

text \<open>
  \<^verbatim>\<open>ndk/timer_queue.h\<close>, \<^verbatim>\<open>ndk/timer_queue.cpp\<close>: the timer queue of the reactors. Its state has
  the heap of node pointers ordered by expiry time, the array \<^verbatim>\<open>timer_ids_\<close> that maps a timer id
  to its heap slot, two free lists and the list of crontab timers. Nodes live in a store
  indexed by address; \<open>tq_fresh\<close> is the next address \<^verbatim>\<open>new\<close> returns. A failed \<^verbatim>\<open>assert\<close>, a null
  dereference or an access outside an array is recorded in \<open>tq_fault\<close> (the first one stays).
  The crontab parser is in theory \<open>Cron\<close>.
\<close>

section \<open>Nodes and state\<close>

definition GENERAL_TIMER :: int where "GENERAL_TIMER = 17"
definition CRONTAB_TIMER :: int where "CRONTAB_TIMER = 18"

text \<open>The five arrays of flags of a crontab entry: minute, hour, day, month, weekday.\<close>

type_synonym cron_entry = "bool list list"

record timer_node =
  tn_timer_id :: int
  tn_type :: int
  crontab_entry :: "cron_entry option"
  tn_handler :: addr
  tn_arg :: addr
  timer_value :: time_value
  tn_interval :: time_value
  tn_prev :: addr
  tn_next :: addr

definition timer_node_new :: timer_node where
  "timer_node_new = \<lparr>tn_timer_id = -1, tn_type = GENERAL_TIMER, crontab_entry = None, tn_handler = null,
     tn_arg = null, timer_value = tv_zero, tn_interval = tv_zero, tn_prev = null, tn_next = null\<rparr>"

definition release_cron_entry :: "timer_node \<Rightarrow> timer_node" where
  "release_cron_entry n = n\<lparr>crontab_entry := None\<rparr>"

definition MINUTE_COUNT :: nat where "MINUTE_COUNT = 60"
definition HOUR_COUNT :: nat where "HOUR_COUNT = 24"
definition MDAY_COUNT :: nat where "MDAY_COUNT = 32"
definition MONTH_COUNT :: nat where "MONTH_COUNT = 13"
definition WDAY_COUNT :: nat where "WDAY_COUNT = 8"

definition alloc_cron_entry :: "timer_node \<Rightarrow> timer_node" where
  "alloc_cron_entry n = n\<lparr>crontab_entry := Some [replicate MINUTE_COUNT False, replicate HOUR_COUNT False,
     replicate MDAY_COUNT False, replicate MONTH_COUNT False, replicate WDAY_COUNT False]\<rparr>"

definition tn_set :: "int \<Rightarrow> addr \<Rightarrow> addr \<Rightarrow> time_value \<Rightarrow> time_value \<Rightarrow> timer_node \<Rightarrow> timer_node" where
  "tn_set timer_id handler arg t i n =
     n\<lparr>tn_timer_id := timer_id, tn_handler := handler, tn_arg := arg, timer_value := t, tn_interval := i,
       tn_prev := null, tn_next := null\<rparr>"

text \<open>\<^verbatim>\<open>timer_node::operator =\<close>; the crontab arrays are copied only when both sides have them.\<close>

definition tn_assign :: "timer_node \<Rightarrow> timer_node \<Rightarrow> timer_node" where
  "tn_assign this tn = tn\<lparr>crontab_entry :=
     (if crontab_entry tn \<noteq> None \<and> crontab_entry this \<noteq> None then crontab_entry tn else crontab_entry this)\<rparr>"

record timer_queue =
  tq_max_size :: int
  tq_curr_size :: nat
  timer_heap :: "addr list"
  free_timer_nodes :: addr
  free_crontab_timers :: addr
  crontab_timers :: addr
  timer_ids :: "int list"
  min_timer_id :: nat
  tq_timeout :: time_value
  tq_nodes :: "addr \<Rightarrow> timer_node"
  tq_fresh :: addr
  tq_fault :: "fault option"

text \<open>\<^verbatim>\<open>timer_heap_size_\<close> and \<^verbatim>\<open>timer_ids_size_\<close> are the lengths of the two arrays.\<close>

abbreviation timer_heap_size :: "timer_queue \<Rightarrow> nat" where
  "timer_heap_size q \<equiv> length (timer_heap q)"

abbreviation timer_ids_size :: "timer_queue \<Rightarrow> nat" where
  "timer_ids_size q \<equiv> length (timer_ids q)"

definition raise_fault :: "fault \<Rightarrow> timer_queue \<Rightarrow> timer_queue" where
  "raise_fault f q = (case tq_fault q of None \<Rightarrow> q\<lparr>tq_fault := Some f\<rparr> | Some _ \<Rightarrow> q)"

definition upd_node :: "addr \<Rightarrow> (timer_node \<Rightarrow> timer_node) \<Rightarrow> timer_queue \<Rightarrow> timer_queue" where
  "upd_node a f q = (if a = null then raise_fault NullDeref q
     else q\<lparr>tq_nodes := (tq_nodes q)(a := f (tq_nodes q a))\<rparr>)"

definition tq_is_empty :: "timer_queue \<Rightarrow> bool" where
  "tq_is_empty q \<longleftrightarrow> tq_curr_size q = 0"

definition earliest_time :: "timer_queue \<Rightarrow> time_value" where
  "earliest_time q = timer_value (tq_nodes q (timer_heap q ! 0))"

section \<open>Construction\<close>

definition new_node :: "timer_queue \<Rightarrow> addr \<times> timer_queue" where
  "new_node q = (tq_fresh q, q\<lparr>tq_nodes := (tq_nodes q)(tq_fresh q := timer_node_new), tq_fresh := Suc (tq_fresh q)\<rparr>)"

text \<open>The second loop of \<^verbatim>\<open>init\<close>: \<open>iter\<close> is the last node of the free list built so far.\<close>

primrec init_nodes :: "nat \<Rightarrow> addr \<Rightarrow> timer_queue \<Rightarrow> timer_queue" where
  "init_nodes 0 iter q = q"
| "init_nodes (Suc n) iter q =
     (let (node, q1) = new_node q in
      if free_timer_nodes q1 = null then init_nodes n node (q1\<lparr>free_timer_nodes := node\<rparr>)
      else init_nodes n node (upd_node iter (tn_next_update (\<lambda>_. node)) q1))"

definition tq_init :: "nat \<Rightarrow> timer_queue \<Rightarrow> timer_queue" where
  "tq_init pre_alloc_num q =
     (let q1 = q\<lparr>timer_heap := replicate pre_alloc_num null, timer_ids := replicate pre_alloc_num (-1)\<rparr>
      in (init_nodes pre_alloc_num null q1)\<lparr>min_timer_id := 0\<rparr>)"

definition tq_new :: "int \<Rightarrow> nat \<Rightarrow> timer_queue" where
  "tq_new max_size pre_alloc_num = tq_init pre_alloc_num
     \<lparr>tq_max_size = max_size, tq_curr_size = 0, timer_heap = [], free_timer_nodes = null,
      free_crontab_timers = null, crontab_timers = null, timer_ids = [], min_timer_id = 0,
      tq_timeout = tv_zero, tq_nodes = (\<lambda>_. timer_node_new), tq_fresh = 1, tq_fault = None\<rparr>"

section \<open>Identifiers and nodes\<close>

fun scan_ids :: "int list \<Rightarrow> nat \<Rightarrow> int" where
  "scan_ids [] i = -1"
| "scan_ids (x # xs) i = (if x = -1 then int i else scan_ids xs (Suc i))"

definition alloc_timerid :: "timer_queue \<Rightarrow> int \<times> timer_queue" where
  "alloc_timerid q =
     (let i = scan_ids (drop (min_timer_id q) (timer_ids q)) (min_timer_id q)
      in if i = -1 then (-1, q) else (i, q\<lparr>min_timer_id := min_timer_id q + 1\<rparr>))"

definition release_timerid :: "int \<Rightarrow> timer_queue \<Rightarrow> timer_queue" where
  "release_timerid tid q =
     (if 0 \<le> tid \<and> tid < int (timer_ids_size q)
      then q\<lparr>timer_ids := (timer_ids q)[nat tid := -1], min_timer_id := min (nat tid) (min_timer_id q)\<rparr>
      else q)"

definition alloc_node :: "int \<Rightarrow> timer_queue \<Rightarrow> addr \<times> timer_queue" where
  "alloc_node ty q =
     (if ty = GENERAL_TIMER then
        (if free_timer_nodes q = null
         then (let (node, q1) = new_node q in (node, upd_node node (tn_type_update (\<lambda>_. ty)) q1))
         else (let node = free_timer_nodes q;
                   q1 = q\<lparr>free_timer_nodes := tn_next (tq_nodes q node)\<rparr>
               in (node, upd_node node (tn_type_update (\<lambda>_. ty)) (upd_node node (tn_next_update (\<lambda>_. null)) q1))))
      else if ty = CRONTAB_TIMER then
        (if free_crontab_timers q = null
         then (let (node, q1) = new_node q in (node, upd_node node (tn_type_update (\<lambda>_. ty)) q1))
         else (let node = free_crontab_timers q;
                   q1 = q\<lparr>free_crontab_timers := tn_next (tq_nodes q node)\<rparr>
               in (node, upd_node node (tn_type_update (\<lambda>_. ty)) (upd_node node (tn_next_update (\<lambda>_. null)) q1))))
      else (null, raise_fault NullDeref q))"

definition free_node :: "addr \<Rightarrow> timer_queue \<Rightarrow> timer_queue" where
  "free_node node q =
     (if node = null then q
      else (let q1 = release_timerid (tn_timer_id (tq_nodes q node)) q;
                q2 = upd_node node release_cron_entry q1
            in if tn_type (tq_nodes q2 node) = GENERAL_TIMER
               then (upd_node node (tn_next_update (\<lambda>_. free_timer_nodes q2)) q2)\<lparr>free_timer_nodes := node\<rparr>
               else (upd_node node (tn_next_update (\<lambda>_. free_crontab_timers q2)) q2)\<lparr>free_crontab_timers := node\<rparr>))"

section \<open>The heap\<close>

definition tq_copy :: "nat \<Rightarrow> addr \<Rightarrow> timer_queue \<Rightarrow> timer_queue" where
  "tq_copy slot moved_node q =
     (let tid = tn_timer_id (tq_nodes q moved_node);
          q1 = (if slot < timer_heap_size q then q\<lparr>timer_heap := (timer_heap q)[slot := moved_node]\<rparr>
                else raise_fault OutOfBounds q);
          q2 = (if moved_node = null then raise_fault NullDeref q1 else q1);
          q3 = (if 0 \<le> tid \<and> tid < tq_max_size q then q2 else raise_fault AssertFailed q2)
      in if 0 \<le> tid \<and> tid < int (timer_ids_size q) then q3\<lparr>timer_ids := (timer_ids q)[nat tid := int slot]\<rparr>
         else raise_fault OutOfBounds q3)"

abbreviation time_of :: "timer_queue \<Rightarrow> addr \<Rightarrow> time_value" where
  "time_of q a \<equiv> timer_value (tq_nodes q a)"

lemma raise_fault_sel [simp]:
  "timer_heap (raise_fault f q) = timer_heap q" "timer_ids (raise_fault f q) = timer_ids q"
  "tq_nodes (raise_fault f q) = tq_nodes q" "tq_curr_size (raise_fault f q) = tq_curr_size q"
  "tq_max_size (raise_fault f q) = tq_max_size q" "min_timer_id (raise_fault f q) = min_timer_id q"
  "free_timer_nodes (raise_fault f q) = free_timer_nodes q" "tq_fresh (raise_fault f q) = tq_fresh q"
  "free_crontab_timers (raise_fault f q) = free_crontab_timers q"
  "crontab_timers (raise_fault f q) = crontab_timers q" "tq_timeout (raise_fault f q) = tq_timeout q"
  "tq_fault (raise_fault f q) \<noteq> None"
  by (auto simp: raise_fault_def split: option.splits)

lemma tq_copy_sel [simp]:
  "timer_heap (tq_copy i a q) = (timer_heap q)[i := a]"
  "tq_nodes (tq_copy i a q) = tq_nodes q" "tq_curr_size (tq_copy i a q) = tq_curr_size q"
  "tq_max_size (tq_copy i a q) = tq_max_size q" "min_timer_id (tq_copy i a q) = min_timer_id q"
  "free_timer_nodes (tq_copy i a q) = free_timer_nodes q" "tq_fresh (tq_copy i a q) = tq_fresh q"
  "free_crontab_timers (tq_copy i a q) = free_crontab_timers q"
  "crontab_timers (tq_copy i a q) = crontab_timers q" "tq_timeout (tq_copy i a q) = tq_timeout q"
  "timer_ids_size (tq_copy i a q) = timer_ids_size q"
  by (auto simp: tq_copy_def Let_def list_update_beyond not_less)

lemma tq_copy_ids:
  "timer_ids (tq_copy i a q) = (if 0 \<le> tn_timer_id (tq_nodes q a) \<and> tn_timer_id (tq_nodes q a) < int (timer_ids_size q)
     then (timer_ids q)[nat (tn_timer_id (tq_nodes q a)) := int i] else timer_ids q)"
  by (simp add: tq_copy_def Let_def)

function reheap_up :: "timer_queue \<Rightarrow> addr \<Rightarrow> nat \<Rightarrow> timer_queue" where
  "reheap_up q moved_node slot =
     (let parent = par slot in
      if 0 < slot \<and> time_of q moved_node < time_of q (timer_heap q ! parent)
      then reheap_up (tq_copy slot (timer_heap q ! parent) q) moved_node parent
      else tq_copy slot moved_node q)"
  by pat_completeness auto
termination by (relation "measure (\<lambda>(q, m, slot). slot)") (auto simp: par_less)

function reheap_down :: "timer_queue \<Rightarrow> addr \<Rightarrow> nat \<Rightarrow> timer_queue" where
  "reheap_down q moved_node slot =
     (let child = 2 * slot + 1 in
      if child < tq_curr_size q then
        (let c = (if child + 1 < tq_curr_size q
                     \<and> time_of q (timer_heap q ! (child + 1)) < time_of q (timer_heap q ! child)
                  then child + 1 else child) in
         if time_of q (timer_heap q ! c) < time_of q moved_node
         then reheap_down (tq_copy slot (timer_heap q ! c) q) moved_node c
         else tq_copy slot moved_node q)
      else tq_copy slot moved_node q)"
  by pat_completeness auto
termination by (relation "measure (\<lambda>(q, m, slot). tq_curr_size q - slot)") auto

text \<open>The order of the timer heap and the slots recorded in \<^verbatim>\<open>timer_ids_\<close>: the contract of
  \<open>indexed_heap\<close>.\<close>

definition tq_lt :: "timer_queue \<Rightarrow> addr \<Rightarrow> addr \<Rightarrow> bool" where
  "tq_lt q a b \<longleftrightarrow> time_of q a < time_of q b"

definition id_of :: "timer_queue \<Rightarrow> addr \<Rightarrow> int" where
  "id_of q a = tn_timer_id (tq_nodes q a)"

definition slot_of :: "timer_queue \<Rightarrow> addr \<Rightarrow> int" where
  "slot_of q a = timer_ids q ! nat (id_of q a)"

definition recordable :: "timer_queue \<Rightarrow> addr \<Rightarrow> bool" where
  "recordable q a \<longleftrightarrow> a \<noteq> null \<and> 0 \<le> id_of q a \<and> id_of q a < int (timer_ids_size q) \<and> id_of q a < tq_max_size q"

definition faulty :: "timer_queue \<Rightarrow> bool" where
  "faulty q \<longleftrightarrow> tq_fault q \<noteq> None"

lemma tq_lt_weak: "strict_weak (tq_lt q)"
  by unfold_locales (auto simp: tq_lt_def)

lemma reheap_up_eq:
  "reheap_up q m pos = (if 0 < pos \<and> tq_lt q m (timer_heap q ! par pos)
     then reheap_up (tq_copy pos (timer_heap q ! par pos) q) m (par pos) else tq_copy pos m q)"
  by (subst reheap_up.simps) (simp add: Let_def tq_lt_def)

lemma reheap_down_eq:
  "reheap_down q m pos =
     (if 2 * pos + 1 < tq_curr_size q
         \<and> tq_lt q (timer_heap q ! pick_child (tq_lt q) (timer_heap q) (tq_curr_size q) (2 * pos + 1)) m
      then reheap_down (tq_copy pos (timer_heap q ! pick_child (tq_lt q) (timer_heap q) (tq_curr_size q) (2 * pos + 1)) q) m
             (pick_child (tq_lt q) (timer_heap q) (tq_curr_size q) (2 * pos + 1))
      else tq_copy pos m q)"
  by (subst reheap_down.simps) (simp add: Let_def pick_child_def tq_lt_def)

lemma tq_copy_lt [simp]: "tq_lt (tq_copy i a q) = tq_lt q" "id_of (tq_copy i a q) = id_of q"
  "recordable (tq_copy i a q) = recordable q"
  by (simp_all add: tq_lt_def id_of_def recordable_def fun_eq_iff)

lemma tq_copy_slot:
  "recordable q a \<Longrightarrow> recordable q b \<Longrightarrow>
     slot_of (tq_copy i a q) b = (if id_of q b = id_of q a then int i else slot_of q b)"
  by (auto simp: slot_of_def tq_copy_ids recordable_def id_of_def nth_list_update)

lemma tq_copy_fault: "recordable q a \<Longrightarrow> i < timer_heap_size q \<Longrightarrow> tq_fault (tq_copy i a q) = tq_fault q"
  by (simp add: tq_copy_def Let_def recordable_def id_of_def)

interpretation th: indexed_heap timer_heap slot_of id_of recordable faulty tq_lt tq_curr_size
  tq_copy reheap_up reheap_down
  by (unfold_locales; (rule reheap_up_eq | rule reheap_down_eq | (auto simp: tq_lt_def; fail)
      | simp add: tq_copy_slot tq_copy_fault faulty_def))

declare reheap_up.simps [simp del] reheap_down.simps [simp del]

definition grow_heap :: "timer_queue \<Rightarrow> timer_queue" where
  "grow_heap q =
     (let new_size = nat (min (int (tq_curr_size q * 2)) (tq_max_size q));
          n = tq_curr_size q;
          q1 = (if new_size < n then raise_fault OutOfBounds q else q)
      in q1\<lparr>timer_heap := take n (timer_heap q) @ replicate (new_size - n) null,
            timer_ids := take n (timer_ids q) @ replicate (new_size - n) (-1),
            min_timer_id := n\<rparr>)"

definition tq_insert :: "addr \<Rightarrow> timer_queue \<Rightarrow> timer_queue" where
  "tq_insert node q =
     (if tn_type (tq_nodes q node) = GENERAL_TIMER then
        (let q1 = (if tq_curr_size q + 1 \<ge> timer_heap_size q then grow_heap q else q);
             q2 = reheap_up q1 node (tq_curr_size q1)
         in q2\<lparr>tq_curr_size := tq_curr_size q2 + 1\<rparr>)
      else if tn_type (tq_nodes q node) = CRONTAB_TIMER then
        (if crontab_timers q = null
         then (upd_node node (tn_prev_update (\<lambda>_. null)) (upd_node node (tn_next_update (\<lambda>_. null)) q))
                \<lparr>crontab_timers := node\<rparr>
         else (let q1 = upd_node node (tn_prev_update (\<lambda>_. null)) q;
                   q2 = upd_node (crontab_timers q1) (tn_prev_update (\<lambda>_. node)) q1
               in (upd_node node (tn_next_update (\<lambda>_. crontab_timers q2)) q2)\<lparr>crontab_timers := node\<rparr>))
      else raise_fault AssertFailed q)"

definition tq_remove :: "nat \<Rightarrow> timer_queue \<Rightarrow> addr \<times> timer_queue" where
  "tq_remove slot q =
     (if slot \<ge> timer_heap_size q \<or> tq_curr_size q = 0
      then (null, raise_fault OutOfBounds (q\<lparr>tq_curr_size := tq_curr_size q - 1\<rparr>))
      else
       (let removed_node = timer_heap q ! slot;
            q1 = q\<lparr>tq_curr_size := tq_curr_size q - 1\<rparr>
        in if slot < tq_curr_size q1 then
             (let moved_node = timer_heap q1 ! tq_curr_size q1;
                  q2 = tq_copy slot moved_node q1;
                  parent = par slot
              in (removed_node,
                  if time_of q2 moved_node \<ge> time_of q2 (timer_heap q2 ! parent)
                  then reheap_down q2 moved_node slot
                  else reheap_up q2 moved_node slot))
           else (removed_node, q1)))"

definition remove_first :: "timer_queue \<Rightarrow> addr \<times> timer_queue" where
  "remove_first q = (if tq_curr_size q = 0 then (null, q) else tq_remove 0 q)"

definition verify_heap :: "timer_queue \<Rightarrow> fault + unit" where
  "verify_heap q = (if list_all (\<lambda>i. time_of q (timer_heap q ! i) \<ge> time_of q (timer_heap q ! par i))
                         [0..<tq_curr_size q] then Inr () else Inl AssertFailed)"

section \<open>Scheduling\<close>

definition schedule_i :: "addr \<Rightarrow> addr \<Rightarrow> time_value \<Rightarrow> time_value \<Rightarrow> timer_queue \<Rightarrow> int \<times> timer_queue" where
  "schedule_i eh arg delay_time interval_time q =
     (if int (tq_curr_size q) \<ge> tq_max_size q then (-1, q)
      else
       (let (node, q1) = alloc_node GENERAL_TIMER q in
        if node = null then (-1, raise_fault AssertFailed q1)
        else
         (let (timer_id, q2) = alloc_timerid q1 in
          if timer_id = -1 then (-1, free_node node (raise_fault AssertFailed q2))
          else
           (let q3 = upd_node node (tn_set timer_id eh arg delay_time interval_time) q2;
                q4 = upd_node node (tn_type_update (\<lambda>_. GENERAL_TIMER)) q3
            in (timer_id, tq_insert node q4)))))"

text \<open>\<^verbatim>\<open>gettimeofday\<close> is the argument \<open>now\<close>.\<close>

definition schedule :: "time_value \<Rightarrow> addr \<Rightarrow> addr \<Rightarrow> time_value \<Rightarrow> time_value \<Rightarrow> timer_queue \<Rightarrow> int \<times> timer_queue" where
  "schedule now eh arg delay_time interval_time q = schedule_i eh arg (tv_add now delay_time) interval_time q"

definition calculate_timeout :: "time_value \<Rightarrow> time_value option \<Rightarrow> timer_queue \<Rightarrow> time_value option \<times> timer_queue" where
  "calculate_timeout now max_wait_time q =
     (if tq_is_empty q then (max_wait_time, q)
      else if earliest_time q > now then
        (let q1 = q\<lparr>tq_timeout := tv_sub (earliest_time q) now\<rparr>
         in if (case max_wait_time of None \<Rightarrow> True | Some m \<Rightarrow> m > tq_timeout q1)
            then (Some (tq_timeout q1), q1) else (max_wait_time, q1))
      else (Some tv_zero, q\<lparr>tq_timeout := tv_zero\<rparr>))"

text \<open>The overload that writes through a pointer: \<open>the_timeout\<close> is what the pointer holds (\<open>None\<close> for
  a null pointer); the result is None for a returned null, else the value written.\<close>

definition calculate_timeout_into :: "time_value \<Rightarrow> time_value option \<Rightarrow> time_value option \<Rightarrow> timer_queue \<Rightarrow> time_value option" where
  "calculate_timeout_into now max_wait_time the_timeout q =
     (case the_timeout of
        None \<Rightarrow> None
      | Some t \<Rightarrow>
         (if tq_is_empty q then (case max_wait_time of Some m \<Rightarrow> Some m | None \<Rightarrow> None)
          else if earliest_time q > now then
            (let d = tv_sub (earliest_time q) now
             in if \<not> (case max_wait_time of None \<Rightarrow> True | Some m \<Rightarrow> m > d) then max_wait_time else Some d)
          else Some tv_zero))"

section \<open>Cancelling\<close>

text \<open>\<^verbatim>\<open>handle_close\<close> of the handlers is the argument \<open>close\<close>: user code that may call the queue again.
  The walks over the crontab list end only if the list does, hence \<open>option\<close>.\<close>

type_synonym close_hook = "addr \<Rightarrow> timer_queue \<Rightarrow> timer_queue"

partial_function (option) find_cron :: "int \<Rightarrow> addr \<Rightarrow> timer_queue \<Rightarrow> addr option" where
  "find_cron timer_id iter q =
     (if iter = null then Some null
      else if timer_id = tn_timer_id (tq_nodes q iter) then Some iter
      else find_cron timer_id (tn_next (tq_nodes q iter)) q)"

definition cron_unlink :: "addr \<Rightarrow> timer_queue \<Rightarrow> timer_queue" where
  "cron_unlink iter q =
     (if crontab_timers q = iter then q
      else
       (let p = tn_prev (tq_nodes q iter); n = tn_next (tq_nodes q iter);
            q1 = (if p \<noteq> null \<and> n \<noteq> null
                  then upd_node p (tn_next_update (\<lambda>_. n)) (upd_node n (tn_prev_update (\<lambda>_. p)) q)
                  else if p = null
                  then (upd_node n (tn_prev_update (\<lambda>_. null)) q)\<lparr>crontab_timers := n\<rparr>
                  else (upd_node p (tn_next_update (\<lambda>_. null)) q)\<lparr>crontab_timers := n\<rparr>)
        in upd_node iter (tn_next_update (\<lambda>_. null)) (upd_node iter (tn_prev_update (\<lambda>_. null)) q1)))"

definition call_close :: "close_hook \<Rightarrow> bool \<Rightarrow> addr \<Rightarrow> timer_queue \<Rightarrow> timer_queue" where
  "call_close close dont_call node q =
     (let eh = tn_handler (tq_nodes q node) in if \<not> dont_call \<and> eh \<noteq> null then close eh q else q)"

text \<open>\<^verbatim>\<open>cancel (timer_id, arg, dont_call)\<close>; the second result is the argument handed back.\<close>

definition cancel :: "close_hook \<Rightarrow> int \<Rightarrow> bool \<Rightarrow> timer_queue \<Rightarrow> (int \<times> addr option \<times> timer_queue) option" where
  "cancel close timer_id dont_call q =
     (if timer_id < 0 \<or> timer_id \<ge> int (timer_ids_size q) then Some (-1, None, q)
      else
       (case find_cron timer_id (crontab_timers q) q of
          None \<Rightarrow> None
        | Some iter \<Rightarrow>
           (if iter \<noteq> null then
              (let q1 = call_close close dont_call iter q;
                   arg = tn_arg (tq_nodes q1 iter)
               in Some (0, Some arg, free_node iter (cron_unlink iter q1)))
            else
             (let slot = timer_ids q ! nat timer_id in
              if slot < 0 then Some (-1, None, raise_fault AssertFailed q)
              else if slot \<ge> int (timer_heap_size q) then Some (-1, None, raise_fault OutOfBounds q)
              else if timer_id \<noteq> tn_timer_id (tq_nodes q (timer_heap q ! nat slot))
              then Some (-1, None, raise_fault AssertFailed q)
              else
               (let (temp, q1) = tq_remove (nat slot) q;
                    q2 = call_close close dont_call temp q1;
                    arg = tn_arg (tq_nodes q2 temp)
                in Some (0, Some arg, free_node temp q2))))))"

text \<open>\<^verbatim>\<open>cancel (eh, dont_call_handle_close)\<close>. In the crontab loop the name \<^verbatim>\<open>dont_call\<close> is the non-zero
  enumerator \<^verbatim>\<open>event_handler::dont_call\<close>, so that no close hook runs there.\<close>

partial_function (option) cancel_crons :: "addr \<Rightarrow> addr \<Rightarrow> nat \<Rightarrow> timer_queue \<Rightarrow> (nat \<times> timer_queue) option" where
  "cancel_crons eh iter n q =
     (if iter = null then Some (n, q)
      else if eh = tn_handler (tq_nodes q iter) then
        (let next_node = tn_next (tq_nodes q iter)
         in cancel_crons eh next_node (Suc n) (free_node iter (cron_unlink iter q)))
      else cancel_crons eh (tn_next (tq_nodes q iter)) n q)"

lemma upd_node_sel [simp]:
  "timer_heap (upd_node a f q) = timer_heap q" "timer_ids (upd_node a f q) = timer_ids q"
  "tq_curr_size (upd_node a f q) = tq_curr_size q"
  "tq_max_size (upd_node a f q) = tq_max_size q" "min_timer_id (upd_node a f q) = min_timer_id q"
  "free_timer_nodes (upd_node a f q) = free_timer_nodes q" "tq_fresh (upd_node a f q) = tq_fresh q"
  "free_crontab_timers (upd_node a f q) = free_crontab_timers q"
  "crontab_timers (upd_node a f q) = crontab_timers q"
  "a \<noteq> null \<Longrightarrow> tq_fault (upd_node a f q) = tq_fault q"
  "a \<noteq> null \<Longrightarrow> tq_nodes (upd_node a f q) = (tq_nodes q)(a := f (tq_nodes q a))"
  by (auto simp: upd_node_def)

lemma tq_remove_size: "tq_curr_size (snd (tq_remove i q)) = tq_curr_size q - 1"
  by (simp add: tq_remove_def Let_def th.up_frame [where f = tq_curr_size] th.down_frame [where f = tq_curr_size])

lemma free_node_size [simp]: "tq_curr_size (free_node a q) = tq_curr_size q"
  by (simp add: free_node_def release_timerid_def Let_def)

function cancel_generals :: "addr \<Rightarrow> nat \<Rightarrow> nat \<Rightarrow> timer_queue \<Rightarrow> nat \<times> timer_queue" where
  "cancel_generals eh i n q =
     (if i < tq_curr_size q then
        (if tn_handler (tq_nodes q (timer_heap q ! i)) = eh
         then cancel_generals eh 0 (Suc n) (free_node (fst (tq_remove i q)) (snd (tq_remove i q)))
         else cancel_generals eh (i + 1) n q)
      else (n, q))"
  by pat_completeness auto
termination
  by (relation "measures [\<lambda>(eh, i, n, q). tq_curr_size q, \<lambda>(eh, i, n, q). tq_curr_size q - i]")
    (auto simp: tq_remove_size)

declare cancel_generals.simps [simp del]

definition cancel_handler :: "close_hook \<Rightarrow> addr \<Rightarrow> bool \<Rightarrow> timer_queue \<Rightarrow> (nat \<times> timer_queue) option" where
  "cancel_handler close eh dont_call_handle_close q =
     (if eh = null then Some (0, q)
      else (case cancel_crons eh (crontab_timers q) 0 q of
              None \<Rightarrow> None
            | Some (n1, q1) \<Rightarrow>
               (let (n2, q2) = cancel_generals eh 0 n1 q1
                in Some (n2, if \<not> dont_call_handle_close then close eh q2 else q2))))"

definition reset_interval :: "int \<Rightarrow> time_value \<Rightarrow> timer_queue \<Rightarrow> int \<times> timer_queue" where
  "reset_interval timer_id i q =
     (if timer_id < 0 \<or> timer_id > tq_max_size q then (-1, q)
      else if timer_id \<ge> int (timer_ids_size q) then (-1, raise_fault OutOfBounds q)
      else
       (let slot = timer_ids q ! nat timer_id in
        if slot < 0 then (-1, q)
        else if slot \<ge> int (timer_heap_size q) then (-1, raise_fault OutOfBounds q)
        else if timer_id \<noteq> id_of q (timer_heap q ! nat slot) then (-1, raise_fault AssertFailed q)
        else (0, upd_node (timer_heap q ! nat slot) (tn_interval_update (\<lambda>_. i)) q)))"

section \<open>Dispatching\<close>

text \<open>The loop that skips the periods already over.\<close>

partial_function (option) skip_expired :: "time_value \<Rightarrow> time_value \<Rightarrow> time_value \<Rightarrow> time_value option" where
  "skip_expired tv i current_time =
     (let tv' = tv_add tv i in if tv' \<le> current_time then skip_expired tv' i current_time else Some tv')"

definition reschedule :: "addr \<Rightarrow> timer_queue \<Rightarrow> timer_queue" where
  "reschedule expired q = tq_insert expired q"

definition dispatch_timer :: "time_value \<Rightarrow> timer_queue \<Rightarrow> (timer_node option \<times> timer_queue) option" where
  "dispatch_timer current_time q =
     (if earliest_time q \<le> current_time then
        (let (expired, q1) = remove_first q in
         if expired = null then Some (None, q1)
         else
          (let dispatched_node = tn_assign timer_node_new (tq_nodes q1 expired);
               n = tq_nodes q1 expired
           in if tn_interval n > tv_zero
              then (case skip_expired (timer_value n) (tn_interval n) current_time of
                      None \<Rightarrow> None
                    | Some tv \<Rightarrow> Some (Some dispatched_node,
                        reschedule expired (upd_node expired (timer_value_update (\<lambda>_. tv)) q1)))
              else Some (Some dispatched_node, free_node expired q1)))
      else Some (None, q))"

text \<open>\<^verbatim>\<open>handle_timeout\<close> of the handlers is the argument \<open>timeout\<close>: it returns an int and may call the
  queue again.\<close>

type_synonym timeout_hook = "addr \<Rightarrow> addr \<Rightarrow> time_value \<Rightarrow> timer_queue \<Rightarrow> int \<times> timer_queue"

definition upcall :: "timeout_hook \<Rightarrow> addr \<Rightarrow> addr \<Rightarrow> time_value \<Rightarrow> timer_queue \<Rightarrow> int \<times> timer_queue" where
  "upcall timeout eh arg current_time q = (if eh = null then (-1, q) else timeout eh arg current_time q)"

definition expire :: "timeout_hook \<Rightarrow> close_hook \<Rightarrow> time_value \<Rightarrow> timer_queue \<Rightarrow> (int \<times> timer_queue) option" where
  "expire timeout close current_time q =
     (if tq_is_empty q then Some (0, q)
      else
       (case dispatch_timer current_time q of
          None \<Rightarrow> None
        | Some (None, q1) \<Rightarrow> Some (0, q1)
        | Some (Some d, q1) \<Rightarrow>
           (let (r, q2) = upcall timeout (tn_handler d) (tn_arg d) current_time q1 in
            if r < 0 then
              (if tn_interval d > tv_zero then
                 (case cancel close (tn_timer_id d) False q2 of
                    None \<Rightarrow> None | Some (_, _, q3) \<Rightarrow> Some (1, q3))
               else if tn_handler d = null then Some (1, raise_fault NullDeref q2)
               else Some (1, close (tn_handler d) q2))
            else Some (1, q2))))"

end
