(* ===== verification/TimerQueueCorrect.thy ===== *)
theory TimerQueueCorrect
  imports TimerQueue
begin

text \<open>
  Correctness of the timer queue of theory \<open>TimerQueue\<close> for general timers: the heap, the
  \<^verbatim>\<open>timer_ids_\<close> array and the pool of nodes stay consistent, and every operation implements its
  counterpart on the abstract map from timer ids to timers. The last section shows the states
  in which the code departs from this.
\<close>

section \<open>Abstract timers and the invariant\<close>

type_synonym timer = "addr \<times> addr \<times> time_value \<times> time_value"

definition tm_of :: "timer_queue \<Rightarrow> addr \<Rightarrow> timer" where
  "tm_of q a = (let n = tq_nodes q a in (tn_handler n, tn_arg n, timer_value n, tn_interval n))"

definition tq_timers :: "timer_queue \<Rightarrow> int \<Rightarrow> timer option" where
  "tq_timers q = map_of (map (\<lambda>a. (id_of q a, tm_of q a)) (take (tq_curr_size q) (timer_heap q)))"

definition live :: "timer_queue \<Rightarrow> addr set" where
  "live q = set (take (tq_curr_size q) (timer_heap q))"

text \<open>Heap and index agree; \<open>P\<close> are ids that are taken but whose node is not in the heap.\<close>

definition heap_ok :: "timer_queue \<Rightarrow> nat set \<Rightarrow> bool" where
  "heap_ok q P \<longleftrightarrow> th.good q (tq_curr_size q)
     \<and> timer_ids_size q = timer_heap_size q
     \<and> (\<forall>i < timer_ids_size q. timer_ids q ! i \<noteq> -1 \<longrightarrow> i \<in> P \<or> int i \<in> id_of q ` live q)
     \<and> (\<forall>i \<in> P. int i \<notin> id_of q ` live q)
     \<and> (\<forall>j < min_timer_id q. j < timer_ids_size q \<and> (timer_ids q ! j \<noteq> -1 \<or> j \<in> P))
     \<and> (\<forall>a \<in> live q. tn_type (tq_nodes q a) = GENERAL_TIMER)
     \<and> tq_fault q = None"

definition pool_ok :: "timer_queue \<Rightarrow> addr list \<Rightarrow> addr set \<Rightarrow> bool" where
  "pool_ok q fs used \<longleftrightarrow> chain (\<lambda>a. tn_next (tq_nodes q a)) (free_timer_nodes q) fs null
     \<and> set fs \<inter> used = {} \<and> (\<forall>a \<in> set fs \<union> used. a \<noteq> null \<and> a < tq_fresh q) \<and> 0 < tq_fresh q"

definition tq_ok :: "timer_queue \<Rightarrow> bool" where
  "tq_ok q \<longleftrightarrow> heap_ok q {} \<and> (\<exists>fs. pool_ok q fs (live q)) \<and> crontab_timers q = null
     \<and> 3 \<le> timer_heap_size q
     \<and> (int (timer_heap_size q) < tq_max_size q \<longrightarrow> int (timer_heap_size q - 1) \<notin> id_of q ` live q)"

subsection \<open>Frames\<close>

lemma reheap_up_sel [simp]:
  "tq_nodes (reheap_up q m i) = tq_nodes q" "tq_curr_size (reheap_up q m i) = tq_curr_size q"
  "tq_max_size (reheap_up q m i) = tq_max_size q" "min_timer_id (reheap_up q m i) = min_timer_id q"
  "free_timer_nodes (reheap_up q m i) = free_timer_nodes q" "tq_fresh (reheap_up q m i) = tq_fresh q"
  "crontab_timers (reheap_up q m i) = crontab_timers q"
  "timer_ids_size (reheap_up q m i) = timer_ids_size q" "timer_heap_size (reheap_up q m i) = timer_heap_size q"
  "id_of (reheap_up q m i) = id_of q"
  by (simp_all add: th.up_frame th.up_frame [where f = timer_ids_size] th.up_frame [where f = timer_heap_size])

lemma refill_copy_sel [simp]:
  "tq_nodes (th.refill_copy q m i) = tq_nodes q" "tq_curr_size (th.refill_copy q m i) = tq_curr_size q"
  "tq_max_size (th.refill_copy q m i) = tq_max_size q" "min_timer_id (th.refill_copy q m i) = min_timer_id q"
  "free_timer_nodes (th.refill_copy q m i) = free_timer_nodes q" "tq_fresh (th.refill_copy q m i) = tq_fresh q"
  "crontab_timers (th.refill_copy q m i) = crontab_timers q"
  "timer_ids_size (th.refill_copy q m i) = timer_ids_size q"
  "timer_heap_size (th.refill_copy q m i) = timer_heap_size q"
  "id_of (th.refill_copy q m i) = id_of q"
  by (simp_all add: th.refill_copy_frame th.refill_copy_frame [where f = timer_ids_size]
      th.refill_copy_frame [where f = timer_heap_size])

lemma nth_in_take: "i < n \<Longrightarrow> n \<le> length xs \<Longrightarrow> xs ! i \<in> set (take n xs)"
  by (metis in_set_conv_nth length_take min.absorb2 nth_take)

lemma th_good_cong:
  "timer_heap q' = timer_heap q \<Longrightarrow> timer_ids q' = timer_ids q \<Longrightarrow> tq_max_size q' = tq_max_size q \<Longrightarrow>
   (\<And>a. a \<in> set (take n (timer_heap q)) \<Longrightarrow> tq_nodes q' a = tq_nodes q a) \<Longrightarrow> n \<le> timer_heap_size q \<Longrightarrow>
   th.good q' n = th.good q n"
proof -
  assume e: "timer_heap q' = timer_heap q" "timer_ids q' = timer_ids q" "tq_max_size q' = tq_max_size q"
    and nd: "\<And>a. a \<in> set (take n (timer_heap q)) \<Longrightarrow> tq_nodes q' a = tq_nodes q a" and n: "n \<le> timer_heap_size q"
  have s: "tq_nodes q' (timer_heap q ! i) = tq_nodes q (timer_heap q ! i)" if "i < n" for i
    using nd [OF nth_in_take [OF that n]] .
  have ids: "map (id_of q') (take n (timer_heap q)) = map (id_of q) (take n (timer_heap q))"
    using nd by (simp add: id_of_def)
  have "tq_lt q' (timer_heap q ! i) (timer_heap q ! par i) = tq_lt q (timer_heap q ! i) (timer_heap q ! par i)"
    if "i < n" for i using s [OF that] s [of "par i"] that par_le [of i] by (simp add: tq_lt_def)
  then have "heap_on (tq_lt q') (timer_heap q) n = heap_on (tq_lt q) (timer_heap q) n"
    by (auto simp: heap_on_def)
  then show ?thesis
    unfolding th.good_def e(1) ids using e s by (simp add: recordable_def slot_of_def id_of_def)
qed

lemma heap_okD:
  assumes "heap_ok q P"
  shows "th.good q (tq_curr_size q)" "timer_ids_size q = timer_heap_size q" "tq_fault q = None"
    "tq_curr_size q \<le> timer_heap_size q"
    "\<And>i. i < timer_ids_size q \<Longrightarrow> timer_ids q ! i \<noteq> -1 \<Longrightarrow> i \<in> P \<or> int i \<in> id_of q ` live q"
    "\<And>i. i \<in> P \<Longrightarrow> int i \<notin> id_of q ` live q"
    "\<And>j. j < min_timer_id q \<Longrightarrow> j < timer_ids_size q \<and> (timer_ids q ! j \<noteq> -1 \<or> j \<in> P)"
    "\<And>a. a \<in> live q \<Longrightarrow> tn_type (tq_nodes q a) = GENERAL_TIMER"
  using assms unfolding heap_ok_def by (auto simp: th.good_def)

lemma live_slot:
  assumes "heap_ok q P" "a \<in> live q"
  obtains i where "i < tq_curr_size q" "timer_heap q ! i = a" "timer_ids q ! nat (id_of q a) = int i"
    "0 \<le> id_of q a" "id_of q a < int (timer_ids_size q)" "id_of q a < tq_max_size q" "a \<noteq> null"
proof -
  obtain i where "i < tq_curr_size q" "timer_heap q ! i = a"
    using assms heap_okD(4) [OF assms(1)] by (auto simp: live_def in_set_conv_nth)
  moreover have "recordable q (timer_heap q ! i)" "slot_of q (timer_heap q ! i) = int i"
    using heap_okD(1) [OF assms(1)] calculation by (auto simp: th.good_def)
  ultimately show ?thesis using that by (auto simp: recordable_def slot_of_def)
qed

lemma live_bounds:
  assumes "heap_ok q P" "a \<in> live q"
  shows "0 \<le> id_of q a" "id_of q a < int (timer_ids_size q)" "id_of q a < tq_max_size q" "a \<noteq> null"
  by (rule live_slot [OF assms], assumption)+

lemma live_id_taken: "heap_ok q P \<Longrightarrow> a \<in> live q \<Longrightarrow> timer_ids q ! nat (id_of q a) \<noteq> -1"
  by (erule (1) live_slot) simp

lemma live_ids_inj: "heap_ok q P \<Longrightarrow> inj_on (id_of q) (live q)"
  using heap_okD(1) [of q P] by (simp add: th.good_def live_def distinct_map)

lemma tq_timers_Some:
  assumes "heap_ok q P"
  shows "tq_timers q tid = Some r \<longleftrightarrow> (\<exists>a \<in> live q. id_of q a = tid \<and> tm_of q a = r)"
proof -
  let ?xs = "take (tq_curr_size q) (timer_heap q)"
  have "distinct (map fst (map (\<lambda>a. (id_of q a, tm_of q a)) ?xs))"
    using heap_okD(1) [OF assms] by (simp add: th.good_def comp_def)
  from map_of_eq_Some_iff [OF this, of tid r] show ?thesis
    by (auto simp: tq_timers_def live_def)
qed

lemma map_Some_ext: "(\<And>k v. m k = Some v \<longleftrightarrow> m' k = Some v) \<Longrightarrow> m = m'"
  by (rule ext) (metis not_Some_eq)

subsection \<open>Identifiers\<close>

lemma scan_ids_cases:
  obtains "scan_ids xs k = -1" "-1 \<notin> set xs"
  | d where "scan_ids xs k = int (k + d)" "d < length xs" "xs ! d = -1" "\<forall>e < d. xs ! e \<noteq> -1"
proof -
  have "scan_ids xs k = -1 \<and> -1 \<notin> set xs
    \<or> (\<exists>d. scan_ids xs k = int (k + d) \<and> d < length xs \<and> xs ! d = -1 \<and> (\<forall>e < d. xs ! e \<noteq> -1))"
  proof (induction xs k rule: scan_ids.induct)
    case (2 x xs i)
    show ?case
    proof (cases "x = -1")
      case False
      from 2 [OF False] show ?thesis
      proof (elim disjE exE conjE)
        fix d assume "scan_ids xs (Suc i) = int (Suc i + d)" "d < length xs" "xs ! d = -1" "\<forall>e < d. xs ! e \<noteq> -1"
        then show ?thesis using False by (intro disjI2 exI [of _ "Suc d"]) (auto simp: nth_Cons split: nat.splits)
      qed (use False in auto)
    qed auto
  qed auto
  then show ?thesis using that by blast
qed

text \<open>There is always a free id not above the number of timers: the pigeonhole principle.\<close>

lemma free_id_exists:
  assumes "heap_ok q P" "tq_curr_size q < timer_ids_size q" "P = {}"
  obtains j where "j \<le> tq_curr_size q" "timer_ids q ! j = -1"
proof -
  let ?L = "(\<lambda>a. nat (id_of q a)) ` live q"
  have "card ?L \<le> card (live q)" by (rule card_image_le) (simp add: live_def)
  also have "\<dots> \<le> tq_curr_size q"
    unfolding live_def using card_length [of "take (tq_curr_size q) (timer_heap q)"] by simp
  finally have "card ?L < card {..tq_curr_size q}" by simp
  then have "\<not> {..tq_curr_size q} \<subseteq> ?L"
    using card_mono [of ?L "{..tq_curr_size q}"] by (auto simp: live_def)
  then obtain j where j: "j \<le> tq_curr_size q" "j \<notin> ?L" by auto
  then have "int j \<notin> id_of q ` live q" by force
  then have "timer_ids q ! j = -1"
    using heap_okD(5) [OF assms(1), of j] assms(2,3) j(1) by auto
  with j(1) show ?thesis using that by blast
qed

lemma alloc_timerid_ok:
  assumes "heap_ok q {}" "tq_curr_size q < timer_ids_size q"
  obtains i where "alloc_timerid q = (int i, q\<lparr>min_timer_id := min_timer_id q + 1\<rparr>)"
    "i \<le> tq_curr_size q" "timer_ids q ! i = -1" "int i \<notin> id_of q ` live q"
    "heap_ok (q\<lparr>min_timer_id := min_timer_id q + 1\<rparr>) {i}"
proof -
  let ?m = "min_timer_id q" and ?q = "q\<lparr>min_timer_id := min_timer_id q + 1\<rparr>"
  obtain j where j: "j \<le> tq_curr_size q" "timer_ids q ! j = -1"
    using free_id_exists [OF assms refl] by blast
  then have jm: "?m \<le> j" using heap_okD(7) [OF assms(1), of j] by (meson empty_iff not_le)
  have jl: "j - ?m < length (drop ?m (timer_ids q))" "drop ?m (timer_ids q) ! (j - ?m) = -1"
    using j jm assms(2) by auto
  obtain d where d: "scan_ids (drop ?m (timer_ids q)) ?m = int (?m + d)" "d < length (drop ?m (timer_ids q))"
    "drop ?m (timer_ids q) ! d = -1" "\<forall>e < d. drop ?m (timer_ids q) ! e \<noteq> -1"
    using scan_ids_cases [of "drop ?m (timer_ids q)" ?m] jl by (metis nth_mem)
  let ?i = "?m + d"
  have i: "?i < timer_ids_size q" "timer_ids q ! ?i = -1" using d(2,3) by auto
  have "\<not> j - ?m < d" using d(4) jl(2) by blast
  then have le: "?i \<le> tq_curr_size q" using j(1) jm by linarith
  have free: "int ?i \<notin> id_of q ` live q"
  proof
    assume "int ?i \<in> id_of q ` live q"
    then obtain a where "a \<in> live q" "id_of q a = int ?i" by auto
    with live_id_taken [OF assms(1), of a] i(2) show False by (simp add: nat_int_add)
  qed
  have m: "timer_ids q ! ?m \<noteq> -1 \<or> ?m = ?i" using d by (cases d) auto
  have sel: "live ?q = live q" "id_of ?q = id_of q" by (simp_all add: live_def id_of_def fun_eq_iff)
  have "th.good ?q (tq_curr_size q) = th.good q (tq_curr_size q)"
    by (rule th_good_cong) (use heap_okD(4) [OF assms(1)] in simp_all)
  then have "heap_ok ?q {?i}"
    using heap_okD [OF assms(1)] free i(1) m unfolding heap_ok_def sel
    by (auto simp: less_Suc_eq)
  moreover have "alloc_timerid q = (int ?i, ?q)" using d(1) by (simp add: alloc_timerid_def)
  ultimately show ?thesis using that le i free by blast
qed

subsection \<open>Insertion\<close>

lemma reheap_insert:
  assumes "heap_ok q {i}" "recordable q node" "id_of q node = int i"
    "tn_type (tq_nodes q node) = GENERAL_TIMER" "tq_curr_size q < timer_heap_size q"
    and q': "q' = (reheap_up q node (tq_curr_size q))\<lparr>tq_curr_size := Suc (tq_curr_size q)\<rparr>"
  shows "heap_ok q' {}" "live q' = insert node (live q)" "id_of q' = id_of q"
proof -
  let ?n = "tq_curr_size q" and ?r = "reheap_up q node (tq_curr_size q)"
  have fresh: "id_of q node \<notin> id_of q ` live q" using heap_okD(6) [OF assms(1), of i] assms(3) by simp
  have s: "th.sifted q (Suc ?n) ?n node ?r"
    by (rule th.insert_sifts) (use assms fresh heap_okD(1) [OF assms(1)] in \<open>auto simp: live_def\<close>)
  then have r: "th.good ?r (Suc ?n)" "tq_fault ?r = None"
    "mset (take (Suc ?n) (timer_heap ?r)) = mset (take (Suc ?n) ((timer_heap q)[?n := node]))"
    using heap_okD(3) [OF assms(1)] by (auto simp: th.sifted_def faulty_def)
  have sel: "id_of q' = id_of q" "tq_nodes q' = tq_nodes q" "timer_ids q' = timer_ids ?r"
    "timer_heap q' = timer_heap ?r" "tq_curr_size q' = Suc ?n" "tq_max_size q' = tq_max_size q"
    "tq_fault q' = None" "min_timer_id q' = min_timer_id q"
    using r(2) by (simp_all add: q' id_of_def fun_eq_iff)
  have lv: "live q' = insert node (live q)"
    unfolding live_def sel using mset_eq_setD [OF r(3)] assms(5) by (simp add: take_Suc_update)
  have good: "th.good q' (Suc ?n)"
    using r(1) th_good_cong [of q' ?r "Suc ?n"] assms(5) sel by simp
  have keep: "timer_ids ?r ! j = timer_ids q ! j" if "int j \<notin> id_of q ` insert node (live q)" for j
  proof (rule th.up_keeps [where Q = "\<lambda>x. x \<noteq> int j" and f = "\<lambda>q. timer_ids q ! j"])
    show "timer_ids (tq_copy k a s) ! j = timer_ids s ! j" if "id_of s a \<noteq> int j" for k a s
      using that by (auto simp: tq_copy_ids id_of_def nth_list_update_neq)
    show "\<forall>k < ?n. id_of q (timer_heap q ! k) \<noteq> int j"
      using that nth_in_take [of _ ?n "timer_heap q"] assms(5) by (force simp: live_def)
    show "id_of q node \<noteq> int j" using that by auto
  qed
  have mn: "j < timer_ids_size q \<and> timer_ids ?r ! j \<noteq> -1" if "j < min_timer_id q" for j
  proof (cases "int j \<in> id_of q ` insert node (live q)")
    case True
    then obtain a where a: "a \<in> live q'" "id_of q a = int j" unfolding lv by (metis imageE)
    then have "a \<in> set (take (Suc ?n) (timer_heap ?r))" by (simp add: live_def sel)
    then obtain k where "k < Suc ?n" "timer_heap ?r ! k = a"
      using assms(5) by (auto simp: in_set_conv_nth)
    then have "timer_ids ?r ! j = int k"
      using r(1) a(2) by (auto simp: th.good_def slot_of_def)
    then show ?thesis using heap_okD(7) [OF assms(1) that] by simp
  next
    case False
    then show ?thesis using keep [OF False] heap_okD(7) [OF assms(1) that] assms(3) by auto
  qed
  have ex: "int j \<in> id_of q ` insert node (live q)" if "j < timer_ids_size q" "timer_ids ?r ! j \<noteq> -1" for j
    using keep [of j] heap_okD(5) [OF assms(1) that(1)] that(2) assms(3)
    by (cases "int j \<in> id_of q ` insert node (live q)") auto
  show "heap_ok q' {}"
    unfolding heap_ok_def sel lv
    using good mn ex heap_okD(2,8) [OF assms(1)] assms(4) by (auto simp: sel)
  show "live q' = insert node (live q)" "id_of q' = id_of q" by (fact lv, fact sel)
qed

lemma live_ids_card:
  assumes "heap_ok q P" "\<And>a. a \<in> live q \<Longrightarrow> id_of q a < int m"
  shows "(\<lambda>a. nat (id_of q a)) ` live q \<subseteq> {..<m}" "card ((\<lambda>a. nat (id_of q a)) ` live q) = tq_curr_size q"
proof -
  have "distinct (map (id_of q) (take (tq_curr_size q) (timer_heap q)))"
    using heap_okD(1) [OF assms(1)] by (simp add: th.good_def)
  then have "card (live q) = tq_curr_size q"
    using heap_okD(4) [OF assms(1)] by (simp add: live_def distinct_map distinct_card)
  moreover have "inj_on (\<lambda>a. nat (id_of q a)) (live q)"
    using live_ids_inj [OF assms(1)] live_bounds(1) [OF assms(1)] unfolding inj_on_def by (metis eq_nat_nat_iff)
  ultimately show "card ((\<lambda>a. nat (id_of q a)) ` live q) = tq_curr_size q" by (simp add: card_image)
  show "(\<lambda>a. nat (id_of q a)) ` live q \<subseteq> {..<m}"
    using assms(2) live_bounds(1) [OF assms(1)] by force
qed

lemma last_id_free_bound:
  assumes "heap_ok q P" "int (timer_heap_size q - 1) \<notin> id_of q ` live q" "a \<in> live q"
  shows "id_of q a < int (timer_heap_size q - 1)"
proof -
  have "id_of q a \<noteq> int (timer_heap_size q - 1)" using assms(2,3) by (metis imageI)
  then show ?thesis
    using live_bounds(1,2) [OF assms(1,3)] heap_okD(2) [OF assms(1)] by simp
qed

lemma all_ids_taken:
  assumes "heap_ok q P" "Suc (tq_curr_size q) = timer_heap_size q" "int (tq_curr_size q) \<notin> id_of q ` live q"
    "j < tq_curr_size q"
  shows "int j \<in> id_of q ` live q"
proof -
  let ?n = "tq_curr_size q" and ?L = "(\<lambda>a. nat (id_of q a)) ` live q"
  have "timer_heap_size q - 1 = ?n" using assms(2) by simp
  then have b: "id_of q a < int ?n" if "a \<in> live q" for a
    using last_id_free_bound [OF assms(1) _ that] assms(3) by simp
  have "?L = {..<?n}"
    using live_ids_card [OF assms(1) b] by (simp add: card_subset_eq)
  then have "j \<in> ?L" using assms(4) by blast
  then show ?thesis using live_bounds(1) [OF assms(1)] by force
qed

lemma last_id_free_not_full:
  assumes "heap_ok q P" "int (timer_heap_size q - 1) \<notin> id_of q ` live q" "0 < timer_heap_size q"
  shows "tq_curr_size q < timer_heap_size q"
proof -
  note l = live_ids_card [OF assms(1) last_id_free_bound [OF assms(1,2)]]
  have "tq_curr_size q \<le> timer_heap_size q - 1" using card_mono [OF _ l(1)] l(2) by simp
  then show ?thesis using assms(3) by linarith
qed

lemma grow_heap_ok:
  assumes "heap_ok q {i}" "Suc (tq_curr_size q) = timer_heap_size q" "i \<le> tq_curr_size q"
    "int (tq_curr_size q) \<notin> id_of q ` live q" "int (tq_curr_size q) < tq_max_size q" "1 \<le> tq_curr_size q"
    and q': "q' = grow_heap q"
  shows "heap_ok q' {i}" "live q' = live q" "id_of q' = id_of q" "tq_nodes q' = tq_nodes q"
    "timer_heap_size q' = nat (min (2 * int (tq_curr_size q)) (tq_max_size q))"
    "tq_curr_size q < timer_heap_size q'" "tq_curr_size q' = tq_curr_size q" "tq_max_size q' = tq_max_size q"
    "timer_ids_size q' = timer_heap_size q'"
proof -
  let ?n = "tq_curr_size q" and ?N = "nat (min (2 * int (tq_curr_size q)) (tq_max_size q))"
  have N: "?n < ?N" using assms(5,6) by auto
  have sel: "timer_heap q' = take ?n (timer_heap q) @ replicate (?N - ?n) null"
    "timer_ids q' = take ?n (timer_ids q) @ replicate (?N - ?n) (-1)" "min_timer_id q' = ?n"
    "tq_nodes q' = tq_nodes q" "tq_curr_size q' = ?n" "tq_max_size q' = tq_max_size q"
    "id_of q' = id_of q" "tq_lt q' = tq_lt q"
    using N by (simp_all add: q' grow_heap_def Let_def id_of_def tq_lt_def fun_eq_iff)
  have flt: "tq_fault q' = None" using N heap_okD(3) [OF assms(1)] by (simp add: q' grow_heap_def Let_def)
  have len: "?n \<le> timer_heap_size q" "?n \<le> timer_ids_size q" using assms(2) heap_okD(2) [OF assms(1)] by auto
  have size: "timer_heap_size q' = ?N" "timer_ids_size q' = ?N" using N len by (auto simp: sel)
  have lv: "live q' = live q" using len by (simp add: live_def sel)
  have nth: "timer_heap q' ! k = timer_heap q ! k" "timer_ids q' ! k = timer_ids q ! k" if "k < ?n" for k
    using that len by (simp_all add: sel nth_append)
  have b: "0 \<le> id_of q a" "id_of q a < int ?n" "a \<noteq> null" "id_of q a < tq_max_size q" if "a \<in> live q" for a
  proof -
    have "0 \<le> id_of q a" "id_of q a < int (timer_heap_size q)" "id_of q a \<noteq> int ?n" "a \<noteq> null"
      "id_of q a < tq_max_size q"
      using live_bounds [OF assms(1) that] heap_okD(2) [OF assms(1)] assms(4) that by (simp_all, metis imageI)
    then show "0 \<le> id_of q a" "id_of q a < int ?n" "a \<noteq> null" "id_of q a < tq_max_size q"
      using assms(2) by linarith+
  qed
  have "heap_on (tq_lt q) (timer_heap q') ?n"
    using heap_okD(1) [OF assms(1)] nth par_le le_less_trans unfolding th.good_def heap_on_def by metis
  moreover have "recordable q' (timer_heap q' ! k) \<and> slot_of q' (timer_heap q' ! k) = int k" if "k < ?n" for k
  proof -
    have a: "timer_heap q ! k \<in> live q" using nth_in_take [OF that len(1)] by (simp add: live_def)
    have "slot_of q (timer_heap q ! k) = int k" using heap_okD(1) [OF assms(1)] that by (simp add: th.good_def)
    then show ?thesis
      using b [OF a] nth(1) [OF that] nth(2) [of "nat (id_of q (timer_heap q ! k))"] size N
      by (simp add: recordable_def slot_of_def sel(6,7))
  qed
  moreover have "distinct (map (id_of q) (take ?n (timer_heap q')))"
    using heap_okD(1) [OF assms(1)] len by (simp add: th.good_def sel(1))
  ultimately have good: "th.good q' ?n" using size N by (simp add: th.good_def sel(7,8))
  have taken: "int j \<in> id_of q ` live q" if "j < ?n" for j by (rule all_ids_taken [OF assms(1,2,4) that])
  have ids: "timer_ids q' ! j \<noteq> -1 \<longleftrightarrow> j < ?n" if "j < ?N" for j
  proof (cases "j < ?n")
    case True
    then obtain a where "a \<in> live q" "id_of q a = int j" using taken by force
    then show ?thesis using live_id_taken [OF assms(1), of a] nth(2) True by simp
  next
    case False
    then show ?thesis using that len by (simp add: sel(2) nth_append)
  qed
  show "heap_ok q' {i}"
    unfolding heap_ok_def lv sel(3-8) size
    using good ids taken flt heap_okD(6,8) [OF assms(1)] N by auto
  show "live q' = live q" "id_of q' = id_of q" "tq_nodes q' = tq_nodes q"
    "timer_heap_size q' = ?N" "?n < timer_heap_size q'" "tq_curr_size q' = ?n" "tq_max_size q' = tq_max_size q"
    "timer_ids_size q' = timer_heap_size q'"
    using lv sel size N by simp_all
qed

lemma grow_heap_sel [simp]:
  "free_timer_nodes (grow_heap q) = free_timer_nodes q" "tq_fresh (grow_heap q) = tq_fresh q"
  "crontab_timers (grow_heap q) = crontab_timers q"
  by (simp_all add: grow_heap_def Let_def)

text \<open>Inserting a node with a taken id: the only state in which it goes wrong is a full array whose
  last id is in use.\<close>

definition insertable :: "timer_queue \<Rightarrow> bool" where
  "insertable q \<longleftrightarrow> 3 \<le> timer_heap_size q \<and> tq_curr_size q < timer_heap_size q
     \<and> int (tq_curr_size q) < tq_max_size q
     \<and> (Suc (tq_curr_size q) = timer_heap_size q \<longrightarrow> int (tq_curr_size q) \<notin> id_of q ` live q)
     \<and> (int (timer_heap_size q) < tq_max_size q \<longrightarrow> int (timer_heap_size q - 1) \<notin> id_of q ` live q)"

definition same_rest :: "timer_queue \<Rightarrow> timer_queue \<Rightarrow> bool" where
  "same_rest q q' \<longleftrightarrow> tq_nodes q' = tq_nodes q \<and> free_timer_nodes q' = free_timer_nodes q
     \<and> tq_fresh q' = tq_fresh q \<and> crontab_timers q' = crontab_timers q \<and> tq_max_size q' = tq_max_size q"

lemma tq_insert_ok:
  assumes "heap_ok q {i}" "insertable q" "recordable q node" "id_of q node = int i"
    "tn_type (tq_nodes q node) = GENERAL_TIMER"
    and le: "Suc (tq_curr_size q) = timer_heap_size q \<longrightarrow> i \<le> tq_curr_size q"
    and ni: "Suc (tq_curr_size q) < timer_heap_size q \<longrightarrow> int (timer_heap_size q) < tq_max_size q \<longrightarrow>
      i \<noteq> timer_heap_size q - 1"
    and q': "q' = tq_insert node q"
  shows "heap_ok q' {}" "live q' = insert node (live q)" "same_rest q q'"
    "3 \<le> timer_heap_size q'"
    "int (timer_heap_size q') < tq_max_size q' \<longrightarrow> int (timer_heap_size q' - 1) \<notin> id_of q' ` live q'"
    "tq_curr_size q' = Suc (tq_curr_size q)"
proof -
  let ?n = "tq_curr_size q"
  have i: "3 \<le> timer_heap_size q" "?n < timer_heap_size q" "int ?n < tq_max_size q"
    "Suc ?n = timer_heap_size q \<Longrightarrow> int ?n \<notin> id_of q ` live q"
    "int (timer_heap_size q) < tq_max_size q \<Longrightarrow> int (timer_heap_size q - 1) \<notin> id_of q ` live q"
    using assms(2) by (auto simp: insertable_def)
  define q1 where "q1 = (if ?n + 1 \<ge> timer_heap_size q then grow_heap q else q)"
  have eq: "q' = (reheap_up q1 node (tq_curr_size q1))\<lparr>tq_curr_size := Suc (tq_curr_size q1)\<rparr>"
    using assms(5) by (simp add: q' tq_insert_def Let_def q1_def)
  have grow: "Suc ?n = timer_heap_size q" "1 \<le> ?n" "2 \<le> ?n" "q1 = grow_heap q" "i \<le> ?n" if "Suc ?n = timer_heap_size q"
    using i that le by (auto simp: q1_def)
  have keep: "q1 = q" "Suc ?n < timer_heap_size q" if "Suc ?n \<noteq> timer_heap_size q"
    using i that by (auto simp: q1_def)
  have g: "heap_ok q1 {i}" "live q1 = live q" "id_of q1 = id_of q" "tq_nodes q1 = tq_nodes q"
    "?n < timer_heap_size q1" "tq_curr_size q1 = ?n" "tq_max_size q1 = tq_max_size q"
    "3 \<le> timer_heap_size q1" "timer_ids_size q1 = timer_heap_size q1" "same_rest q q1"
  proof -
    have "heap_ok q1 {i} \<and> live q1 = live q \<and> id_of q1 = id_of q \<and> tq_nodes q1 = tq_nodes q
      \<and> ?n < timer_heap_size q1 \<and> tq_curr_size q1 = ?n \<and> tq_max_size q1 = tq_max_size q
      \<and> 3 \<le> timer_heap_size q1 \<and> timer_ids_size q1 = timer_heap_size q1 \<and> same_rest q q1"
    proof (cases "Suc ?n = timer_heap_size q")
      case False
      then show ?thesis using keep(1) [OF False] assms(1) i heap_okD(2) [OF assms(1)] by (simp add: same_rest_def)
    next
      case True
      note gr = grow [OF True]
      show ?thesis
        using gr(4) grow_heap_ok [OF assms(1) gr(1) gr(5) i(4) [OF gr(1)] i(3) gr(2), of q1] i(3) gr(3)
        by (simp add: same_rest_def)
    qed
    then show "heap_ok q1 {i}" "live q1 = live q" "id_of q1 = id_of q" "tq_nodes q1 = tq_nodes q"
      "?n < timer_heap_size q1" "tq_curr_size q1 = ?n" "tq_max_size q1 = tq_max_size q"
      "3 \<le> timer_heap_size q1" "timer_ids_size q1 = timer_heap_size q1" "same_rest q q1" by auto
  qed
  have rec: "recordable q1 node"
  proof (cases "Suc ?n = timer_heap_size q")
    case True
    then show ?thesis using assms(3,4) g grow(5) [OF True] by (simp add: recordable_def)
  next
    case False
    then show ?thesis using keep(1) assms(3) by simp
  qed
  note r = reheap_insert [OF g(1) rec, unfolded g(3,4), OF assms(4,5) g(5) [folded g(6)] eq]
  show "heap_ok q' {}" "live q' = insert node (live q)" using r g(2) by simp_all
  have sel: "timer_heap_size q' = timer_heap_size q1" "tq_max_size q' = tq_max_size q" "id_of q' = id_of q"
    using r(3) g(3,7) by (simp_all add: eq)
  show "3 \<le> timer_heap_size q'" "tq_curr_size q' = Suc ?n" using g by (simp_all add: eq)
  show "same_rest q q'" using g(10) by (simp add: same_rest_def eq)
  show "int (timer_heap_size q') < tq_max_size q' \<longrightarrow> int (timer_heap_size q' - 1) \<notin> id_of q' ` live q'"
  proof (cases "Suc ?n = timer_heap_size q")
    case False
    from keep [OF this] show ?thesis using r(2) g(2) sel i(5) assms(4) ni by auto
  next
    case True
    note gr = grow [OF True]
    have "id_of q a \<le> int ?n" if "a \<in> live q" for a
      using live_bounds(2) [OF assms(1) that] heap_okD(2) [OF assms(1)] gr(1) by simp
    moreover have "timer_heap_size q1 = nat (min (2 * int ?n) (tq_max_size q))"
      using gr(4) grow_heap_ok(5) [OF assms(1) gr(1) gr(5) i(4) [OF gr(1)] i(3) gr(2)] by simp
    then have "int (timer_heap_size q1) < tq_max_size q \<Longrightarrow> int (timer_heap_size q1 - 1) > int ?n"
      using gr(3) i(3) by (simp add: min_def split: if_splits)
    ultimately show ?thesis using r(2) g(2) sel assms(4) gr(5) by force
  qed
qed

subsection \<open>Removal\<close>

lemma tq_remove_eq:
  assumes "heap_ok q {}" "slot < tq_curr_size q" "n = tq_curr_size q - 1"
  shows "tq_remove slot q = (timer_heap q ! slot,
    if slot < n then th.refill_copy (q\<lparr>tq_curr_size := n\<rparr>) n slot else q\<lparr>tq_curr_size := n\<rparr>)"
  using assms heap_okD(4) [OF assms(1)]
  by (simp add: tq_remove_def th.refill_copy_def Let_def tq_lt_def not_less)

lemma id_of_size [simp]: "id_of (q\<lparr>tq_curr_size := n\<rparr>) = id_of q"
  by (simp add: id_of_def fun_eq_iff)

lemma tq_remove_ok:
  assumes "heap_ok q {}" "slot < tq_curr_size q" "tq_remove slot q = (a, q')"
  shows "a = timer_heap q ! slot" "a \<in> live q" "heap_ok q' {nat (id_of q a)}" "live q' = live q - {a}"
    "same_rest q q'" "timer_heap_size q' = timer_heap_size q" "tq_curr_size q = Suc (tq_curr_size q')"
proof -
  obtain n where n: "tq_curr_size q = Suc n" using assms(2) by (cases "tq_curr_size q") auto
  let ?q = "q\<lparr>tq_curr_size := n\<rparr>"
  have eq: "a = timer_heap q ! slot" "q' = (if slot < n then th.refill_copy ?q n slot else ?q)"
    using tq_remove_eq [OF assms(1,2) refl] assms(3) n by auto
  have len: "Suc n \<le> timer_heap_size q" using heap_okD(4) [OF assms(1)] n by simp
  have al: "a \<in> live q" using nth_in_take [OF _ len, of slot] assms(2) n eq by (simp add: live_def)
  have good: "th.good ?q (Suc n)"
    using heap_okD(1) [OF assms(1)] th_good_cong [of ?q q "Suc n"] len n by simp
  have rem: "th.removed ?q n slot q'"
  proof (cases "slot < n")
    case True
    then show ?thesis using th.refill_copy_removes [OF good] eq by simp
  next
    case False
    then have "slot = n" "q' = ?q" using assms(2) n eq by auto
    then show ?thesis
      using th.good_prefix [OF good, of n] len by (simp add: th.removed_def mset_take_Suc)
  qed
  have sel: "tq_nodes q' = tq_nodes q" "tq_curr_size q' = n" "tq_max_size q' = tq_max_size q"
    "min_timer_id q' = min_timer_id q" "free_timer_nodes q' = free_timer_nodes q" "tq_fresh q' = tq_fresh q"
    "crontab_timers q' = crontab_timers q" "timer_ids_size q' = timer_ids_size q"
    "timer_heap_size q' = timer_heap_size q" "id_of q' = id_of q"
    by (simp_all add: eq(2))
  have ms: "mset (take n (timer_heap q')) + {#a#} = mset (take (Suc n) (timer_heap q))"
    and good': "th.good q' n" and flt: "tq_fault q' = None"
    using rem heap_okD(3) [OF assms(1)] eq(1) by (auto simp: th.removed_def faulty_def)
  have d: "distinct (take (Suc n) (timer_heap q))"
    using heap_okD(1) [OF assms(1)] n by (simp add: th.good_def distinct_map)
  have lv: "live q' = live q - {a}"
  proof -
    have "insert a (live q') = live q"
      using arg_cong [OF ms, of set_mset] sel(2) n by (simp add: live_def)
    moreover have "distinct (a # take n (timer_heap q'))"
      using mset_eq_imp_distinct_iff [of "a # take n (timer_heap q')" "take (Suc n) (timer_heap q)"] ms d by simp
    ultimately show ?thesis using sel(2) by (auto simp: live_def)
  qed
  have keep: "timer_ids q' ! j = timer_ids q ! j" if "int j \<notin> id_of q ` live q" for j
  proof -
    have "timer_ids (th.refill_copy ?q (tq_curr_size ?q) slot) ! j = timer_ids ?q ! j" if "slot < n"
    proof (rule th.refill_copy_keeps [where Q = "\<lambda>x. x \<noteq> int j" and f = "\<lambda>q. timer_ids q ! j"])
      show "timer_ids (tq_copy k a s) ! j = timer_ids s ! j" if "id_of s a \<noteq> int j" for k a s
        using that by (auto simp: tq_copy_ids id_of_def nth_list_update_neq)
      show "\<forall>k \<le> tq_curr_size ?q. id_of ?q (timer_heap ?q ! k) \<noteq> int j"
        using \<open>int j \<notin> id_of q ` live q\<close> nth_in_take [of _ "Suc n" "timer_heap q"] len n
        by (force simp: live_def less_Suc_eq_le)
    qed (use that in simp)
    then show ?thesis by (auto simp: eq(2))
  qed
  have taken: "timer_ids q' ! j \<noteq> -1 \<or> j = nat (id_of q a)" if "j < min_timer_id q" for j
  proof (cases "int j \<in> id_of q ` live q'")
    case True
    then obtain b where b: "b \<in> live q'" "id_of q b = int j" by (metis imageE)
    then obtain k where "k < n" "timer_heap q' ! k = b" using len sel by (auto simp: live_def in_set_conv_nth)
    then have "timer_ids q' ! j = int k" using good' b(2) by (auto simp: th.good_def slot_of_def sel)
    then show ?thesis by simp
  next
    case False
    then have "int j \<notin> id_of q ` live q \<or> int j = id_of q a" using lv by auto
    then show ?thesis
      using keep [of j] heap_okD(7) [OF assms(1) that] by (metis empty_iff nat_int)
  qed
  have ex: "j = nat (id_of q a) \<or> int j \<in> id_of q ` live q'" if "j < timer_ids_size q" "timer_ids q' ! j \<noteq> -1" for j
    using keep [of j] heap_okD(5) [OF assms(1) that(1)] that(2) lv
    by (cases "int j \<in> id_of q ` live q") auto
  have "int (nat (id_of q a)) \<notin> id_of q ` live q'"
    using live_ids_inj [OF assms(1)] live_bounds(1) [OF assms(1) al] al lv by (auto simp: inj_on_def)
  then show "heap_ok q' {nat (id_of q a)}"
    unfolding heap_ok_def sel
    using good' flt taken ex heap_okD(2,7,8) [OF assms(1)] lv by auto
  show "a = timer_heap q ! slot" "a \<in> live q" "live q' = live q - {a}" "same_rest q q'"
    "timer_heap_size q' = timer_heap_size q" "tq_curr_size q = Suc (tq_curr_size q')"
    using eq al lv sel n by (simp_all add: same_rest_def)
qed

subsection \<open>The pool of nodes\<close>

definition same_heap :: "timer_queue \<Rightarrow> timer_queue \<Rightarrow> bool" where
  "same_heap q q' \<longleftrightarrow> timer_heap q' = timer_heap q \<and> timer_ids q' = timer_ids q
     \<and> tq_curr_size q' = tq_curr_size q \<and> tq_max_size q' = tq_max_size q \<and> min_timer_id q' = min_timer_id q
     \<and> crontab_timers q' = crontab_timers q \<and> tq_fault q' = tq_fault q
     \<and> (\<forall>a \<in> live q. tq_nodes q' a = tq_nodes q a)"

lemma same_heap_sel:
  assumes "same_heap q q'"
  shows "live q' = live q" "id_of q' ` live q' = id_of q ` live q" "crontab_timers q' = crontab_timers q"
    "timer_heap_size q' = timer_heap_size q" "tq_curr_size q' = tq_curr_size q" "tq_max_size q' = tq_max_size q"
    "a \<in> live q \<Longrightarrow> id_of q' a = id_of q a" "a \<in> live q \<Longrightarrow> tm_of q' a = tm_of q a"
proof -
  show l: "live q' = live q" using assms by (simp add: same_heap_def live_def)
  show "id_of q' ` live q' = id_of q ` live q"
    unfolding l by (rule image_cong) (use assms in \<open>auto simp: same_heap_def id_of_def\<close>)
  show "crontab_timers q' = crontab_timers q"
    "timer_heap_size q' = timer_heap_size q" "tq_curr_size q' = tq_curr_size q" "tq_max_size q' = tq_max_size q"
    "a \<in> live q \<Longrightarrow> id_of q' a = id_of q a" "a \<in> live q \<Longrightarrow> tm_of q' a = tm_of q a"
    using assms by (auto simp: same_heap_def id_of_def tm_of_def)
qed

lemma same_heap_ok: "same_heap q q' \<Longrightarrow> heap_ok q P \<Longrightarrow> heap_ok q' P"
proof -
  assume s: "same_heap q q'" and h: "heap_ok q P"
  have "th.good q' (tq_curr_size q) = th.good q (tq_curr_size q)"
    by (rule th_good_cong) (use s heap_okD(4) [OF h] in \<open>auto simp: same_heap_def live_def\<close>)
  moreover have "tn_type (tq_nodes q' a) = tn_type (tq_nodes q a)" if "a \<in> live q" for a
    using s that by (simp add: same_heap_def)
  ultimately show ?thesis
    using h same_heap_sel(1,2) [OF s] s unfolding heap_ok_def by (auto simp: same_heap_def)
qed

lemma upd_node_same_heap: "a \<notin> live q \<Longrightarrow> a \<noteq> null \<Longrightarrow> same_heap q (upd_node a f q)"
  by (auto simp: same_heap_def)

lemma same_heap_trans: "same_heap q q1 \<Longrightarrow> same_heap q1 q2 \<Longrightarrow> same_heap q q2"
  by (auto simp: same_heap_def live_def)

lemma pool_chain_cong:
  "(\<And>b. b \<noteq> x \<Longrightarrow> nd' b = nd b) \<Longrightarrow> x \<notin> set fs \<Longrightarrow>
     chain (\<lambda>a. tn_next (nd' a)) p fs r \<longleftrightarrow> chain (\<lambda>a. tn_next (nd a)) p fs r"
  by (rule chain_cong) metis

lemma alloc_node_ok:
  assumes "pool_ok q fs (live q)" "alloc_node GENERAL_TIMER q = (node, q1)"
  obtains fs' where "node \<noteq> null" "node \<notin> live q" "same_heap q q1" "pool_ok q1 fs' (insert node (live q))"
proof (cases "free_timer_nodes q = null")
  case True
  then have fs: "fs = []" using assms(1) by (simp add: pool_ok_def)
  have f: "\<forall>a \<in> live q. a \<noteq> null \<and> a < tq_fresh q" "0 < tq_fresh q" using assms(1) by (auto simp: pool_ok_def)
  then have nl: "tq_fresh q \<notin> live q" by blast
  have e: "node = tq_fresh q" "same_heap q q1" "free_timer_nodes q1 = null" "tq_fresh q1 = Suc (tq_fresh q)"
    using assms(2) True f(2) nl by (auto simp: alloc_node_def new_node_def same_heap_def Let_def)
  then have "pool_ok q1 [] (insert node (live q))" using f by (auto simp: pool_ok_def less_Suc_eq)
  then show ?thesis using that e f(2) nl by simp
next
  case False
  then obtain fs' where fs: "fs = free_timer_nodes q # fs'"
    using assms(1) by (cases fs) (auto simp: pool_ok_def)
  have p: "chain (\<lambda>a. tn_next (tq_nodes q a)) (tn_next (tq_nodes q (free_timer_nodes q))) fs' null"
    "free_timer_nodes q \<notin> live q" "free_timer_nodes q \<notin> live q" "set fs' \<inter> live q = {}"
    "\<forall>a \<in> set fs' \<union> insert (free_timer_nodes q) (live q). a \<noteq> null \<and> a < tq_fresh q" "0 < tq_fresh q"
    using assms(1) fs by (auto simp: pool_ok_def)
  have "distinct fs" using assms(1) by (auto simp: pool_ok_def intro: chain_distinct)
  then have nfs: "free_timer_nodes q \<notin> set fs'" using fs by simp
  have e: "node = free_timer_nodes q" "same_heap q q1"
    "free_timer_nodes q1 = tn_next (tq_nodes q node)" "tq_fresh q1 = tq_fresh q"
    "\<And>a. a \<noteq> node \<Longrightarrow> tq_nodes q1 a = tq_nodes q a"
    using assms(2) False p(3) by (auto simp: alloc_node_def same_heap_def Let_def)
  have "chain (\<lambda>a. tn_next (tq_nodes q1 a)) (free_timer_nodes q1) fs' null"
    using p(1) e(1,3) nfs pool_chain_cong [where nd' = "tq_nodes q1", OF e(5)] by simp
  then have "pool_ok q1 fs' (insert node (live q))"
    using p e nfs by (auto simp: pool_ok_def)
  then show ?thesis using that [of fs'] e False p(3) by simp
qed

lemma free_node_ok:
  assumes "heap_ok q {i}" "pool_ok q fs (insert node (live q))" "node \<notin> live q" "id_of q node = int i"
    "tn_type (tq_nodes q node) = GENERAL_TIMER" "i < timer_ids_size q" and q': "q' = free_node node q"
  shows "heap_ok q' {}" "pool_ok q' (node # fs) (live q')" "live q' = live q" "crontab_timers q' = crontab_timers q"
    "timer_heap_size q' = timer_heap_size q" "tq_curr_size q' = tq_curr_size q" "tq_max_size q' = tq_max_size q"
    "id_of q' = id_of q" "tm_of q' = tm_of q"
proof -
  have nn: "node \<noteq> null" using assms(2) by (auto simp: pool_ok_def)
  have p: "chain (\<lambda>a. tn_next (tq_nodes q a)) (free_timer_nodes q) fs null" "node \<notin> set fs"
    "set fs \<inter> live q = {}" "\<forall>a \<in> set fs \<union> insert node (live q). a \<noteq> null \<and> a < tq_fresh q" "0 < tq_fresh q"
    using assms(2) by (auto simp: pool_ok_def)
  have i: "nat (id_of q node) = i" "tn_timer_id (tq_nodes q node) = int i"
    using assms(4) by (simp_all add: id_of_def)
  have sel: "timer_heap q' = timer_heap q" "timer_ids q' = (timer_ids q)[i := -1]"
    "min_timer_id q' = min i (min_timer_id q)" "tq_curr_size q' = tq_curr_size q"
    "tq_max_size q' = tq_max_size q" "crontab_timers q' = crontab_timers q" "tq_fault q' = tq_fault q"
    "free_timer_nodes q' = node" "tq_fresh q' = tq_fresh q"
    "tq_nodes q' = (tq_nodes q)(node := (tq_nodes q node)\<lparr>crontab_entry := None, tn_next := free_timer_nodes q\<rparr>)"
    using nn i assms(5,6)
    by (simp_all add: q' free_node_def release_timerid_def Let_def release_cron_entry_def)
  have ids: "id_of q' = id_of q" "tm_of q' = tm_of q"
    by (simp_all add: id_of_def tm_of_def sel(10) fun_eq_iff Let_def)
  have lv: "live q' = live q" by (simp add: live_def sel(1,4))
  have li: "nat (id_of q a) \<noteq> i" if "a \<in> live q" for a
    using heap_okD(6) [OF assms(1), of i] live_bounds(1) [OF assms(1) that] that by force
  have "th.good q' (tq_curr_size q)"
  proof -
    have "slot_of q' a = slot_of q a" if "a \<in> live q" for a
      using li [OF that] by (simp add: slot_of_def ids sel(2))
    moreover have "recordable q' = recordable q" by (simp add: recordable_def fun_eq_iff ids sel(2,5))
    moreover have "tq_lt q' = tq_lt q" by (simp add: tq_lt_def fun_eq_iff sel(10))
    ultimately show ?thesis
      using heap_okD(1) [OF assms(1)] nth_in_take [of _ "tq_curr_size q" "timer_heap q"] heap_okD(4) [OF assms(1)]
      unfolding th.good_def ids sel(1) live_def by metis
  qed
  moreover have "timer_ids q' ! j \<noteq> -1" if "j < min_timer_id q'" for j
    using that heap_okD(7) [OF assms(1), of j] by (simp add: sel(2,3))
  moreover have "int j \<in> id_of q ` live q" if "j < timer_ids_size q" "timer_ids q' ! j \<noteq> -1" for j
    using that heap_okD(5) [OF assms(1), of j] by (cases "j = i") (auto simp: sel(2))
  moreover have "tn_type (tq_nodes q' a) = GENERAL_TIMER" if "a \<in> live q" for a
    using heap_okD(8) [OF assms(1) that] assms(3) that by (auto simp: sel(10))
  ultimately show "heap_ok q' {}"
    using heap_okD(2,3) [OF assms(1)] heap_okD(7) [OF assms(1)]
    unfolding heap_ok_def ids lv by (simp add: sel(1-5,7))
  have "chain (\<lambda>a. tn_next (tq_nodes q' a)) (free_timer_nodes q) fs null"
    using p(1,2) pool_chain_cong [of node "tq_nodes q'" "tq_nodes q"] by (simp add: sel(10))
  then show "pool_ok q' (node # fs) (live q')"
    using p nn assms(3) unfolding lv by (auto simp: pool_ok_def sel(8-10))
  show "live q' = live q" "crontab_timers q' = crontab_timers q" "timer_heap_size q' = timer_heap_size q"
    "tq_curr_size q' = tq_curr_size q" "tq_max_size q' = tq_max_size q" "id_of q' = id_of q" "tm_of q' = tm_of q"
    using lv sel ids by simp_all
qed

section \<open>The operations refine the map of timers\<close>

text \<open>The array is as large as it may become, one slot is left and the last id is in use.\<close>

definition index_full :: "timer_queue \<Rightarrow> bool" where
  "index_full q \<longleftrightarrow> int (timer_heap_size q) = tq_max_size q \<and> Suc (tq_curr_size q) = timer_heap_size q
     \<and> int (tq_curr_size q) \<in> id_of q ` live q"

lemma tq_ok_insertable:
  assumes "tq_ok q" "\<not> index_full q" "int (tq_curr_size q) < tq_max_size q"
  shows "insertable q"
proof -
  have h: "heap_ok q {}" "3 \<le> timer_heap_size q"
    "int (timer_heap_size q) < tq_max_size q \<Longrightarrow> int (timer_heap_size q - 1) \<notin> id_of q ` live q"
    using assms(1) by (auto simp: tq_ok_def)
  have "tq_curr_size q < timer_heap_size q"
  proof (cases "int (timer_heap_size q) < tq_max_size q")
    case True
    have "0 < timer_heap_size q" using h(2) by linarith
    then show ?thesis by (rule last_id_free_not_full [OF h(1) h(3) [OF True]])
  qed (use assms(3) in simp)
  moreover have "int (tq_curr_size q) \<notin> id_of q ` live q" if f: "Suc (tq_curr_size q) = timer_heap_size q"
  proof -
    consider "int (timer_heap_size q) < tq_max_size q" | "int (timer_heap_size q) = tq_max_size q"
      | "int (timer_heap_size q) > tq_max_size q" by linarith
    then show ?thesis
    proof cases
      case 1
      then show ?thesis using h(3) f by (metis diff_Suc_1)
    qed (use assms f in \<open>auto simp: index_full_def\<close>)
  qed
  ultimately show ?thesis using h assms(3) by (simp add: insertable_def)
qed

lemma insertable_cong:
  "same_heap q q' \<Longrightarrow> insertable q' = insertable q"
  by (simp add: insertable_def same_heap_sel)

lemma schedule_i_ok:
  assumes "tq_ok q" "\<not> index_full q" "int (tq_curr_size q) < tq_max_size q"
    "schedule_i eh arg t iv q = (tid, q')"
  shows "0 \<le> tid \<and> tq_timers q tid = None \<and> tq_ok q' \<and> tq_timers q' = (tq_timers q)(tid \<mapsto> (eh, arg, t, iv))
    \<and> tq_curr_size q' = Suc (tq_curr_size q) \<and> tq_max_size q' = tq_max_size q"
proof -
  obtain fs where p: "pool_ok q fs (live q)" using assms(1) by (auto simp: tq_ok_def)
  have h: "heap_ok q {}" and cr: "crontab_timers q = null" using assms(1) by (auto simp: tq_ok_def)
  have ins: "insertable q" by (rule tq_ok_insertable [OF assms(1-3)])
  obtain node q1 where a: "alloc_node GENERAL_TIMER q = (node, q1)" by fastforce
  from alloc_node_ok [OF p a] obtain fs' where
    n: "node \<noteq> null" "node \<notin> live q" "same_heap q q1" "pool_ok q1 fs' (insert node (live q))" by blast
  note s1 = same_heap_sel [OF n(3)]
  have h1: "heap_ok q1 {}" by (rule same_heap_ok [OF n(3) h])
  have "tq_curr_size q1 < timer_ids_size q1" using ins s1(4,5) heap_okD(2) [OF h1] by (simp add: insertable_def)
  from alloc_timerid_ok [OF h1 this] obtain i where
    i: "alloc_timerid q1 = (int i, q1\<lparr>min_timer_id := min_timer_id q1 + 1\<rparr>)" "i \<le> tq_curr_size q1"
      "int i \<notin> id_of q1 ` live q1" "heap_ok (q1\<lparr>min_timer_id := min_timer_id q1 + 1\<rparr>) {i}" by blast
  let ?q2 = "q1\<lparr>min_timer_id := min_timer_id q1 + 1\<rparr>"
  define q4 where "q4 = upd_node node (tn_type_update (\<lambda>_. GENERAL_TIMER)) (upd_node node (tn_set (int i) eh arg t iv) ?q2)"
  have nl: "node \<notin> live ?q2" using n(2) s1(1) by (simp add: live_def)
  have s4: "same_heap ?q2 q4"
    unfolding q4_def using nl n(1) by (intro same_heap_trans [OF upd_node_same_heap upd_node_same_heap])
      (auto simp: live_def)
  note s4' = same_heap_sel [OF s4]
  have h4: "heap_ok q4 {i}" by (rule same_heap_ok [OF s4 i(4)])
  have lv: "live q4 = live q" using s4'(1) s1(1) by (simp add: live_def)
  have node4: "tq_nodes q4 node = (tn_set (int i) eh arg t iv (tq_nodes q1 node))\<lparr>tn_type := GENERAL_TIMER\<rparr>"
    "\<And>a. a \<noteq> node \<Longrightarrow> tq_nodes q4 a = tq_nodes q1 a"
    using n(1) by (simp_all add: q4_def)
  have id4: "id_of q4 node = int i" "tm_of q4 node = (eh, arg, t, iv)"
    by (simp_all add: id_of_def tm_of_def node4 tn_set_def)
  have old: "id_of q4 a = id_of q a" "tm_of q4 a = tm_of q a" if "a \<in> live q" for a
  proof -
    have "a \<noteq> node" using that n(2) by blast
    then have "tq_nodes q4 a = tq_nodes q a" using node4(2) that n(3) by (simp add: same_heap_def)
    then show "id_of q4 a = id_of q a" "tm_of q4 a = tm_of q a" by (simp_all add: id_of_def tm_of_def)
  qed
  have "insertable ?q2 = insertable q1" by (simp add: insertable_def id_of_def live_def)
  then have ins4: "insertable q4"
    using insertable_cong [OF n(3)] insertable_cong [OF s4] ins by blast
  have c4: "i \<le> tq_curr_size q4" using i(2) s4'(5) by simp
  have "i < timer_heap_size q4" "int i < tq_max_size q4"
    using c4 ins4 by (auto simp: insertable_def)
  then have rec: "recordable q4 node" using n(1) heap_okD(2) [OF h4] by (simp add: recordable_def id4)
  have res: "tid = int i" "q' = tq_insert node q4"
    using assms(3,4) a i(1) n(1) by (auto simp: schedule_i_def Let_def q4_def)
  have c4': "Suc (tq_curr_size q4) < timer_heap_size q4 \<longrightarrow> int (timer_heap_size q4) < tq_max_size q4 \<longrightarrow>
      i \<noteq> timer_heap_size q4 - 1" using c4 by linarith
  note r = tq_insert_ok [OF h4 ins4 rec id4(1) _ impI [OF c4] c4' res(2)]
  have ty: "tn_type (tq_nodes q4 node) = GENERAL_TIMER" by (simp add: node4)
  note r = r [OF ty]
  have p': "pool_ok q' fs' (live q')"
  proof -
    have "free_timer_nodes q' = free_timer_nodes q1" "tq_fresh q' = tq_fresh q1" "tq_nodes q' = tq_nodes q4"
      using r(3) by (simp_all add: same_rest_def q4_def)
    moreover have "chain (\<lambda>a. tn_next (tq_nodes q4 a)) (free_timer_nodes q1) fs' null"
      using n(4) pool_chain_cong [where nd' = "tq_nodes q4", OF node4(2)] by (auto simp: pool_ok_def)
    ultimately show ?thesis using n(4) r(2) lv by (simp add: pool_ok_def)
  qed
  have "crontab_timers q4 = null" using cr s1(3) by (simp add: q4_def)
  then have ok: "tq_ok q'" using r p' by (auto simp: tq_ok_def same_rest_def)
  have nodes: "id_of q' = id_of q4" "tm_of q' = tm_of q4"
    using r(3) by (simp_all add: same_rest_def id_of_def tm_of_def fun_eq_iff)
  have fresh: "tq_timers q (int i) = None"
  proof (rule ccontr)
    assume "tq_timers q (int i) \<noteq> None"
    then obtain a where "a \<in> live q" "id_of q a = int i" using tq_timers_Some [OF h] by auto
    then show False using i(3) s1(2) by (metis imageI)
  qed
  have "tq_timers q' = (tq_timers q)(int i \<mapsto> (eh, arg, t, iv))"
  proof (rule map_Some_ext)
    fix k v
    have "tq_timers q' k = Some v \<longleftrightarrow> (\<exists>a \<in> insert node (live q). id_of q4 a = k \<and> tm_of q4 a = v)"
      unfolding tq_timers_Some [OF r(1)] nodes r(2) lv ..
    also have "\<dots> \<longleftrightarrow> (k = int i \<and> v = (eh, arg, t, iv)) \<or> tq_timers q k = Some v"
      unfolding tq_timers_Some [OF h] using id4 old by auto
    also have "\<dots> \<longleftrightarrow> ((tq_timers q)(int i \<mapsto> (eh, arg, t, iv))) k = Some v" using fresh by auto
    finally show "tq_timers q' k = Some v \<longleftrightarrow> ((tq_timers q)(int i \<mapsto> (eh, arg, t, iv))) k = Some v" .
  qed
  then show ?thesis
    using ok fresh res(1) r(3,6) s1(5,6) s4'(5,6) by (simp add: same_rest_def)
qed

end
