(* ===== verification/TimerDispatch.thy ===== *)
theory TimerDispatch
  imports TimerQueueCorrect
begin

text \<open>
  Cancelling and dispatching timers, the time to wait for, and the construction of a queue:
  the operations of \<^verbatim>\<open>timer_queue\<close> against the map of timers, and the findings about them.
\<close>

section \<open>Cancelling\<close>

lemma tm_of_rest: "same_rest q q' \<Longrightarrow> tm_of q' = tm_of q" "same_rest q q' \<Longrightarrow> id_of q' = id_of q"
  by (simp_all add: same_rest_def tm_of_def id_of_def fun_eq_iff)

lemma pool_ok_rest: "same_rest q q' \<Longrightarrow> pool_ok q' fs used = pool_ok q fs used"
  by (simp add: same_rest_def pool_ok_def)

lemma timers_removed:
  assumes "heap_ok q P" "heap_ok q' P'" "a \<in> live q" "live q' = live q - {a}" "id_of q' = id_of q" "tm_of q' = tm_of q"
  shows "tq_timers q' = (tq_timers q)(id_of q a := None)"
proof (rule map_Some_ext)
  fix k v
  have "(\<exists>b \<in> live q - {a}. id_of q b = k \<and> tm_of q b = v)
    \<longleftrightarrow> k \<noteq> id_of q a \<and> (\<exists>b \<in> live q. id_of q b = k \<and> tm_of q b = v)"
    using live_ids_inj [OF assms(1)] assms(3) by (auto simp: inj_on_def)
  then show "tq_timers q' k = Some v \<longleftrightarrow> ((tq_timers q)(id_of q a := None)) k = Some v"
    using tq_timers_Some [OF assms(1), of k v] tq_timers_Some [OF assms(2), of k v] assms(4-6) by simp
qed

lemma remove_free_ok:
  assumes "tq_ok q" "slot < tq_curr_size q" "tq_remove slot q = (a, q1)" and q': "q' = free_node a q1"
  shows "tq_ok q'" "tq_timers q' = (tq_timers q)(id_of q a := None)"
    "tm_of q' = tm_of q" "id_of q' = id_of q" "live q' = live q - {a}" "tq_max_size q' = tq_max_size q"
    "timer_heap_size q' = timer_heap_size q" "Suc (tq_curr_size q') = tq_curr_size q"
proof -
  obtain fs where p: "pool_ok q fs (live q)" using assms(1) by (auto simp: tq_ok_def)
  have h: "heap_ok q {}" using assms(1) by (simp add: tq_ok_def)
  note r = tq_remove_ok [OF h assms(2,3)]
  let ?i = "nat (id_of q a)"
  have lv: "insert a (live q1) = live q" using r(2,4) by auto
  have b: "0 \<le> id_of q a" "?i < timer_ids_size q1"
    using live_bounds [OF h r(2)] heap_okD(2) [OF h] heap_okD(2) [OF r(3)] r(6) by auto
  have p1: "pool_ok q1 fs (insert a (live q1))" unfolding lv using p pool_ok_rest [OF r(5)] by simp
  have ida: "id_of q1 a = int ?i" using b(1) tm_of_rest(2) [OF r(5)] by simp
  have ty: "tn_type (tq_nodes q1 a) = GENERAL_TIMER" using heap_okD(8) [OF h r(2)] r(5) by (simp add: same_rest_def)
  have nl: "a \<notin> live q1" using r(4) by simp
  note f = free_node_ok [OF r(3) p1 nl ida ty b(2) q']
  show id': "id_of q' = id_of q" "tm_of q' = tm_of q" using f(8,9) tm_of_rest [OF r(5)] by simp_all
  show lv': "live q' = live q - {a}" using f(3) r(4) by simp
  show "tq_timers q' = (tq_timers q)(id_of q a := None)"
    by (rule timers_removed [OF h f(1) r(2) lv' id'])
  show sz: "tq_max_size q' = tq_max_size q" "timer_heap_size q' = timer_heap_size q"
    using f(5,7) r(5,6) by (simp_all add: same_rest_def)
  show "Suc (tq_curr_size q') = tq_curr_size q" using f(6) r(7) by simp
  have "crontab_timers q' = null" using f(4) r(5) assms(1) by (simp add: same_rest_def tq_ok_def)
  then show "tq_ok q'"
    unfolding tq_ok_def sz using f(1,2) assms(1) lv' id'(1) by (auto simp: tq_ok_def)
qed

lemma find_cron_null [simp]: "find_cron tid null q = Some null"
  by (subst find_cron.simps) simp

lemma cancel_unknown:
  assumes "tq_ok q" "tq_timers q tid = None"
  shows "cancel close tid dont_call q =
    Some (-1, None, if 0 \<le> tid \<and> tid < int (timer_ids_size q) then raise_fault AssertFailed q else q)"
proof (cases "0 \<le> tid \<and> tid < int (timer_ids_size q)")
  case True
  have h: "heap_ok q {}" "crontab_timers q = null" using assms(1) by (auto simp: tq_ok_def)
  have "tid \<notin> id_of q ` live q" 
    using tq_timers_Some [OF h(1)] assms(2) by (metis imageE option.distinct(1))
  then have "timer_ids q ! nat tid = -1" using heap_okD(5) [OF h(1), of "nat tid"] True by (auto simp: nat_less_iff)
  then show ?thesis using True h(2) by (simp add: cancel_def)
next
  case False
  then show ?thesis by (auto simp: cancel_def)
qed

lemma cancel_known:
  assumes "tq_ok q" "tq_timers q tid = Some (eh, arg, t, iv)" "dont_call \<or> (\<forall>e s. close e s = s)"
  obtains q' where "cancel close tid dont_call q = Some (0, Some arg, q')" "tq_ok q'"
    "tq_timers q' = (tq_timers q)(tid := None)"
proof -
  have h: "heap_ok q {}" "crontab_timers q = null" using assms(1) by (auto simp: tq_ok_def)
  obtain a where a: "a \<in> live q" "id_of q a = tid" "tm_of q a = (eh, arg, t, iv)"
    using tq_timers_Some [OF h(1)] assms(2) by blast
  obtain i where i: "i < tq_curr_size q" "timer_heap q ! i = a" "timer_ids q ! nat tid = int i"
    using live_slot [OF h(1) a(1)] a(2) by metis
  have b: "0 \<le> tid" "tid < int (timer_ids_size q)" "i < timer_heap_size q"
    using live_bounds [OF h(1) a(1)] a(2) i(1) heap_okD(4) [OF h(1)] by auto
  obtain q1 where rm: "tq_remove i q = (a, q1)"
    using tq_remove_eq [OF h(1) i(1) refl] i(2) by simp
  note r = remove_free_ok [OF assms(1) i(1) rm refl]
  have "tm_of q1 a = tm_of q a" using tq_remove_ok(5) [OF h(1) i(1) rm] tm_of_rest by metis
  then have "tn_arg (tq_nodes q1 a) = arg" using a(3) by (simp add: tm_of_def Let_def)
  moreover have "call_close close dont_call a q1 = q1" using assms(3) by (auto simp: call_close_def Let_def)
  ultimately have "cancel close tid dont_call q = Some (0, Some arg, free_node a q1)"
    using b i h(2) a(2) rm by (simp add: cancel_def Let_def id_of_def)
  then show ?thesis using that r a(2) by blast
qed

section \<open>Dispatching\<close>

lemma skip_expired_ok:
  assumes "clock_time tv" "clock_time iv" "clock_time now" "0 < usecs iv"
  shows "\<exists>tv' k. skip_expired tv iv now = Some tv' \<and> clock_time tv' \<and> now < tv'
           \<and> usecs tv' = usecs tv + int (Suc k) * usecs iv \<and> (tv \<le> now \<longrightarrow> usecs tv' \<le> usecs now + usecs iv)"
  using assms(1)
proof (induction "nat (usecs now - usecs tv + 1)" arbitrary: tv rule: less_induct)
  case less
  let ?t = "tv_add tv iv"
  have ct: "clock_time ?t" using less.prems assms(2) by (simp add: clock_time_def)
  show ?case
  proof (cases "?t \<le> now")
    case True
    then have le: "usecs ?t \<le> usecs now" using clock_time_le [OF ct assms(3)] by simp
    then have "nat (usecs now - usecs ?t + 1) < nat (usecs now - usecs tv + 1)" using assms(4) by simp
    from less.hyps [OF this ct] obtain tv' k where
      "skip_expired ?t iv now = Some tv'" "clock_time tv'" "now < tv'"
      "usecs tv' = usecs ?t + int (Suc k) * usecs iv" "usecs tv' \<le> usecs now + usecs iv" using True by blast
    then show ?thesis using True
      by (intro exI [of _ tv'] exI [of _ "Suc k"])
        (simp add: skip_expired.simps [of tv iv now] Let_def algebra_simps)
  next
    case False
    then have "now < ?t" "usecs now < usecs ?t" using clock_time_less [OF assms(3) ct] by auto
    moreover have "tv \<le> now \<longrightarrow> usecs tv \<le> usecs now" using clock_time_le [OF less.prems assms(3)] by simp
    ultimately show ?thesis
      using False ct by (intro exI [of _ ?t] exI [of _ 0]) (simp add: skip_expired.simps [of tv iv now] Let_def)
  qed
qed

definition tq_clock :: "timer_queue \<Rightarrow> bool" where
  "tq_clock q \<longleftrightarrow> (\<forall>tid eh arg t iv. tq_timers q tid = Some (eh, arg, t, iv) \<longrightarrow> clock_time t \<and> clock_time iv)"

lemma earliest_is_least:
  assumes "heap_ok q P" "a \<in> live q"
  shows "earliest_time q \<le> time_of q a"
  using th.good_root [OF heap_okD(1) [OF assms(1)], of a] assms(2)
  by (simp add: tq_lt_def live_def earliest_time_def not_less)

lemma curr_le_max:
  assumes "heap_ok q P" "0 < tq_curr_size q"
  shows "int (tq_curr_size q) \<le> tq_max_size q"
proof -
  have "a \<in> live q \<Longrightarrow> id_of q a < int (nat (tq_max_size q))" for a
    using live_bounds [OF assms(1), of a] by simp
  note l = live_ids_card [OF assms(1) this]
  have "tq_curr_size q \<le> nat (tq_max_size q)" using card_mono [OF _ l(1)] l(2) by simp
  then show ?thesis using assms(2) by linarith
qed

lemma reschedule_ok:
  assumes "tq_ok q" "0 < tq_curr_size q" "tq_curr_size q < timer_heap_size q" "tq_remove 0 q = (a, q1)"
    and q': "q' = reschedule a (upd_node a (timer_value_update (\<lambda>_. tv)) q1)"
    and tm: "tm_of q a = (eh, arg, t, iv)"
  shows "tq_ok q'" "tq_timers q' = (tq_timers q)(id_of q a \<mapsto> (eh, arg, tv, iv))"
proof -
  obtain fs where p: "pool_ok q fs (live q)" using assms(1) by (auto simp: tq_ok_def)
  have h: "heap_ok q {}" using assms(1) by (simp add: tq_ok_def)
  note r = tq_remove_ok [OF h assms(2,4)]
  let ?i = "nat (id_of q a)" and ?q2 = "upd_node a (timer_value_update (\<lambda>_. tv)) q1"
  have lv: "insert a (live q1) = live q" and nl: "a \<notin> live q1" using r(2,4) by auto
  have b: "0 \<le> id_of q a" "id_of q a < int (timer_heap_size q)" "id_of q a < tq_max_size q" "a \<noteq> null"
    using live_bounds [OF h r(2)] heap_okD(2) [OF h] by auto
  have s2: "same_heap q1 ?q2" by (rule upd_node_same_heap [OF nl b(4)])
  note sh = same_heap_sel [OF s2]
  have h2: "heap_ok ?q2 {?i}" by (rule same_heap_ok [OF s2 r(3)])
  have rest: "tq_max_size q1 = tq_max_size q" "id_of q1 = id_of q" "tm_of q1 = tm_of q" "tq_nodes q1 = tq_nodes q"
    "crontab_timers q1 = crontab_timers q"
    using r(5) tm_of_rest [OF r(5)] by (simp_all add: same_rest_def)
  have ida: "id_of ?q2 = id_of q" using b(4) rest(4) by (auto simp: id_of_def fun_eq_iff)
  have lv2: "live ?q2 = live q - {a}" using sh(1) r(4) by simp
  have last: "int (timer_heap_size q) < tq_max_size q \<longrightarrow> int (timer_heap_size q - 1) \<notin> id_of q ` live q"
    "3 \<le> timer_heap_size q" using assms(1) by (auto simp: tq_ok_def)
  have ins: "insertable ?q2"
    using last curr_le_max [OF h assms(2)] assms(3) r(6,7) rest ida lv2 sh(4-6)
    unfolding insertable_def by auto
  have rec: "recordable ?q2 a"
    using b ida sh(4,6) r(6) rest(1) heap_okD(2) [OF h2] by (simp add: recordable_def)
  have ty: "tn_type (tq_nodes ?q2 a) = GENERAL_TIMER" using heap_okD(8) [OF h r(2)] b(4) rest(4) by simp
  have nogrow: "Suc (tq_curr_size ?q2) < timer_heap_size ?q2" using assms(3) r(6,7) sh(4,5) by simp
  have ni: "int (timer_heap_size ?q2) < tq_max_size ?q2 \<longrightarrow> ?i \<noteq> timer_heap_size ?q2 - 1"
    using last(1) r(2,6) sh(4,6) rest(1) b(1) by (metis imageI int_nat_eq)
  have ii: "id_of ?q2 a = int ?i" using ida b(1) by simp
  have le: "Suc (tq_curr_size ?q2) = timer_heap_size ?q2 \<longrightarrow> ?i \<le> tq_curr_size ?q2" using nogrow by simp
  have q'': "q' = tq_insert a ?q2" by (simp add: q' reschedule_def)
  note f = tq_insert_ok [OF h2 ins rec ii ty le impI [OF ni] q'']
  have lvq: "live q' = live q" using f(2) lv2 r(2) by auto
  have "pool_ok q1 fs (live q)" using p pool_ok_rest [OF r(5)] by simp
  then have "pool_ok ?q2 fs (live q)"
    using b(4) r(2) pool_chain_cong [of a "tq_nodes ?q2" "tq_nodes q1"] by (auto simp: pool_ok_def)
  then have "pool_ok q' fs (live q')" using pool_ok_rest [OF f(3)] lvq by simp
  then show "tq_ok q'"
    using f assms(1) rest(5) sh(3) by (auto simp: tq_ok_def same_rest_def)
  have id': "id_of q' = id_of q" "tm_of q' = tm_of ?q2" using tm_of_rest [OF f(3)] ida by simp_all
  have tm2: "tm_of ?q2 a = (eh, arg, tv, iv)" "b \<noteq> a \<Longrightarrow> tm_of ?q2 b = tm_of q b" for b
    using tm b(4) rest(4) by (auto simp: tm_of_def Let_def)
  show "tq_timers q' = (tq_timers q)(id_of q a \<mapsto> (eh, arg, tv, iv))"
  proof (rule map_Some_ext)
    fix k v
    have "tq_timers q' k = Some v \<longleftrightarrow> (\<exists>b \<in> live q. id_of q b = k \<and> tm_of ?q2 b = v)"
      unfolding tq_timers_Some [OF f(1)] id' lvq ..
    also have "\<dots> \<longleftrightarrow> (if k = id_of q a then v = (eh, arg, tv, iv) else tq_timers q k = Some v)"
    proof (cases "k = id_of q a")
      case True
      have "id_of q b = id_of q a \<longleftrightarrow> b = a" if "b \<in> live q" for b
        using live_ids_inj [OF h] r(2) that by (auto simp: inj_on_def)
      then show ?thesis using True r(2) tm2(1) by auto
    next
      case False
      then have "(\<exists>b \<in> live q. id_of q b = k \<and> tm_of ?q2 b = v) \<longleftrightarrow> (\<exists>b \<in> live q. id_of q b = k \<and> tm_of q b = v)"
        using tm2(2) by metis
      then show ?thesis using False tq_timers_Some [OF h] by simp
    qed
    finally show "tq_timers q' k = Some v \<longleftrightarrow> ((tq_timers q)(id_of q a \<mapsto> (eh, arg, tv, iv))) k = Some v" by auto
  qed
qed

section \<open>Construction\<close>

lemma init_nodes_sel [simp]:
  "timer_heap (init_nodes n iter q) = timer_heap q" "timer_ids (init_nodes n iter q) = timer_ids q"
  "tq_curr_size (init_nodes n iter q) = tq_curr_size q" "tq_max_size (init_nodes n iter q) = tq_max_size q"
  "crontab_timers (init_nodes n iter q) = crontab_timers q"
  by (induction n arbitrary: iter q) (simp_all add: new_node_def Let_def)

lemma pool_append:
  assumes "pool_ok q fs {}" "fs \<noteq> []" "new_node q = (node, q1)"
  shows "pool_ok (upd_node (last fs) (tn_next_update (\<lambda>_. node)) q1) (fs @ [node]) {}"
proof -
  let ?q = "upd_node (last fs) (tn_next_update (\<lambda>_. node)) q1" and ?nx = "\<lambda>a. tn_next (tq_nodes q a)"
  obtain xs l where fs: "fs = xs @ [l]" using assms(2) by (cases fs rule: rev_cases) auto
  have c: "chain ?nx (free_timer_nodes q) fs null" "\<forall>a \<in> set fs. a \<noteq> null \<and> a < tq_fresh q" "0 < tq_fresh q"
    using assms(1) by (auto simp: pool_ok_def)
  have nl: "node = tq_fresh q" "l \<noteq> null" "l \<noteq> node" "node \<notin> set fs" "l \<notin> set xs"
    using assms(3) c fs chain_distinct [OF c(1)] by (auto simp: new_node_def)
  have nx: "(\<lambda>a. tn_next (tq_nodes ?q a)) = ?nx(node := null, l := node)"
    using assms(3) nl fs by (auto simp: new_node_def timer_node_new_def fun_eq_iff)
  have "chain (?nx(node := null)) (free_timer_nodes q) (xs @ [l]) null" using c(1) nl(4) fs by simp
  then have "chain (?nx(node := null, l := node)) (free_timer_nodes q) (xs @ [l]) node"
    using chain_relink_last nl(5) by blast
  then have "chain (?nx(node := null, l := node)) (free_timer_nodes q) (fs @ [node]) null"
    using nl c(3) unfolding fs chain_append [of _ _ "xs @ [l]"] by (intro exI [of _ node]) simp
  then show ?thesis
    using c assms(3) nl unfolding pool_ok_def nx by (auto simp: new_node_def less_Suc_eq)
qed

lemma init_nodes_pool:
  "pool_ok q fs {} \<Longrightarrow> (fs \<noteq> [] \<longrightarrow> iter = last fs) \<Longrightarrow> tq_fault q = None \<Longrightarrow>
     (\<exists>fs'. pool_ok (init_nodes n iter q) fs' {}) \<and> tq_fault (init_nodes n iter q) = None"
proof (induction n arbitrary: iter q fs)
  case 0
  then show ?case by auto
next
  case (Suc n)
  obtain node q1 where nd: "new_node q = (node, q1)" by fastforce
  have q1: "free_timer_nodes q1 = free_timer_nodes q" "tq_fault q1 = None" "0 < node" "node = tq_fresh q"
    using nd Suc.prems(1,3) by (auto simp: new_node_def pool_ok_def)
  show ?case
  proof (cases "fs = []")
    case True
    then have f: "free_timer_nodes q = null" using Suc.prems(1) by (simp add: pool_ok_def)
    have "pool_ok (q1\<lparr>free_timer_nodes := node\<rparr>) [node] {}"
      using nd q1(3) by (auto simp: pool_ok_def new_node_def timer_node_new_def)
    from Suc.IH [OF this, of node] show ?thesis using nd f q1 by simp
  next
    case False
    then have f: "free_timer_nodes q \<noteq> null" "last fs \<noteq> null"
      using Suc.prems(1) chain_nonempty by (auto simp: pool_ok_def)
    from Suc.IH [OF pool_append [OF Suc.prems(1) False nd], of node] show ?thesis
      using nd f q1 Suc.prems(2) False by simp
  qed
qed

lemma tq_new_sel:
  "timer_heap (tq_new m n) = replicate n null" "timer_ids (tq_new m n) = replicate n (-1)"
  "tq_curr_size (tq_new m n) = 0" "tq_max_size (tq_new m n) = m" "crontab_timers (tq_new m n) = null"
  "min_timer_id (tq_new m n) = 0"
  by (simp_all add: tq_new_def tq_init_def Let_def)

lemma tq_new_ok_lemma: "3 \<le> n \<Longrightarrow> tq_ok (tq_new m n) \<and> tq_timers (tq_new m n) = Map.empty"
proof -
  assume n: "3 \<le> n"
  let ?q = "\<lparr>tq_max_size = m, tq_curr_size = 0, timer_heap = replicate n null, free_timer_nodes = null,
      free_crontab_timers = null, crontab_timers = null, timer_ids = replicate n (-1), min_timer_id = 0,
      tq_timeout = tv_zero, tq_nodes = (\<lambda>_. timer_node_new), tq_fresh = 1, tq_fault = None\<rparr>"
  have "pool_ok ?q [] {}" by (simp add: pool_ok_def)
  from init_nodes_pool [OF this, of null n]
  obtain fs where p: "pool_ok (init_nodes n null ?q) fs {}" "tq_fault (init_nodes n null ?q) = None" by auto
  have eq: "tq_new m n = (init_nodes n null ?q)\<lparr>min_timer_id := 0\<rparr>"
    by (simp add: tq_new_def tq_init_def Let_def)
  have "pool_ok (tq_new m n) fs {}" "tq_fault (tq_new m n) = None"
    using p unfolding eq by (simp_all add: pool_ok_def)
  then show ?thesis
    using n by (auto simp: tq_ok_def heap_ok_def live_def tq_new_sel th.good_def heap_on_def tq_timers_def)
qed

section \<open>Runs\<close>

lemma dispatch_ok:
  assumes "tq_ok q" "tq_clock q" "clock_time now" "0 < tq_curr_size q" "tq_curr_size q < timer_heap_size q"
    "earliest_time q \<le> now"
  obtains tid eh arg t iv d q' where "dispatch_timer now q = Some (Some d, q')"
    "tq_timers q tid = Some (eh, arg, t, iv)" "t = earliest_time q"
    "tn_handler d = eh" "tn_arg d = arg" "tn_timer_id d = tid" "tn_interval d = iv" "tq_ok q'"
    "tv_zero < iv \<Longrightarrow> \<exists>t' k. clock_time t' \<and> now < t' \<and> usecs t' = usecs t + int (Suc k) * usecs iv
       \<and> usecs t' \<le> usecs now + usecs iv \<and> tq_timers q' = (tq_timers q)(tid \<mapsto> (eh, arg, t', iv))"
    "\<not> tv_zero < iv \<Longrightarrow> tq_timers q' = (tq_timers q)(tid := None)"
proof -
  have h: "heap_ok q {}" using assms(1) by (simp add: tq_ok_def)
  obtain a q1 where rm: "tq_remove 0 q = (a, q1)" by fastforce
  note r = tq_remove_ok [OF h assms(4) rm]
  obtain eh arg t iv where tm: "tm_of q a = (eh, arg, t, iv)" by (metis prod_cases4)
  have nd: "tq_nodes q1 = tq_nodes q" using r(5) by (simp add: same_rest_def)
  have f: "tn_handler (tq_nodes q a) = eh" "tn_arg (tq_nodes q a) = arg" "timer_value (tq_nodes q a) = t"
    "tn_interval (tq_nodes q a) = iv" using tm by (auto simp: tm_of_def Let_def)
  have some: "tq_timers q (id_of q a) = Some (eh, arg, t, iv)"
    using tq_timers_Some [OF h, of "id_of q a"] r(2) tm by blast
  have ct: "clock_time t" "clock_time iv" using assms(2) some by (auto simp: tq_clock_def)
  have t: "t = earliest_time q" using r(1) f(3) by (simp add: earliest_time_def)
  have nn: "a \<noteq> null" using live_bounds(4) [OF h r(2)] .
  have first: "remove_first q = (a, q1)" using rm assms(4) by (simp add: remove_first_def)
  let ?d = "tn_assign timer_node_new (tq_nodes q1 a)"
  have d: "tn_handler ?d = eh" "tn_arg ?d = arg" "tn_timer_id ?d = id_of q a" "tn_interval ?d = iv"
    using f nd by (simp_all add: tn_assign_def id_of_def)
  show ?thesis
  proof (cases "tv_zero < iv")
    case True
    then have "0 < usecs iv" using positive_usecs [of iv] ct(2) by (simp add: clock_time_def tv_zero_eq)
    from skip_expired_ok [OF ct assms(3) this] obtain t' k where
      sk: "skip_expired t iv now = Some t'" "clock_time t'" "now < t'" "usecs t' = usecs t + int (Suc k) * usecs iv"
        "usecs t' \<le> usecs now + usecs iv" using assms(6) t by blast
    let ?q = "reschedule a (upd_node a (timer_value_update (\<lambda>_. t')) q1)"
    have "dispatch_timer now q = Some (Some ?d, ?q)"
      using assms(6) first nn True sk(1) f nd by (simp add: dispatch_timer_def Let_def)
    then show ?thesis
      using that [of ?d ?q "id_of q a" eh arg t iv] some t d True sk
        reschedule_ok [OF assms(1,4,5) rm refl tm, of t'] by blast
  next
    case False
    let ?q = "free_node a q1"
    have "dispatch_timer now q = Some (Some ?d, ?q)"
      using assms(6) first nn False f nd by (simp add: dispatch_timer_def Let_def)
    then show ?thesis
      using that [of ?d ?q "id_of q a" eh arg t iv] some t d False
        remove_free_ok(1,2) [OF assms(1,4) rm refl] by blast
  qed
qed

text \<open>What a client may do: schedule a timer, cancel one that is pending or an id outside the array, with
  \<^verbatim>\<open>dont_call\<close> or a close hook that leaves the queue alone, and dispatch. Times are clock times. Left
  out are the calls that fault: scheduling into the last slot of an array of the final size when the
  last id is in use (\<open>index_full\<close>, \<^verbatim>\<open>grow_heap_forgets_timer\<close>), dispatching while all slots are in use,
  where a periodic timer runs into the same fault, and cancelling an id in the array that no timer
  has, which fails an assertion.\<close>

inductive tq_step :: "timer_queue \<Rightarrow> timer_queue \<Rightarrow> bool" where
  step_schedule: "\<not> index_full q \<Longrightarrow>
     clock_time t \<Longrightarrow> clock_time iv \<Longrightarrow> schedule_i eh arg t iv q = (tid, q') \<Longrightarrow> tq_step q q'"
| step_cancel: "tq_timers q tid \<noteq> None \<or> tid < 0 \<or> int (timer_ids_size q) \<le> tid \<Longrightarrow>
     dont_call \<or> (\<forall>e s. close e s = s) \<Longrightarrow> cancel close tid dont_call q = Some (r, arg, q') \<Longrightarrow> tq_step q q'"
| step_dispatch: "0 < tq_curr_size q \<Longrightarrow> tq_curr_size q < timer_heap_size q \<Longrightarrow> clock_time now \<Longrightarrow>
     dispatch_timer now q = Some (d, q') \<Longrightarrow> tq_step q q'"

lemma tq_clock_upd: "tq_clock q \<Longrightarrow> tq_timers q' = (tq_timers q)(tid \<mapsto> (eh, arg, t, iv)) \<Longrightarrow>
    clock_time t \<Longrightarrow> clock_time iv \<Longrightarrow> tq_clock q'"
  by (simp add: tq_clock_def)

lemma tq_clock_del: "tq_clock q \<Longrightarrow> tq_timers q' = (tq_timers q)(tid := None) \<Longrightarrow> tq_clock q'"
  by (simp add: tq_clock_def)

lemma tq_step_ok: "tq_step q q' \<Longrightarrow> tq_ok q \<Longrightarrow> tq_clock q \<Longrightarrow> tq_ok q' \<and> tq_clock q'"
proof (induction rule: tq_step.induct)
  case (step_schedule q t iv eh arg tid q')
  show ?case
  proof (cases "int (tq_curr_size q) < tq_max_size q")
    case True
    from schedule_i_ok [OF step_schedule(5,1) True step_schedule(4)]
    show ?thesis using tq_clock_upd [OF step_schedule(6) _ step_schedule(2,3)] by blast
  next
    case False
    then show ?thesis using step_schedule by (simp add: schedule_i_def)
  qed
next
  case (step_cancel q tid dont_call close r arg q')
  show ?case
  proof (cases "tq_timers q tid")
    case None
    then show ?thesis using step_cancel cancel_unknown [OF step_cancel(4) None, of close dont_call] by auto
  next
    case (Some tm)
    obtain eh ar t iv where "tm = (eh, ar, t, iv)" by (metis prod_cases4)
    then obtain q'' where "cancel close tid dont_call q = Some (0, Some ar, q'')" "tq_ok q''"
      "tq_timers q'' = (tq_timers q)(tid := None)"
      using cancel_known [of q tid eh ar t iv dont_call close] Some step_cancel by blast
    then show ?thesis using step_cancel tq_clock_del by auto
  qed
next
  case (step_dispatch q now d q')
  show ?case
  proof (cases "earliest_time q \<le> now")
    case True
    show ?thesis
    proof (rule dispatch_ok [OF step_dispatch(5,6,3,1,2) True])
      fix tid eh arg t iv d1 q1
      assume a: "dispatch_timer now q = Some (Some d1, q1)" "tq_timers q tid = Some (eh, arg, t, iv)" "tq_ok q1"
        "tv_zero < iv \<Longrightarrow> \<exists>t' k. clock_time t' \<and> now < t' \<and> usecs t' = usecs t + int (Suc k) * usecs iv
           \<and> usecs t' \<le> usecs now + usecs iv \<and> tq_timers q1 = (tq_timers q)(tid \<mapsto> (eh, arg, t', iv))"
        "\<not> tv_zero < iv \<Longrightarrow> tq_timers q1 = (tq_timers q)(tid := None)"
      have "clock_time iv" using step_dispatch(6) a(2) by (auto simp: tq_clock_def)
      then have "tq_clock q1"
        using a(4,5) tq_clock_upd [OF step_dispatch(6)] tq_clock_del [OF step_dispatch(6)] by (cases "tv_zero < iv") blast+
      then show ?thesis using a(1,3) step_dispatch(4) by simp
    qed
  next
    case False
    then show ?thesis using step_dispatch by (simp add: dispatch_timer_def)
  qed
qed

section \<open>Properties\<close>

text \<open>A new timer queue with room for at least three timers is consistent and holds no timer.\<close>

theorem tq_new_ok:
  assumes "3 \<le> n"
  shows "tq_ok (tq_new m n) \<and> tq_timers (tq_new m n) = Map.empty"
  using tq_new_ok_lemma [OF assms] .

theorem tq_new_ok_witness: "tq_ok (tq_new 1000 4)"
  using tq_new_ok [of 4 1000] by simp

text \<open>C21: Scheduling refines an update of the abstract map, in a queue that satisfies the invariant
  (which includes that no crontab timer is registered) and in which the table of ids is not full
  (\<open>index_full\<close>: the array has its final size, one slot is left and the last id is in use; then
  scheduling forgets that id, \<^verbatim>\<open>grow_heap_forgets_timer\<close>). At the maximum number of timers it returns -1
  and changes nothing. Otherwise it returns an id that no pending timer has, adds exactly the new
  timer (expiring after the delay from now) and keeps every other one, growing the heap when
  needed.\<close>

theorem schedule_refines:
  assumes "tq_ok q" "\<not> index_full q" "schedule now eh arg delay iv q = (tid, q')"
  shows "if int (tq_curr_size q) \<ge> tq_max_size q then tid = -1 \<and> q' = q
         else 0 \<le> tid \<and> tq_timers q tid = None \<and> tq_ok q'
              \<and> tq_timers q' = (tq_timers q)(tid \<mapsto> (eh, arg, tv_add now delay, iv))"
proof (cases "int (tq_curr_size q) \<ge> tq_max_size q")
  case True
  then show ?thesis using assms(3) by (simp add: schedule_def schedule_i_def)
next
  case False
  have "schedule_i eh arg (tv_add now delay) iv q = (tid, q')" using assms(3) by (simp add: schedule_def)
  from schedule_i_ok [OF assms(1,2) _ this] False show ?thesis by simp
qed

text \<open>A queue with a periodic timer and a one-shot timer, with given ids.\<close>

definition tq_two :: "int \<Rightarrow> int \<Rightarrow> int \<Rightarrow> int list \<Rightarrow> timer_queue" where
  "tq_two m i j ids =
     \<lparr>tq_max_size = m, tq_curr_size = 2, timer_heap = [1, 2, 0], free_timer_nodes = 3,
      free_crontab_timers = null, crontab_timers = null, timer_ids = ids, min_timer_id = 0,
      tq_timeout = tv_zero,
      tq_nodes = (\<lambda>a. if a = 1 then tn_set i 7 8 (TimeValue 5 0) (TimeValue 2 0) timer_node_new
                      else if a = 2 then tn_set j 7 9 (TimeValue 9 0) (TimeValue 0 0) timer_node_new
                      else timer_node_new),
      tq_fresh = 4, tq_fault = None\<rparr>"

abbreviation tq_demo :: timer_queue where
  "tq_demo \<equiv> tq_two 10 0 1 [0, 1, -1]"

lemma tq_two_sel [simp]:
  "tq_curr_size (tq_two m i j ids) = 2" "timer_heap (tq_two m i j ids) = [1, 2, 0]"
  "timer_ids (tq_two m i j ids) = ids" "tq_max_size (tq_two m i j ids) = m"
  "earliest_time (tq_two m i j ids) = TimeValue 5 0" "live (tq_two m i j ids) = {1, 2}"
  "id_of (tq_two m i j ids) 1 = i" "id_of (tq_two m i j ids) (Suc 0) = i" "id_of (tq_two m i j ids) 2 = j"
  "tq_timers (tq_two m i j ids) = [j \<mapsto> (7, 9, TimeValue 9 0, TimeValue 0 0), i \<mapsto> (7, 8, TimeValue 5 0, TimeValue 2 0)]"
  by (simp_all add: tq_two_def earliest_time_def live_def id_of_def tq_timers_def tn_set_def tm_of_def numeral_2_eq_2)

lemma less_2_cases: "(i::nat) < 2 \<Longrightarrow> i = 0 \<or> i = 1"
  by auto

lemma tq_two_heap_ok:
  assumes "length ids = 3" "0 \<le> i" "i < 3" "0 \<le> j" "j < 3" "i \<noteq> j" "i < m" "j < m"
    "ids ! nat i = 0" "ids ! nat j = 1" "\<forall>k < 3. ids ! k \<noteq> -1 \<longrightarrow> int k = i \<or> int k = j"
  shows "heap_ok (tq_two m i j ids) {}" "pool_ok (tq_two m i j ids) [3] (live (tq_two m i j ids))"
    "crontab_timers (tq_two m i j ids) = null"
proof -
  let ?q = "tq_two m i j ids"
  have lt: "tq_lt ?q 2 1 = False"
    by (simp add: tq_lt_def tq_two_def tn_set_def less_time_value_def tv_less_def)
  have "heap_on (tq_lt ?q) [1, 2, 0] 2"
    using lt by (auto simp: heap_on_def par_def dest!: less_2_cases)
  moreover have "recordable ?q 1" "recordable ?q 2" "slot_of ?q 1 = 0" "slot_of ?q 2 = 1"
    using assms by (simp_all add: recordable_def slot_of_def)
  moreover have tk: "take 2 (timer_heap ?q) = [1, 2]" by (simp add: numeral_2_eq_2)
  ultimately have "th.good ?q 2"
    using assms(6) tk unfolding th.good_def by (auto dest!: less_2_cases)
  moreover have "\<forall>a \<in> live ?q. tn_type (tq_nodes ?q a) = GENERAL_TIMER" "min_timer_id ?q = 0" "tq_fault ?q = None"
    by (auto simp: tq_two_def live_def tn_set_def timer_node_new_def)
  ultimately show "heap_ok ?q {}" using assms(1,11) by (auto simp: heap_ok_def)
  show "pool_ok ?q [3] (live ?q)" by (simp add: pool_ok_def) (simp add: tq_two_def timer_node_new_def)
  show "crontab_timers ?q = null" by (simp add: tq_two_def)
qed

lemma tq_demo_ok: "tq_ok tq_demo"
proof -
  have "\<forall>k < 3. [0, 1, -1 :: int] ! k \<noteq> -1 \<longrightarrow> int k = 0 \<or> int k = 1" by (auto simp: less_Suc_eq numeral_3_eq_3)
  then have "heap_ok tq_demo {}" "pool_ok tq_demo [3] (live tq_demo)" "crontab_timers tq_demo = null"
    using tq_two_heap_ok [of "[0, 1, -1]" 0 1 10] by simp_all
  then show ?thesis unfolding tq_ok_def by auto
qed

lemma tq_demo_clock: "tq_clock tq_demo" "clock_time (TimeValue 10 0)"
  by (auto simp: tq_clock_def clock_time_def normalized_def usecs_def one_sec_def split: if_splits)

theorem schedule_refines_witness:
  "0 \<le> fst (schedule (TimeValue 3 0) 7 8 (TimeValue 1 0) tv_zero tq_demo)"
proof -
  have f: "\<not> index_full tq_demo" by (simp add: index_full_def)
  from schedule_refines [OF tq_demo_ok f surjective_pairing] show ?thesis by simp
qed

text \<open>C22: Cancelling by id refines a deletion from the map, in a queue without crontab timers (whose ids
  are searched first) and when no close hook is called, or one that does not touch the queue: a
  pending timer is found, its argument handed back, and it alone is removed. An id outside the
  array gives -1; an id inside the array that no pending timer has fails the \<^verbatim>\<open>assert\<close> that precedes
  the documented return of -1.\<close>

theorem cancel_refines:
  assumes "tq_ok q" "dont_call \<or> (\<forall>e s. close e s = s)"
  shows "case tq_timers q tid of
           Some (eh, arg, t, iv) \<Rightarrow>
             \<exists>q'. cancel close tid dont_call q = Some (0, Some arg, q') \<and> tq_ok q'
                  \<and> tq_timers q' = (tq_timers q)(tid := None)
         | None \<Rightarrow> cancel close tid dont_call q = Some (-1, None,
               if 0 \<le> tid \<and> tid < int (timer_ids_size q) then raise_fault AssertFailed q else q)"
proof (cases "tq_timers q tid")
  case None
  then show ?thesis using cancel_unknown [OF assms(1)] by simp
next
  case (Some tm)
  obtain eh arg t iv where "tm = (eh, arg, t, iv)" by (metis prod_cases4)
  then show ?thesis using Some cancel_known [OF assms(1) _ assms(2)] by (simp, metis)
qed

theorem cancel_refines_witness:
  "\<exists>q'. cancel (\<lambda>e s. s) 0 False tq_demo = Some (0, Some 8, q') \<and> tq_timers q' 0 = None"
  using cancel_refines [OF tq_demo_ok, of False "\<lambda>e s. s" 0] by auto

text \<open>C23: Dispatching refines the abstract timers: nothing happens when the earliest timer lies in
  the future; otherwise a timer with the earliest expiry time of all is dispatched, exactly
  once. A one-shot timer is removed; a periodic one stays with its next expiry, the first
  multiple of its interval after the current time: the catch-up loop ends.\<close>

theorem dispatch_refines:
  assumes "tq_ok q" "tq_clock q" "clock_time now" "0 < tq_curr_size q" "tq_curr_size q < timer_heap_size q"
  shows "if now < earliest_time q then dispatch_timer now q = Some (None, q)
         else \<exists>tid eh arg t iv d q'. dispatch_timer now q = Some (Some d, q')
           \<and> tq_timers q tid = Some (eh, arg, t, iv)
           \<and> (\<forall>tid' eh' arg' t' iv'. tq_timers q tid' = Some (eh', arg', t', iv') \<longrightarrow> t \<le> t')
           \<and> tn_handler d = eh \<and> tn_arg d = arg \<and> tn_timer_id d = tid \<and> tq_ok q'
           \<and> (if tv_zero < iv
              then \<exists>t' k. now < t' \<and> usecs t' = usecs t + int (Suc k) * usecs iv
                     \<and> usecs t' \<le> usecs now + usecs iv
                     \<and> tq_timers q' = (tq_timers q)(tid \<mapsto> (eh, arg, t', iv))
              else tq_timers q' = (tq_timers q)(tid := None))"
proof (cases "now < earliest_time q")
  case True
  then show ?thesis by (simp add: dispatch_timer_def not_le [symmetric])
next
  case False
  then have due: "earliest_time q \<le> now" by simp
  have h: "heap_ok q {}" using assms(1) by (simp add: tq_ok_def)
  have least: "earliest_time q \<le> t'" if "tq_timers q tid' = Some (eh', arg', t', iv')" for tid' eh' arg' t' iv'
  proof -
    obtain a where "a \<in> live q" "tm_of q a = (eh', arg', t', iv')" using tq_timers_Some [OF h] \<open>_ = Some _\<close> by blast
    then show ?thesis using earliest_is_least [OF h, of a] by (simp add: tm_of_def Let_def)
  qed
  show ?thesis
  proof (rule dispatch_ok [OF assms due])
    fix tid eh arg t iv d q'
    assume a: "dispatch_timer now q = Some (Some d, q')" "tq_timers q tid = Some (eh, arg, t, iv)"
      "t = earliest_time q" "tn_handler d = eh" "tn_arg d = arg" "tn_timer_id d = tid" "tq_ok q'"
      and p: "tv_zero < iv \<Longrightarrow> \<exists>t' k. clock_time t' \<and> now < t' \<and> usecs t' = usecs t + int (Suc k) * usecs iv
           \<and> usecs t' \<le> usecs now + usecs iv \<and> tq_timers q' = (tq_timers q)(tid \<mapsto> (eh, arg, t', iv))"
        "\<not> tv_zero < iv \<Longrightarrow> tq_timers q' = (tq_timers q)(tid := None)"
    have "if tv_zero < iv
          then \<exists>t' k. now < t' \<and> usecs t' = usecs t + int (Suc k) * usecs iv \<and> usecs t' \<le> usecs now + usecs iv
                 \<and> tq_timers q' = (tq_timers q)(tid \<mapsto> (eh, arg, t', iv))
          else tq_timers q' = (tq_timers q)(tid := None)"
      using p by (cases "tv_zero < iv") (simp, blast, simp)
    with a least False show ?thesis by (simp only: if_False) blast
  qed
qed

theorem dispatch_refines_witness:
  "\<exists>d q'. dispatch_timer (TimeValue 10 0) tq_demo = Some (Some d, q') \<and> tq_ok q'"
proof -
  have "\<not> TimeValue 10 0 < earliest_time tq_demo"
    by (simp add: less_time_value_def tv_less_def)
  then show ?thesis
    using dispatch_refines [OF tq_demo_ok tq_demo_clock] by auto
qed

text \<open>C24: From a new queue with room for three timers, any sequence of the steps of \<open>tq_step\<close> leaves a
  consistent queue: the heap is in order (\<^verbatim>\<open>verify_heap\<close> passes), the index maps every pending id to
  its slot, and no step faulted. The steps are scheduling unless \<open>index_full\<close>, cancelling an id that
  is pending or outside the array (with \<^verbatim>\<open>dont_call\<close> or a close hook that leaves the queue alone), and
  dispatching while a slot is free; no crontab timer is registered. The calls left out fault, as the
  findings show.\<close>

theorem timer_runs_ok:
  assumes "3 \<le> n" "tq_step\<^sup>*\<^sup>* (tq_new m n) q"
  shows "tq_ok q \<and> tq_fault q = None \<and> verify_heap q = Inr ()"
proof -
  have "tq_ok q \<and> tq_clock q" using assms(2)
  proof (induction rule: rtranclp_induct)
    case base
    then show ?case using tq_new_ok_lemma [OF assms(1), of m] by (simp add: tq_clock_def)
  next
    case (step q q')
    then show ?case using tq_step_ok by blast
  qed
  then have ok: "tq_ok q" and h: "heap_ok q {}" by (auto simp: tq_ok_def)
  have "time_of q (timer_heap q ! par i) \<le> time_of q (timer_heap q ! i)" if "i < tq_curr_size q" for i
    using heap_okD(1) [OF h] that unfolding th.good_def heap_on_def tq_lt_def
    by (cases "i = 0") (auto simp: par_def not_less)
  then show ?thesis using ok heap_okD(3) [OF h] by (simp add: verify_heap_def list_all_iff)
qed

theorem timer_runs_ok_witness:
  "tq_fault (snd (schedule_i 7 8 (TimeValue 5 0) (TimeValue 2 0) (tq_new 10 4))) = None"
proof -
  let ?q = "snd (schedule_i 7 8 (TimeValue 5 0) (TimeValue 2 0) (tq_new 10 4))"
  have "tq_step (tq_new 10 4) ?q"
    by (rule step_schedule [OF _ _ _ surjective_pairing])
      (auto simp: tq_new_sel index_full_def clock_time_def normalized_def usecs_def one_sec_def)
  then have "tq_step\<^sup>*\<^sup>* (tq_new 10 4) ?q" by blast
  then show ?thesis using timer_runs_ok [of 4 10 ?q] by simp
qed

lemma earliest_timer:
  assumes "heap_ok q {}" "tq_clock q" "tq_curr_size q \<noteq> 0"
  shows "\<exists>tid eh arg iv. tq_timers q tid = Some (eh, arg, earliest_time q, iv)"
    and "clock_time (earliest_time q)"
    and "tq_timers q tid = Some (eh, arg, t, iv) \<Longrightarrow> usecs (earliest_time q) \<le> usecs t"
proof -
  have "timer_heap q ! 0 \<in> live q"
    using assms(3) heap_okD(4) [OF assms(1)] nth_in_take [of 0 "tq_curr_size q" "timer_heap q"]
    by (simp add: live_def)
  then have some: "\<exists>eh arg iv. tq_timers q (id_of q (timer_heap q ! 0)) = Some (eh, arg, earliest_time q, iv)"
    using tq_timers_Some [OF assms(1)] by (auto simp: tm_of_def earliest_time_def Let_def)
  then show "\<exists>tid eh arg iv. tq_timers q tid = Some (eh, arg, earliest_time q, iv)" by blast
  show ct: "clock_time (earliest_time q)" using some assms(2) by (auto simp: tq_clock_def)
  assume ts: "tq_timers q tid = Some (eh, arg, t, iv)"
  obtain b where "b \<in> live q" "tm_of q b = (eh, arg, t, iv)"
    using iffD1 [OF tq_timers_Some [OF assms(1)] ts] by blast
  then have "earliest_time q \<le> t" using earliest_is_least [OF assms(1), of b] by (simp add: tm_of_def Let_def)
  moreover have "clock_time t" using assms(2) ts by (auto simp: tq_clock_def)
  ultimately show "usecs (earliest_time q) \<le> usecs t" using clock_time_le [OF ct] by simp
qed

lemma calculate_timeout_value:
  assumes "tq_curr_size q \<noteq> 0" "clock_time now" "clock_time (earliest_time q)"
    "\<forall>m. mw = Some m \<longrightarrow> clock_time m"
  shows "\<exists>w. fst (calculate_timeout now mw q) = Some w
    \<and> (mw = Some w \<and> usecs w \<le> max 0 (usecs (earliest_time q) - usecs now)
       \<or> usecs w = max 0 (usecs (earliest_time q) - usecs now))
    \<and> (\<forall>m. mw = Some m \<longrightarrow> usecs w \<le> usecs m)"
proof (cases "now < earliest_time q")
  case True
  let ?e = "earliest_time q"
  have lt: "usecs now < usecs ?e" using True clock_time_less [OF assms(2,3)] by simp
  then have "clock_time (tv_sub ?e now)" by (simp add: clock_time_def)
  then have m: "tv_sub ?e now < w \<longleftrightarrow> usecs ?e - usecs now < usecs w" if "mw = Some w" for w
    using clock_time_less [of "tv_sub ?e now" w] assms(4) that by simp
  show ?thesis
    using True assms(1) lt m by (cases mw) (auto simp: calculate_timeout_def tq_is_empty_def Let_def not_less)
next
  case False
  have "usecs (earliest_time q) \<le> usecs now" using False clock_time_less [OF assms(2,3)] by simp
  moreover have "0 \<le> usecs w" if "mw = Some w" for w using assms(4) that by (simp add: clock_time_def)
  moreover have "usecs tv_zero = 0" by (simp add: tv_zero_eq)
  ultimately show ?thesis using False assms(1) by (auto simp: calculate_timeout_def tq_is_empty_def)
qed

text \<open>C35: The time a reactor waits: never longer than the caller allows, never beyond the earliest
  timer, zero when a timer is due, and no shorter than one of these requires; the overload that
  writes through a pointer computes the same value.\<close>

theorem calculate_timeout_correct:
  assumes "tq_ok q" "tq_clock q" "clock_time now" "\<forall>m. mw = Some m \<longrightarrow> clock_time m"
  shows "calculate_timeout_into now mw (Some x) q = fst (calculate_timeout now mw q)
     \<and> (case fst (calculate_timeout now mw q) of
          None \<Rightarrow> tq_curr_size q = 0 \<and> mw = None
        | Some w \<Rightarrow>
            (\<forall>tid eh arg t iv. tq_timers q tid = Some (eh, arg, t, iv) \<longrightarrow>
               usecs now + usecs w \<le> max (usecs now) (usecs t))
            \<and> (\<forall>m. mw = Some m \<longrightarrow> usecs w \<le> usecs m)
            \<and> (mw = Some w \<or> (\<exists>tid eh arg t iv. tq_timers q tid = Some (eh, arg, t, iv)
                                \<and> usecs w = max 0 (usecs t - usecs now))))"
proof (cases "tq_curr_size q = 0")
  case True
  then have "tq_timers q = Map.empty" by (simp add: tq_timers_def)
  then show ?thesis
    using True by (auto simp: calculate_timeout_def calculate_timeout_into_def tq_is_empty_def split: option.splits)
next
  case False
  have h: "heap_ok q {}" using assms(1) by (simp add: tq_ok_def)
  note e = earliest_timer [OF h assms(2) False]
  have eqo: "calculate_timeout_into now mw (Some x) q = fst (calculate_timeout now mw q)"
    using False by (auto simp: calculate_timeout_def calculate_timeout_into_def tq_is_empty_def Let_def split: option.splits)
  obtain w where w: "fst (calculate_timeout now mw q) = Some w"
    "mw = Some w \<and> usecs w \<le> max 0 (usecs (earliest_time q) - usecs now)
     \<or> usecs w = max 0 (usecs (earliest_time q) - usecs now)"
    "\<forall>m. mw = Some m \<longrightarrow> usecs w \<le> usecs m"
    using calculate_timeout_value [OF False assms(3) e(2) assms(4)] by blast
  have "\<forall>tid eh arg t iv. tq_timers q tid = Some (eh, arg, t, iv) \<longrightarrow>
      usecs now + usecs w \<le> max (usecs now) (usecs t)"
    using w(2) e(3) by fastforce
  moreover have "mw = Some w \<or> (\<exists>tid eh arg t iv. tq_timers q tid = Some (eh, arg, t, iv)
      \<and> usecs w = max 0 (usecs t - usecs now))" using w(2) e(1) by blast
  ultimately show ?thesis using eqo w(1,3) by simp
qed

theorem calculate_timeout_correct_witness:
  "fst (calculate_timeout (TimeValue 10 0) (Some (TimeValue 3 0)) tq_demo) \<noteq> None"
proof
  assume n: "fst (calculate_timeout (TimeValue 10 0) (Some (TimeValue 3 0)) tq_demo) = None"
  have "\<forall>m. Some (TimeValue 3 0) = Some m \<longrightarrow> clock_time m"
    by (simp add: clock_time_def normalized_def usecs_def one_sec_def)
  from calculate_timeout_correct [OF tq_demo_ok tq_demo_clock this, of tv_zero] n show False by simp
qed

text \<open>Finding. \<^verbatim>\<open>grow_heap\<close> copies as many entries of \<^verbatim>\<open>timer_ids_\<close> as there are timers in the
  heap. With the array at its maximum, one slot left and the last id in use, the entry of that
  id is reset although its timer stays in the heap, and cancelling it fails.\<close>

theorem grow_heap_forgets_timer:
  assumes "tq_ok q" "index_full q"
  shows "int (tq_curr_size q) \<in> id_of (grow_heap q) ` live (grow_heap q)
    \<and> timer_ids (grow_heap q) ! tq_curr_size q = -1
    \<and> cancel close (int (tq_curr_size q)) dont_call (grow_heap q)
        = Some (-1, None, raise_fault AssertFailed (grow_heap q))"
proof -
  let ?n = "tq_curr_size q" and ?g = "grow_heap q"
  have h: "heap_ok q {}" "3 \<le> timer_heap_size q" "crontab_timers q = null" using assms(1) by (auto simp: tq_ok_def)
  have f: "tq_max_size q = int (Suc ?n)" "Suc ?n = timer_heap_size q" "int ?n \<in> id_of q ` live q"
    using assms(2) by (auto simp: index_full_def)
  have sz: "nat (min (int (?n * 2)) (tq_max_size q)) = Suc ?n" using f(1,2) h(2) by simp
  have g: "timer_ids ?g = take ?n (timer_ids q) @ [-1]" "timer_heap ?g = take ?n (timer_heap q) @ [null]"
    "tq_nodes ?g = tq_nodes q" "tq_curr_size ?g = ?n" "crontab_timers ?g = null"
    using h(3) unfolding grow_heap_def Let_def sz by simp_all
  have len: "length (take ?n (timer_ids q)) = ?n" "length (take ?n (timer_heap q)) = ?n"
    using f(2) heap_okD(2) [OF h(1)] by simp_all
  have nth: "timer_ids ?g ! ?n = -1" using len g(1) by (metis nth_append_length)
  have "id_of ?g = id_of q" "live ?g = live q"
    using g len by (simp_all add: id_of_def live_def fun_eq_iff)
  moreover have "timer_ids_size ?g = Suc ?n" using g(1) len by simp
  ultimately show ?thesis using f(3) nth g(5) by (simp add: cancel_def)
qed

theorem grow_heap_forgets_timer_witness:
  "timer_ids (grow_heap (tq_two 3 1 2 [-1, 0, 1])) ! 2 = -1 \<and> timer_ids (tq_two 3 1 2 [-1, 0, 1]) ! 2 = 1"
proof -
  let ?q = "tq_two 3 1 2 [-1, 0, 1]"
  have "\<forall>k < 3. [-1, 0, 1 :: int] ! k \<noteq> -1 \<longrightarrow> int k = 1 \<or> int k = 2" by (auto simp: less_Suc_eq numeral_3_eq_3)
  then have "heap_ok ?q {}" "pool_ok ?q [3] (live ?q)" "crontab_timers ?q = null"
    using tq_two_heap_ok [of "[-1, 0, 1]" 1 2 3] by simp_all
  then have "tq_ok ?q" unfolding tq_ok_def by auto
  moreover have "index_full ?q" by (simp add: index_full_def)
  ultimately show ?thesis using grow_heap_forgets_timer [of ?q] by simp
qed

text \<open>Finding. \<^verbatim>\<open>reset_interval\<close> checks the id against the maximum number of timers, not against
  the size of the arrays: any id from the array size up to the maximum is read out of bounds.\<close>

theorem reset_interval_out_of_bounds:
  assumes "tq_fault q = None" "int (timer_ids_size q) \<le> tid" "tid \<le> tq_max_size q"
  shows "tq_fault (snd (reset_interval tid iv q)) = Some OutOfBounds"
  using assms by (auto simp: reset_interval_def raise_fault_def)

theorem reset_interval_out_of_bounds_witness:
  "tq_fault (snd (reset_interval 3 tv_zero tq_demo)) = Some OutOfBounds"
  by (rule reset_interval_out_of_bounds) (simp_all, simp add: tq_two_def)

text \<open>Finding. \<^verbatim>\<open>upcall\<close> treats a null handler as a failed callback, and \<^verbatim>\<open>expire\<close> then calls
  \<^verbatim>\<open>handle_close\<close> on that null handler when the timer is a one-shot timer.\<close>

theorem expire_null_handler:
  assumes "tq_ok q" "tq_clock q" "clock_time now" "tq_curr_size q = 1" "tq_timers q tid = Some (null, arg, t, iv)"
    "t \<le> now" "\<not> tv_zero < iv"
  shows "\<exists>q'. expire timeout close now q = Some (1, q') \<and> tq_fault q' = Some NullDeref"
proof -
  have h: "heap_ok q {}" "3 \<le> timer_heap_size q" using assms(1) by (auto simp: tq_ok_def)
  have one: "live q = {timer_heap q ! 0}"
    using assms(4) h(2) by (cases "timer_heap q") (auto simp: live_def)
  then have e: "tm_of q (timer_heap q ! 0) = (null, arg, t, iv)" "id_of q (timer_heap q ! 0) = tid"
    using tq_timers_Some [OF h(1)] assms(5) by auto
  have due: "earliest_time q \<le> now" using e(1) assms(6) by (simp add: tm_of_def earliest_time_def Let_def)
  have sz: "0 < tq_curr_size q" "tq_curr_size q < timer_heap_size q" using assms(4) h(2) by auto
  show ?thesis
  proof (rule dispatch_ok [OF assms(1-3) sz due])
    fix tid' eh arg' t' iv' d q'
    assume a: "dispatch_timer now q = Some (Some d, q')" "tq_timers q tid' = Some (eh, arg', t', iv')"
      "tn_handler d = eh" "tn_interval d = iv'" "tq_ok q'"
    then have "eh = null" "iv' = iv" using tq_timers_Some [OF h(1)] one e by auto
    moreover have "tq_fault q' = None" using a(5) heap_okD(3) by (auto simp: tq_ok_def)
    ultimately show ?thesis
      using a assms(4,7) by (simp add: expire_def upcall_def tq_is_empty_def raise_fault_def)
  qed
qed

theorem expire_null_handler_witness:
  "\<exists>q'. expire (\<lambda>h a t s. (0, s)) (\<lambda>e s. s) (TimeValue 9 0)
          (snd (schedule_i null 5 (TimeValue 9 0) (TimeValue 0 0) (tq_new 10 4))) = Some (1, q')
       \<and> tq_fault q' = Some NullDeref"
proof -
  obtain tid q where s: "schedule_i null 5 (TimeValue 9 0) (TimeValue 0 0) (tq_new 10 4) = (tid, q)" by fastforce
  have n: "tq_ok (tq_new 10 4)" "tq_timers (tq_new 10 4) = Map.empty" using tq_new_ok_lemma [of 4 10] by auto
  have "\<not> index_full (tq_new 10 4)" by (simp add: index_full_def tq_new_sel)
  from schedule_i_ok [OF n(1) this _ s]
  have q: "tq_ok q" "tq_timers q = [tid \<mapsto> (null, 5, TimeValue 9 0, TimeValue 0 0)]" "tq_curr_size q = 1"
    using n(2) by (auto simp: tq_new_sel)
  have "tq_clock q" "clock_time (TimeValue 9 0)"
    by (auto simp: tq_clock_def q clock_time_def normalized_def usecs_def one_sec_def split: if_splits)
  then show ?thesis
    using expire_null_handler [OF q(1) _ _ q(3), of "TimeValue 9 0" tid 5 "TimeValue 9 0" "TimeValue 0 0"] q(2) s
    by (simp add: tv_zero_eq)
qed

end
