(* ===== verification/CString.thy ===== *)
theory CString
  imports Prelude
begin

text \<open>
  What the sources use of the C library on strings. A C string is the list of its characters
  without the terminating zero; a buffer is a list of characters in which zeros may occur.
  \<open>dec\<close> prints a number in decimal; \<^verbatim>\<open>atoi\<close> reads it back.
\<close>

abbreviation NUL :: char where "NUL \<equiv> CHR 0x00"

definition isspace :: "char \<Rightarrow> bool" where
  "isspace c \<longleftrightarrow> c = CHR 0x20 \<or> (9 \<le> (of_char c :: nat) \<and> (of_char c :: nat) \<le> 13)"

definition isdigit :: "char \<Rightarrow> bool" where
  "isdigit c \<longleftrightarrow> 48 \<le> (of_char c :: nat) \<and> (of_char c :: nat) \<le> 57"

definition tolower :: "char \<Rightarrow> char" where
  "tolower c = (if 65 \<le> (of_char c :: nat) \<and> (of_char c :: nat) \<le> 90 then char_of (of_char c + 32 :: nat) else c)"

definition digit_val :: "char \<Rightarrow> int" where
  "digit_val c = int (of_char c) - 48"

definition digit_char :: "nat \<Rightarrow> char" where
  "digit_char n = char_of (48 + n)"

fun read_digits :: "int \<Rightarrow> string \<Rightarrow> int" where
  "read_digits acc [] = acc"
| "read_digits acc (c # cs) = (if isdigit c then read_digits (10 * acc + digit_val c) cs else acc)"

text \<open>\<^verbatim>\<open>atoi\<close>: white space, an optional sign, digits. As in the GNU C library, the value is that of
  \<^verbatim>\<open>strtol\<close>, which stops at the ends of the 64-bit range, converted to the 32 bits of \<^verbatim>\<open>int\<close>.\<close>

definition read_number :: "string \<Rightarrow> int" where
  "read_number s = (case dropWhile isspace s of
     [] \<Rightarrow> 0
   | c # cs \<Rightarrow> if c = CHR ''-'' then - read_digits 0 cs
               else if c = CHR ''+'' then read_digits 0 cs
               else read_digits 0 (c # cs))"

definition strtol :: "string \<Rightarrow> int" where
  "strtol s = max (- (2 ^ 63)) (min (2 ^ 63 - 1) (read_number s))"

definition atoi :: "string \<Rightarrow> int" where
  "atoi s = to_int (strtol s)"

lemma atoi_small: "0 \<le> read_number s \<Longrightarrow> read_number s \<le> INT_MAX \<Longrightarrow> atoi s = read_number s"
  by (simp add: atoi_def strtol_def INT_MAX_def to_int_def)

definition strchr :: "string \<Rightarrow> char \<Rightarrow> bool" where
  "strchr s c \<longleftrightarrow> c \<in> set s"

text \<open>The string from the first (last) occurrence of a character on.\<close>

definition from_first :: "char \<Rightarrow> string \<Rightarrow> string" where
  "from_first c s = dropWhile (\<lambda>x. x \<noteq> c) s"

definition from_last :: "char \<Rightarrow> string \<Rightarrow> string" where
  "from_last c s = c # rev (takeWhile (\<lambda>x. x \<noteq> c) (rev s))"

text \<open>The position of the first occurrence of a string in another.\<close>

fun strstr :: "string \<Rightarrow> string \<Rightarrow> nat option" where
  "strstr [] p = (if p = [] then Some 0 else None)"
| "strstr (c # cs) p = (if take (length p) (c # cs) = p then Some 0 else map_option Suc (strstr cs p))"

text \<open>\<^verbatim>\<open>strtok_r\<close> called until it returns null, with one separator.\<close>

fun strtok_all :: "char \<Rightarrow> string \<Rightarrow> string \<Rightarrow> string list" where
  "strtok_all d acc [] = (if acc = [] then [] else [acc])"
| "strtok_all d acc (c # cs) =
     (if c = d then (if acc = [] then strtok_all d [] cs else acc # strtok_all d [] cs)
      else strtok_all d (acc @ [c]) cs)"

text \<open>The string that starts at a position of a buffer.\<close>

definition c_str :: "nat \<Rightarrow> string \<Rightarrow> string" where
  "c_str p buf = takeWhile (\<lambda>c. c \<noteq> NUL) (drop p buf)"

text \<open>Writing a string with its terminator at the start of a buffer.\<close>

definition c_put :: "string \<Rightarrow> string \<Rightarrow> string" where
  "c_put s buf = s @ NUL # drop (Suc (length s)) buf"

fun dec :: "nat \<Rightarrow> string" where
  "dec n = (if n < 10 then [digit_char n] else dec (n div 10) @ [digit_char (n mod 10)])"

declare dec.simps [simp del]

lemma of_char_digit [simp]: "n < 10 \<Longrightarrow> of_char (digit_char n) = 48 + n"
  by (simp add: digit_char_def)

lemma isdigit_digit [simp]: "n < 10 \<Longrightarrow> isdigit (digit_char n)"
  by (simp add: isdigit_def)

lemma digit_val_digit [simp]: "n < 10 \<Longrightarrow> digit_val (digit_char n) = int n"
  by (simp add: digit_val_def)

lemma isdigit_not: "isdigit c \<Longrightarrow> \<not> isspace c \<and> c \<noteq> CHR ''-'' \<and> c \<noteq> CHR ''+'' \<and> c \<noteq> CHR ''/'' \<and> c \<noteq> CHR '','' \<and> c \<noteq> CHR ''*'' \<and> c \<noteq> NUL"
  by (auto simp: isdigit_def isspace_def)

lemma dec_digits: "c \<in> set (dec n) \<Longrightarrow> isdigit c"
proof (induction n rule: dec.induct)
  case (1 n)
  then show ?case by (subst (asm) (2) dec.simps) (auto split: if_splits)
qed

lemma dec_nonempty [simp]: "dec n \<noteq> []"
  by (subst dec.simps) simp

lemma dec_char_ni: "\<not> isdigit c \<Longrightarrow> c \<notin> set (dec n)"
  using dec_digits by blast

lemma read_digits_append:
  "(\<And>c. c \<in> set xs \<Longrightarrow> isdigit c) \<Longrightarrow> read_digits acc (xs @ ys) = read_digits (read_digits acc xs) ys"
  by (induction xs arbitrary: acc) auto

lemma read_digits_stop: "rest = [] \<or> \<not> isdigit (hd rest) \<Longrightarrow> read_digits acc rest = acc"
  by (cases rest) auto

lemma read_digits_dec: "read_digits 0 (dec n) = int n"
proof (induction n rule: dec.induct)
  case (1 n)
  show ?case
  proof (cases "n < 10")
    case True
    then show ?thesis by (simp add: dec.simps)
  next
    case False
    have "read_digits 0 (dec n) = read_digits 0 (dec (n div 10) @ [digit_char (n mod 10)])"
      using False by (simp add: dec.simps [of n])
    also have "\<dots> = 10 * int (n div 10) + int (n mod 10)"
      using 1 [OF False] dec_digits by (subst read_digits_append) auto
    finally show ?thesis by presburger
  qed
qed

lemma atoi_dec:
  assumes "rest = [] \<or> \<not> isdigit (hd rest)" "int n \<le> INT_MAX"
  shows "atoi (dec n @ rest) = int n"
proof -
  obtain c cs where d: "dec n = c # cs" by (cases "dec n") auto
  have c: "isdigit c" using dec_digits [of c n] d by simp
  have "read_number (dec n @ rest) = read_digits 0 (dec n @ rest)"
    using isdigit_not [OF c] by (simp add: read_number_def d)
  also have "\<dots> = read_digits (read_digits 0 (dec n)) rest"
    using dec_digits by (intro read_digits_append)
  finally have "read_number (dec n @ rest) = int n" using read_digits_stop [OF assms(1)] read_digits_dec by simp
  then show ?thesis using atoi_small [of "dec n @ rest"] assms(2) by simp
qed

lemma atoi_dec' [simp]: "int n \<le> INT_MAX \<Longrightarrow> atoi (dec n) = int n"
  using atoi_dec [of "[]" n] by simp

lemma strtok_all_app:
  "d \<notin> set tok \<Longrightarrow> strtok_all d acc (tok @ d # s) = (if acc @ tok = [] then strtok_all d [] s else (acc @ tok) # strtok_all d [] s)"
  by (induction tok arbitrary: acc) auto

lemma strtok_all_last: "d \<notin> set tok \<Longrightarrow> strtok_all d acc tok = (if acc @ tok = [] then [] else [acc @ tok])"
  by (induction tok arbitrary: acc) auto

lemma from_first_app: "c \<notin> set xs \<Longrightarrow> from_first c (xs @ c # ys) = c # ys"
  by (induction xs) (auto simp: from_first_def)

lemma takeWhile_ni: "c \<notin> set xs \<Longrightarrow> takeWhile (\<lambda>x. x \<noteq> c) (xs @ c # ys) = xs"
  by (induction xs) auto

lemma from_last_app: "c \<notin> set ys \<Longrightarrow> from_last c (xs @ c # ys) = c # ys"
  using takeWhile_ni [of c "rev ys" "rev xs"] by (simp add: from_last_def)

end
