(* ===== verification/Cron.thy ===== *)
theory Cron
  imports CString TimerQueue
begin

text \<open>
  The crontab entries of \<^verbatim>\<open>ndk/timer_queue.cpp\<close>: the parser of the five fields, the registration
  of a crontab timer and the minute tick that runs the matching entries. A field sets flags in
  an array of its size; a write outside the array is the fault \<open>OutOfBounds\<close>. Strings are lists of
  characters, the working copy of the entry is a buffer with explicit terminators.
\<close>

section \<open>Fields\<close>

type_synonym flags = "bool list"

definition set_flag :: "int \<Rightarrow> flags \<Rightarrow> flags faulty_result" where
  "set_flag i item = (if 0 \<le> i \<and> i < int (length item) then Inr (item[nat i := True]) else Inl OutOfBounds)"

text \<open>\<^verbatim>\<open>for (i = b; i <= e; i += step) item[i] = 1;\<close> gives the flags and the last \<^verbatim>\<open>i\<close>. The step may be
  negative: then \<^verbatim>\<open>i\<close> runs down until it leaves the array. A sum beyond the range of \<^verbatim>\<open>int\<close> is the fault
  \<open>IntOverflow\<close>. No caller passes the step 0, for which the loop would not end; its branch only makes
  the function total.\<close>

function set_loop :: "int \<Rightarrow> int \<Rightarrow> int \<Rightarrow> flags \<Rightarrow> (int \<times> flags) faulty_result" where
  "set_loop i e step item =
     (if i \<le> e then
        (case set_flag i item of
           Inl f \<Rightarrow> Inl f
         | Inr item' \<Rightarrow> if step = 0 then Inl AssertFailed
                      else if INT_MAX < i + step then Inl IntOverflow
                      else set_loop (i + step) e step item')
      else Inr (i, item))"
  by pat_completeness auto
termination
  by (relation "measure (\<lambda>(i, e, step, item). if 0 < step then nat (e - i + 1) else nat (i + 1))")
    (auto simp: set_flag_def split: if_splits)

declare set_loop.simps [simp del]

definition set_range :: "int \<Rightarrow> int \<Rightarrow> int \<Rightarrow> flags \<Rightarrow> (int \<times> flags) faulty_result" where
  "set_range b e step item =
     (case set_loop b e step item of Inl f \<Rightarrow> Inl f | Inr (i, item') \<Rightarrow> Inr (0, item'))"

definition get_list_by_item :: "string \<Rightarrow> flags \<Rightarrow> int \<Rightarrow> int \<Rightarrow> int \<Rightarrow> (int \<times> flags) faulty_result" where
  "get_list_by_item entry item first lst cnt =
     (case entry of
        [] \<Rightarrow> Inr (-1, item)
      | c # _ \<Rightarrow>
         (if c = CHR ''*'' then set_range first lst 1 item
          else if isdigit c
          then (case set_flag (atoi entry) item of Inl f \<Rightarrow> Inl f | Inr item' \<Rightarrow> Inr (0, item'))
          else Inr (-1, item)))"

text \<open>\<^verbatim>\<open>sscanf\<close> with \<^verbatim>\<open>%d\<close>: what is not read keeps its initial value -1.\<close>

definition scan_int :: "string \<Rightarrow> (int \<times> string) option" where
  "scan_int s =
     (let s1 = dropWhile isspace s;
          s2 = (if s1 \<noteq> [] \<and> (hd s1 = CHR ''-'' \<or> hd s1 = CHR ''+'') then tl s1 else s1)
      in if s2 = [] \<or> \<not> isdigit (hd s2) then None else Some (atoi s1, dropWhile isdigit s2))"

definition scan_d :: "string \<Rightarrow> int" where
  "scan_d s = (case scan_int s of None \<Rightarrow> -1 | Some (b, _) \<Rightarrow> b)"

definition scan_d_d :: "string \<Rightarrow> int \<times> int" where
  "scan_d_d s =
     (case scan_int s of
        None \<Rightarrow> (-1, -1)
      | Some (b, r) \<Rightarrow>
         (case r of
            [] \<Rightarrow> (b, -1)
          | c # r2 \<Rightarrow> (b, if c = CHR ''-'' then scan_d r2 else -1)))"

text \<open>Called with an entry that has a dash.\<close>

definition get_list_by_range :: "string \<Rightarrow> flags \<Rightarrow> int \<Rightarrow> int \<Rightarrow> int \<Rightarrow> (int \<times> flags) faulty_result" where
  "get_list_by_range entry item first lst cnt =
     (if length (filter (\<lambda>c. c = CHR ''-'') entry) > 1 then Inr (-1, item)
      else if hd entry = CHR ''-'' then set_range first (atoi (tl entry)) 1 item
      else if tl (from_first (CHR ''-'') entry) = [] then set_range (atoi entry) lst 1 item
      else
       (let (b, e) = scan_d_d entry in
        if b > lst \<or> b < first then Inr (-1, item)
        else if e > lst \<or> e < first then Inr (-1, item)
        else if b > e then
          (case set_range b lst 1 item of
             Inl f \<Rightarrow> Inl f
           | Inr (_, item') \<Rightarrow> set_range first e 1 item')
        else set_range b e 1 item))"

text \<open>The two ends of a range with a step; called with an entry that has a dash and a slash.\<close>

definition range_ends :: "string \<Rightarrow> int \<Rightarrow> int \<Rightarrow> int \<times> int" where
  "range_ends entry first lst =
     (let p1 = from_last (CHR ''-'') entry; open_end = (tl p1 \<noteq> [] \<and> hd (tl p1) = CHR ''/'') in
      if hd entry \<noteq> CHR ''-'' \<or> length (filter (\<lambda>c. c = CHR ''-'') entry) > 1
      then (atoi entry, if open_end then lst else atoi (tl p1))
      else if open_end then (first, lst) else (-1, atoi (tl p1)))"

definition get_list_by_range_and_step :: "string \<Rightarrow> flags \<Rightarrow> int \<Rightarrow> int \<Rightarrow> int \<Rightarrow> (int \<times> flags) faulty_result" where
  "get_list_by_range_and_step entry item first lst cnt =
     (if length (filter (\<lambda>c. c = CHR ''-'') entry) > 1 then Inr (-1, item)
      else if length (filter (\<lambda>c. c = CHR ''/'') entry) > 1 then Inr (-1, item)
      else if hd entry = CHR ''/'' then Inr (-1, item)
      else
       (let (b, e) = range_ends entry first lst;
            p2 = from_last (CHR ''/'') entry;
            step = (if tl p2 = [] then 1 else atoi (tl p2))
        in if step = 0 then Inr (-1, item)
           else if b > lst \<or> b < first then Inr (-1, item)
           else if e > lst \<or> e < first then Inr (-1, item)
           else if step > lst \<or> step < first then Inr (-1, item)
           else if b > e then
             (case set_loop b lst step item of
                Inl f \<Rightarrow> Inl f
              | Inr (i, item') \<Rightarrow> set_range (i mod cnt + first) e step item')
           else set_range b e step item))"

definition get_list_by_step :: "string \<Rightarrow> flags \<Rightarrow> int \<Rightarrow> int \<Rightarrow> int \<Rightarrow> (int \<times> flags) faulty_result" where
  "get_list_by_step entry item first lst cnt =
     (if length (filter (\<lambda>c. c = CHR ''/'') entry) > 1 then Inr (-1, item)
      else if hd entry = CHR ''*'' \<and> \<not> (1 < length entry \<and> entry ! 1 = CHR ''/'') then Inr (-1, item)
      else if hd entry = CHR ''*'' then
        (let step = atoi (drop 2 entry) in
         if step = 0 then Inr (-1, item) else set_range first lst step item)
      else
       (let b = scan_d entry in
        if b > lst \<or> b < first then Inr (-1, item)
        else (case set_flag b item of Inl f \<Rightarrow> Inl f | Inr item' \<Rightarrow> Inr (0, item'))))"

text \<open>One element of a field, by the characters it has: the dispatch that \<^verbatim>\<open>get_list\<close> and
  \<^verbatim>\<open>parse_cron_entry_i\<close> share.\<close>

definition get_element :: "string \<Rightarrow> flags \<Rightarrow> int \<Rightarrow> int \<Rightarrow> int \<Rightarrow> (int \<times> flags) faulty_result" where
  "get_element token item first lst cnt =
     (if strchr token (CHR ''-'') \<and> strchr token (CHR ''/'') then get_list_by_range_and_step token item first lst cnt
      else if strchr token (CHR ''-'') then get_list_by_range token item first lst cnt
      else if strchr token (CHR ''/'') then get_list_by_step token item first lst cnt
      else get_list_by_item token item first lst cnt)"

fun get_tokens :: "string list \<Rightarrow> flags \<Rightarrow> int \<Rightarrow> int \<Rightarrow> int \<Rightarrow> (int \<times> flags) faulty_result" where
  "get_tokens [] item first lst cnt = Inr (0, item)"
| "get_tokens (t # ts) item first lst cnt =
     (case get_element t item first lst cnt of
        Inl f \<Rightarrow> Inl f
      | Inr (r, item') \<Rightarrow> if r \<noteq> 0 then Inr (r, item') else get_tokens ts item' first lst cnt)"

definition get_list :: "string \<Rightarrow> flags \<Rightarrow> int \<Rightarrow> int \<Rightarrow> int \<Rightarrow> (int \<times> flags) faulty_result" where
  "get_list entry item first lst cnt = get_tokens (strtok_all (CHR '','') [] entry) item first lst cnt"

definition parse_cron_entry_i :: "string \<Rightarrow> flags \<Rightarrow> int \<Rightarrow> int \<Rightarrow> int \<Rightarrow> (int \<times> flags) faulty_result" where
  "parse_cron_entry_i entry item first lst cnt =
     (if strchr entry (CHR '','') then get_list entry item first lst cnt
      else get_element entry item first lst cnt)"

section \<open>Entries\<close>

text \<open>\<^verbatim>\<open>ndk_help::replace\<close>: every occurrence of a three-letter name becomes its number, in place; the
  bytes behind the new terminator stay.\<close>

definition name_number :: "nat \<Rightarrow> string" where
  "name_number n = (if n < 10 then [digit_char n] else [digit_char (n div 10), digit_char (n mod 10)])"

function replace :: "string \<Rightarrow> string \<Rightarrow> nat \<Rightarrow> string" where
  "replace buf str n =
     (let s = c_str 0 buf in
      case strstr s str of
        None \<Rightarrow> buf
      | Some p \<Rightarrow>
         (if p + 3 \<le> length s
          then replace (c_put (take p s @ name_number n @ drop (p + 3) s) buf) str n
          else buf))"
  by pat_completeness auto

lemma c_str_put: "NUL \<notin> set s \<Longrightarrow> c_str 0 (c_put s buf) = s"
  using takeWhile_ni [of NUL s] by (simp add: c_str_def c_put_def)

lemma c_str_no_nul: "NUL \<notin> set (c_str p buf)"
  by (auto simp: c_str_def dest: set_takeWhileD)

lemma name_number_len: "length (name_number n) < 3"
  by (simp add: name_number_def)

lemma length_c_str_put: "length (c_str 0 (c_put s buf)) \<le> length s"
proof -
  have "length (takeWhile (\<lambda>c. c \<noteq> NUL) (s @ NUL # r)) \<le> length s" for r by (induction s) auto
  then show ?thesis by (simp add: c_str_def c_put_def)
qed

termination replace
proof (relation "measure (\<lambda>(buf, str, n). length (c_str 0 buf))", goal_cases)
  case (2 buf str n s p)
  then have "length (take p s @ name_number n @ drop (p + 3) s) < length s"
    using name_number_len [of n] by simp
  then show ?case
    using length_c_str_put [of "take p s @ name_number n @ drop (p + 3) s" buf] 2 by simp
qed simp

declare replace.simps [simp del]

definition MONTH_LIST :: "string list" where
  "MONTH_LIST = [''jan'', ''feb'', ''mar'', ''apr'', ''may'', ''jun'', ''jul'', ''aug'', ''sep'', ''oct'', ''nov'', ''dec'']"

definition WDAY_LIST :: "string list" where
  "WDAY_LIST = [''sun'', ''mon'', ''tue'', ''wed'', ''thu'', ''fri'', ''sat'']"

text \<open>\<^verbatim>\<open>ndk::strstrip\<close> into a zeroed buffer of \<open>len + 1\<close> bytes. For a string of white space only the
  end pointer stays null and the copied length is the difference of unrelated pointers.\<close>

definition strstrip :: "string \<Rightarrow> nat \<Rightarrow> string faulty_result" where
  "strstrip in_str len =
     (if len = 0 then Inr [NUL]
      else (let b = dropWhile isspace in_str; t = rev (dropWhile isspace (rev b)) in
            if t = [] then Inl OutOfBounds
            else Inr (take len t @ replicate (Suc len - length (take len t)) NUL)))"

text \<open>The macro \<^verbatim>\<open>_ADVANCE\<close>: both loops run along the buffer without looking for its end.\<close>

function skip_to_space :: "string \<Rightarrow> nat \<Rightarrow> nat faulty_result" where
  "skip_to_space buf p =
     (if p \<ge> length buf then Inl OutOfBounds
      else if \<not> isspace (buf ! p) then skip_to_space buf (Suc p) else Inr p)"
  by pat_completeness auto
termination by (relation "measure (\<lambda>(buf, p). length buf - p)") auto

function skip_blank :: "string \<Rightarrow> nat \<Rightarrow> nat faulty_result" where
  "skip_blank buf p =
     (if p \<ge> length buf then Inl OutOfBounds
      else if isspace (buf ! p) \<or> buf ! p = NUL then skip_blank buf (Suc p) else Inr p)"
  by pat_completeness auto
termination by (relation "measure (\<lambda>(buf, p). length buf - p)") auto

declare skip_to_space.simps [simp del] skip_blank.simps [simp del]

definition advance_field :: "string \<Rightarrow> nat \<Rightarrow> (string \<times> nat) faulty_result" where
  "advance_field buf p =
     (case skip_to_space buf p of
        Inl f \<Rightarrow> Inl f
      | Inr p1 \<Rightarrow>
         (case skip_blank (buf[p1 := NUL]) p1 of
            Inl f \<Rightarrow> Inl f
          | Inr p2 \<Rightarrow> Inr (buf[p1 := NUL, p2 - 1 := NUL], p2)))"

text \<open>The working copy of the entry: \<open>None\<close> for the early returns of -1. For the special entries the
  copy is zeroed before it is compared, so that every comparison fails.\<close>

definition cron_buffer :: "string \<Rightarrow> string option faulty_result" where
  "cron_buffer en =
     (let s = dropWhile isspace en in
      if s \<noteq> [] \<and> hd s = CHR ''@'' then
        (if strchr (tl en) (CHR ''@'') then Inr None else Inr (Some (replicate 10 NUL)))
      else
       (case strstrip en (length en) of
          Inl f \<Rightarrow> Inl f
        | Inr buf \<Rightarrow>
           (if length (c_str 0 buf) < 9 then Inr None
            else (let buf1 = map tolower (c_str 0 buf) @ drop (length (c_str 0 buf)) buf;
                      buf2 = fold (\<lambda>(nm, i) b. replace b nm (i + 1)) (zip MONTH_LIST [0..<12]) buf1
                  in Inr (Some (fold (\<lambda>(nm, i) b. replace b nm i) (zip WDAY_LIST [0..<7]) buf2))))))"

text \<open>The five fields of a buffer.\<close>

definition cron_fields :: "string \<Rightarrow> string list faulty_result" where
  "cron_fields buf =
     (case advance_field buf 0 of Inl f \<Rightarrow> Inl f | Inr (b1, hour) \<Rightarrow>
     (case advance_field b1 hour of Inl f \<Rightarrow> Inl f | Inr (b2, mday) \<Rightarrow>
     (case advance_field b2 mday of Inl f \<Rightarrow> Inl f | Inr (b3, month) \<Rightarrow>
     (case advance_field b3 month of Inl f \<Rightarrow> Inl f | Inr (b4, wday) \<Rightarrow>
        Inr [c_str 0 b4, c_str hour b4, c_str mday b4, c_str month b4, c_str wday b4]))))"

definition field_bounds :: "(int \<times> int \<times> int) list" where
  "field_bounds = [(0, 59, 60), (0, 23, 24), (1, 31, 32), (1, 12, 13), (0, 7, 8)]"

text \<open>The fields in turn; a result other than 0 ends the parse.\<close>

fun parse_fields :: "string list \<Rightarrow> (int \<times> int \<times> int) list \<Rightarrow> flags list \<Rightarrow> (int \<times> flags list) faulty_result" where
  "parse_fields (f # fs) ((first, lst, cnt) # bs) (item # items) =
     (case parse_cron_entry_i f item first lst cnt of
        Inl e \<Rightarrow> Inl e
      | Inr (r, item') \<Rightarrow>
         (if r \<noteq> 0 then Inr (r, item' # items)
          else (case parse_fields fs bs items of
                  Inl e \<Rightarrow> Inl e | Inr (r', items') \<Rightarrow> Inr (r', item' # items'))))"
| "parse_fields fs bs items = Inr (0, items)"

text \<open>Sunday is day 0 and day 7.\<close>

definition both_sundays :: "flags \<Rightarrow> flags" where
  "both_sundays w =
     (let w1 = (if w ! 0 then w[7 := True] else w) in if w1 ! 7 then w1[0 := True] else w1)"

definition parse_cron_entry :: "string \<Rightarrow> flags list \<Rightarrow> (int \<times> flags list) faulty_result" where
  "parse_cron_entry en items =
     (case cron_buffer en of
        Inl f \<Rightarrow> Inl f
      | Inr None \<Rightarrow> Inr (-1, items)
      | Inr (Some buf) \<Rightarrow>
         (case cron_fields buf of
            Inl f \<Rightarrow> Inl f
          | Inr fs \<Rightarrow>
             (case parse_fields fs field_bounds items of
                Inl f \<Rightarrow> Inl f
              | Inr (r, items') \<Rightarrow>
                  Inr (r, if r \<noteq> 0 then items' else items'[4 := both_sundays (items' ! 4)]))))"

section \<open>Crontab timers\<close>

text \<open>The reactor the queue belongs to schedules the minute tick; \<open>sched\<close> is its
  \<^verbatim>\<open>schedule_timer\<close> for this queue, \<open>sec\<close> the seconds of the local time and \<open>now\<close> the time of day.\<close>

definition crontab ::
  "(time_value \<Rightarrow> time_value \<Rightarrow> timer_queue \<Rightarrow> int \<times> timer_queue) \<Rightarrow> int \<Rightarrow> time_value \<Rightarrow>
   addr \<Rightarrow> addr \<Rightarrow> string option \<Rightarrow> timer_queue \<Rightarrow> (int \<times> timer_queue) faulty_result" where
  "crontab sched sec now eh arg entry q =
     (case entry of
        None \<Rightarrow> Inr (-1, q)
      | Some en \<Rightarrow>
         (if eh = null then Inr (-1, q)
          else
           (let (r, q1) = (if crontab_timers q = null
                           then sched (if sec > 5 then tv_set (60 - sec) 0 else tv_zero) (tv_set 60 0) q
                           else (0, q))
            in if r \<noteq> 0 then Inr (-1, q1)
               else
                (let (node, q2) = alloc_node CRONTAB_TIMER q1;
                     (timer_id, q3) = alloc_timerid q2
                 in if timer_id = -1 then Inr (-1, free_node node (raise_fault AssertFailed q3))
                    else
                     (let q4 = upd_node node alloc_cron_entry q3;
                          q5 = upd_node node (tn_set timer_id eh arg now now) q4
                      in case parse_cron_entry en (the (crontab_entry (tq_nodes q5 node))) of
                           Inl f \<Rightarrow> Inl f
                         | Inr (res, items) \<Rightarrow>
                            (let q6 = upd_node node (crontab_entry_update (\<lambda>_. Some items)) q5
                             in if res = -1 then Inr (-1, free_node node q6)
                                else Inr (timer_id,
                                  tq_insert node (upd_node node (tn_type_update (\<lambda>_. CRONTAB_TIMER)) q6))))))))"

text \<open>Whether an entry matches minute, hour, day of the month, month and day of the week.\<close>

definition cron_matches :: "cron_entry \<Rightarrow> nat list \<Rightarrow> bool" where
  "cron_matches entry tm = list_all (\<lambda>(fl, i). fl ! i) (zip entry tm)"

partial_function (option) run_crons ::
  "timeout_hook \<Rightarrow> close_hook \<Rightarrow> nat list \<Rightarrow> time_value \<Rightarrow> addr \<Rightarrow> timer_queue \<Rightarrow> timer_queue option" where
  "run_crons timeout close tm tv iter q =
     (if iter = null then Some q
      else
       (let node = iter; nxt = tn_next (tq_nodes q iter);
            eh = tn_handler (tq_nodes q node)
        in case crontab_entry (tq_nodes q iter) of
             None \<Rightarrow> run_crons timeout close tm tv nxt q
           | Some entry \<Rightarrow>
              (if cron_matches entry tm \<and> eh \<noteq> null
               then (let (r, q1) = timeout eh (tn_arg (tq_nodes q node)) tv q;
                         q2 = (if r \<noteq> 0 then close eh q1 else q1)
                     in run_crons timeout close tm tv nxt q2)
               else run_crons timeout close tm tv nxt q)))"

text \<open>\<^verbatim>\<open>timer_queue::handle_timeout\<close>, the minute tick; \<open>tm\<close> are the fields of the local time of \<open>tv\<close>.\<close>

definition tq_handle_timeout ::
  "timeout_hook \<Rightarrow> close_hook \<Rightarrow> nat list \<Rightarrow> time_value \<Rightarrow> timer_queue \<Rightarrow> (int \<times> timer_queue) option" where
  "tq_handle_timeout timeout close tm tv q =
     (if crontab_timers q \<noteq> null
      then map_option (\<lambda>q'. (0, q')) (run_crons timeout close tm tv (crontab_timers q) q)
      else Some (0, q))"

text \<open>\<^verbatim>\<open>reset_crontab\<close>: the loop has no step.\<close>

partial_function (option) reset_crontab_loop ::
  "int \<Rightarrow> string \<Rightarrow> addr \<Rightarrow> timer_queue \<Rightarrow> (int \<times> timer_queue) faulty_result option" where
  "reset_crontab_loop timer_id entry iter q =
     (if iter = null then Some (Inr (0, q))
      else if timer_id = tn_timer_id (tq_nodes q iter) then
        (let (node, q1) = alloc_node CRONTAB_TIMER q;
             q2 = upd_node node alloc_cron_entry q1
         in case parse_cron_entry entry (the (crontab_entry (tq_nodes q2 node))) of
              Inl f \<Rightarrow> Some (Inl f)
            | Inr (res, items) \<Rightarrow>
               (let q3 = upd_node node (crontab_entry_update (\<lambda>_. Some items)) q2
                in if res = -1 then Some (Inr (-1, free_node node q3))
                   else (let p = crontab_entry (tq_nodes q3 iter);
                             q4 = upd_node iter (crontab_entry_update (\<lambda>_. crontab_entry (tq_nodes q3 node))) q3;
                             q5 = upd_node node (crontab_entry_update (\<lambda>_. p)) q4
                         in Some (Inr (0, free_node node q5)))))
      else reset_crontab_loop timer_id entry iter q)"

definition reset_crontab :: "int \<Rightarrow> string \<Rightarrow> timer_queue \<Rightarrow> (int \<times> timer_queue) faulty_result option" where
  "reset_crontab timer_id entry q =
     (if timer_id < 0 \<or> timer_id \<ge> tq_max_size q then Some (Inr (-1, q))
      else reset_crontab_loop timer_id entry (crontab_timers q) q)"

section \<open>What a field means\<close>

text \<open>The forms the header documents, as written and as sets of values between \<open>first\<close> and \<open>lst\<close>.\<close>

datatype cron_term = Star | Item nat | Range nat nat | From nat | UpTo nat | RangeStep nat nat nat | StarStep nat

fun print_term :: "cron_term \<Rightarrow> string" where
  "print_term Star = ''*''"
| "print_term (Item n) = dec n"
| "print_term (Range a b) = dec a @ CHR ''-'' # dec b"
| "print_term (From a) = dec a @ ''-''"
| "print_term (UpTo b) = CHR ''-'' # dec b"
| "print_term (RangeStep a b s) = dec a @ CHR ''-'' # dec b @ CHR ''/'' # dec s"
| "print_term (StarStep s) = CHR ''*'' # CHR ''/'' # dec s"

text \<open>A range whose begin lies behind its end wraps around; with a step it goes on counting from the
  begin, modulo the number of values.\<close>

fun denote :: "int \<Rightarrow> int \<Rightarrow> cron_term \<Rightarrow> int \<Rightarrow> bool" where
  "denote first lst Star j = (first \<le> j \<and> j \<le> lst)"
| "denote first lst (Item n) j = (j = int n)"
| "denote first lst (Range a b) j =
     (if int a \<le> int b then int a \<le> j \<and> j \<le> int b else int a \<le> j \<and> j \<le> lst \<or> first \<le> j \<and> j \<le> int b)"
| "denote first lst (From a) j = (int a \<le> j \<and> j \<le> lst)"
| "denote first lst (UpTo b) j = (first \<le> j \<and> j \<le> int b)"
| "denote first lst (RangeStep a b s) j =
     (if int a \<le> int b then int a \<le> j \<and> j \<le> int b \<and> int s dvd (j - int a)
      else int a \<le> j \<and> j \<le> lst \<and> int s dvd (j - int a)
           \<or> first \<le> j \<and> j \<le> int b \<and> int s dvd (j + (lst - first + 1) - int a))"
| "denote first lst (StarStep s) j = (first \<le> j \<and> j \<le> lst \<and> int s dvd (j - first))"

fun term_ok :: "int \<Rightarrow> int \<Rightarrow> cron_term \<Rightarrow> bool" where
  "term_ok first lst (Item n) = (int n \<le> lst)"
| "term_ok first lst (Range a b) = (first \<le> int a \<and> int a \<le> lst \<and> first \<le> int b \<and> int b \<le> lst)"
| "term_ok first lst (UpTo b) = (int b \<le> lst)"
| "term_ok first lst (RangeStep a b s) =
     (first \<le> int a \<and> int a \<le> lst \<and> first \<le> int b \<and> int b \<le> lst \<and> 0 < s \<and> first \<le> int s \<and> int s \<le> lst)"
| "term_ok first lst (StarStep s) = (0 < s \<and> first + int s \<le> INT_MAX)"
| "term_ok first lst (From a) = (int a \<le> INT_MAX)"
| "term_ok first lst t = True"

definition mark :: "(int \<Rightarrow> bool) \<Rightarrow> flags \<Rightarrow> flags" where
  "mark P item = map (\<lambda>j. item ! j \<or> P (int j)) [0..<length item]"

lemma length_mark [simp]: "length (mark P item) = length item"
  by (simp add: mark_def)

lemma mark_mark: "mark Q (mark P item) = mark (\<lambda>j. P j \<or> Q j) item"
  by (auto simp: mark_def)

lemma mark_cong: "(\<And>j. 0 \<le> j \<Longrightarrow> P j = Q j) \<Longrightarrow> mark P item = mark Q item"
  by (simp add: mark_def)

section \<open>Setting flags\<close>

lemma set_loop_ok:
  assumes "0 \<le> b" "e < int (length item)" "0 < step" "2 * e \<le> INT_MAX" "b \<le> e \<longrightarrow> b + step \<le> INT_MAX"
  shows "\<exists>i. set_loop b e step item = Inr (i, map (\<lambda>j. item ! j \<or> (b \<le> int j \<and> int j \<le> e \<and> step dvd (int j - b))) [0..<length item])
    \<and> e < i \<and> (b \<le> e + step \<longrightarrow> i \<le> e + step) \<and> b \<le> i \<and> step dvd (i - b)"
  using assms
proof (induction b e step item rule: set_loop.induct)
  case (1 b e step item)
  show ?case
  proof (cases "b \<le> e")
    case True
    then have s: "set_flag b item = Inr (item[nat b := True])" using 1(2,3) by (simp add: set_flag_def)
    obtain i where i: "set_loop (b + step) e step (item[nat b := True]) =
        Inr (i, map (\<lambda>j. item[nat b := True] ! j \<or> (b + step \<le> int j \<and> int j \<le> e \<and> step dvd (int j - (b + step))))
          [0..<length (item[nat b := True])])"
      "e < i" "b + step \<le> e + step \<longrightarrow> i \<le> e + step" "b + step \<le> i" "step dvd (i - (b + step))"
      using 1(1) [OF True s] 1(2-6) True by (auto simp: not_le)
    have dv: "step dvd (k - (b + step)) \<longleftrightarrow> step dvd (k - b)" for k
      using dvd_add_right_iff [of step "- step" "k - b"] by (simp add: algebra_simps)
    have step: "b + step \<le> int j" if "b \<le> int j" "int j \<noteq> b" "step dvd (int j - b)" for j
      using that zdvd_imp_le [of step "int j - b"] by linarith
    have "map (\<lambda>j. item[nat b := True] ! j \<or> (b + step \<le> int j \<and> int j \<le> e \<and> step dvd (int j - (b + step))))
          [0..<length (item[nat b := True])]
      = map (\<lambda>j. item ! j \<or> (b \<le> int j \<and> int j \<le> e \<and> step dvd (int j - b))) [0..<length item]"
    proof (rule map_cong)
      fix j assume "j \<in> set [0..<length item]"
      then show "(item[nat b := True] ! j \<or> (b + step \<le> int j \<and> int j \<le> e \<and> step dvd (int j - (b + step))))
        = (item ! j \<or> (b \<le> int j \<and> int j \<le> e \<and> step dvd (int j - b)))"
        using True 1(2,4) step [of j] by (cases "int j = b") (auto simp: dv nth_list_update)
    qed simp
    moreover have "i \<le> e + step" using i(3) True by simp
    ultimately show ?thesis using True s i 1(4,6) dv [of i] by (simp add: set_loop.simps [of b e step item])
  next
    case False
    have "map (\<lambda>j. item ! j \<or> (b \<le> int j \<and> int j \<le> e \<and> step dvd (int j - b))) [0..<length item] = item"
      using False by (intro nth_equalityI) auto
    then show ?thesis using False by (simp add: set_loop.simps [of b e step item])
  qed
qed

lemma set_range_ok:
  assumes "0 \<le> b" "e < int (length item)" "0 < step" "2 * e \<le> INT_MAX" "b \<le> e \<longrightarrow> b + step \<le> INT_MAX"
  shows "set_range b e step item = Inr (0, mark (\<lambda>j. b \<le> j \<and> j \<le> e \<and> step dvd (j - b)) item)"
  using set_loop_ok [OF assms] by (auto simp: set_range_def mark_def)

lemma set_flag_ok: "0 \<le> i \<Longrightarrow> i < int (length item) \<Longrightarrow> set_flag i item = Inr (mark (\<lambda>j. j = i) item)"
  by (auto simp: set_flag_def mark_def nth_list_update intro!: nth_equalityI)

subsection \<open>Reading the terms\<close>

lemma dec_hd: "isdigit (hd (dec n))"
  using dec_digits [of "hd (dec n)" n] by simp

lemma dec_no [simp]:
  "CHR ''-'' \<notin> set (dec n)" "CHR ''/'' \<notin> set (dec n)" "CHR '','' \<notin> set (dec n)" "CHR ''*'' \<notin> set (dec n)"
  by (auto dest!: dec_digits isdigit_not)

lemma filter_dec [simp]:
  "filter (\<lambda>c. c = CHR ''-'') (dec n) = []" "filter (\<lambda>c. c = CHR ''/'') (dec n) = []"
  using dec_no [of n] by (auto simp: filter_empty_conv)

lemma dec_hd_app: "isdigit (hd (dec n @ xs))" "dec n @ xs \<noteq> []"
  using dec_hd [of n] by (auto simp: hd_append)

lemma dec_hd_neq [simp]:
  "hd (dec n @ xs) \<noteq> CHR ''-''" "hd (dec n @ xs) \<noteq> CHR ''/''" "hd (dec n @ xs) \<noteq> CHR ''*''"
  "hd (dec n) \<noteq> CHR ''-''" "hd (dec n) \<noteq> CHR ''/''" "hd (dec n) \<noteq> CHR ''*''"
  using dec_hd_app(1) [of n xs] dec_hd [of n] isdigit_not by auto

lemma dropWhile_dec:
  assumes "rest = [] \<or> \<not> isdigit (hd rest)"
  shows "dropWhile isdigit (dec n @ rest) = rest"
proof -
  have "dropWhile isdigit (dec n @ rest) = dropWhile isdigit rest"
    using dec_digits by (intro dropWhile_append2) auto
  then show ?thesis using assms by (cases rest) auto
qed

lemma scan_int_dec:
  assumes "rest = [] \<or> \<not> isdigit (hd rest)" "int n \<le> INT_MAX"
  shows "scan_int (dec n @ rest) = Some (int n, rest)"
proof -
  let ?s = "dec n @ rest"
  have h: "isdigit (hd ?s)" "?s \<noteq> []" by (rule dec_hd_app)+
  have "dropWhile isspace ?s = ?s" using h isdigit_not by (cases ?s) auto
  then show ?thesis
    using h isdigit_not [OF h(1)] atoi_dec [OF assms] dropWhile_dec [OF assms(1)]
    by (simp add: scan_int_def Let_def)
qed

lemma not_digit_punct [simp]: "\<not> isdigit (CHR ''-'')" "\<not> isdigit (CHR ''/'')" "\<not> isdigit (CHR ''*'')"
  by (simp_all add: isdigit_def)

lemma scan_d_d_range: "int a \<le> INT_MAX \<Longrightarrow> int b \<le> INT_MAX \<Longrightarrow> scan_d_d (dec a @ CHR ''-'' # dec b) = (int a, int b)"
  using scan_int_dec [of "CHR ''-'' # dec b" a] scan_int_dec [of "[]" b]
  by (simp add: scan_d_d_def scan_d_def)

lemma range_ends_dec:
  "int a \<le> INT_MAX \<Longrightarrow> int b \<le> INT_MAX \<Longrightarrow> range_ends (dec a @ CHR ''-'' # dec b @ CHR ''/'' # dec s) first lst = (int a, int b)"
proof -
  have l: "from_last (CHR ''-'') (dec a @ CHR ''-'' # dec b @ CHR ''/'' # dec s) = CHR ''-'' # dec b @ CHR ''/'' # dec s"
    by (rule from_last_app) simp
  assume "int a \<le> INT_MAX" "int b \<le> INT_MAX"
  then show ?thesis
    using atoi_dec [of "CHR ''-'' # dec b @ CHR ''/'' # dec s" a] atoi_dec [of "CHR ''/'' # dec s" b]
    by (simp add: range_ends_def l Let_def)
qed

lemma slash_dec: "from_last (CHR ''/'') (dec a @ CHR ''-'' # dec b @ CHR ''/'' # dec s) = CHR ''/'' # dec s"
  using from_last_app [of "CHR ''/''" "dec s" "dec a @ CHR ''-'' # dec b"] by simp

lemmas denote_fun [simp] = denote.simps [abs_def]

lemma get_element_ok:
  assumes "0 \<le> first" "first \<le> lst" "cnt = lst + 1" "int (length item) = cnt" "term_ok first lst t" "2 * lst \<le> INT_MAX"
  shows "get_element (print_term t) item first lst cnt = Inr (0, mark (denote first lst t) item)"
proof (cases t)
  case Star
  then show ?thesis
    using assms set_range_ok [of first lst item 1] by (simp add: get_element_def strchr_def get_list_by_item_def INT_MAX_def)
next
  case (Item n)
  obtain c cs where d: "dec n = c # cs" by (cases "dec n") auto
  have "isdigit c" using dec_hd [of n] d by simp
  moreover have "set_flag (atoi (c # cs)) item = Inr (mark (\<lambda>j. j = int n) item)"
    using set_flag_ok [of "int n" item] assms Item d atoi_dec' [of n] by (simp add: INT_MAX_def)
  ultimately show ?thesis
    using Item d dec_no [of n] isdigit_not [of c]
    by (simp add: get_element_def strchr_def get_list_by_item_def)
next
  case (Range a b)
  let ?e = "dec a @ CHR ''-'' # dec b"
  have ff: "from_first (CHR ''-'') ?e = CHR ''-'' # dec b" by (rule from_first_app) simp
  have e: "get_element (print_term t) item first lst cnt = get_list_by_range ?e item first lst cnt"
    using Range by (simp add: get_element_def strchr_def)
  have rb: "set_range (int a) (int b) 1 item = Inr (0, mark (\<lambda>j. int a \<le> j \<and> j \<le> int b) item)"
    and rl: "set_range (int a) lst 1 item = Inr (0, mark (\<lambda>j. int a \<le> j \<and> j \<le> lst) item)"
    and rf: "length it = length item \<Longrightarrow> set_range first (int b) 1 it = Inr (0, mark (\<lambda>j. first \<le> j \<and> j \<le> int b) it)" for it
    using assms Range set_range_ok [of "int a" "int b" item 1] set_range_ok [of "int a" lst item 1]
      set_range_ok [of first "int b" it 1] by (simp_all add: INT_MAX_def)
  have "int a \<le> INT_MAX" "int b \<le> INT_MAX" using assms Range by (auto simp: INT_MAX_def)
  then show ?thesis
    using e rb rl rf [of "mark (\<lambda>j. int a \<le> j \<and> j \<le> lst) item"] assms Range ff
    by (simp add: get_list_by_range_def scan_d_d_range Let_def mark_mark)
next
  case (From a)
  let ?e = "dec a @ ''-''"
  have ff: "from_first (CHR ''-'') ?e = ''-''" using from_first_app [of "CHR ''-''" "dec a" "[]"] by simp
  show ?thesis
    using From assms ff set_range_ok [of "int a" lst item 1] atoi_dec [of "''-''" a]
    by (simp add: get_element_def strchr_def get_list_by_range_def INT_MAX_def)
next
  case (UpTo b)
  then show ?thesis
    using assms set_range_ok [of first "int b" item 1]
    by (simp add: get_element_def strchr_def get_list_by_range_def INT_MAX_def)
next
  case (StarStep s)
  then show ?thesis
    using assms set_range_ok [of first lst item "int s"] atoi_dec' [of s]
    by (simp add: get_element_def strchr_def get_list_by_step_def Let_def)
next
  case (RangeStep a b s)
  let ?e = "dec a @ CHR ''-'' # dec b @ CHR ''/'' # dec s"
  have e: "get_element (print_term t) item first lst cnt = get_list_by_range_and_step ?e item first lst cnt"
    using RangeStep by (simp add: get_element_def strchr_def)
  have ok: "first \<le> int a" "int a \<le> lst" "first \<le> int b" "int b \<le> lst" "0 < s" "first \<le> int s" "int s \<le> lst"
    using assms(5) RangeStep by auto
  have len: "lst < int (length item)" "int b < int (length item)" "0 < int s" "0 \<le> int a" "2 * int b \<le> INT_MAX"
    using assms(3,4,6) ok by auto
  have sm: "int a \<le> INT_MAX" "int b \<le> INT_MAX" "int s \<le> INT_MAX" using assms(6) ok by auto
  obtain i where i: "set_loop (int a) lst (int s) item = Inr (i, mark (\<lambda>j. int a \<le> j \<and> j \<le> lst \<and> int s dvd (j - int a)) item)"
    "lst < i" "i \<le> lst + int s" "int s dvd (i - int a)"
    using set_loop_ok [OF len(4,1,3) assms(6)] ok assms(6) by (auto simp: mark_def)
  have m: "i mod cnt + first = i - (lst - first + 1)"
  proof -
    have "i mod cnt = (i - cnt) mod cnt" by simp
    also have "\<dots> = i - cnt" using i(2,3) ok(7) assms(1-3) by (intro mod_pos_pos_trivial) auto
    finally show ?thesis using assms(3) by simp
  qed
  have "set_range (i - (lst - first + 1)) (int b) (int s) (mark P item)
      = Inr (0, mark (\<lambda>j. i - (lst - first + 1) \<le> j \<and> j \<le> int b \<and> int s dvd (j - (i - (lst - first + 1)))) (mark P item))" for P
    using i(2) assms(1,6) len ok by (intro set_range_ok) auto
  moreover have "(i - (lst - first + 1) \<le> j \<and> j \<le> int b \<and> int s dvd (j - (i - (lst - first + 1))))
      = (first \<le> j \<and> j \<le> int b \<and> int s dvd (j + (lst - first + 1) - int a))" for j
  proof -
    have d: "int s dvd (j - (i - (lst - first + 1))) \<longleftrightarrow> int s dvd (j + (lst - first + 1) - int a)"
      using dvd_add_left_iff [OF i(4), of "j - (i - (lst - first + 1))"] by (simp add: algebra_simps)
    have "i - (lst - first + 1) \<le> j" if "first \<le> j" "int s dvd (j - (i - (lst - first + 1)))"
    proof (rule ccontr)
      assume "\<not> i - (lst - first + 1) \<le> j"
      then have "int s \<le> (i - (lst - first + 1)) - j"
        using that(2) by (intro zdvd_imp_le) (auto simp: dvd_diff_commute)
      then show False using that(1) i(3) by linarith
    qed
    then show ?thesis using d i(2) by auto
  qed
  ultimately have wrap: "int a > int b \<Longrightarrow> get_list_by_range_and_step ?e item first lst cnt
      = Inr (0, mark (denote first lst t) item)"
    using ok i(1) RangeStep range_ends_dec [OF sm(1,2), of s first lst] atoi_dec' [OF sm(3)] slash_dec [of a b s] assms(1)
    by (simp add: get_list_by_range_and_step_def Let_def m mark_mark not_less)
  have "int a \<le> int b \<Longrightarrow> get_list_by_range_and_step ?e item first lst cnt
      = Inr (0, mark (denote first lst t) item)"
    using ok RangeStep range_ends_dec [OF sm(1,2), of s first lst] atoi_dec' [OF sm(3)] slash_dec [of a b s] set_range_ok [OF len(4,2,3,5)] assms(1,6)
    by (simp add: get_list_by_range_and_step_def Let_def not_less)
  then show ?thesis using wrap e by (cases "int a \<le> int b") auto
qed

subsection \<open>Lists of terms\<close>

fun print_field :: "cron_term list \<Rightarrow> string" where
  "print_field [] = []"
| "print_field [t] = print_term t"
| "print_field (t # t' # ts) = print_term t @ CHR '','' # print_field (t' # ts)"

definition plain :: "char \<Rightarrow> bool" where
  "plain c \<longleftrightarrow> isdigit c \<or> c \<in> set ''*-/,''"

lemma print_term_ok: "print_term t \<noteq> []" "CHR '','' \<notin> set (print_term t)" "\<forall>c \<in> set (print_term t). plain c"
  by (cases t; auto simp: plain_def dest: dec_digits)+

lemma print_field_plain: "\<forall>c \<in> set (print_field ts). plain c"
  by (induction ts rule: print_field.induct) (auto simp: print_term_ok(3) [rule_format] plain_def dest: print_term_ok(3) [rule_format])

lemma print_field_nonempty: "ts \<noteq> [] \<Longrightarrow> print_field ts \<noteq> []"
  by (cases ts rule: print_field.cases) (auto simp: print_term_ok)

lemma print_field_tokens: "strtok_all (CHR '','') [] (print_field ts) = map print_term ts"
  by (induction ts rule: print_field.induct) (auto simp: strtok_all_app strtok_all_last print_term_ok)

lemma get_tokens_ok:
  assumes "0 \<le> first" "first \<le> lst" "cnt = lst + 1" "int (length item) = cnt" "\<forall>t \<in> set ts. term_ok first lst t"
    "2 * lst \<le> INT_MAX"
  shows "get_tokens (map print_term ts) item first lst cnt
     = Inr (0, mark (\<lambda>j. \<exists>t \<in> set ts. denote first lst t j) item)"
  using assms(4,5)
proof (induction ts arbitrary: item)
  case Nil
  then show ?case by (simp add: mark_def map_nth)
next
  case (Cons t ts)
  have "mark (\<lambda>j. denote first lst t j \<or> (\<exists>t \<in> set ts. denote first lst t j)) item
    = mark (\<lambda>j. \<exists>t \<in> set (t # ts). denote first lst t j) item" by (rule mark_cong) simp
  then show ?case
    using Cons.IH [of "mark (denote first lst t) item"] Cons.prems get_element_ok [OF assms(1-3) _ _ assms(6), of item t]
    by (simp add: mark_mark del: denote_fun)
qed

lemma parse_field_ok:
  assumes "0 \<le> first" "first \<le> lst" "cnt = lst + 1" "int (length item) = cnt" "\<forall>t \<in> set ts. term_ok first lst t"
    "ts \<noteq> []" "2 * lst \<le> INT_MAX"
  shows "parse_cron_entry_i (print_field ts) item first lst cnt
     = Inr (0, mark (\<lambda>j. \<exists>t \<in> set ts. denote first lst t j) item)"
proof (cases "strchr (print_field ts) (CHR '','')")
  case True
  then show ?thesis
    using get_tokens_ok [OF assms(1-5,7)] by (simp add: parse_cron_entry_i_def get_list_def print_field_tokens)
next
  case False
  then obtain t where "ts = [t]" using assms(6) by (cases ts rule: print_field.cases) (auto simp: strchr_def)
  then show ?thesis
    using get_element_ok [OF assms(1-4) _ assms(7), of t] assms(5) print_term_ok(2) [of t]
    by (simp add: parse_cron_entry_i_def strchr_def del: denote_fun)
qed

subsection \<open>Whole entries\<close>

lemma plain_facts: "plain c \<Longrightarrow> \<not> isspace c \<and> c \<noteq> NUL \<and> tolower c = c \<and> c \<noteq> CHR ''@'' \<and> \<not> 97 \<le> (of_char c :: nat)"
  by (auto simp: plain_def isdigit_def isspace_def tolower_def)

lemma space_facts: "isspace (CHR '' '')" "tolower (CHR '' '') = CHR '' ''" "CHR '' '' \<noteq> NUL"
  by (simp_all add: isspace_def tolower_def)

lemma strstr_None: "hd p \<notin> set s \<Longrightarrow> p \<noteq> [] \<Longrightarrow> strstr s p = None"
proof (induction s)
  case (Cons c s)
  then show ?case by (cases p) auto
qed simp

lemma replace_id:
  assumes "hd str \<notin> set (c_str 0 buf)" "str \<noteq> []"
  shows "replace buf str n = buf"
  using strstr_None [OF assms] by (simp add: replace.simps [of buf])

lemma skip_to_space_run:
  "(\<And>c. c \<in> set f \<Longrightarrow> \<not> isspace c) \<Longrightarrow> isspace d \<Longrightarrow>
     skip_to_space (pre @ f @ d # rest) (length pre) = Inr (length pre + length f)"
proof (induction f arbitrary: pre)
  case Nil
  then show ?case by (simp add: skip_to_space.simps)
next
  case (Cons c f)
  have "skip_to_space ((pre @ [c]) @ f @ d # rest) (length (pre @ [c])) = Inr (length (pre @ [c]) + length f)"
    by (rule Cons.IH) (use Cons.prems in auto)
  then show ?case using Cons.prems(1) [of c] by (subst skip_to_space.simps) simp
qed

lemma advance_field_run:
  assumes "\<And>c. c \<in> set f \<Longrightarrow> \<not> isspace c" "rest \<noteq> []" "\<not> isspace (hd rest)" "hd rest \<noteq> NUL"
  shows "advance_field (pre @ f @ CHR '' '' # rest) (length pre)
    = Inr (pre @ f @ NUL # rest, length pre + length f + 1)"
proof -
  let ?p = "length pre + length f" and ?b = "pre @ f @ NUL # rest"
  have s: "skip_to_space (pre @ f @ CHR '' '' # rest) (length pre) = Inr ?p"
    by (rule skip_to_space_run) (use assms(1) space_facts in auto)
  have u: "(pre @ f @ CHR '' '' # rest)[?p := NUL] = ?b" "?b[?p := NUL] = ?b"
    by (simp_all add: list_update_append)
  have n: "?b ! ?p = NUL" "?b ! Suc ?p = hd rest" "Suc ?p < length ?b"
    using assms(2) by (simp_all add: nth_append hd_conv_nth)
  have "skip_blank ?b (Suc ?p) = Inr (Suc ?p)" using n assms(3,4) by (subst skip_blank.simps) simp
  then have "skip_blank ?b ?p = Inr (Suc ?p)" using n by (subst skip_blank.simps) simp
  then show ?thesis using s u by (simp add: advance_field_def)
qed

lemma c_str_at: "NUL \<notin> set f \<Longrightarrow> c_str (length pre) (pre @ f @ NUL # rest) = f"
  using takeWhile_ni [of NUL f rest] by (simp add: c_str_def)

lemma cron_fields_ok:
  assumes p: "\<forall>f \<in> {f1, f2, f3, f4, f5}. f \<noteq> [] \<and> (\<forall>c \<in> set f. plain c)"
  shows "cron_fields (f1 @ '' '' @ f2 @ '' '' @ f3 @ '' '' @ f4 @ '' '' @ f5 @ NUL # rest) = Inr [f1, f2, f3, f4, f5]"
proof -
  have ns: "f \<in> {f1, f2, f3, f4, f5} \<Longrightarrow> (\<forall>c \<in> set f. \<not> isspace c) \<and> NUL \<notin> set f \<and> f \<noteq> []
      \<and> \<not> isspace (hd f) \<and> hd f \<noteq> NUL" for f
    using p plain_facts by (metis hd_in_set)
  let ?r2 = "f2 @ CHR '' '' # f3 @ CHR '' '' # f4 @ CHR '' '' # f5 @ NUL # rest"
  let ?r3 = "f3 @ CHR '' '' # f4 @ CHR '' '' # f5 @ NUL # rest"
  let ?r4 = "f4 @ CHR '' '' # f5 @ NUL # rest" and ?r5 = "f5 @ NUL # rest"
  let ?b = "f1 @ NUL # f2 @ NUL # f3 @ NUL # f4 @ NUL # f5 @ NUL # rest"
  have a1: "advance_field (f1 @ CHR '' '' # ?r2) 0 = Inr (f1 @ NUL # ?r2, length (f1 @ [NUL]))"
    using advance_field_run [of f1 ?r2 "[]"] ns [of f1] ns [of f2] by simp
  have a2: "advance_field (f1 @ NUL # ?r2) (length (f1 @ [NUL])) = Inr (f1 @ NUL # f2 @ NUL # ?r3, length (f1 @ NUL # f2 @ [NUL]))"
    using advance_field_run [of f2 ?r3 "f1 @ [NUL]"] ns [of f2] ns [of f3] by (simp add: ac_simps)
  have a3: "advance_field (f1 @ NUL # f2 @ NUL # ?r3) (length (f1 @ NUL # f2 @ [NUL]))
      = Inr (f1 @ NUL # f2 @ NUL # f3 @ NUL # ?r4, length (f1 @ NUL # f2 @ NUL # f3 @ [NUL]))"
    using advance_field_run [of f3 ?r4 "f1 @ NUL # f2 @ [NUL]"] ns [of f3] ns [of f4] by (simp add: ac_simps)
  have a4: "advance_field (f1 @ NUL # f2 @ NUL # f3 @ NUL # ?r4) (length (f1 @ NUL # f2 @ NUL # f3 @ [NUL]))
      = Inr (?b, length (f1 @ NUL # f2 @ NUL # f3 @ NUL # f4 @ [NUL]))"
    using advance_field_run [of f4 ?r5 "f1 @ NUL # f2 @ NUL # f3 @ [NUL]"] ns [of f4] ns [of f5] by (simp add: ac_simps)
  have c: "c_str 0 ?b = f1" "c_str (length (f1 @ [NUL])) ?b = f2" "c_str (length (f1 @ NUL # f2 @ [NUL])) ?b = f3"
    "c_str (length (f1 @ NUL # f2 @ NUL # f3 @ [NUL])) ?b = f4"
    "c_str (length (f1 @ NUL # f2 @ NUL # f3 @ NUL # f4 @ [NUL])) ?b = f5"
    using c_str_at [of f1 "[]"] c_str_at [of f2 "f1 @ [NUL]"] c_str_at [of f3 "f1 @ NUL # f2 @ [NUL]"]
      c_str_at [of f4 "f1 @ NUL # f2 @ NUL # f3 @ [NUL]"] c_str_at [of f5 "f1 @ NUL # f2 @ NUL # f3 @ NUL # f4 @ [NUL]"]
      ns [of f1] ns [of f2] ns [of f3] ns [of f4] ns [of f5] by simp_all
  have e: "f1 @ '' '' @ f2 @ '' '' @ f3 @ '' '' @ f4 @ '' '' @ f5 @ NUL # rest = f1 @ CHR '' '' # ?r2" by simp
  show ?thesis
    unfolding e cron_fields_def a1 sum.case prod.case a2 a3 a4 c ..
qed

lemma fold_replace_id:
  "(\<And>nm i. (nm, i) \<in> set xs \<Longrightarrow> nm \<noteq> [] \<and> hd nm \<notin> set (c_str 0 buf)) \<Longrightarrow>
     fold (\<lambda>(nm, i) b. replace b nm (g i)) xs buf = buf"
proof (induction xs)
  case (Cons x xs)
  obtain nm i where x: "x = (nm, i)" by fastforce
  have "replace buf nm (g i) = buf" using Cons.prems [of nm i] x by (intro replace_id) auto
  moreover have "fold (\<lambda>(nm, i) b. replace b nm (g i)) xs buf = buf" by (rule Cons.IH) (use Cons.prems in auto)
  ultimately show ?case using x by simp
qed simp

lemma names_letters: "nm \<in> set MONTH_LIST \<union> set WDAY_LIST \<Longrightarrow> nm \<noteq> [] \<and> 97 \<le> (of_char (hd nm) :: nat)"
  by (auto simp: MONTH_LIST_def WDAY_LIST_def)

lemma cron_buffer_ok:
  assumes "\<forall>c \<in> set en. plain c \<or> c = CHR '' ''" "9 \<le> length en" "plain (hd en)" "plain (last en)"
  shows "cron_buffer en = Inr (Some (en @ [NUL]))"
proof -
  obtain c cs where en: "en = c # cs" using assms(2) by (cases en) auto
  have ne: "en \<noteq> []" "rev en \<noteq> []" using en by auto
  have d: "dropWhile isspace en = en" using assms(3) plain_facts by (cases en) auto
  obtain ini l where l: "en = ini @ [l]" using ne by (cases en rule: rev_cases) auto
  have "dropWhile isspace (rev en) = rev en" using assms(4) plain_facts l by simp
  then have t: "rev (dropWhile isspace (rev (dropWhile isspace en))) = en" using d by simp
  have st: "strstrip en (length en) = Inr (en @ [NUL])" unfolding strstrip_def Let_def t using ne by simp
  have nn: "NUL \<notin> set en" using assms(1) plain_facts space_facts by metis
  then have cs: "c_str 0 (en @ [NUL]) = en" using c_str_at [of en "[]" "[]"] by simp
  have low: "map tolower en = en" using assms(1) plain_facts space_facts by (intro map_idI) metis
  have letters: "97 \<le> (of_char x :: nat) \<Longrightarrow> x \<notin> set en" for x
    using assms(1) plain_facts by (auto dest!: bspec)
  have nm: "nm \<in> set MONTH_LIST \<union> set WDAY_LIST \<Longrightarrow> nm \<noteq> [] \<and> hd nm \<notin> set (c_str 0 (en @ [NUL]))" for nm
    unfolding cs using names_letters [of nm] letters [of "hd nm"] by blast
  have m: "fold (\<lambda>(nm, i) b. replace b nm (i + 1)) (zip MONTH_LIST [0..<12]) (en @ [NUL]) = en @ [NUL]"
    by (rule fold_replace_id, rule nm) (auto dest: set_zip_leftD)
  have w: "fold (\<lambda>(nm, i) b. replace b nm i) (zip WDAY_LIST [0..<7]) (en @ [NUL]) = en @ [NUL]"
    by (rule fold_replace_id, rule nm) (auto dest: set_zip_leftD)
  have at: "hd en \<noteq> CHR ''@''" using assms(3) plain_facts by blast
  show ?thesis using assms(2) using m w by (simp add: cron_buffer_def d at st cs low Let_def)
qed

definition print_entry :: "cron_term list \<Rightarrow> cron_term list \<Rightarrow> cron_term list \<Rightarrow> cron_term list \<Rightarrow> cron_term list \<Rightarrow> string" where
  "print_entry mi ho md mo wd = print_field mi @ '' '' @ print_field ho @ '' '' @ print_field md @ '' ''
     @ print_field mo @ '' '' @ print_field wd"

definition any_term :: "int \<Rightarrow> int \<Rightarrow> cron_term list \<Rightarrow> int \<Rightarrow> bool" where
  "any_term first lst ts j \<longleftrightarrow> (\<exists>t \<in> set ts. denote first lst t j)"

definition field_ok :: "int \<Rightarrow> int \<Rightarrow> cron_term list \<Rightarrow> bool" where
  "field_ok first lst ts \<longleftrightarrow> ts \<noteq> [] \<and> list_all (term_ok first lst) ts"

definition cron_blank :: "flags list" where
  "cron_blank = [replicate MINUTE_COUNT False, replicate HOUR_COUNT False, replicate MDAY_COUNT False,
     replicate MONTH_COUNT False, replicate WDAY_COUNT False]"

lemmas counts = MINUTE_COUNT_def HOUR_COUNT_def MDAY_COUNT_def MONTH_COUNT_def WDAY_COUNT_def

lemma parse_field_any:
  assumes "0 \<le> first" "first \<le> lst" "field_ok first lst ts" "int n = lst + 1" "2 * lst \<le> INT_MAX"
  shows "parse_cron_entry_i (print_field ts) (replicate n False) first lst (lst + 1)
    = Inr (0, mark (any_term first lst ts) (replicate n False))"
  using parse_field_ok [of first lst "lst + 1" "replicate n False" ts] assms
  by (simp add: any_term_def [abs_def] field_ok_def list_all_iff)

lemma parse_entry_ok:
  assumes "field_ok 0 59 mi" "field_ok 0 23 ho" "field_ok 1 31 md" "field_ok 1 12 mo" "field_ok 0 7 wd"
  shows "parse_cron_entry (print_entry mi ho md mo wd) cron_blank =
    Inr (0, [mark (any_term 0 59 mi) (replicate 60 False), mark (any_term 0 23 ho) (replicate 24 False),
             mark (any_term 1 31 md) (replicate 32 False), mark (any_term 1 12 mo) (replicate 13 False),
             both_sundays (mark (any_term 0 7 wd) (replicate 8 False))])"
proof -
  let ?en = "print_entry mi ho md mo wd" and ?fs = "[print_field mi, print_field ho, print_field md, print_field mo, print_field wd]"
  have ne: "f \<noteq> [] \<and> (\<forall>c \<in> set f. plain c)" if "f \<in> set ?fs" for f
    using that assms print_field_nonempty print_field_plain by (auto simp: field_ok_def)
  have l1: "f \<in> set ?fs \<Longrightarrow> 1 \<le> length f" for f using ne [of f] by (cases f) auto
  have len: "9 \<le> length ?en"
    using l1 [of "print_field mi"] l1 [of "print_field ho"] l1 [of "print_field md"] l1 [of "print_field mo"]
      l1 [of "print_field wd"] by (simp add: print_entry_def)
  have "plain (hd (print_field mi))" "plain (last (print_field wd))"
    using ne [of "print_field mi"] ne [of "print_field wd"] by auto
  then have ends: "plain (hd ?en)" "plain (last ?en)"
    using ne [of "print_field mi"] ne [of "print_field wd"] by (simp_all add: print_entry_def)
  have "\<forall>c \<in> set ?en. plain c \<or> c = CHR '' ''" using print_field_plain by (auto simp: print_entry_def)
  then have buf: "cron_buffer ?en = Inr (Some (?en @ [NUL]))" by (rule cron_buffer_ok [OF _ len ends])
  have "cron_fields (?en @ [NUL]) = Inr ?fs"
    using cron_fields_ok [of "print_field mi" "print_field ho" "print_field md" "print_field mo" "print_field wd" "[]"] ne
    by (simp add: print_entry_def)
  moreover have "parse_fields ?fs field_bounds cron_blank =
    Inr (0, [mark (any_term 0 59 mi) (replicate 60 False), mark (any_term 0 23 ho) (replicate 24 False),
             mark (any_term 1 31 md) (replicate 32 False), mark (any_term 1 12 mo) (replicate 13 False),
             mark (any_term 0 7 wd) (replicate 8 False)])"
    using parse_field_any [of 0 59 mi 60] parse_field_any [of 0 23 ho 24] parse_field_any [of 1 31 md 32]
      parse_field_any [of 1 12 mo 13] parse_field_any [of 0 7 wd 8] assms
    by (simp add: field_bounds_def cron_blank_def counts INT_MAX_def)
  ultimately show ?thesis by (simp add: parse_cron_entry_def buf)
qed

lemma set_range_safe:
  "0 \<le> b \<Longrightarrow> e < int (length item) \<Longrightarrow> 0 < step \<Longrightarrow> 2 * e \<le> INT_MAX \<Longrightarrow> (b \<le> e \<longrightarrow> b + step \<le> INT_MAX) \<Longrightarrow>
     \<exists>it. set_range b e step item = Inr (0, it) \<and> length it = length item"
  using set_range_ok by simp

lemma range_and_step_safe:
  assumes "0 \<le> first" "first \<le> lst" "0 < cnt" "lst < int (length item)" "2 * lst \<le> INT_MAX"
  shows "\<exists>r it. get_list_by_range_and_step entry item first lst cnt = Inr (r, it) \<and> length it = length item"
proof -
  obtain b e where be: "range_ends entry first lst = (b, e)" by fastforce
  let ?p2 = "from_last (CHR ''/'') entry"
  define s where "s = (if tl ?p2 = [] then 1 else atoi (tl ?p2))"
  show ?thesis
  proof (cases "s = 0 \<or> b > lst \<or> b < first \<or> e > lst \<or> e < first \<or> s > lst \<or> s < first")
    case True
    then show ?thesis using be by (auto simp: get_list_by_range_and_step_def Let_def s_def [symmetric])
  next
    case False
    then have ok: "0 \<le> b" "b \<le> lst" "e \<le> lst" "0 < s" "s \<le> lst" using assms(1) by auto
    have sm: "x \<le> lst \<longrightarrow> x + s \<le> INT_MAX" for x using ok(5) assms(5) by auto
    obtain i it where it: "set_loop b lst s item = Inr (i, it)" "length it = length item"
      using set_loop_ok [OF ok(1) assms(4) ok(4) assms(5) sm] by fastforce
    have j: "0 \<le> i mod cnt + first" using assms(1,3) by simp
    have "\<exists>it'. set_range (i mod cnt + first) e s it = Inr (0, it') \<and> length it' = length it"
      using ok(3) assms(4,5) sm [of "i mod cnt + first"] it(2) by (intro set_range_safe [OF j _ ok(4)]) auto
    moreover have "\<exists>it'. set_range b e s item = Inr (0, it') \<and> length it' = length item"
      using ok(3) assms(4,5) sm [of b] by (intro set_range_safe [OF ok(1) _ ok(4)]) auto
    ultimately show ?thesis
      using False be it by (auto simp: get_list_by_range_and_step_def Let_def s_def [symmetric])
  qed
qed

text \<open>The elements of a field that are not checked against its flags: a number beyond the last flag,
  an open range up to such a number or from a number that is negative as an \<^verbatim>\<open>int\<close>, and a star with a
  step that is negative as an \<^verbatim>\<open>int\<close> or so large that adding it overflows.\<close>

definition overruns :: "int \<Rightarrow> int \<Rightarrow> string \<Rightarrow> bool" where
  "overruns first cnt tok =
     (if strchr tok (CHR ''-'') \<and> strchr tok (CHR ''/'') then False
      else if strchr tok (CHR ''-'')
      then (if hd tok = CHR ''-'' then cnt \<le> atoi (tl tok) else tl (from_first (CHR ''-'') tok) = [] \<and> atoi tok < 0)
      else if strchr tok (CHR ''/'')
      then take 2 tok = ''*/'' \<and> (atoi (drop 2 tok) < 0 \<or> INT_MAX < first + atoi (drop 2 tok))
      else tok \<noteq> [] \<and> isdigit (hd tok) \<and> (atoi tok < 0 \<or> cnt \<le> atoi tok))"

definition field_elements :: "string \<Rightarrow> string list" where
  "field_elements f = (if strchr f (CHR '','') then strtok_all (CHR '','') [] f else [f])"

lemma range_safe:
  assumes "0 \<le> first" "first \<le> lst" "lst < int (length item)" "2 * int (length item) \<le> INT_MAX"
    "if hd tok = CHR ''-'' then atoi (tl tok) < int (length item) else tl (from_first (CHR ''-'') tok) = [] \<longrightarrow> 0 \<le> atoi tok"
  shows "\<exists>r it. get_list_by_range tok item first lst cnt = Inr (r, it) \<and> length it = length item"
proof -
  have r: "\<exists>it'. set_range b e 1 it = Inr (0, it') \<and> length it' = length item"
    if "0 \<le> b" "e < int (length it)" "length it = length item" for b e and it :: flags
    using that assms(4) set_range_safe [of b e it 1] by auto
  obtain b e where be: "scan_d_d tok = (b, e)" by fastforce
  have w: "\<exists>it. (case set_range b lst 1 item of Inl f \<Rightarrow> Inl f | Inr (_, it) \<Rightarrow> set_range first e 1 it) = Inr (0, it)
    \<and> length it = length item" if "0 \<le> b" "e \<le> lst"
    using r [of b lst item] r [of first e] that assms(1-3) by fastforce
  show ?thesis
    using assms(5) be w r [of first "atoi (tl tok)" item] r [of "atoi tok" lst item] r [of b e item] assms(1-3)
    by (fastforce simp: get_list_by_range_def Let_def split: if_splits)
qed

lemma item_safe:
  assumes "0 \<le> first" "first \<le> lst" "lst < int (length item)" "2 * int (length item) \<le> INT_MAX"
    "tok \<noteq> [] \<and> isdigit (hd tok) \<longrightarrow> 0 \<le> atoi tok \<and> atoi tok < int (length item)"
  shows "\<exists>r it. get_list_by_item tok item first lst cnt = Inr (r, it) \<and> length it = length item"
  using assms set_range_safe [of first lst item 1] by (cases tok) (auto simp: get_list_by_item_def set_flag_def)

lemma by_step_safe:
  assumes "0 \<le> first" "first \<le> lst" "lst < int (length item)" "2 * int (length item) \<le> INT_MAX"
    "take 2 tok = ''*/'' \<longrightarrow> 0 \<le> atoi (drop 2 tok) \<and> first + atoi (drop 2 tok) \<le> INT_MAX" "tok \<noteq> []"
  shows "\<exists>r it. get_list_by_step tok item first lst cnt = Inr (r, it) \<and> length it = length item"
proof -
  have t: "take 2 tok = ''*/''" if "hd tok = CHR ''*''" "1 < length tok" "tok ! 1 = CHR ''/''"
    using that by (cases tok; cases "tl tok") auto
  have "\<exists>it. set_range first lst (atoi (drop 2 tok)) item = Inr (0, it) \<and> length it = length item"
    if "take 2 tok = ''*/''" "atoi (drop 2 tok) \<noteq> 0"
    using that assms by (intro set_range_safe) auto
  then show ?thesis using t assms(1-3) by (auto simp: get_list_by_step_def Let_def set_flag_def)
qed

lemma element_safe:
  assumes "0 \<le> first" "first \<le> lst" "0 < cnt" "lst < int (length item)" "2 * int (length item) \<le> INT_MAX"
    "\<not> overruns first (int (length item)) tok"
  shows "\<exists>r it. get_element tok item first lst cnt = Inr (r, it) \<and> length it = length item"
proof -
  have ne: "tok \<noteq> []" if "strchr tok c" for c using that by (auto simp: strchr_def)
  note o1 = assms(6) [unfolded overruns_def]
  consider (rs) "strchr tok (CHR ''-'')" "strchr tok (CHR ''/'')" | (r) "strchr tok (CHR ''-'')" "\<not> strchr tok (CHR ''/'')"
    | (st) "\<not> strchr tok (CHR ''-'')" "strchr tok (CHR ''/'')" | (it) "\<not> strchr tok (CHR ''-'')" "\<not> strchr tok (CHR ''/'')"
    by blast
  then show ?thesis
  proof cases
    case rs
    have "2 * lst \<le> INT_MAX" using assms(4,5) by simp
    then show ?thesis using range_and_step_safe [OF assms(1-4), of tok] rs by (simp add: get_element_def)
  next
    case r
    have "if hd tok = CHR ''-'' then atoi (tl tok) < int (length item) else tl (from_first (CHR ''-'') tok) = [] \<longrightarrow> 0 \<le> atoi tok"
      using o1 r by (simp split: if_splits) linarith
    then show ?thesis using range_safe [OF assms(1,2,4,5), of tok cnt] r by (simp add: get_element_def)
  next
    case st
    have "take 2 tok = ''*/'' \<longrightarrow> 0 \<le> atoi (drop 2 tok) \<and> first + atoi (drop 2 tok) \<le> INT_MAX"
      using o1 st by (simp add: not_less)
    then show ?thesis using by_step_safe [OF assms(1,2,4,5) _ ne [OF st(2)], of cnt] st by (simp add: get_element_def)
  next
    case it
    have "tok \<noteq> [] \<and> isdigit (hd tok) \<longrightarrow> 0 \<le> atoi tok \<and> atoi tok < int (length item)"
      using o1 it by (simp add: not_less not_le) linarith
    then show ?thesis using item_safe [OF assms(1,2,4,5), of tok cnt] it by (simp add: get_element_def)
  qed
qed

lemma tokens_safe:
  assumes "0 \<le> first" "first \<le> lst" "0 < cnt" "lst < int (length item)" "2 * int (length item) \<le> INT_MAX"
    "\<forall>tok \<in> set ts. \<not> overruns first (int (length item)) tok"
  shows "\<exists>r it. get_tokens ts item first lst cnt = Inr (r, it) \<and> length it = length item"
  using assms(4-6)
proof (induction ts arbitrary: item)
  case (Cons t ts)
  obtain r it where r: "get_element t item first lst cnt = Inr (r, it)" "length it = length item"
    using element_safe [OF assms(1-3) Cons.prems(1,2), of t] Cons.prems(3) by auto
  then show ?case using Cons.IH [of it] Cons.prems by simp
qed simp

lemma field_safe:
  assumes "0 \<le> first" "first \<le> lst" "0 < cnt" "lst < int (length item)" "2 * int (length item) \<le> INT_MAX"
    "\<forall>tok \<in> set (field_elements f). \<not> overruns first (int (length item)) tok"
  shows "\<exists>r it. parse_cron_entry_i f item first lst cnt = Inr (r, it) \<and> length it = length item"
  using assms(6) tokens_safe [OF assms(1-5), of "field_elements f"] element_safe [OF assms(1-5), of f]
  by (auto simp: parse_cron_entry_i_def get_list_def field_elements_def split: if_splits)

lemma fields_safe:
  assumes "\<forall>(first, lst, cnt) \<in> set bs. 0 \<le> first \<and> first \<le> lst \<and> cnt = lst + 1 \<and> 2 * cnt \<le> INT_MAX"
    "list_all2 (\<lambda>item (first, lst, cnt). int (length item) = cnt) items bs"
    "list_all2 (\<lambda>f (first, lst, cnt). \<forall>tok \<in> set (field_elements f). \<not> overruns first cnt tok) fs bs"
  shows "\<exists>r its. parse_fields fs bs items = Inr (r, its) \<and> map length its = map length items"
  using assms
proof (induction fs bs items rule: parse_fields.induct)
  case (1 f fs first lst cnt bs item items)
  then obtain r it where r: "parse_cron_entry_i f item first lst cnt = Inr (r, it)" "length it = length item"
    using field_safe [of first lst cnt item f] by auto
  show ?case
  proof (cases "r = 0")
    case True
    with 1 r obtain r' its where "parse_fields fs bs items = Inr (r', its)" "map length its = map length items" by fastforce
    then show ?thesis using r True by simp
  qed (use r in simp)
qed auto

section \<open>Properties\<close>

text \<open>C31: A crontab entry in the documented form (five fields, each a comma-separated list of stars,
  numbers, ranges, open ranges and steps, with wrap-around ranges; numbers within the bounds of the
  field, and open ranges and steps such that \<^verbatim>\<open>int\<close> does not overflow) is accepted, and the parsed
  entry matches a minute exactly when each of the five fields denotes it, days 0 and 7 of the week
  both being Sunday. So the day of the month and the day of the week must both match;
  \<^verbatim>\<open>timer_queue.h\<close> gives an example that reads like a union.\<close>

theorem cron_entry_correct:
  assumes "field_ok 0 59 mi" "field_ok 0 23 ho" "field_ok 1 31 md" "field_ok 1 12 mo" "field_ok 0 7 wd"
  shows "\<exists>e. parse_cron_entry (print_entry mi ho md mo wd) cron_blank = Inr (0, e)
    \<and> (\<forall>m h d n w. m < 60 \<and> h < 24 \<and> d < 32 \<and> n < 13 \<and> w < 8 \<longrightarrow>
         (cron_matches e [m, h, d, n, w] \<longleftrightarrow>
            any_term 0 59 mi (int m) \<and> any_term 0 23 ho (int h) \<and> any_term 1 31 md (int d)
            \<and> any_term 1 12 mo (int n)
            \<and> (if w \<in> {0, 7} then any_term 0 7 wd 0 \<or> any_term 0 7 wd 7 else any_term 0 7 wd (int w))))"
proof -
  have nth: "mark P (replicate k False) ! j = P (int j)" if "j < k" for P k j
    using that by (simp add: mark_def)
  have sun: "both_sundays (mark P (replicate 8 False)) ! w = (if w \<in> {0, 7} then P 0 \<or> P 7 else P (int w))" if "w < 8" for P w
    using that nth [of 0 8 P] nth [of 7 8 P] nth [of w 8 P]
    by (cases "w = 0"; cases "w = 7") (auto simp: both_sundays_def Let_def nth_list_update)
  show ?thesis
    unfolding parse_entry_ok [OF assms] by (simp add: cron_matches_def nth sun)
qed

theorem cron_entry_correct_witness:
  "\<exists>e. parse_cron_entry (print_entry [StarStep 5] [Range 22 6] [Star] [Star] [Range 1 5, Item 7]) cron_blank = Inr (0, e)
     \<and> cron_matches e [15, 23, 1, 1, 0]"
proof -
  have ok: "field_ok 0 59 [StarStep 5]" "field_ok 0 23 [Range 22 6]" "field_ok 1 31 [Star]" "field_ok 1 12 [Star]"
    "field_ok 0 7 [Range 1 5, Item 7]" by (simp_all add: field_ok_def INT_MAX_def)
  obtain e where e: "parse_cron_entry (print_entry [StarStep 5] [Range 22 6] [Star] [Star] [Range 1 5, Item 7]) cron_blank = Inr (0, e)"
    and m: "\<forall>m h d n w. m < 60 \<and> h < 24 \<and> d < 32 \<and> n < 13 \<and> w < 8 \<longrightarrow>
         (cron_matches e [m, h, d, n, w] \<longleftrightarrow>
            any_term 0 59 [StarStep 5] (int m) \<and> any_term 0 23 [Range 22 6] (int h) \<and> any_term 1 31 [Star] (int d)
            \<and> any_term 1 12 [Star] (int n)
            \<and> (if w \<in> {0, 7} then any_term 0 7 [Range 1 5, Item 7] 0 \<or> any_term 0 7 [Range 1 5, Item 7] 7
               else any_term 0 7 [Range 1 5, Item 7] (int w)))"
    using cron_entry_correct [OF ok] by blast
  have "cron_matches e [15, 23, 1, 1, 0]" using m [rule_format, of 15 23 1 1 0] by (simp add: any_term_def)
  then show ?thesis using e by blast
qed

text \<open>C32: Which entries write outside the flags. If an entry splits into five fields and no element of
  a field is one of those that are not checked (\<open>overruns\<close>: a number beyond the last flag, alone or
  as the end of a range without a begin, and a step or the begin of a range without an end that
  leave the range of \<^verbatim>\<open>int\<close>), then parsing it returns, accepted or refused, having written only to
  the flags, whatever else the entry contains.\<close>

theorem cron_entry_memory_safe:
  assumes "cron_buffer en = Inr (Some buf)" "cron_fields buf = Inr fs" "map length items = map length cron_blank"
    "list_all2 (\<lambda>f (first, lst, cnt). \<forall>tok \<in> set (field_elements f). \<not> overruns first cnt tok) fs field_bounds"
  shows "\<exists>r items'. parse_cron_entry en items = Inr (r, items') \<and> map length items' = map length cron_blank"
proof -
  have "list_all2 (\<lambda>item (first, lst, cnt). int (length item) = cnt) items field_bounds"
    using assms(3) by (auto simp: field_bounds_def cron_blank_def counts)
  moreover have "\<forall>(first, lst, cnt) \<in> set field_bounds. 0 \<le> first \<and> first \<le> lst \<and> cnt = lst + 1 \<and> 2 * cnt \<le> INT_MAX"
    by (simp add: field_bounds_def INT_MAX_def)
  ultimately obtain r its where r: "parse_fields fs field_bounds items = Inr (r, its)" "map length its = map length items"
    using fields_safe [of field_bounds items fs] assms(4) by blast
  then have "length its = 5" using assms(3) map_eq_imp_length_eq by (fastforce simp: cron_blank_def)
  moreover have "length (both_sundays w) = length w" for w by (simp add: both_sundays_def Let_def)
  ultimately have "map length (its[4 := both_sundays (its ! 4)]) = map length its"
    by (simp add: map_update list_update_same_conv)
  then show ?thesis using r assms(1-3) by (simp add: parse_cron_entry_def)
qed

theorem cron_entry_memory_safe_witness:
  "\<exists>r items'. parse_cron_entry ''7-/ 1- */99 ,1-/0 9--3'' cron_blank = Inr (r, items') \<and> map length items' = map length cron_blank"
proof (rule cron_entry_memory_safe)
  show "cron_buffer ''7-/ 1- */99 ,1-/0 9--3'' = Inr (Some (''7-/ 1- */99 ,1-/0 9--3'' @ [NUL]))"
    by (rule cron_buffer_ok) (simp_all add: plain_def isdigit_def)
  show "cron_fields (''7-/ 1- */99 ,1-/0 9--3'' @ [NUL]) = Inr [''7-/'', ''1-'', ''*/99'', '',1-/0'', ''9--3'']"
    using cron_fields_ok [of "''7-/''" "''1-''" "''*/99''" "'',1-/0''" "''9--3''" "[]"] by (simp add: plain_def isdigit_def)
  show "list_all2 (\<lambda>f (first, lst, cnt). \<forall>tok \<in> set (field_elements f). \<not> overruns first cnt tok)
    [''7-/'', ''1-'', ''*/99'', '',1-/0'', ''9--3''] field_bounds"
    by (simp add: field_bounds_def field_elements_def overruns_def strchr_def from_first_def isdigit_def
        atoi_small read_number_def isspace_def digit_val_def INT_MAX_def)
qed simp

text \<open>Finding. A step that is negative as an \<^verbatim>\<open>int\<close> makes the loop run down out of the array, and one near
  the largest \<^verbatim>\<open>int\<close> makes \<^verbatim>\<open>i += step\<close> overflow.\<close>

theorem cron_step_unchecked:
  "get_element ''*/4294967295'' (replicate 60 False) 0 59 60 = Inl OutOfBounds"
  "get_element ''*/2147483647'' (replicate 32 False) 1 31 32 = Inl IntOverflow"
  "get_element ''4294967295-'' (replicate 60 False) 0 59 60 = Inl OutOfBounds"
  by code_simp+

text \<open>Finding. A plain number and the end of a range without a begin are not checked against the
  size of the field: too large a number writes outside the flags.\<close>

lemma set_loop_out:
  assumes "0 \<le> b" "b \<le> int (length item)" "int (length item) \<le> e" "int (length item) < INT_MAX"
  shows "set_loop b e 1 item = Inl OutOfBounds"
  using assms
proof (induction "nat (int (length item) - b)" arbitrary: b item)
  case 0
  then show ?case by (simp add: set_loop.simps [of b] set_flag_def)
next
  case (Suc n)
  then have "set_loop (b + 1) e 1 (item[nat b := True]) = Inl OutOfBounds"
    by (intro Suc.hyps) auto
  then show ?case using Suc by (simp add: set_loop.simps [of b e] set_flag_def)
qed

theorem cron_number_unchecked:
  assumes "0 \<le> first" "first < int (length item)" "length item \<le> n" "int n \<le> INT_MAX" "int (length item) < INT_MAX"
  shows "get_element (print_term (Item n)) item first lst cnt = Inl OutOfBounds
    \<and> get_element (print_term (UpTo n)) item first lst cnt = Inl OutOfBounds"
proof -
  obtain c cs where d: "dec n = c # cs" by (cases "dec n") auto
  have c: "isdigit c" using dec_hd [of n] d by simp
  have "set_flag (atoi (c # cs)) item = Inl OutOfBounds"
    using assms(3,4) atoi_dec' [of n] d by (simp add: set_flag_def)
  then have "get_element (print_term (Item n)) item first lst cnt = Inl OutOfBounds"
    using d dec_no [of n] c isdigit_not [of c] by (simp add: get_element_def strchr_def get_list_by_item_def)
  moreover have "set_range first (int n) 1 item = Inl OutOfBounds"
    using set_loop_out [of first item "int n"] assms by (simp add: set_range_def)
  then have "get_element (print_term (UpTo n)) item first lst cnt = Inl OutOfBounds"
    using atoi_dec' [OF assms(4)] by (simp add: get_element_def strchr_def get_list_by_range_def)
  ultimately show ?thesis by blast
qed

theorem cron_number_unchecked_witness:
  "get_element (print_term (Item 60)) (replicate 60 False) 0 59 60 = Inl OutOfBounds"
  using cron_number_unchecked [of 0 "replicate 60 False" 60 59 60] by (simp add: INT_MAX_def)

text \<open>Finding. The special entries (\<^verbatim>\<open>@daily\<close> and the others) never match: the copy they are compared
  in was zeroed before, and the search for the next field then runs off the end of it.\<close>

lemma skip_to_space_zeros: "p \<le> n \<Longrightarrow> skip_to_space (replicate n NUL) p = Inl OutOfBounds"
proof (induction "n - p" arbitrary: p)
  case 0
  then show ?case by (simp add: skip_to_space.simps)
next
  case (Suc k)
  then show ?case by (subst skip_to_space.simps) (simp add: isspace_def)
qed

theorem cron_special_overruns:
  assumes "CHR ''@'' \<notin> set nm"
  shows "parse_cron_entry (CHR ''@'' # nm) items = Inl OutOfBounds"
proof -
  have "cron_buffer (CHR ''@'' # nm) = Inr (Some (replicate 10 NUL))"
    using assms by (simp add: cron_buffer_def isspace_def strchr_def)
  moreover have "cron_fields (replicate 10 NUL) = Inl OutOfBounds"
    using skip_to_space_zeros [of 0 10] by (simp add: cron_fields_def advance_field_def)
  ultimately show ?thesis by (simp add: parse_cron_entry_def)
qed

theorem cron_special_overruns_witness: "parse_cron_entry ''@daily'' cron_blank = Inl OutOfBounds"
  using cron_special_overruns [of "''daily''"] by simp

lemma init_max: "tq_max_size (init_nodes n iter q) = tq_max_size q"
  by (induction n arbitrary: iter q) (simp_all add: new_node_def Let_def)

lemma reset_crontab_loop_None:
  assumes "iter \<noteq> null" "tn_timer_id (tq_nodes q iter) \<noteq> tid"
  shows "reset_crontab_loop tid entry iter q = None"
proof (rule ccontr)
  assume "reset_crontab_loop tid entry iter q \<noteq> None"
  then obtain y where y: "reset_crontab_loop tid entry iter q = Some y" by blast
  have "\<not> (iter \<noteq> null \<and> tn_timer_id (tq_nodes q iter) \<noteq> tid)"
  proof (rule reset_crontab_loop.raw_induct [where P = "\<lambda>t e i r y. \<not> (i \<noteq> null \<and> tn_timer_id (tq_nodes r i) \<noteq> t)", OF _ y],
      goal_cases)
    case (1 rec t e i r y')
    show ?case
    proof
      assume "i \<noteq> null \<and> tn_timer_id (tq_nodes r i) \<noteq> t"
      then have "rec t e i r = Some y'" and n: "i \<noteq> null \<and> tn_timer_id (tq_nodes r i) \<noteq> t"
        using 1(2) by (auto split: if_splits)
      from 1(1) [OF this(1)] n show False by blast
    qed
  qed
  with assms show False by blast
qed

text \<open>Finding. \<^verbatim>\<open>reset_crontab\<close> never returns unless the timer sought is the first of the list: the
  loop over the crontab timers does not advance.\<close>

theorem reset_crontab_diverges:
  assumes "crontab_timers q \<noteq> null" "tn_timer_id (tq_nodes q (crontab_timers q)) \<noteq> tid" "0 \<le> tid" "tid < tq_max_size q"
  shows "reset_crontab tid entry q = None"
  using assms reset_crontab_loop_None [of "crontab_timers q" q tid entry] by (simp add: reset_crontab_def)

theorem reset_crontab_diverges_witness:
  "reset_crontab 1 ''* * * * *'' ((tq_new 10 4)\<lparr>crontab_timers := 1\<rparr>) = None"
proof (rule reset_crontab_diverges)
  show "tn_timer_id (tq_nodes ((tq_new 10 4)\<lparr>crontab_timers := 1\<rparr>) (crontab_timers ((tq_new 10 4)\<lparr>crontab_timers := 1\<rparr>))) \<noteq> 1"
    by code_simp
qed (simp_all add: tq_new_def tq_init_def Let_def init_max)

text \<open>Finding. Cancelling the first crontab timer puts its node on the free list but leaves it at the
  head of the list of crontab timers: the queue keeps a pointer to a node that the next
  registration reuses.\<close>

theorem cancel_cron_head_dangles:
  assumes "crontab_timers q = a" "a \<noteq> null" "id_of q a = tid" "0 \<le> tid" "tid < int (timer_ids_size q)"
    "tn_type (tq_nodes q a) = CRONTAB_TIMER"
  shows "\<exists>arg q'. cancel close tid True q = Some (0, arg, q') \<and> crontab_timers q' = a \<and> free_crontab_timers q' = a"
proof -
  have "find_cron tid a q = Some a" using assms(2,3) by (subst find_cron.simps) (simp add: id_of_def)
  then show ?thesis
    using assms by (simp add: cancel_def call_close_def cron_unlink_def free_node_def release_timerid_def
        release_cron_entry_def id_of_def Let_def GENERAL_TIMER_def CRONTAB_TIMER_def)
qed

theorem cancel_cron_head_dangles_witness:
  "\<exists>arg q'. cancel (\<lambda>_ q. q) 0 True (upd_node 1 (tn_set 0 5 0 tv_zero tv_zero \<circ> tn_type_update (\<lambda>_. CRONTAB_TIMER))
       ((tq_new 10 4)\<lparr>crontab_timers := 1\<rparr>)) = Some (0, arg, q') \<and> crontab_timers q' = 1 \<and> free_crontab_timers q' = 1"
proof (rule cancel_cron_head_dangles)
  have "timer_ids (init_nodes n iter q) = timer_ids q" for n iter q
    by (induction n arbitrary: iter q) (simp_all add: new_node_def Let_def)
  then show "0 < int (timer_ids_size (upd_node 1 (tn_set 0 5 0 tv_zero tv_zero \<circ> tn_type_update (\<lambda>_. CRONTAB_TIMER))
       ((tq_new 10 4)\<lparr>crontab_timers := 1\<rparr>)))" by (simp add: tq_new_def tq_init_def Let_def)
qed (simp_all add: id_of_def tn_set_def)

end
