(* ===== verification/CacheDeque.thy ===== *)
theory CacheDeque
  imports FifoQueue "HOL-Library.Word"
begin

text \<open>
  \<^verbatim>\<open>ndk/cache_object.h\<close> and \<^verbatim>\<open>ndk/cache_deque.h\<close>: reference-counted cache objects of three
  replacement policies, and the deque that keeps them in the order of their last use. Items of
  the deque are doubly linked; released items go to a free list through the same link. Both
  kinds of objects live in stores indexed by address.
\<close>

section \<open>Cache objects\<close>

datatype cache_kind = LRU | LFU | FIFO

record cache_object =
  co_kind :: cache_kind
  co_refcount :: int
  co_size :: "64 word"
  co_data :: addr
  co_proxy :: addr
  co_observer :: addr
  hit_count :: int

definition cobj_new :: "cache_kind \<Rightarrow> addr \<Rightarrow> 64 word \<Rightarrow> addr \<Rightarrow> cache_object" where
  "cobj_new k p s ob = \<lparr>co_kind = k, co_refcount = 0, co_size = s, co_data = p, co_proxy = null,
     co_observer = ob, hit_count = 0\<rparr>"

definition cobj_priority :: "cache_object \<Rightarrow> int" where
  "cobj_priority c = (case co_kind c of LRU \<Rightarrow> 0 | LFU \<Rightarrow> hit_count c | FIFO \<Rightarrow> 0)"

definition acquire_i :: "cache_object \<Rightarrow> cache_object" where
  "acquire_i c = (case co_kind c of LRU \<Rightarrow> c | LFU \<Rightarrow> c\<lparr>hit_count := hit_count c + 1\<rparr> | FIFO \<Rightarrow> c)"

definition acquire :: "cache_object \<Rightarrow> cache_object" where
  "acquire c = acquire_i (c\<lparr>co_refcount := co_refcount c + 1\<rparr>)"

lemma acquire_sel [simp]:
  "co_proxy (acquire c) = co_proxy c" "co_size (acquire c) = co_size c" "co_observer (acquire c) = co_observer c"
  "co_data (acquire c) = co_data c" "co_kind (acquire c) = co_kind c" "co_refcount (acquire c) = co_refcount c + 1"
  by (simp_all add: acquire_def acquire_i_def split: cache_kind.split)

definition cobj_release :: "cache_object \<Rightarrow> cache_object" where
  "cobj_release c = c\<lparr>co_refcount := co_refcount c - 1\<rparr>"

text \<open>Whether \<^verbatim>\<open>cache_object::drop\<close> calls the observer.\<close>

definition cobj_drop :: "cache_object \<Rightarrow> bool" where
  "cobj_drop c \<longleftrightarrow> co_observer c \<noteq> null \<and> co_refcount c = 0"

section \<open>The deque\<close>

record 'k cd_item =
  obj_id :: 'k
  cd_cobj :: addr
  cd_prev :: addr
  cd_next :: addr

record 'k cache_deque =
  cd_size :: int
  free_queue :: addr
  deque_head :: addr
  deque_tail :: addr
  cd_items :: "addr \<Rightarrow> 'k cd_item"
  cd_fresh :: addr
  cobjs :: "addr \<Rightarrow> cache_object"

definition cd_new :: "(addr \<Rightarrow> cache_object) \<Rightarrow> (addr \<Rightarrow> 'k cd_item) \<Rightarrow> 'k cache_deque" where
  "cd_new objs items = \<lparr>cd_size = 0, free_queue = null, deque_head = null, deque_tail = null,
     cd_items = items, cd_fresh = 1, cobjs = objs\<rparr>"

definition cd_is_empty :: "'k cache_deque \<Rightarrow> bool" where
  "cd_is_empty d \<longleftrightarrow> cd_size d = 0"

definition item_prev :: "addr \<Rightarrow> addr \<Rightarrow> 'k cache_deque \<Rightarrow> 'k cache_deque" where
  "item_prev a b d = d\<lparr>cd_items := (cd_items d)(a := (cd_items d a)\<lparr>cd_prev := b\<rparr>)\<rparr>"

definition item_next :: "addr \<Rightarrow> addr \<Rightarrow> 'k cache_deque \<Rightarrow> 'k cache_deque" where
  "item_next a b d = d\<lparr>cd_items := (cd_items d)(a := (cd_items d a)\<lparr>cd_next := b\<rparr>)\<rparr>"

text \<open>The constructor of an item and \<^verbatim>\<open>reset\<close> set the same fields and make the item the proxy of its
  object.\<close>

definition item_reset :: "addr \<Rightarrow> 'k \<Rightarrow> addr \<Rightarrow> 'k cache_deque \<Rightarrow> 'k cache_deque" where
  "item_reset a key cobj d =
     d\<lparr>cd_items := (cd_items d)(a := \<lparr>obj_id = key, cd_cobj = cobj, cd_prev = null, cd_next = null\<rparr>),
       cobjs := (cobjs d)(cobj := (cobjs d cobj)\<lparr>co_proxy := a\<rparr>)\<rparr>"

definition alloc_item :: "'k \<Rightarrow> addr \<Rightarrow> 'k cache_deque \<Rightarrow> addr \<times> 'k cache_deque" where
  "alloc_item key cobj d =
     (if free_queue d = null
      then (cd_fresh d, item_reset (cd_fresh d) key cobj (d\<lparr>cd_fresh := Suc (cd_fresh d)\<rparr>))
      else (let item = free_queue d
            in (item, item_reset item key cobj (d\<lparr>free_queue := cd_next (cd_items d item)\<rparr>))))"

definition release_item :: "addr \<Rightarrow> 'k cache_deque \<Rightarrow> 'k cache_deque" where
  "release_item item d =
     (if item = null then d else (item_next item (free_queue d) d)\<lparr>free_queue := item\<rparr>)"

definition insert_i :: "addr \<Rightarrow> 'k cache_deque \<Rightarrow> 'k cache_deque" where
  "insert_i item d =
     (let d1 = item_prev item (deque_tail d) d;
          d2 = (if deque_tail d1 \<noteq> null then item_next (deque_tail d1) item d1 else d1);
          d3 = d2\<lparr>deque_tail := item\<rparr>
      in if deque_head d3 = null then d3\<lparr>deque_head := deque_tail d3\<rparr> else d3)"

definition remove_i :: "addr \<Rightarrow> 'k cache_deque \<Rightarrow> 'k cache_deque" where
  "remove_i item d =
     (let n = cd_next (cd_items d item); p = cd_prev (cd_items d item) in
      if n \<noteq> null \<and> p \<noteq> null then item_prev n p (item_next p n d)
      else if n \<noteq> null then item_prev n null (d\<lparr>deque_head := n\<rparr>)
      else if p \<noteq> null then item_next p null (d\<lparr>deque_tail := p\<rparr>)
      else d\<lparr>deque_head := null, deque_tail := null\<rparr>)"

definition cd_insert :: "'k \<Rightarrow> addr \<Rightarrow> 'k cache_deque \<Rightarrow> fault + (int \<times> 'k cache_deque)" where
  "cd_insert key cobj d =
     (if cobj = null then Inl NullDeref
      else (let (item, d1) = alloc_item key cobj d;
                d2 = insert_i item d1
            in Inr (0, d2\<lparr>cd_size := cd_size d2 + 1\<rparr>)))"

text \<open>The removal of the oldest item: -1 when there is none, else its key and object.\<close>

definition cd_remove :: "'k cache_deque \<Rightarrow> ('k \<times> addr) option \<times> 'k cache_deque" where
  "cd_remove d =
     (let item = deque_head d in
      if item = null then (None, d)
      else (let r = (obj_id (cd_items d item), cd_cobj (cd_items d item));
                d1 = remove_i item d
            in (Some r, release_item item (d1\<lparr>cd_size := cd_size d1 - 1\<rparr>))))"

definition cd_adjust :: "addr \<Rightarrow> 'k cache_deque \<Rightarrow> int \<times> 'k cache_deque" where
  "cd_adjust item d =
     (if item = null then (-1, d)
      else (let d1 = remove_i item d; c = cd_cobj (cd_items d1 item);
                d2 = d1\<lparr>cobjs := (cobjs d1)(c := acquire (cobjs d1 c))\<rparr>
            in (0, insert_i item (item_next item null d2))))"

text \<open>The destructor. The first loop reads the link of an item after \<^verbatim>\<open>release_item\<close> has overwritten
  it. The result lists the deleted items.\<close>

partial_function (option) release_all :: "addr \<Rightarrow> 'k cache_deque \<Rightarrow> 'k cache_deque option" where
  "release_all itor d =
     (if itor = null then Some d
      else (let d1 = release_item itor d in release_all (cd_next (cd_items d1 itor)) d1))"

partial_function (option) delete_items :: "addr \<Rightarrow> 'k cache_deque \<Rightarrow> addr list option" where
  "delete_items itor d =
     (if itor = null then Some []
      else Option.bind (delete_items (cd_next (cd_items d itor)) d) (\<lambda>as. Some (itor # as)))"

definition cd_destroy :: "'k cache_deque \<Rightarrow> addr list option" where
  "cd_destroy d =
     (case release_all (deque_head d) d of
        None \<Rightarrow> None
      | Some d1 \<Rightarrow> delete_items (free_queue d1) (d1\<lparr>deque_head := null, deque_tail := null\<rparr>))"

section \<open>Invariant\<close>

definition inx :: "'k cache_deque \<Rightarrow> addr \<Rightarrow> addr" where
  "inx d = (\<lambda>a. cd_next (cd_items d a))"

definition ipv :: "'k cache_deque \<Rightarrow> addr \<Rightarrow> addr" where
  "ipv d = (\<lambda>a. cd_prev (cd_items d a))"

lemma item_links [link_simps, simp]:
  "inx (item_next a b d) = (inx d)(a := b)" "ipv (item_next a b d) = ipv d"
  "ipv (item_prev a b d) = (ipv d)(a := b)" "inx (item_prev a b d) = inx d"
  "inx (d\<lparr>free_queue := x\<rparr>) = inx d" "ipv (d\<lparr>free_queue := x\<rparr>) = ipv d"
  "inx (d\<lparr>deque_head := x\<rparr>) = inx d" "ipv (d\<lparr>deque_head := x\<rparr>) = ipv d"
  "inx (d\<lparr>deque_tail := x\<rparr>) = inx d" "ipv (d\<lparr>deque_tail := x\<rparr>) = ipv d"
  "inx (d\<lparr>cd_size := n\<rparr>) = inx d" "ipv (d\<lparr>cd_size := n\<rparr>) = ipv d"
  "inx (d\<lparr>cobjs := os\<rparr>) = inx d" "ipv (d\<lparr>cobjs := os\<rparr>) = ipv d"
  "inx (d\<lparr>cd_fresh := x\<rparr>) = inx d" "ipv (d\<lparr>cd_fresh := x\<rparr>) = ipv d"
  by (auto simp: inx_def ipv_def item_next_def item_prev_def)

lemma item_sel [simp]:
  "cd_size (item_next a b d) = cd_size d" "free_queue (item_next a b d) = free_queue d"
  "deque_head (item_next a b d) = deque_head d" "deque_tail (item_next a b d) = deque_tail d"
  "cd_fresh (item_next a b d) = cd_fresh d" "cobjs (item_next a b d) = cobjs d"
  "cd_size (item_prev a b d) = cd_size d" "free_queue (item_prev a b d) = free_queue d"
  "deque_head (item_prev a b d) = deque_head d" "deque_tail (item_prev a b d) = deque_tail d"
  "cd_fresh (item_prev a b d) = cd_fresh d" "cobjs (item_prev a b d) = cobjs d"
  "obj_id (cd_items (item_next a b d) x) = obj_id (cd_items d x)"
  "cd_cobj (cd_items (item_next a b d) x) = cd_cobj (cd_items d x)"
  "obj_id (cd_items (item_prev a b d) x) = obj_id (cd_items d x)"
  "cd_cobj (cd_items (item_prev a b d) x) = cd_cobj (cd_items d x)"
  by (simp_all add: item_next_def item_prev_def)

text \<open>The items of a deque in order, and what they hold.\<close>

definition cd_list :: "'k cache_deque \<Rightarrow> addr list" where
  "cd_list d = walk (nat (cd_size d)) (inx d) (deque_head d)"

definition entry_of :: "'k cache_deque \<Rightarrow> addr \<Rightarrow> 'k \<times> addr" where
  "entry_of d a = (obj_id (cd_items d a), cd_cobj (cd_items d a))"

definition cd_content :: "'k cache_deque \<Rightarrow> ('k \<times> addr) list" where
  "cd_content d = map (entry_of d) (cd_list d)"

definition cd_rep :: "'k cache_deque \<Rightarrow> addr list \<Rightarrow> addr list \<Rightarrow> bool" where
  "cd_rep d xs fs \<longleftrightarrow> dll (inx d) (ipv d) (deque_head d) (deque_tail d) xs
     \<and> chain (inx d) (free_queue d) fs null \<and> set xs \<inter> set fs = {}
     \<and> cd_size d = int (length xs) \<and> (\<forall>a \<in> set xs \<union> set fs. a < cd_fresh d) \<and> 0 < cd_fresh d
     \<and> (\<forall>a \<in> set xs. cd_cobj (cd_items d a) \<noteq> null \<and> co_proxy (cobjs d (cd_cobj (cd_items d a))) = a)"

definition cd_ok :: "'k cache_deque \<Rightarrow> bool" where
  "cd_ok d \<longleftrightarrow> (\<exists>fs. cd_rep d (cd_list d) fs)"

lemma cd_rep_list: "cd_rep d xs fs \<Longrightarrow> cd_list d = xs"
  using walk_chain by (fastforce simp: cd_rep_def cd_list_def dll_def)

lemma cd_rep_ok: "cd_rep d xs fs \<Longrightarrow> cd_ok d"
  using cd_rep_list by (auto simp: cd_ok_def)

lemma entry_sel [simp]:
  "entry_of (item_next a b d) = entry_of d" "entry_of (item_prev a b d) = entry_of d"
  "entry_of (d\<lparr>free_queue := x\<rparr>) = entry_of d" "entry_of (d\<lparr>deque_head := x\<rparr>) = entry_of d"
  "entry_of (d\<lparr>deque_tail := x\<rparr>) = entry_of d" "entry_of (d\<lparr>cd_size := n\<rparr>) = entry_of d"
  "entry_of (d\<lparr>cobjs := os\<rparr>) = entry_of d" "entry_of (d\<lparr>cd_fresh := x\<rparr>) = entry_of d"
  by (auto simp: entry_of_def fun_eq_iff)

section \<open>Linking and unlinking\<close>

lemma insert_i_sel [simp]:
  "cd_size (insert_i a d) = cd_size d" "free_queue (insert_i a d) = free_queue d"
  "cd_fresh (insert_i a d) = cd_fresh d" "cobjs (insert_i a d) = cobjs d"
  "entry_of (insert_i a d) = entry_of d"
  by (simp_all add: insert_i_def Let_def)

lemma remove_i_sel [simp]:
  "cd_size (remove_i a d) = cd_size d" "free_queue (remove_i a d) = free_queue d"
  "cd_fresh (remove_i a d) = cd_fresh d" "cobjs (remove_i a d) = cobjs d"
  "entry_of (remove_i a d) = entry_of d"
  by (simp_all add: remove_i_def Let_def)

abbreviation (input) cd_dll :: "'k cache_deque \<Rightarrow> addr list \<Rightarrow> bool" where
  "cd_dll d xs \<equiv> dll (inx d) (ipv d) (deque_head d) (deque_tail d) xs"

lemma insert_i_dll:
  assumes "cd_dll d xs" "inx d a = null" "a \<noteq> null" "a \<notin> set xs"
  shows "cd_dll (insert_i a d) (xs @ [a])"
    and "x \<notin> set xs \<Longrightarrow> inx (insert_i a d) x = inx d x"
proof -
  have single: "dll (inx d) ((ipv d)(a := null)) a a [a]" using assms(2,3) by (simp add: dll_def)
  have ends: "deque_head d = null \<longleftrightarrow> xs = []" "deque_tail d = null \<longleftrightarrow> xs = []"
    using dll_empty_iff [OF assms(1)] by auto
  have "cd_dll (insert_i a d) (xs @ [a]) \<and> (x \<notin> set xs \<longrightarrow> inx (insert_i a d) x = inx d x)"
  proof (cases xs rule: rev_cases)
    case Nil
    then show ?thesis using assms ends by (simp add: insert_i_def Let_def dll_def)
  next
    case (snoc ys b)
    have b: "deque_tail d = b" using dll_tail assms(1) snoc by blast
    have "dll (inx d) ((ipv d)(a := null)) (deque_head d) (deque_tail d) (ys @ [b])"
      using assms(1,4) snoc by simp
    from dll_join [OF this single] have "dll ((inx d)(b := a)) ((ipv d)(a := b)) (deque_head d) a (ys @ [b, a])"
      using assms(4) snoc by simp
    then show ?thesis using b ends snoc by (simp add: insert_i_def Let_def)
  qed
  then show "cd_dll (insert_i a d) (xs @ [a])" "x \<notin> set xs \<Longrightarrow> inx (insert_i a d) x = inx d x" by blast+
qed

lemma remove_i_dll:
  assumes "cd_dll d (xs @ a # ys)"
  shows "cd_dll (remove_i a d) (xs @ ys)"
    and "x \<notin> set (xs @ ys) \<Longrightarrow> inx (remove_i a d) x = inx d x"
proof -
  have n: "cd_next (cd_items d a) = (if ys = [] then null else hd ys)"
    and p: "cd_prev (cd_items d a) = (if xs = [] then null else last xs)"
    using dll_next [OF assms] dll_prev [OF assms] by (simp_all add: inx_def ipv_def)
  have nn: "null \<notin> set (xs @ a # ys)" by (rule dll_not_null [OF assms])
  have "cd_dll (remove_i a d) (xs @ ys) \<and> (x \<notin> set (xs @ ys) \<longrightarrow> inx (remove_i a d) x = inx d x)"
  proof (cases xs rule: rev_cases)
    case Nil
    show ?thesis
    proof (cases ys)
      case (Cons b zs)
      then show ?thesis using assms n p nn Nil dll_unlink_head [of "inx d" "ipv d" "deque_head d" "deque_tail d" a b zs]
        by (simp add: remove_i_def Let_def)
    qed (use assms n p Nil in \<open>simp add: remove_i_def Let_def\<close>)
  next
    case (snoc ws c)
    show ?thesis
    proof (cases ys)
      case Nil
      then show ?thesis using assms n p nn snoc dll_unlink_tail [of "inx d" "ipv d" "deque_head d" "deque_tail d" ws c a]
        by (simp add: remove_i_def Let_def)
    next
      case (Cons b zs)
      then show ?thesis using assms n p nn snoc dll_unlink [of "inx d" "ipv d" "deque_head d" "deque_tail d" ws c a b zs]
        by (simp add: remove_i_def Let_def)
    qed
  qed
  then show "cd_dll (remove_i a d) (xs @ ys)" "x \<notin> set (xs @ ys) \<Longrightarrow> inx (remove_i a d) x = inx d x" by blast+
qed

section \<open>The operations on a well-formed deque\<close>

lemma item_reset_sel [simp]:
  "cd_size (item_reset a k c d) = cd_size d" "free_queue (item_reset a k c d) = free_queue d"
  "deque_head (item_reset a k c d) = deque_head d" "deque_tail (item_reset a k c d) = deque_tail d"
  "cd_fresh (item_reset a k c d) = cd_fresh d"
  "cobjs (item_reset a k c d) = (cobjs d)(c := (cobjs d c)\<lparr>co_proxy := a\<rparr>)"
  "inx (item_reset a k c d) = (inx d)(a := null)" "ipv (item_reset a k c d) = (ipv d)(a := null)"
  "entry_of (item_reset a k c d) = (entry_of d)(a := (k, c))"
  by (auto simp: item_reset_def inx_def ipv_def entry_of_def)

lemma next_inx: "cd_next (cd_items d a) = inx d a"
  by (simp add: inx_def)

lemma cd_cobj_entry: "cd_cobj (cd_items d a) = snd (entry_of d a)"
  by (simp add: entry_of_def)

lemma cd_rep_entry:
  "cd_rep d xs fs \<longleftrightarrow> cd_dll d xs
     \<and> chain (inx d) (free_queue d) fs null \<and> set xs \<inter> set fs = {}
     \<and> cd_size d = int (length xs) \<and> (\<forall>a \<in> set xs \<union> set fs. a < cd_fresh d) \<and> 0 < cd_fresh d
     \<and> (\<forall>a \<in> set xs. snd (entry_of d a) \<noteq> null \<and> co_proxy (cobjs d (snd (entry_of d a))) = a)"
  by (simp add: cd_rep_def cd_cobj_entry)

text \<open>An item that is not linked, prepared for a key and an object.\<close>

lemma alloc_item_ok:
  assumes "cd_rep d xs fs" "alloc_item k c d = (a, d1)"
  obtains fs' where "a \<noteq> null" "a \<notin> set xs" "a \<notin> set fs'" "set fs' \<subseteq> set fs" "a < cd_fresh d1" "cd_fresh d \<le> cd_fresh d1"
    "chain (inx d) (free_queue d1) fs' null" "inx d1 = (inx d)(a := null)" "ipv d1 = (ipv d)(a := null)"
    "deque_head d1 = deque_head d" "deque_tail d1 = deque_tail d" "cd_size d1 = cd_size d"
    "entry_of d1 = (entry_of d)(a := (k, c))" "cobjs d1 = (cobjs d)(c := (cobjs d c)\<lparr>co_proxy := a\<rparr>)"
proof (cases "free_queue d = null")
  case True
  have "fs = []" using assms(1) True by (simp add: cd_rep_def)
  moreover have "cd_fresh d \<notin> set xs" "0 < cd_fresh d" using assms(1) by (auto simp: cd_rep_def)
  ultimately show ?thesis using that [of "[]"] assms(2) True by (auto simp: alloc_item_def)
next
  case False
  then obtain fs' where fs: "fs = free_queue d # fs'" "chain (inx d) (inx d (free_queue d)) fs' null"
    using assms(1) by (cases fs) (auto simp: cd_rep_def)
  have "distinct fs" using assms(1) by (auto simp: cd_rep_def dest: chain_distinct)
  moreover have "free_queue d \<notin> set xs" "free_queue d < cd_fresh d" using assms(1) fs by (auto simp: cd_rep_def)
  moreover have "set fs' \<subseteq> insert (free_queue d) (set fs')" by blast
  ultimately show ?thesis
    using that [of fs'] assms(2) False fs by (auto simp: alloc_item_def Let_def next_inx)
qed

lemma cd_insert_ok:
  assumes rep: "cd_rep d xs fs" and c: "c \<noteq> null" "c \<notin> snd ` entry_of d ` set xs"
  obtains a fs' d' where "cd_insert k c d = Inr (0, d')" "cd_rep d' (xs @ [a]) fs'" "a \<notin> set xs"
    "entry_of d' = (entry_of d)(a := (k, c))" "cobjs d' = (cobjs d)(c := (cobjs d c)\<lparr>co_proxy := a\<rparr>)"
proof -
  obtain a d1 where al: "alloc_item k c d = (a, d1)" by fastforce
  obtain fs' where a: "a \<noteq> null" "a \<notin> set xs" "a \<notin> set fs'" "set fs' \<subseteq> set fs" "a < cd_fresh d1" "cd_fresh d \<le> cd_fresh d1"
    "chain (inx d) (free_queue d1) fs' null" "inx d1 = (inx d)(a := null)" "ipv d1 = (ipv d)(a := null)"
    "deque_head d1 = deque_head d" "deque_tail d1 = deque_tail d" "cd_size d1 = cd_size d"
    "entry_of d1 = (entry_of d)(a := (k, c))" "cobjs d1 = (cobjs d)(c := (cobjs d c)\<lparr>co_proxy := a\<rparr>)"
    using alloc_item_ok [OF rep al] by blast
  let ?d = "insert_i a d1"
  have l: "cd_dll d1 xs" using rep a by (simp add: cd_rep_def)
  note ins = insert_i_dll [OF l _ a(1,2)]
  have dl: "cd_dll ?d (xs @ [a])" using ins(1) a(8) by simp
  have disj: "set xs \<inter> set fs = {}" using rep by (simp add: cd_rep_def)
  then have "x \<notin> set xs \<and> x \<noteq> a" if "x \<in> set fs'" for x using a(3,4) that by blast
  then have "chain (inx ?d) (free_queue d1) fs' null \<longleftrightarrow> chain (inx d) (free_queue d1) fs' null"
    using a(8) ins(2) by (intro chain_cong) simp
  moreover have "\<forall>x \<in> set xs \<union> set fs. x < cd_fresh d" using rep unfolding cd_rep_def by blast
  then have "\<forall>x \<in> set xs \<union> set fs'. x < cd_fresh d1" using a(4,6) by (meson Un_iff in_mono order_less_le_trans)
  moreover have "set (xs @ [a]) \<inter> set fs' = {}" using disj a(3,4) by auto
  moreover have "snd (entry_of ?d x) \<noteq> null \<and> co_proxy (cobjs ?d (snd (entry_of ?d x))) = x" if "x \<in> set (xs @ [a])" for x
  proof (cases "x = a")
    case True
    then show ?thesis using a(13,14) c(1) by simp
  next
    case False
    then have "x \<in> set xs" using that by simp
    then have "c \<noteq> snd (entry_of d x)" "snd (entry_of d x) \<noteq> null \<and> co_proxy (cobjs d (snd (entry_of d x))) = x"
      using c(2) rep unfolding cd_rep_entry by blast+
    then show ?thesis using False a(13,14) by simp
  qed
  ultimately have "cd_rep (?d\<lparr>cd_size := cd_size ?d + 1\<rparr>) (xs @ [a]) fs'"
    using rep dl a(5,7,12) unfolding cd_rep_entry by simp
  moreover have "cd_insert k c d = Inr (0, ?d\<lparr>cd_size := cd_size ?d + 1\<rparr>)"
    using c al by (simp add: cd_insert_def)
  ultimately show ?thesis using that a(2,13,14) by simp
qed

lemma release_item_sel [simp]:
  "cd_size (release_item a d) = cd_size d" "deque_head (release_item a d) = deque_head d"
  "deque_tail (release_item a d) = deque_tail d" "cd_fresh (release_item a d) = cd_fresh d"
  "cobjs (release_item a d) = cobjs d" "entry_of (release_item a d) = entry_of d" "ipv (release_item a d) = ipv d"
  by (simp_all add: release_item_def)

lemma cd_remove_empty: "cd_rep d [] fs \<Longrightarrow> cd_remove d = (None, d)"
  by (simp add: cd_rep_def cd_remove_def)

lemma cd_remove_ok:
  assumes rep: "cd_rep d (a # xs) fs"
  obtains d' where "cd_remove d = (Some (entry_of d a), d')" "cd_rep d' xs (a # fs)"
    "entry_of d' = entry_of d" "cobjs d' = cobjs d"
proof -
  have l: "cd_dll d ([] @ a # xs)" and h: "deque_head d = a" "a \<noteq> null"
    using rep by (auto simp: cd_rep_def dll_def)
  let ?r = "(remove_i a d)\<lparr>cd_size := cd_size d - 1\<rparr>" and ?d = "release_item a ((remove_i a d)\<lparr>cd_size := cd_size d - 1\<rparr>)"
  note rem = remove_i_dll [OF l]
  have dis: "a \<notin> set xs" "set (a # xs) \<inter> set fs = {}" using dll_distinct [OF l] rep by (auto simp: cd_rep_def)
  have i: "inx ?d = (inx (remove_i a d))(a := free_queue d)" "free_queue ?d = a" using h by (simp_all add: release_item_def)
  have "chain (inx (remove_i a d)) (free_queue d) fs null \<longleftrightarrow> chain (inx d) (free_queue d) fs null"
    using dis rem(2) by (intro chain_cong) auto
  then have "chain (inx ?d) (free_queue ?d) (a # fs) null" using rep dis h i by (simp add: cd_rep_def)
  moreover have "cd_dll ?d xs" using rem(1) dis i by simp
  ultimately have "cd_rep ?d xs (a # fs)" using rep dis by (auto simp: cd_rep_entry)
  moreover have "cd_remove d = (Some (entry_of d a), ?d)" using h by (simp add: cd_remove_def entry_of_def)
  ultimately show ?thesis using that by simp
qed

lemma cd_adjust_ok:
  assumes rep: "cd_rep d (xs @ a # ys) fs"
  obtains d' where "cd_adjust a d = (0, d')" "cd_rep d' (xs @ ys @ [a]) fs" "entry_of d' = entry_of d"
    "cobjs d' = (cobjs d)(snd (entry_of d a) := acquire (cobjs d (snd (entry_of d a))))"
proof -
  have l: "cd_dll d (xs @ a # ys)" using rep by (simp add: cd_rep_def)
  have n: "a \<noteq> null" "a \<notin> set (xs @ ys)" using dll_not_null [OF l] dll_distinct [OF l] by auto
  let ?c = "snd (entry_of d a)"
  let ?e = "item_next a null ((remove_i a d)\<lparr>cobjs := (cobjs d)(?c := acquire (cobjs d ?c))\<rparr>)"
  let ?d = "insert_i a ?e"
  note rem = remove_i_dll [OF l]
  have le: "cd_dll ?e (xs @ ys)" using rem(1) n by simp
  note ins = insert_i_dll [OF le _ n]
  have dis: "set (xs @ a # ys) \<inter> set fs = {}" using rep by (simp add: cd_rep_def)
  then have "x \<notin> set (xs @ ys) \<and> x \<noteq> a" if "x \<in> set fs" for x using that by auto
  then have "chain (inx ?d) (free_queue d) fs null \<longleftrightarrow> chain (inx d) (free_queue d) fs null"
    using rem(2) ins(2) by (intro chain_cong) simp
  moreover have "cd_dll ?d ((xs @ ys) @ [a])" using ins(1) by simp
  moreover have "\<forall>x \<in> set (xs @ ys @ [a]). snd (entry_of ?d x) \<noteq> null \<and> co_proxy (cobjs ?d (snd (entry_of ?d x))) = x"
  proof
    fix x
    assume "x \<in> set (xs @ ys @ [a])"
    then have "snd (entry_of d x) \<noteq> null \<and> co_proxy (cobjs d (snd (entry_of d x))) = x"
      using rep unfolding cd_rep_entry by auto
    then show "snd (entry_of ?d x) \<noteq> null \<and> co_proxy (cobjs ?d (snd (entry_of ?d x))) = x" by auto
  qed
  moreover have "set (xs @ ys @ [a]) \<inter> set fs = {}" "\<forall>x \<in> set (xs @ ys @ [a]) \<union> set fs. x < cd_fresh d"
    using rep by (auto simp: cd_rep_def)
  ultimately have "cd_rep ?d (xs @ ys @ [a]) fs"
    using rep unfolding cd_rep_entry by simp
  moreover have "cd_adjust a d = (0, ?d)"
    using n(1) by (simp add: cd_adjust_def Let_def cd_cobj_entry)
  ultimately show ?thesis using that by simp
qed

lemma cd_new_rep: "cd_rep (cd_new objs items) [] []"
  by (simp add: cd_rep_def cd_new_def)

lemma cd_content_rep: "cd_rep d xs fs \<Longrightarrow> cd_content d = map (entry_of d) xs"
  by (simp add: cd_content_def cd_rep_list)

lemma cd_okE:
  assumes "cd_ok d"
  obtains xs fs where "cd_rep d xs fs" "cd_content d = map (entry_of d) xs"
  using assms that by (auto simp: cd_ok_def cd_content_rep)

text \<open>Each operation in terms of the content: a list of keys and objects, the oldest first.\<close>

lemma cd_insert_content:
  assumes "cd_ok d" "c \<noteq> null" "c \<notin> snd ` set (cd_content d)"
  obtains a d' where "cd_insert k c d = Inr (0, d')" "cd_ok d'" "cd_content d' = cd_content d @ [(k, c)]"
    "cobjs d' = (cobjs d)(c := (cobjs d c)\<lparr>co_proxy := a\<rparr>)"
proof -
  obtain xs fs where r: "cd_rep d xs fs" "cd_content d = map (entry_of d) xs" using cd_okE [OF assms(1)] .
  have c: "c \<notin> snd ` entry_of d ` set xs" using assms(3) r(2) by simp
  obtain a fs' d' where i: "cd_insert k c d = Inr (0, d')" "cd_rep d' (xs @ [a]) fs'" "a \<notin> set xs"
    "entry_of d' = (entry_of d)(a := (k, c))" "cobjs d' = (cobjs d)(c := (cobjs d c)\<lparr>co_proxy := a\<rparr>)"
    by (rule cd_insert_ok [OF r(1) assms(2) c, where k = k])
  then have "cd_content d' = cd_content d @ [(k, c)]" using r(2) by (simp add: cd_content_rep)
  then show ?thesis using that i(1,5) cd_rep_ok [OF i(2)] by blast
qed

lemma cd_remove_content:
  assumes "cd_ok d"
  shows "cd_content d = [] \<Longrightarrow> cd_remove d = (None, d)"
    and "cd_content d = e # es \<Longrightarrow> \<exists>d'. cd_remove d = (Some e, d') \<and> cd_ok d' \<and> cd_content d' = es \<and> cobjs d' = cobjs d"
proof -
  obtain xs fs where r: "cd_rep d xs fs" "cd_content d = map (entry_of d) xs" using cd_okE [OF assms] .
  show "cd_remove d = (None, d)" if "cd_content d = []" using r that cd_remove_empty by simp
  assume "cd_content d = e # es"
  then obtain a ys where xs: "xs = a # ys" "e = entry_of d a" "es = map (entry_of d) ys" using r(2) by auto
  obtain d' where "cd_remove d = (Some (entry_of d a), d')" "cd_rep d' ys (a # fs)"
    "entry_of d' = entry_of d" "cobjs d' = cobjs d"
    using cd_remove_ok r(1) xs(1) by metis
  then show "\<exists>d'. cd_remove d = (Some e, d') \<and> cd_ok d' \<and> cd_content d' = es \<and> cobjs d' = cobjs d"
    using xs(2,3) cd_rep_ok by (auto simp: cd_content_rep)
qed

lemma cd_adjust_content:
  assumes "cd_ok d" "cd_content d = es @ (k, c) # gs"
  shows "\<exists>d'. cd_adjust (co_proxy (cobjs d c)) d = (0, d') \<and> cd_ok d' \<and> cd_content d' = es @ gs @ [(k, c)]
    \<and> cobjs d' = (cobjs d)(c := acquire (cobjs d c))"
proof -
  obtain xs fs where r: "cd_rep d xs fs" "cd_content d = map (entry_of d) xs" using cd_okE [OF assms(1)] .
  obtain ys a zs where xs: "xs = ys @ a # zs" "es = map (entry_of d) ys" "entry_of d a = (k, c)" "gs = map (entry_of d) zs"
    using assms(2) r(2) by (auto simp: map_eq_append_conv)
  have p: "co_proxy (cobjs d c) = a" using r(1) xs(1,3) by (auto simp: cd_rep_entry)
  obtain d' where "cd_adjust a d = (0, d')" "cd_rep d' (ys @ zs @ [a]) fs" "entry_of d' = entry_of d"
    "cobjs d' = (cobjs d)(c := acquire (cobjs d c))"
    using cd_adjust_ok r(1) xs(1,3) by (metis snd_conv)
  then show ?thesis using p xs cd_rep_ok by (auto simp: cd_content_rep)
qed

lemma cd_content_objs: "cd_ok d \<Longrightarrow> null \<notin> snd ` set (cd_content d) \<and> distinct (map snd (cd_content d))"
proof (elim cd_okE)
  fix xs fs
  assume r: "cd_rep d xs fs" "cd_content d = map (entry_of d) xs"
  have "distinct xs" using r(1) dll_distinct by (auto simp: cd_rep_def)
  moreover have "inj_on (\<lambda>a. snd (entry_of d a)) (set xs)"
    using r(1) unfolding cd_rep_entry by (intro inj_onI) metis
  ultimately show "null \<notin> snd ` set (cd_content d) \<and> distinct (map snd (cd_content d))"
    using r by (auto simp: cd_rep_entry distinct_map comp_def)
qed

text \<open>The deque is a first-in first-out queue for its client.\<close>

definition cd_ready :: "'k cache_deque \<Rightarrow> 'k \<times> addr \<Rightarrow> bool" where
  "cd_ready d e \<longleftrightarrow> snd e \<noteq> null \<and> snd e \<notin> snd ` set (cd_content d)"

definition cd_put :: "'k cache_deque \<Rightarrow> 'k \<times> addr \<Rightarrow> 'k cache_deque option" where
  "cd_put d e = (case cd_insert (fst e) (snd e) d of Inl _ \<Rightarrow> None | Inr (r, d') \<Rightarrow> Some d')"

definition cd_get :: "'k cache_deque \<Rightarrow> (('k \<times> addr) \<times> 'k cache_deque) option" where
  "cd_get d = (case cd_remove d of (None, d') \<Rightarrow> None | (Some e, d') \<Rightarrow> Some (e, d'))"

interpretation cdf: fifo_queue cd_ok cd_content cd_ready cd_put cd_get
proof unfold_locales
  fix q :: "'k cache_deque" and e :: "'k \<times> addr"
  assume "cd_ok q" "cd_ready q e"
  then obtain d' where "cd_insert (fst e) (snd e) q = Inr (0, d')" "cd_ok d'" "cd_content d' = cd_content q @ [e]"
    using cd_insert_content [of q "snd e" "fst e"] by (auto simp: cd_ready_def)
  then show "\<exists>q'. cd_put q e = Some q' \<and> cd_ok q' \<and> cd_content q' = cd_content q @ [e]" by (simp add: cd_put_def)
next
  fix q :: "'k cache_deque" and e es
  assume "cd_ok q" "cd_content q = e # es"
  then show "\<exists>q'. cd_get q = Some (e, q') \<and> cd_ok q' \<and> cd_content q' = es"
    using cd_remove_content(2) [of q e es] by (auto simp: cd_get_def)
next
  fix q :: "'k cache_deque"
  assume "cd_ok q" "cd_content q = []"
  then show "cd_get q = None" using cd_remove_content(1) [of q] by (simp add: cd_get_def)
qed

section \<open>The destructor\<close>

lemma release_all_loops:
  "itor \<noteq> null \<Longrightarrow> free_queue d \<noteq> null \<Longrightarrow> itor \<noteq> free_queue d \<Longrightarrow> release_all itor d = None"
proof (rule ccontr)
  assume a: "itor \<noteq> null" "free_queue d \<noteq> null" "itor \<noteq> free_queue d" and "release_all itor d \<noteq> None"
  then obtain y where y: "release_all itor d = Some y" by blast
  have "\<not> (itor \<noteq> null \<and> free_queue d \<noteq> null \<and> itor \<noteq> free_queue d)"
  proof (rule release_all.raw_induct [where P = "\<lambda>i e y. \<not> (i \<noteq> null \<and> free_queue e \<noteq> null \<and> i \<noteq> free_queue e)", OF _ y],
      goal_cases)
    case (1 rec i e z)
    show ?case
    proof
      assume n: "i \<noteq> null \<and> free_queue e \<noteq> null \<and> i \<noteq> free_queue e"
      let ?e = "release_item i e"
      have r: "inx ?e i = free_queue e" "free_queue ?e = i" using n by (simp_all add: release_item_def)
      then have "rec (inx ?e i) ?e = Some z" using 1(2) n by (simp add: Let_def next_inx)
      from 1(1) [OF this] show False using n r by auto
    qed
  qed
  with a show False by blast
qed

lemma delete_items_chain: "chain (inx d) p xs null \<Longrightarrow> delete_items p d = Some xs"
proof (induction xs arbitrary: p)
  case Nil
  then show ?case by (subst delete_items.simps) simp
next
  case (Cons a xs)
  then show ?case by (subst delete_items.simps) (simp add: next_inx)
qed

text \<open>Finding. The destructor of a deque that holds items does not return when an item was
  released before, and otherwise deletes only the first item. An empty deque is destroyed
  completely.\<close>

theorem cd_destroy_leaks:
  assumes "cd_rep d xs fs"
  shows "cd_destroy d = (case xs of [] \<Rightarrow> Some fs | a # _ \<Rightarrow> if fs = [] then Some [a] else None)"
proof (cases xs)
  case Nil
  then have "deque_head d = null" "chain (inx d) (free_queue d) fs null" using assms by (auto simp: cd_rep_def)
  then show ?thesis
    using Nil delete_items_chain [of "d\<lparr>deque_head := null, deque_tail := null\<rparr>" "free_queue d" fs]
    by (simp add: cd_destroy_def release_all.simps [of null])
next
  case (Cons a ys)
  have h: "deque_head d = a" "a \<noteq> null" using assms Cons by (auto simp: cd_rep_def dll_def)
  let ?d = "release_item a d"
  have r: "inx ?d = (inx d)(a := free_queue d)" "free_queue ?d = a" using h by (simp_all add: release_item_def)
  have s: "release_all a d = release_all (free_queue d) ?d"
    using h r by (subst release_all.simps) (simp add: Let_def next_inx)
  show ?thesis
  proof (cases fs)
    case Nil
    then have "free_queue d = null" using assms by (simp add: cd_rep_def)
    then have "release_all a d = Some ?d" using s by (simp add: release_all.simps [of null])
    moreover have "delete_items a (?d\<lparr>deque_head := null, deque_tail := null\<rparr>) = Some [a]"
      using h r \<open>free_queue d = null\<close> by (intro delete_items_chain) simp
    ultimately show ?thesis using Nil Cons h r by (simp add: cd_destroy_def)
  next
    case (Cons f gs)
    then have f: "free_queue d = f" "f \<noteq> null" "a \<noteq> f" using assms \<open>xs = a # ys\<close> by (auto simp: cd_rep_def)
    then have "release_all (free_queue d) ?d = None" using r h by (intro release_all_loops) auto
    then show ?thesis using s h Cons \<open>xs = a # ys\<close> by (simp add: cd_destroy_def)
  qed
qed

definition cd_demo :: "addr \<Rightarrow> nat cache_deque" where
  "cd_demo f = \<lparr>cd_size = 2, free_queue = f, deque_head = 1, deque_tail = 2,
     cd_items = (\<lambda>a. if a = 1 then \<lparr>obj_id = 100, cd_cobj = 11, cd_prev = null, cd_next = 2\<rparr>
                     else \<lparr>obj_id = 200, cd_cobj = 12, cd_prev = (if a = 2 then 1 else null), cd_next = null\<rparr>),
     cd_fresh = 4, cobjs = (\<lambda>c. (cobj_new LRU 5 7 null)\<lparr>co_proxy := c - 10\<rparr>)\<rparr>"

theorem cd_destroy_leaks_witness:
  "cd_destroy (cd_demo null) = Some [1] \<and> cd_destroy (cd_demo 3) = None"
proof -
  have "cd_rep (cd_demo null) [1, 2] []" "cd_rep (cd_demo 3) [1, 2] [3]"
    by (simp_all add: cd_rep_def cd_demo_def dll_def inx_def ipv_def)
  then show ?thesis using cd_destroy_leaks [of "cd_demo null" "[1, 2]" "[]"] cd_destroy_leaks [of "cd_demo 3" "[1, 2]" "[3]"]
    by simp
qed

text \<open>The objects may change in every field but the link back to their item.\<close>

lemma cd_ok_objs:
  assumes "cd_ok d" "\<And>c. c \<in> snd ` set (cd_content d) \<Longrightarrow> co_proxy (os c) = co_proxy (cobjs d c)"
  shows "cd_ok (d\<lparr>cobjs := os\<rparr>)" "cd_content (d\<lparr>cobjs := os\<rparr>) = cd_content d"
proof -
  obtain xs fs where r: "cd_rep d xs fs" "cd_content d = map (entry_of d) xs" using cd_okE [OF assms(1)] .
  then have "cd_rep (d\<lparr>cobjs := os\<rparr>) xs fs" using assms(2) by (auto simp: cd_rep_entry)
  then show "cd_ok (d\<lparr>cobjs := os\<rparr>)" "cd_content (d\<lparr>cobjs := os\<rparr>) = cd_content d"
    using r(2) by (auto simp: cd_content_rep dest: cd_rep_ok)
qed

end
