(* ===== verification/CacheManager.thy ===== *)
theory CacheManager
  imports CacheDeque
begin

text \<open>
  \<^verbatim>\<open>ndk/cache_manager.h\<close> and \<^verbatim>\<open>ndk/cache_manager.cpp\<close>: a cache of reference-counted objects with a
  limit on the bytes it holds. Cached objects are found through a map and ordered by last use
  in a deque; an object that is evicted while a client still holds it waits in the pending list.
  The mutex makes every public operation one step. Addresses of objects are handed out in
  increasing order, and the objects that the factory has destroyed are recorded, so that double
  deletion and use after deletion can be stated.
\<close>

record 'k cache_manager =
  cobj_min_size :: "64 word"
  cobj_max_size :: "64 word"
  water_mark :: "64 word"
  high_water_mark :: "64 word"
  low_water_mark :: "64 word"
  cache_map :: "'k \<rightharpoonup> addr"
  pqueue :: "'k cache_deque"
  pending_list :: "('k \<times> addr) list"
  cobj_factory :: cache_kind
  cm_fresh :: addr
  cm_dropped :: "addr list"
  cm_destroyed :: "addr list"

abbreviation (input) cobj :: "'k cache_manager \<Rightarrow> addr \<Rightarrow> cache_object" where
  "cobj m c \<equiv> cobjs (pqueue m) c"

text \<open>The marks are given in megabytes; the product is computed in \<^verbatim>\<open>int\<close>.\<close>

definition megabytes :: "int \<Rightarrow> 64 word" where
  "megabytes n = word_of_int (sint ((word_of_int n :: 32 word) * 1024 * 1024))"

definition cm_new :: "(addr \<Rightarrow> cache_object) \<Rightarrow> (addr \<Rightarrow> 'k cd_item) \<Rightarrow> int \<Rightarrow> int \<Rightarrow> int \<Rightarrow> int \<Rightarrow> cache_kind option
    \<Rightarrow> 'k cache_manager" where
  "cm_new objs items min_obj_size max_obj_size high low cof =
     \<lparr>cobj_min_size = word_of_int min_obj_size, cobj_max_size = word_of_int max_obj_size, water_mark = 0,
      high_water_mark = megabytes high, low_water_mark = megabytes low,
      cache_map = Map.empty, pqueue = cd_new objs items, pending_list = [],
      cobj_factory = (case cof of None \<Rightarrow> LRU | Some f \<Rightarrow> f),
      cm_fresh = 1, cm_dropped = [], cm_destroyed = []\<rparr>"

definition set_cobj :: "addr \<Rightarrow> cache_object \<Rightarrow> 'k cache_manager \<Rightarrow> 'k cache_manager" where
  "set_cobj c o1 m = m\<lparr>pqueue := (pqueue m)\<lparr>cobjs := (cobjs (pqueue m))(c := o1)\<rparr>\<rparr>"

text \<open>The factory.\<close>

definition factory_create :: "addr \<Rightarrow> 64 word \<Rightarrow> addr \<Rightarrow> 'k cache_manager \<Rightarrow> addr \<times> 'k cache_manager" where
  "factory_create data s ob m =
     (cm_fresh m, set_cobj (cm_fresh m) (cobj_new (cobj_factory m) data s ob) (m\<lparr>cm_fresh := Suc (cm_fresh m)\<rparr>))"

definition factory_destroy :: "addr \<Rightarrow> 'k cache_manager \<Rightarrow> 'k cache_manager" where
  "factory_destroy c m = (if c = null then m else m\<lparr>cm_destroyed := cm_destroyed m @ [c]\<rparr>)"

definition notify_drop :: "addr \<Rightarrow> 'k cache_manager \<Rightarrow> 'k cache_manager" where
  "notify_drop c m = (if cobj_drop (cobj m c) then m\<lparr>cm_dropped := cm_dropped m @ [c]\<rparr> else m)"

text \<open>\<^verbatim>\<open>std::map::insert\<close>: an existing key keeps its value; the elements are ordered by key.\<close>

fun map_insert :: "'k::linorder \<Rightarrow> addr \<Rightarrow> ('k \<times> addr) list \<Rightarrow> ('k \<times> addr) list" where
  "map_insert k c [] = [(k, c)]"
| "map_insert k c ((k', c') # es) =
     (if k < k' then (k, c) # (k', c') # es
      else if k = k' then (k', c') # es
      else (k', c') # map_insert k c es)"

definition drop_i :: "'k::linorder \<Rightarrow> addr \<Rightarrow> 'k cache_manager \<Rightarrow> int \<times> 'k cache_manager" where
  "drop_i key c m =
     (if co_refcount (cobj m c) = 0
      then (0, factory_destroy c (notify_drop c m))
      else (-1, m\<lparr>pending_list := map_insert key c (pending_list m)\<rparr>))"

fun flush_pending_loop :: "('k \<times> addr) list \<Rightarrow> 'k cache_manager \<Rightarrow> ('k \<times> addr) list \<times> 'k cache_manager" where
  "flush_pending_loop [] m = ([], m)"
| "flush_pending_loop ((k, c) # es) m =
     (if co_refcount (cobj m c) = 0
      then flush_pending_loop es
             (factory_destroy c (notify_drop c (m\<lparr>water_mark := water_mark m - co_size (cobj m c)\<rparr>)))
      else (let (kept, m') = flush_pending_loop es m in ((k, c) # kept, m')))"

definition flush_pending_objs :: "'k cache_manager \<Rightarrow> int \<times> 'k cache_manager" where
  "flush_pending_objs m =
     (if pending_list m \<noteq> []
      then (let (kept, m1) = flush_pending_loop (pending_list m) m;
                m2 = m1\<lparr>pending_list := kept\<rparr>
            in if water_mark m2 \<le> low_water_mark m2 then (0, m2) else (-1, m2))
      else (-1, m))"

text \<open>One eviction: the head of the deque leaves the map and is dropped.\<close>

definition evict :: "'k::linorder \<Rightarrow> addr \<Rightarrow> 'k cache_deque \<Rightarrow> 'k cache_manager \<Rightarrow> 'k cache_manager" where
  "evict k c d m =
     (let m1 = m\<lparr>pqueue := d, cache_map := (cache_map m)(k := None)\<rparr>;
          s = co_size (cobj m1 c);
          (r, m2) = drop_i k c m1
      in if r = 0 then m2\<lparr>water_mark := water_mark m2 - s\<rparr> else m2)"

definition flush_i :: "'k::linorder cache_manager \<Rightarrow> int \<times> 'k cache_manager" where
  "flush_i m =
     (let (r, m1) = flush_pending_objs m in
      if r = 0 then (0, m1)
      else (case cd_remove (pqueue m1) of
              (Some (k, c), d) \<Rightarrow> (0, evict k c d m1)
            | (None, d) \<Rightarrow> (-1, m1\<lparr>pqueue := d\<rparr>)))"

partial_function (option) flush_until :: "'k::linorder cache_manager \<Rightarrow> (int \<times> 'k cache_manager) option" where
  "flush_until m =
     (let (r, m1) = flush_i m in
      if r = -1 then Some (-1, m1)
      else if low_water_mark m1 < water_mark m1 then flush_until m1
      else Some (0, m1))"

text \<open>The last argument before the cache is the caller's pointer \<^verbatim>\<open>cobj\<close>, passed by reference: the
  result holds its new value. A failure before an object is created leaves it as it was.\<close>

definition make_cobj :: "addr \<Rightarrow> 64 word \<Rightarrow> addr \<Rightarrow> addr \<Rightarrow> 'k::linorder cache_manager \<Rightarrow> (int \<times> addr \<times> 'k cache_manager) option" where
  "make_cobj data s ob c0 m =
     (if cobj_max_size m < s \<or> s < cobj_min_size m then Some (-1, c0, m)
      else (case (if high_water_mark m < s + water_mark m then flush_until m else Some (0, m)) of
              None \<Rightarrow> None
            | Some (r, m1) \<Rightarrow>
                if r = -1 then Some (-1, c0, m1)
                else (let (c, m2) = factory_create data s ob m1 in Some (0, c, m2))))"

definition put_i :: "'k::linorder \<Rightarrow> addr \<Rightarrow> 64 word \<Rightarrow> addr \<Rightarrow> addr \<Rightarrow> 'k cache_manager \<Rightarrow> (int \<times> addr \<times> 'k cache_manager) option" where
  "put_i key data s ob c0 m =
     (if data = null then Some (-1, c0, m)
      else (case make_cobj data s ob c0 m of
              None \<Rightarrow> None
            | Some (r, c, m1) \<Rightarrow>
                if r = -1 then Some (-1, c, m1)
                else if cache_map m1 key \<noteq> None then Some (-1, null, factory_destroy c m1)
                else (let m2 = set_cobj c (acquire (cobj m1 c)) (m1\<lparr>cache_map := (cache_map m1)(key \<mapsto> c)\<rparr>) in
                      case cd_insert key c (pqueue m2) of
                        Inl _ \<Rightarrow> None
                      | Inr (r, d) \<Rightarrow>
                          if r \<noteq> 0
                          then Some (-1, null, factory_destroy c (m2\<lparr>cache_map := (cache_map m2)(key := None)\<rparr>))
                          else (let m3 = m2\<lparr>pqueue := d\<rparr>
                                in Some (0, c, m3\<lparr>water_mark := water_mark m3 + co_size (cobj m3 c)\<rparr>)))))"

definition get_pending_obj :: "'k \<Rightarrow> 'k cache_manager \<Rightarrow> addr \<times> 'k cache_manager" where
  "get_pending_obj key m =
     (if pending_list m \<noteq> []
      then (case map_of (pending_list m) key of
              Some c \<Rightarrow> (c, set_cobj c (acquire (cobj m c)) m)
            | None \<Rightarrow> (null, m))
      else (null, m))"

definition get_i :: "'k \<Rightarrow> 'k cache_manager \<Rightarrow> addr \<times> 'k cache_manager" where
  "get_i key m =
     (case cache_map m key of
        None \<Rightarrow> get_pending_obj key m
      | Some c \<Rightarrow> (let (_, d) = cd_adjust (co_proxy (cobj m c)) (pqueue m) in (c, m\<lparr>pqueue := d\<rparr>)))"

definition cm_release :: "addr \<Rightarrow> 'k cache_manager \<Rightarrow> 'k cache_manager" where
  "cm_release c m = set_cobj c (cobj_release (cobj m c)) m"

partial_function (option) flush_all_loop :: "'k::linorder cache_manager \<Rightarrow> 'k cache_manager option" where
  "flush_all_loop m =
     (case cd_remove (pqueue m) of
        (Some (k, c), d) \<Rightarrow> flush_all_loop (evict k c d m)
      | (None, d) \<Rightarrow> Some (m\<lparr>pqueue := d\<rparr>))"

definition flush_all :: "'k::linorder cache_manager \<Rightarrow> 'k cache_manager option" where
  "flush_all m = flush_all_loop (snd (flush_pending_objs m))"

section \<open>Invariant\<close>

abbreviation (input) content :: "'k cache_manager \<Rightarrow> ('k \<times> addr) list" where
  "content m \<equiv> cd_content (pqueue m)"

definition cm_live :: "'k cache_manager \<Rightarrow> addr set" where
  "cm_live m = {1..<cm_fresh m} - set (cm_destroyed m)"

definition cm_objs :: "'k cache_manager \<Rightarrow> addr list" where
  "cm_objs m = map snd (content m) @ map snd (pending_list m)"

text \<open>The map and the deque hold the same entries; every object in the cache or in the pending
  list is alive and is there once; no object was destroyed twice; the water mark counts the
  bytes of all living objects.\<close>

definition cm_ok :: "'k::linorder cache_manager \<Rightarrow> bool" where
  "cm_ok m \<longleftrightarrow> cd_ok (pqueue m) \<and> distinct (map fst (content m)) \<and> cache_map m = map_of (content m)
     \<and> sorted_wrt (<) (map fst (pending_list m)) \<and> distinct (cm_objs m) \<and> set (cm_objs m) \<subseteq> cm_live m
     \<and> distinct (cm_destroyed m) \<and> set (cm_destroyed m) \<subseteq> {1..<cm_fresh m} \<and> 0 < cm_fresh m
     \<and> water_mark m = (\<Sum>c \<in> cm_live m. co_size (cobj m c))"

definition same_limits :: "'k cache_manager \<Rightarrow> 'k cache_manager \<Rightarrow> bool" where
  "same_limits m m' \<longleftrightarrow> cobj_min_size m' = cobj_min_size m \<and> cobj_max_size m' = cobj_max_size m
     \<and> high_water_mark m' = high_water_mark m \<and> low_water_mark m' = low_water_mark m \<and> cobj_factory m' = cobj_factory m"

text \<open>What any kind of flushing may do: drop a prefix of the entries in order of use, and destroy
  objects that nobody holds.\<close>

definition flushed :: "'k::linorder cache_manager \<Rightarrow> 'k cache_manager \<Rightarrow> bool" where
  "flushed m m' \<longleftrightarrow> cm_ok m' \<and> (\<exists>n. content m' = drop n (content m)) \<and> cobjs (pqueue m') = cobjs (pqueue m)
     \<and> cm_fresh m' = cm_fresh m \<and> same_limits m m' \<and> set (cm_destroyed m) \<subseteq> set (cm_destroyed m')
     \<and> (\<forall>c \<in> set (cm_destroyed m') - set (cm_destroyed m). co_refcount (cobj m c) = 0)"

lemma flushed_refl: "cm_ok m \<Longrightarrow> flushed m m"
  by (auto simp: flushed_def same_limits_def intro: exI [of _ 0])

lemma flushed_trans: "flushed m m1 \<Longrightarrow> flushed m1 m2 \<Longrightarrow> flushed m m2"
proof -
  assume a: "flushed m m1" "flushed m1 m2"
  then obtain n1 n2 where "content m1 = drop n1 (content m)" "content m2 = drop n2 (content m1)"
    by (auto simp: flushed_def)
  then have "content m2 = drop (n2 + n1) (content m)" by simp
  then show ?thesis using a unfolding flushed_def same_limits_def by auto
qed

text \<open>Every step of flushing is an instance of one change: some objects \<open>new\<close> are destroyed and
  their bytes subtracted, the deque loses a prefix, the pending list changes.\<close>

lemma flushed_step:
  assumes ok: "cm_ok m" and d: "cd_ok d" "cobjs d = cobjs (pqueue m)" "cd_content d = drop n (content m)"
    and new: "distinct new" "set new \<subseteq> set (cm_objs m)" "\<forall>c \<in> set new. co_refcount (cobj m c) = 0"
    and left: "set (map snd (cd_content d) @ map snd ps) \<subseteq> set (cm_objs m) - set new"
      "distinct (map snd (cd_content d) @ map snd ps)" "sorted_wrt (<) (map fst ps)"
    and m': "pqueue m' = d" "pending_list m' = ps" "cache_map m' = map_of (cd_content d)" "cm_fresh m' = cm_fresh m"
      "cm_destroyed m' = cm_destroyed m @ new" "water_mark m' = water_mark m - (\<Sum>c \<in> set new. co_size (cobj m c))"
      "same_limits m m'"
  shows "flushed m m'"
proof -
  have live: "set new \<subseteq> cm_live m" using ok new(2) by (auto simp: cm_ok_def)
  have l': "cm_live m' = cm_live m - set new" using m' by (auto simp: cm_live_def)
  have dist: "distinct (map fst (drop n (content m)))" using ok unfolding cm_ok_def drop_map [symmetric] by (simp add: distinct_drop)
  have "water_mark m' = (\<Sum>c \<in> cm_live m'. co_size (cobj m' c))"
    using ok m' d(2) live l' by (simp add: cm_ok_def sum_diff cm_live_def)
  moreover have "set (cm_objs m) \<subseteq> cm_live m" using ok by (simp add: cm_ok_def)
  then have "set (cm_objs m') \<subseteq> cm_live m'" using left(1) unfolding l' cm_objs_def [of m'] m'(1,2) by blast
  moreover have "distinct (cm_destroyed m')" "set (cm_destroyed m') \<subseteq> {1..<cm_fresh m'}"
    using ok live new(1) m' by (auto simp: cm_ok_def cm_live_def)
  ultimately have "cm_ok m'" using ok d left m' dist unfolding cm_ok_def cm_objs_def by simp
  then show ?thesis using m' d new(3) by (auto simp: flushed_def)
qed

section \<open>Flushing\<close>

lemma factory_destroy_sel [simp]:
  "pqueue (factory_destroy c m) = pqueue m" "pending_list (factory_destroy c m) = pending_list m"
  "cache_map (factory_destroy c m) = cache_map m" "cm_fresh (factory_destroy c m) = cm_fresh m"
  "water_mark (factory_destroy c m) = water_mark m" "low_water_mark (factory_destroy c m) = low_water_mark m"
  "same_limits x (factory_destroy c m) = same_limits x m"
  "cm_destroyed (factory_destroy c m) = (if c = null then cm_destroyed m else cm_destroyed m @ [c])"
  by (simp_all add: factory_destroy_def same_limits_def)

lemma notify_drop_sel [simp]:
  "pqueue (notify_drop c m) = pqueue m" "pending_list (notify_drop c m) = pending_list m"
  "cache_map (notify_drop c m) = cache_map m" "cm_fresh (notify_drop c m) = cm_fresh m"
  "water_mark (notify_drop c m) = water_mark m" "low_water_mark (notify_drop c m) = low_water_mark m"
  "same_limits x (notify_drop c m) = same_limits x m" "cm_destroyed (notify_drop c m) = cm_destroyed m"
  by (simp_all add: notify_drop_def same_limits_def)

lemma same_limits_upd [simp]:
  "same_limits x (m\<lparr>water_mark := w\<rparr>) = same_limits x m" "same_limits x (m\<lparr>pqueue := d\<rparr>) = same_limits x m"
  "same_limits x (m\<lparr>pending_list := ps\<rparr>) = same_limits x m" "same_limits x (m\<lparr>cache_map := mm\<rparr>) = same_limits x m"
  "same_limits x (m\<lparr>cm_fresh := f\<rparr>) = same_limits x m" "same_limits x x"
  by (simp_all add: same_limits_def)

lemma map_insert_props:
  assumes "sorted_wrt (<) (map fst es)"
  shows "set (map_insert k c es) = (if k \<in> fst ` set es then set es else insert (k, c) (set es))"
    and "sorted_wrt (<) (map fst (map_insert k c es))"
    and "k \<in> fst ` set es \<Longrightarrow> map_insert k c es = es"
proof -
  have "(set (map_insert k c es) = (if k \<in> fst ` set es then set es else insert (k, c) (set es)))
     \<and> sorted_wrt (<) (map fst (map_insert k c es)) \<and> (k \<in> fst ` set es \<longrightarrow> map_insert k c es = es)"
    using assms
  proof (induction es)
    case (Cons e es)
    obtain k' c' where e: "e = (k', c')" by fastforce
    show ?case using Cons e by (auto split: if_splits)
  qed simp
  then show "set (map_insert k c es) = (if k \<in> fst ` set es then set es else insert (k, c) (set es))"
    "sorted_wrt (<) (map fst (map_insert k c es))" "k \<in> fst ` set es \<Longrightarrow> map_insert k c es = es" by blast+
qed

lemma distinct_map_insert:
  "sorted_wrt (<) (map fst es) \<Longrightarrow> distinct (map snd es) \<Longrightarrow> c \<notin> snd ` set es \<Longrightarrow> distinct (map snd (map_insert k c es))"
proof (induction es)
  case (Cons e es)
  obtain k' c' where e: "e = (k', c')" by fastforce
  have "c' \<notin> snd ` set (map_insert k c es)"
    using Cons.prems e map_insert_props(1) [of es k c] by (auto split: if_splits)
  then show ?case using Cons e by (auto split: if_splits)
qed simp

definition unused :: "'k cache_manager \<Rightarrow> 'k \<times> addr \<Rightarrow> bool" where
  "unused m e \<longleftrightarrow> co_refcount (cobj m (snd e)) = 0"

lemma unused_cong [simp]:
  "unused (factory_destroy c m) = unused m" "unused (notify_drop c m) = unused m" "unused (m\<lparr>water_mark := w\<rparr>) = unused m"
  by (simp_all add: unused_def fun_eq_iff)

lemma flush_pending_loop_ok:
  assumes "flush_pending_loop es m = (kept, m')" "null \<notin> snd ` set es"
  shows "kept = filter (\<lambda>e. \<not> unused m e) es" "pqueue m' = pqueue m" "pending_list m' = pending_list m"
    "cache_map m' = cache_map m" "cm_fresh m' = cm_fresh m" "same_limits x m' = same_limits x m"
    "cm_destroyed m' = cm_destroyed m @ map snd (filter (unused m) es)"
    "water_mark m' = water_mark m - (\<Sum>c \<leftarrow> map snd (filter (unused m) es). co_size (cobj m c))"
proof -
  have "kept = filter (\<lambda>e. \<not> unused m e) es \<and> pqueue m' = pqueue m \<and> pending_list m' = pending_list m
    \<and> cache_map m' = cache_map m \<and> cm_fresh m' = cm_fresh m \<and> same_limits x m' = same_limits x m
    \<and> cm_destroyed m' = cm_destroyed m @ map snd (filter (unused m) es)
    \<and> water_mark m' = water_mark m - (\<Sum>c \<leftarrow> map snd (filter (unused m) es). co_size (cobj m c))"
    using assms
  proof (induction es m arbitrary: kept m' rule: flush_pending_loop.induct)
    case (2 k c es m)
    show ?case
    proof (cases "co_refcount (cobj m c) = 0")
      case True
      let ?m = "factory_destroy c (notify_drop c (m\<lparr>water_mark := water_mark m - co_size (cobj m c)\<rparr>))"
      have "flush_pending_loop es ?m = (kept, m')" "null \<notin> snd ` set es" "c \<noteq> null" using 2(3,4) True by auto
      note ih = 2(1) [OF True this(1,2)]
      show ?thesis using ih True \<open>c \<noteq> null\<close> by (simp add: unused_def)
    next
      case False
      obtain kept' where l: "flush_pending_loop es m = (kept', m')" "kept = (k, c) # kept'"
        using 2(3) False by (auto split: prod.splits)
      show ?thesis using 2(2) [OF False l(1)] l(2) 2(4) False by (simp add: unused_def)
    qed
  qed simp
  then show "kept = filter (\<lambda>e. \<not> unused m e) es" "pqueue m' = pqueue m" "pending_list m' = pending_list m"
    "cache_map m' = cache_map m" "cm_fresh m' = cm_fresh m" "same_limits x m' = same_limits x m"
    "cm_destroyed m' = cm_destroyed m @ map snd (filter (unused m) es)"
    "water_mark m' = water_mark m - (\<Sum>c \<leftarrow> map snd (filter (unused m) es). co_size (cobj m c))" by blast+
qed

lemma flush_pending_ok:
  assumes ok: "cm_ok m" and r: "flush_pending_objs m = (r, m')"
  shows "flushed m m'" "content m' = content m" "pqueue m' = pqueue m"
    "r = 0 \<Longrightarrow> water_mark m' \<le> low_water_mark m'" "r = 0 \<or> r = -1"
    "pending_list m' = filter (\<lambda>e. \<not> unused m e) (pending_list m)"
proof -
  have "flushed m m' \<and> pqueue m' = pqueue m \<and> (r = 0 \<longrightarrow> water_mark m' \<le> low_water_mark m') \<and> (r = 0 \<or> r = -1)
    \<and> pending_list m' = filter (\<lambda>e. \<not> unused m e) (pending_list m)"
  proof (cases "pending_list m = []")
    case True
    then show ?thesis using r flushed_refl [OF ok] by (auto simp: flush_pending_objs_def)
  next
    case False
    obtain kept m1 where l: "flush_pending_loop (pending_list m) m = (kept, m1)" by fastforce
    have n: "null \<notin> snd ` set (pending_list m)" using ok by (auto simp: cm_ok_def cm_objs_def cm_live_def)
    note f = flush_pending_loop_ok [OF l n]
    let ?new = "map snd (filter (unused m) (pending_list m))"
    have m': "m' = m1\<lparr>pending_list := kept\<rparr>" and rr: "r = (if water_mark m1 \<le> low_water_mark m1 then 0 else -1)"
      using r l False by (auto simp: flush_pending_objs_def Let_def split: if_splits)
    have dp: "distinct (map snd (pending_list m))" and ds: "distinct (map snd (content m) @ map snd (pending_list m))"
      and so: "sorted_wrt (<) (map fst (pending_list m))" using ok by (auto simp: cm_ok_def cm_objs_def)
    have sub: "snd ` {e \<in> set (pending_list m). \<not> unused m e} \<inter> set ?new = {}" by (auto simp: unused_def)
    have "flushed m m'"
    proof (rule flushed_step [OF ok, where d = "pqueue m" and n = 0 and new = ?new and ps = kept])
      show "distinct ?new" using dp by (rule distinct_map_filter)
      show "set ?new \<subseteq> set (cm_objs m)" by (auto simp: cm_objs_def)
      show "\<forall>c \<in> set ?new. co_refcount (cobj m c) = 0" by (auto simp: unused_def)
      show "set (map snd (content m) @ map snd kept) \<subseteq> set (cm_objs m) - set ?new"
        using ds sub f(1) by (auto simp: cm_objs_def)
      show "distinct (map snd (content m) @ map snd kept)" using ds f(1) by (auto simp: distinct_map_filter)
      show "sorted_wrt (<) (map fst kept)" using so f(1) by (simp add: sorted_wrt_map sorted_wrt_filter)
      show "water_mark m' = water_mark m - (\<Sum>c \<in> set ?new. co_size (cobj m c))"
        using f(8) m' sum.distinct_set_conv_list [OF distinct_map_filter [OF dp, of "unused m"], of "\<lambda>c. co_size (cobj m c)"]
        by simp
    qed (use ok f m' in \<open>auto simp: cm_ok_def\<close>)
    then show ?thesis using f(1,2) m' rr by simp
  qed
  then show "flushed m m'" "content m' = content m" "pqueue m' = pqueue m"
    "r = 0 \<Longrightarrow> water_mark m' \<le> low_water_mark m'" "r = 0 \<or> r = -1"
    "pending_list m' = filter (\<lambda>e. \<not> unused m e) (pending_list m)" by auto
qed

lemma evict_ok:
  assumes ok: "cm_ok m" and h: "content m = (k, c) # es" and rm: "cd_remove (pqueue m) = (Some (k, c), d)"
  shows "flushed m (evict k c d m)" "content (evict k c d m) = es" "pqueue (evict k c d m) = d"
    "\<forall>e \<in> set (pending_list m). \<not> unused m e \<Longrightarrow> \<forall>e \<in> set (pending_list (evict k c d m)). \<not> unused m e"
proof -
  have d: "cd_ok d" "cd_content d = es" "cobjs d = cobjs (pqueue m)"
    using cd_remove_content(2) [OF _ h] ok rm by (auto simp: cm_ok_def)
  have "map_of es k = None" using ok h by (simp add: cm_ok_def map_of_eq_None_iff)
  then have mp: "(cache_map m)(k := None) = map_of es" and dc: "distinct (map snd es @ map snd (pending_list m))"
    and c: "c \<notin> snd ` set es" "c \<notin> snd ` set (pending_list m)" "c \<noteq> null" and so: "sorted_wrt (<) (map fst (pending_list m))"
    using ok h by (auto simp: cm_ok_def cm_objs_def cm_live_def fun_eq_iff image_iff)
  show q: "pqueue (evict k c d m) = d" by (simp add: evict_def drop_i_def Let_def)
  then show "content (evict k c d m) = es" using d(2) by simp
  show "flushed m (evict k c d m)"
  proof (cases "co_refcount (cobj m c) = 0")
    case True
    show ?thesis
      by (rule flushed_step [OF ok, where d = d and n = 1 and new = "[c]" and ps = "pending_list m"])
        (use d h True mp dc c so in \<open>auto simp: cm_objs_def evict_def drop_i_def Let_def same_limits_def factory_destroy_def notify_drop_def\<close>)
  next
    case False
    let ?ps = "map_insert k c (pending_list m)"
    note mi = map_insert_props [OF so, of k c]
    have sub: "snd ` set ?ps \<subseteq> insert c (snd ` set (pending_list m))" using mi(1) by auto
    have "distinct (map snd ?ps)" using distinct_map_insert [OF so _ c(2)] dc by simp
    moreover have "snd ` set es \<inter> insert c (snd ` set (pending_list m)) = {}" using c(1) dc by simp
    then have "snd ` set es \<inter> snd ` set ?ps = {}" using sub by blast
    ultimately have "distinct (map snd es @ map snd ?ps)" using dc by simp
    then show ?thesis
      by (intro flushed_step [OF ok, where d = d and n = 1 and new = "[]" and ps = ?ps])
        (use d h False mp sub c mi(2) in \<open>auto simp: cm_objs_def evict_def drop_i_def Let_def same_limits_def\<close>)
  qed
  assume "\<forall>e \<in> set (pending_list m). \<not> unused m e"
  then show "\<forall>e \<in> set (pending_list (evict k c d m)). \<not> unused m e"
    using d(3) map_insert_props(1) [OF so, of k c] by (auto simp: evict_def drop_i_def Let_def unused_def)
qed

lemma flushed_ok: "flushed m m' \<Longrightarrow> cm_ok m'"
  by (simp add: flushed_def)

lemma flush_i_ok:
  assumes ok: "cm_ok m" and r: "flush_i m = (r, m')"
  shows "flushed m m'" "r = 0 \<or> r = -1" "r = -1 \<Longrightarrow> content m = []"
    "r = 0 \<Longrightarrow> water_mark m' \<le> low_water_mark m' \<or> length (content m') < length (content m)"
proof -
  obtain r1 m1 where p: "flush_pending_objs m = (r1, m1)" by fastforce
  note f = flush_pending_ok [OF ok p]
  have ok1: "cm_ok m1" using f(1) by (rule flushed_ok)
  then have cd1: "cd_ok (pqueue m1)" by (simp add: cm_ok_def)
  have "flushed m m' \<and> (r = 0 \<or> r = -1) \<and> (r = -1 \<longrightarrow> content m = [])
    \<and> (r = 0 \<longrightarrow> water_mark m' \<le> low_water_mark m' \<or> length (content m') < length (content m))"
  proof (cases "r1 = 0")
    case True
    then show ?thesis using r p f by (simp add: flush_i_def)
  next
    case False
    show ?thesis
    proof (cases "content m1")
      case Nil
      then have "cd_remove (pqueue m1) = (None, pqueue m1)" using cd_remove_content(1) [OF cd1] by simp
      then have "m' = m1" "r = -1" using r p False by (simp_all add: flush_i_def)
      then show ?thesis using f(1,2) Nil by simp
    next
      case (Cons e es)
      obtain k c where e: "e = (k, c)" by fastforce
      then obtain d where rm: "cd_remove (pqueue m1) = (Some (k, c), d)"
        using cd_remove_content(2) [OF cd1 Cons] by auto
      note ev = evict_ok [OF ok1 _ rm]
      have m': "r = 0" "m' = evict k c d m1" using r p rm False by (simp_all add: flush_i_def)
      have "flushed m m'" using flushed_trans [OF f(1) ev(1)] Cons e m' by simp
      then show ?thesis using ev(2) Cons e m' f(2) by simp
    qed
  qed
  then show "flushed m m'" "r = 0 \<or> r = -1" "r = -1 \<Longrightarrow> content m = []"
    "r = 0 \<Longrightarrow> water_mark m' \<le> low_water_mark m' \<or> length (content m') < length (content m)" by blast+
qed

lemma flush_until_ok:
  "cm_ok m \<Longrightarrow> \<exists>r m'. flush_until m = Some (r, m') \<and> flushed m m' \<and> (r = 0 \<or> r = -1)
     \<and> (r = 0 \<longrightarrow> water_mark m' \<le> low_water_mark m') \<and> (r = -1 \<longrightarrow> content m' = [])"
proof (induction "length (content m)" arbitrary: m rule: less_induct)
  case less
  obtain r m1 where f: "flush_i m = (r, m1)" by fastforce
  note o1 = flush_i_ok [OF less.prems f]
  show ?case
  proof (cases "r = 0 \<and> low_water_mark m1 < water_mark m1")
    case True
    then have l: "length (content m1) < length (content m)" using o1(4) by auto
    obtain r' m' where "flush_until m1 = Some (r', m')" "flushed m1 m'" "r' = 0 \<or> r' = -1"
      "r' = 0 \<longrightarrow> water_mark m' \<le> low_water_mark m'" "r' = -1 \<longrightarrow> content m' = []"
      using less.hyps [OF l flushed_ok [OF o1(1)]] by blast
    moreover have "flush_until m = flush_until m1" using True f by (subst flush_until.simps) simp
    ultimately show ?thesis using flushed_trans [OF o1(1)] by auto
  next
    case False
    have "content m1 = [] \<or> r \<noteq> -1" using o1(1,3) by (auto simp: flushed_def)
    then show ?thesis using False f o1(1,2) by (subst flush_until.simps) auto
  qed
qed

lemma flush_all_loop_ok:
  "cm_ok m \<Longrightarrow> \<forall>e \<in> set (pending_list m). \<not> unused m e \<Longrightarrow>
     \<exists>m'. flush_all_loop m = Some m' \<and> flushed m m' \<and> content m' = [] \<and> (\<forall>e \<in> set (pending_list m'). \<not> unused m e)"
proof (induction "length (content m)" arbitrary: m rule: less_induct)
  case less
  have cd: "cd_ok (pqueue m)" using less.prems(1) by (simp add: cm_ok_def)
  show ?case
  proof (cases "content m")
    case Nil
    then have "cd_remove (pqueue m) = (None, pqueue m)" using cd_remove_content(1) [OF cd] by simp
    then show ?thesis
      using flushed_refl [OF less.prems(1)] Nil less.prems(2) by (subst flush_all_loop.simps) simp
  next
    case (Cons e es)
    obtain k c where e: "e = (k, c)" by fastforce
    then obtain d where rm: "cd_remove (pqueue m) = (Some (k, c), d)"
      using cd_remove_content(2) [OF cd Cons] by auto
    note ev = evict_ok [OF less.prems(1) Cons [unfolded e] rm]
    let ?m = "evict k c d m"
    have u: "unused ?m = unused m" using ev(1) by (simp add: flushed_def unused_def fun_eq_iff)
    have l: "length (content ?m) < length (content m)" using ev(2) Cons by simp
    obtain m' where "flush_all_loop ?m = Some m'" "flushed ?m m'" "content m' = []"
      "\<forall>e \<in> set (pending_list m'). \<not> unused m e"
      using less.hyps [OF l flushed_ok [OF ev(1)]] ev(4) [OF less.prems(2)] u by auto
    moreover have "flush_all_loop m = flush_all_loop ?m" using rm by (subst flush_all_loop.simps) simp
    ultimately show ?thesis using flushed_trans [OF ev(1)] by auto
  qed
qed

section \<open>Lookup, release and insertion\<close>

lemma set_cobj_sel [simp]:
  "cobjs (pqueue (set_cobj c o1 m)) = (cobjs (pqueue m))(c := o1)" "cm_fresh (set_cobj c o1 m) = cm_fresh m"
  "cm_destroyed (set_cobj c o1 m) = cm_destroyed m" "pending_list (set_cobj c o1 m) = pending_list m"
  "cache_map (set_cobj c o1 m) = cache_map m" "water_mark (set_cobj c o1 m) = water_mark m"
  "same_limits x (set_cobj c o1 m) = same_limits x m" "cm_live (set_cobj c o1 m) = cm_live m"
  by (simp_all add: set_cobj_def cm_live_def)

lemma set_cobj_ok:
  assumes "cm_ok m" "co_proxy o1 = co_proxy (cobj m c)" "co_size o1 = co_size (cobj m c)"
  shows "cm_ok (set_cobj c o1 m)" "content (set_cobj c o1 m) = content m"
proof -
  have "cd_ok (pqueue m)" using assms(1) by (simp add: cm_ok_def)
  note d = cd_ok_objs [OF this, of "(cobjs (pqueue m))(c := o1)"]
  show q: "content (set_cobj c o1 m) = content m" using d(2) assms(2) by (simp add: set_cobj_def)
  have "(\<Sum>x \<in> cm_live m. co_size (((cobjs (pqueue m))(c := o1)) x)) = (\<Sum>x \<in> cm_live m. co_size (cobj m x))"
    using assms(3) by (intro sum.cong) auto
  then show "cm_ok (set_cobj c o1 m)"
    using assms(1,2) d(1) q by (simp add: cm_ok_def cm_objs_def) (simp add: set_cobj_def)
qed

lemma cm_release_ok: "cm_ok m \<Longrightarrow> cm_ok (cm_release c m)" "cm_ok m \<Longrightarrow> content (cm_release c m) = content m"
  using set_cobj_ok [of m "cobj_release (cobj m c)" c] by (simp_all add: cm_release_def cobj_release_def)

lemma get_i_cached:
  assumes ok: "cm_ok m" and h: "content m = es @ (k, c) # gs"
  obtains m' where "get_i k m = (c, m')" "cm_ok m'" "content m' = es @ gs @ [(k, c)]" "pending_list m' = pending_list m"
    "cobjs (pqueue m') = (cobjs (pqueue m))(c := acquire (cobj m c))" "cm_live m' = cm_live m" "same_limits m m'"
proof -
  have "distinct (map fst (content m))" "cache_map m = map_of (content m)" "(k, c) \<in> set (content m)"
    using ok h by (auto simp: cm_ok_def)
  then have mp: "cache_map m k = Some c" by (simp add: map_of_is_SomeI)
  have "cd_ok (pqueue m)" using ok by (simp add: cm_ok_def)
  then obtain d where d: "cd_adjust (co_proxy (cobj m c)) (pqueue m) = (0, d)" "cd_ok d" "cd_content d = es @ gs @ [(k, c)]"
    "cobjs d = (cobjs (pqueue m))(c := acquire (cobj m c))"
    using cd_adjust_content [OF _ h] by blast
  let ?m = "m\<lparr>pqueue := d\<rparr>"
  have sz: "co_size (cobj ?m x) = co_size (cobj m x)" for x using d(4) by simp
  have "distinct (map fst (content m))" "distinct (map fst (cd_content d))" "set (cd_content d) = set (content m)"
    using ok h d(3) by (auto simp: cm_ok_def)
  then have "map_of (cd_content d) = map_of (content m)" using map_of_inject_set by blast
  then have "cm_ok ?m" using ok h d(2,3) sz unfolding cm_ok_def cm_objs_def cm_live_def by auto
  moreover have "get_i k m = (c, ?m)" using mp d(1) by (simp add: get_i_def)
  ultimately show ?thesis using that [of ?m] d(3,4) by (simp add: cm_live_def)
qed

lemma get_i_pending:
  assumes ok: "cm_ok m" and h: "cache_map m k = None" "map_of (pending_list m) k = Some c"
  shows "get_i k m = (c, set_cobj c (acquire (cobj m c)) m)" "cm_ok (set_cobj c (acquire (cobj m c)) m)"
    "content (set_cobj c (acquire (cobj m c)) m) = content m"
  using h set_cobj_ok [OF ok, of "acquire (cobj m c)" c] by (auto simp: get_i_def get_pending_obj_def)

lemma get_i_missing: "cache_map m k = None \<Longrightarrow> map_of (pending_list m) k = None \<Longrightarrow> get_i k m = (null, m)"
  by (simp add: get_i_def get_pending_obj_def)

text \<open>The effect of an insertion on the objects that were there before.\<close>

definition outlived :: "'k cache_manager \<Rightarrow> 'k cache_manager \<Rightarrow> bool" where
  "outlived m m' \<longleftrightarrow> cm_fresh m \<le> cm_fresh m' \<and> (\<forall>x < cm_fresh m. co_refcount (cobj m' x) = co_refcount (cobj m x))
     \<and> set (cm_destroyed m) \<subseteq> set (cm_destroyed m')
     \<and> (\<forall>x \<in> set (cm_destroyed m') - set (cm_destroyed m). x < cm_fresh m \<longrightarrow> co_refcount (cobj m x) = 0)"

lemma flushed_outlived: "flushed m m' \<Longrightarrow> outlived m m'"
  by (simp add: flushed_def outlived_def)

lemma live_fresh: "cm_ok m \<Longrightarrow> cm_fresh m' = Suc (cm_fresh m) \<Longrightarrow> cm_destroyed m' = cm_destroyed m \<Longrightarrow>
    cm_live m' = insert (cm_fresh m) (cm_live m) \<and> cm_fresh m \<notin> cm_live m"
  by (auto simp: cm_ok_def cm_live_def)

text \<open>The two ways an insertion can end once an object was created: the key is taken and the new
  object is destroyed again, or it becomes the youngest entry.\<close>

lemma put_taken_ok:
  assumes ok: "cm_ok m" and fc: "factory_create data s ob m = (c, m1)"
  shows "cm_ok (factory_destroy c m1)" "content (factory_destroy c m1) = content m" "outlived m (factory_destroy c m1)"
    "cm_live (factory_destroy c m1) = cm_live m"
proof -
  have c: "c = cm_fresh m" "c \<noteq> null" "c \<notin> snd ` set (content m)"
    using ok fc by (auto simp: factory_create_def cm_ok_def cm_objs_def cm_live_def)
  have m1: "pqueue m1 = (pqueue m)\<lparr>cobjs := (cobjs (pqueue m))(c := cobj_new (cobj_factory m) data s ob)\<rparr>"
    "cm_fresh m1 = Suc c" "cm_destroyed m1 = cm_destroyed m" "cache_map m1 = cache_map m"
    "pending_list m1 = pending_list m" "water_mark m1 = water_mark m"
    using fc c(1) by (auto simp: factory_create_def set_cobj_def)
  have cd: "cd_ok (pqueue m)" using ok by (simp add: cm_ok_def)
  have pr: "co_proxy (((cobjs (pqueue m))(c := cobj_new (cobj_factory m) data s ob)) x) = co_proxy (cobj m x)"
    if "x \<in> snd ` set (content m)" for x
  proof -
    have "x \<noteq> c" using that c(3) by blast
    then show ?thesis by simp
  qed
  have d: "cd_ok (pqueue m1)" "content m1 = content m"
    unfolding m1(1) by (rule cd_ok_objs [OF cd pr], assumption)+
  show l: "cm_live (factory_destroy c m1) = cm_live m" using m1 c by (auto simp: cm_live_def)
  have nl: "c \<notin> cm_live m" using c(1) by (simp add: cm_live_def)
  have "(\<Sum>x \<in> cm_live m. co_size (cobj m1 x)) = (\<Sum>x \<in> cm_live m. co_size (cobj m x))"
    using nl m1(1) by (intro sum.cong) auto
  then show "cm_ok (factory_destroy c m1)" using ok m1 d c l by (auto simp: cm_ok_def cm_objs_def)
  show "content (factory_destroy c m1) = content m" using d(2) by simp
  show "outlived m (factory_destroy c m1)" using m1 c by (auto simp: outlived_def)
qed

lemma put_new_ok:
  assumes ok: "cm_ok m" and k: "cache_map m k = None"
    and d: "cd_ok d" "cd_content d = content m @ [(k, c)]" "c = cm_fresh m" "co_size (cobjs d c) = s"
      "\<And>x. x \<noteq> c \<Longrightarrow> cobjs d x = cobj m x"
    and m': "pqueue m' = d" "cache_map m' = (cache_map m)(k \<mapsto> c)" "pending_list m' = pending_list m" "cm_fresh m' = Suc c"
      "cm_destroyed m' = cm_destroyed m" "water_mark m' = water_mark m + s"
  shows "cm_ok m'" "outlived m m'"
proof -
  have l: "cm_live m' = insert c (cm_live m)" "c \<notin> cm_live m" using live_fresh [OF ok] m'(4,5) d(3) by auto
  have o: "c \<notin> set (cm_objs m)" "k \<notin> fst ` set (content m)"
    using ok l(2) k by (auto simp: cm_ok_def map_of_eq_None_iff)
  have "finite (cm_live m)" by (simp add: cm_live_def)
  then have "(\<Sum>x \<in> cm_live m'. co_size (cobj m' x)) = s + (\<Sum>x \<in> cm_live m. co_size (cobjs d x))"
    using l m'(1) d(4) by simp
  also have "(\<Sum>x \<in> cm_live m. co_size (cobjs d x)) = (\<Sum>x \<in> cm_live m. co_size (cobj m x))"
    using l(2) d(5) by (intro sum.cong refl) metis
  finally have w: "water_mark m' = (\<Sum>x \<in> cm_live m'. co_size (cobj m' x))" using ok m'(6) by (simp add: cm_ok_def)
  have "map_of (content m @ [(k, c)]) = (cache_map m)(k \<mapsto> c)"
    using ok k by (auto simp: cm_ok_def map_add_def fun_eq_iff split: option.split)
  moreover have "set (cm_objs m') \<subseteq> cm_live m'" "distinct (cm_objs m')"
    using ok o l(1) d(2) m' by (auto simp: cm_ok_def cm_objs_def)
  ultimately show "cm_ok m'" using ok o(2) w d m' by (auto simp: cm_ok_def)
  show "outlived m m'" using d(3,5) m' by (auto simp: outlived_def)
qed

lemma outlived_trans:
  assumes "outlived m m1" "outlived m1 m2"
  shows "outlived m m2"
  using assms unfolding outlived_def by (auto dest: order_less_le_trans)

lemma flushed_live: "flushed m m' \<Longrightarrow> cm_live m' \<subseteq> cm_live m"
  by (auto simp: flushed_def cm_live_def)

text \<open>What a failed and what a successful insertion leave behind.\<close>

definition put_refused :: "addr \<Rightarrow> 64 word \<Rightarrow> 'k cache_manager \<Rightarrow> bool" where
  "put_refused data s m \<longleftrightarrow> data = null \<or> cobj_max_size m < s \<or> s < cobj_min_size m"

definition put_failed :: "'k::linorder \<Rightarrow> addr \<Rightarrow> 64 word \<Rightarrow> addr \<Rightarrow> 'k cache_manager \<Rightarrow> int \<times> addr \<times> 'k cache_manager \<Rightarrow> bool" where
  "put_failed k data s c0 m res = (case res of (r, c, m') \<Rightarrow> r = -1 \<and> cm_ok m' \<and> outlived m m' \<and> cm_live m' \<subseteq> cm_live m
     \<and> (\<exists>n. content m' = drop n (content m)) \<and> (c = c0 \<or> c = null \<and> cache_map m' k \<noteq> None)
     \<and> (put_refused data s m \<longrightarrow> c = c0 \<and> m' = m)
     \<and> (put_refused data s m \<or> high_water_mark m < s + water_mark m \<or> cache_map m k \<noteq> None))"

definition put_done :: "'k::linorder \<Rightarrow> addr \<Rightarrow> 64 word \<Rightarrow> 'k cache_manager \<Rightarrow> int \<times> addr \<times> 'k cache_manager \<Rightarrow> bool" where
  "put_done k data s m res = (case res of (r, c, m') \<Rightarrow> r = 0 \<and> c = cm_fresh m \<and> cm_ok m' \<and> outlived m m'
     \<and> cm_live m' \<subseteq> insert c (cm_live m) \<and> c \<in> cm_live m' \<and> (\<exists>n. content m' = drop n (content m) @ [(k, c)])
     \<and> co_refcount (cobj m' c) = 1 \<and> co_data (cobj m' c) = data \<and> co_size (cobj m' c) = s
     \<and> cobj_min_size m \<le> s \<and> s \<le> cobj_max_size m
     \<and> (water_mark m' \<le> high_water_mark m \<or> water_mark m' - s \<le> low_water_mark m))"

lemma put_created:
  assumes ok: "cm_ok m" and c: "factory_create data s ob m = (c, m1)" and k: "cache_map m k = None"
  obtains d m' where "cd_insert k c (pqueue (set_cobj c (acquire (cobj m1 c)) (m1\<lparr>cache_map := (cache_map m1)(k \<mapsto> c)\<rparr>))) = Inr (0, d)"
    "m' = (set_cobj c (acquire (cobj m1 c)) (m1\<lparr>cache_map := (cache_map m1)(k \<mapsto> c)\<rparr>))\<lparr>pqueue := d\<rparr>"
    "cm_ok (m'\<lparr>water_mark := water_mark m' + co_size (cobj m' c)\<rparr>)" "outlived m (m'\<lparr>water_mark := water_mark m' + co_size (cobj m' c)\<rparr>)"
    "content m' = content m @ [(k, c)]" "co_refcount (cobj m' c) = 1" "co_data (cobj m' c) = data" "co_size (cobj m' c) = s"
    "cm_live m' = insert c (cm_live m)" "water_mark m' = water_mark m" "same_limits m m'" "c = cm_fresh m"
proof -
  let ?m2 = "set_cobj c (acquire (cobj m1 c)) (m1\<lparr>cache_map := (cache_map m1)(k \<mapsto> c)\<rparr>)"
  let ?os = "(cobjs (pqueue m))(c := acquire (cobj_new (cobj_factory m) data s ob))"
  have cf: "c = cm_fresh m" "c \<noteq> null" "c \<notin> snd ` set (content m)"
    using ok c by (auto simp: factory_create_def cm_ok_def cm_objs_def cm_live_def)
  have m1: "m1 = set_cobj c (cobj_new (cobj_factory m) data s ob) (m\<lparr>cm_fresh := Suc c\<rparr>)"
    using c cf(1) by (simp add: factory_create_def)
  have q: "pqueue ?m2 = (pqueue m)\<lparr>cobjs := ?os\<rparr>" by (simp add: m1 set_cobj_def)
  have "cd_ok (pqueue m)" using ok by (simp add: cm_ok_def)
  moreover have "co_proxy (?os x) = co_proxy (cobj m x)" if "x \<in> snd ` set (content m)" for x
    using that cf(3) by (metis fun_upd_other)
  ultimately have cd: "cd_ok (pqueue ?m2)" "cd_content (pqueue ?m2) = content m"
    unfolding q using cd_ok_objs [of "pqueue m" ?os] by blast+
  have cc: "c \<notin> snd ` set (cd_content (pqueue ?m2))" using cf(3) cd(2) by simp
  obtain a d where d: "cd_insert k c (pqueue ?m2) = Inr (0, d)" "cd_ok d" "cd_content d = cd_content (pqueue ?m2) @ [(k, c)]"
    "cobjs d = (cobjs (pqueue ?m2))(c := (cobjs (pqueue ?m2) c)\<lparr>co_proxy := a\<rparr>)"
    by (rule cd_insert_content [OF cd(1) cf(2) cc, where k = k])
  let ?m' = "?m2\<lparr>pqueue := d\<rparr>"
  have od: "cobjs d c = (acquire (cobj_new (cobj_factory m) data s ob))\<lparr>co_proxy := a\<rparr>" "\<And>x. x \<noteq> c \<Longrightarrow> cobjs d x = cobj m x"
    using d(4) q by simp_all
  have sz: "co_size (cobjs d c) = s" using od(1) by (simp add: cobj_new_def)
  have "cm_ok (?m'\<lparr>water_mark := water_mark ?m' + co_size (cobj ?m' c)\<rparr>)"
    "outlived m (?m'\<lparr>water_mark := water_mark ?m' + co_size (cobj ?m' c)\<rparr>)"
    by (rule put_new_ok [OF ok k d(2) _ cf(1) sz od(2)], use d(3) cd(2) sz m1 in simp_all)+
  moreover have "cm_live ?m' = insert c (cm_live m)"
    using live_fresh [OF ok, of ?m'] cf(1) m1 by simp
  moreover have "same_limits m ?m'" using m1 by (simp add: same_limits_def set_cobj_def)
  ultimately show ?thesis
    using that [of d ?m'] d(1,3) cd(2) od(1) cf(1) m1 by (simp add: cobj_new_def)
qed

lemma make_room_ok:
  assumes "cm_ok m"
  shows "\<exists>r m1. (if high_water_mark m < s + water_mark m then flush_until m else Some (0, m)) = Some (r, m1)
    \<and> flushed m m1 \<and> (r = 0 \<or> r = -1)
    \<and> (r = 0 \<longrightarrow> s + water_mark m1 \<le> high_water_mark m \<or> water_mark m1 \<le> low_water_mark m1)"
proof (cases "high_water_mark m < s + water_mark m")
  case True
  then show ?thesis using flush_until_ok [OF assms] by auto
next
  case False
  then show ?thesis using flushed_refl [OF assms] by (auto simp: not_less)
qed

lemma put_i_ok:
  assumes ok: "cm_ok m"
  shows "\<exists>res. put_i k data s ob c0 m = Some res \<and> (put_failed k data s c0 m res \<or> put_done k data s m res)"
proof (cases "put_refused data s m")
  case True
  then have "put_i k data s ob c0 m = Some (-1, c0, m)" by (auto simp: put_i_def make_cobj_def put_refused_def)
  moreover have "put_failed k data s c0 m (-1, c0, m)" using ok True by (auto simp: put_failed_def outlived_def intro: exI [of _ 0])
  ultimately show ?thesis by blast
next
  case False
  let ?fl = "if high_water_mark m < s + water_mark m then flush_until m else Some (0, m)"
  obtain r m1 where f: "?fl = Some (r, m1)" "flushed m m1" "r = 0 \<or> r = -1"
    "r = 0 \<longrightarrow> s + water_mark m1 \<le> high_water_mark m \<or> water_mark m1 \<le> low_water_mark m1"
    using make_room_ok [OF ok, of s] by blast
  have ok1: "cm_ok m1" using f(2) by (rule flushed_ok)
  obtain n where n: "content m1 = drop n (content m)" using f(2) by (auto simp: flushed_def)
  have fr: "cm_fresh m1 = cm_fresh m" and lim: "same_limits m m1" using f(2) by (simp_all add: flushed_def)
  obtain c m2 where c: "factory_create data s ob m1 = (c, m2)" by fastforce
  have mk: "make_cobj data s ob c0 m = (if r = -1 then Some (-1, c0, m1) else Some (0, c, m2))"
    using False f(1,3) c by (auto simp: make_cobj_def put_refused_def)
  show ?thesis
  proof (cases "r = -1")
    case True
    then have "put_i k data s ob c0 m = Some (-1, c0, m1)" using False mk by (simp add: put_i_def put_refused_def)
    moreover have "high_water_mark m < s + water_mark m" using f(1) True by (auto split: if_splits)
    then have "put_failed k data s c0 m (-1, c0, m1)"
      using False ok1 n flushed_outlived [OF f(2)] flushed_live [OF f(2)] by (auto simp: put_failed_def)
    ultimately show ?thesis by blast
  next
    case r0: False
    have cm2: "cache_map m2 = cache_map m1" using c by (auto simp: factory_create_def)
    show ?thesis
    proof (cases "cache_map m1 k = None")
      case False
      note t = put_taken_ok [OF ok1 c]
      have "high_water_mark m < s + water_mark m \<or> m1 = m" using f(1) by (auto split: if_splits)
      then have "put_failed k data s c0 m (-1, null, factory_destroy c m2)"
        using \<open>\<not> put_refused data s m\<close> False cm2 t n outlived_trans [OF flushed_outlived [OF f(2)] t(3)] flushed_live [OF f(2)] by (auto simp: put_failed_def)
      moreover have "put_i k data s ob c0 m = Some (-1, null, factory_destroy c m2)"
        using \<open>\<not> put_refused data s m\<close> mk r0 False cm2 by (auto simp: put_i_def put_refused_def)
      ultimately show ?thesis by blast
    next
      case True
      obtain d m' where p: "cd_insert k c (pqueue (set_cobj c (acquire (cobj m2 c)) (m2\<lparr>cache_map := (cache_map m2)(k \<mapsto> c)\<rparr>))) = Inr (0, d)"
        "m' = (set_cobj c (acquire (cobj m2 c)) (m2\<lparr>cache_map := (cache_map m2)(k \<mapsto> c)\<rparr>))\<lparr>pqueue := d\<rparr>"
        "cm_ok (m'\<lparr>water_mark := water_mark m' + co_size (cobj m' c)\<rparr>)" "outlived m1 (m'\<lparr>water_mark := water_mark m' + co_size (cobj m' c)\<rparr>)"
        "content m' = content m1 @ [(k, c)]" "co_refcount (cobj m' c) = 1" "co_data (cobj m' c) = data" "co_size (cobj m' c) = s"
        "cm_live m' = insert c (cm_live m1)" "water_mark m' = water_mark m1" "same_limits m1 m'" "c = cm_fresh m1"
        by (rule put_created [OF ok1 c True])
      let ?m = "m'\<lparr>water_mark := water_mark m' + co_size (cobj m' c)\<rparr>"
      have "put_i k data s ob c0 m = Some (0, c, ?m)"
        using \<open>\<not> put_refused data s m\<close> mk r0 True cm2 p(1,2) by (simp add: put_i_def put_refused_def Let_def)
      moreover have "cm_live ?m = insert c (cm_live m1)" using p(9) by (simp add: cm_live_def)
      then have "put_done k data s m (0, c, ?m)"
        using p n fr lim f(3,4) r0 flushed_live [OF f(2)] outlived_trans [OF flushed_outlived [OF f(2)] p(4)] False
        by (auto simp: put_done_def put_refused_def same_limits_def add.commute)
      ultimately show ?thesis by blast
    qed
  qed
qed

section \<open>Runs\<close>

text \<open>A cache together with the references its clients hold. \<^verbatim>\<open>get\<close> and a successful \<^verbatim>\<open>put\<close> hand out a
  reference; \<^verbatim>\<open>release\<close> gives one back.\<close>

inductive cm_step :: "'k::linorder cache_manager \<times> addr multiset \<Rightarrow> 'k cache_manager \<times> addr multiset \<Rightarrow> bool" where
  step_get: "get_i k m = (c, m') \<Longrightarrow> cm_step (m, h) (m', if c = null then h else add_mset c h)"
| step_put: "put_i k data s ob c0 m = Some (r, c, m') \<Longrightarrow> cm_step (m, h) (m', if r = 0 then add_mset c h else h)"
| step_release: "c \<in># h \<Longrightarrow> cm_step (m, h) (cm_release c m, h - {#c#})"
| step_flush: "flush_i m = (r, m') \<Longrightarrow> cm_step (m, h) (m', h)"
| step_flush_all: "flush_all m = Some m' \<Longrightarrow> cm_step (m, h) (m', h)"

definition cm_inv :: "'k::linorder cache_manager \<times> addr multiset \<Rightarrow> bool" where
  "cm_inv p \<longleftrightarrow> cm_ok (fst p) \<and> set_mset (snd p) \<subseteq> cm_live (fst p)
     \<and> (\<forall>c \<in> cm_live (fst p). co_refcount (cobj (fst p) c) = int (count (snd p) c))"

lemma held_survives:
  assumes "cm_inv (m, h)" "outlived m m'" "c \<in># h"
  shows "c \<in> cm_live m'"
proof -
  have c: "c \<in> cm_live m" using assms(1,3) by (auto simp: cm_inv_def)
  then have "co_refcount (cobj m c) \<noteq> 0" "c < cm_fresh m" using assms(1,3) by (simp_all add: cm_inv_def cm_live_def)
  then have "c \<notin> set (cm_destroyed m')" using assms(2) c by (auto simp: outlived_def cm_live_def)
  then show ?thesis using c assms(2) by (auto simp: cm_live_def outlived_def)
qed

lemma inv_outlived:
  assumes "cm_inv (m, h)" "cm_ok m'" "outlived m m'" "cm_live m' \<subseteq> cm_live m"
  shows "cm_inv (m', h)"
proof -
  have "co_refcount (cobj m' c) = int (count h c)" if "c \<in> cm_live m'" for c
  proof -
    have "c \<in> cm_live m" using assms(4) that by blast
    then show ?thesis using assms(1,3) by (auto simp: cm_inv_def outlived_def cm_live_def)
  qed
  then show ?thesis using assms(2) held_survives [OF assms(1,3)] by (auto simp: cm_inv_def)
qed

lemma inv_flushed: "cm_inv (m, h) \<Longrightarrow> flushed m m' \<Longrightarrow> cm_inv (m', h)"
  using inv_outlived flushed_ok flushed_outlived flushed_live by metis

lemma inv_acquired:
  assumes "cm_inv (m, h)" "cm_ok m'" "cm_live m' = cm_live m" "c \<in> cm_live m"
    "cobjs (pqueue m') = (cobjs (pqueue m))(c := acquire (cobj m c))"
  shows "cm_inv (m', add_mset c h)"
  using assms by (auto simp: cm_inv_def)

lemma get_i_inv:
  assumes inv: "cm_inv (m, h)" and g: "get_i k m = (c, m')"
  shows "cm_inv (m', if c = null then h else add_mset c h)"
proof -
  have ok: "cm_ok m" using inv by (simp add: cm_inv_def)
  have objs: "set (cm_objs m) \<subseteq> cm_live m" and n: "null \<notin> cm_live m" using ok by (auto simp: cm_ok_def cm_live_def)
  show ?thesis
  proof (cases "cache_map m k")
    case None
    show ?thesis
    proof (cases "map_of (pending_list m) k")
      case None': (Some a)
      then have "a \<in> cm_live m" using objs by (force simp: cm_objs_def dest: map_of_SomeD)
      then show ?thesis
        using inv_acquired [OF inv get_i_pending(2) [OF ok None None'], of a] get_i_pending(1) [OF ok None None'] g n by auto
    qed (use get_i_missing [OF None] g inv in auto)
  next
    case (Some a)
    then have "(k, a) \<in> set (content m)" using ok by (auto simp: cm_ok_def dest: map_of_SomeD)
    then obtain es gs where s: "content m = es @ (k, a) # gs" by (auto simp: in_set_conv_decomp)
    then have a: "a \<in> cm_live m" using objs by (simp add: cm_objs_def)
    obtain m1 where m1: "get_i k m = (a, m1)" "cm_ok m1" "cm_live m1 = cm_live m"
      "cobjs (pqueue m1) = (cobjs (pqueue m))(a := acquire (cobj m a))"
      using get_i_cached [OF ok s] by blast
    then show ?thesis using inv_acquired [OF inv m1(2,3) a m1(4)] g a n by auto
  qed
qed

lemma put_i_inv:
  assumes inv: "cm_inv (m, h)" and p: "put_i k data s ob c0 m = Some (r, c, m')"
  shows "cm_inv (m', if r = 0 then add_mset c h else h)"
proof -
  have ok: "cm_ok m" using inv by (simp add: cm_inv_def)
  consider "put_failed k data s c0 m (r, c, m')" | "put_done k data s m (r, c, m')"
    using put_i_ok [OF ok, of k data s ob c0] p by auto
  then show ?thesis
  proof cases
    case 1
    then show ?thesis using inv_outlived [OF inv] by (auto simp: put_failed_def)
  next
    case 2
    then have d: "r = 0" "c = cm_fresh m" "cm_ok m'" "outlived m m'" "cm_live m' \<subseteq> insert c (cm_live m)" "c \<in> cm_live m'"
      "co_refcount (cobj m' c) = 1" by (auto simp: put_done_def)
    have nl: "c \<notin> cm_live m" using d(2) by (simp add: cm_live_def)
    then have nh: "count h c = 0" using inv by (auto simp: cm_inv_def count_eq_zero_iff)
    have "co_refcount (cobj m' x) = int (count h x)" if "x \<in> cm_live m'" "x \<noteq> c" for x
    proof -
      have "x \<in> cm_live m" using that d(5) by blast
      then show ?thesis using inv d(4) by (auto simp: cm_inv_def outlived_def cm_live_def)
    qed
    then show ?thesis using d(1,3,6,7) nh held_survives [OF inv d(4)] by (auto simp: cm_inv_def)
  qed
qed

lemma flush_all_ok:
  assumes "cm_ok m"
  shows "\<exists>m'. flush_all m = Some m' \<and> flushed m m' \<and> content m' = [] \<and> (\<forall>e \<in> set (pending_list m'). \<not> unused m e)"
proof -
  obtain r m1 where p: "flush_pending_objs m = (r, m1)" by fastforce
  note f = flush_pending_ok [OF assms p]
  have u: "unused m1 = unused m" using f(1) by (simp add: flushed_def unused_def fun_eq_iff)
  then have "\<forall>e \<in> set (pending_list m1). \<not> unused m1 e" using f(6) by simp
  then obtain m' where "flush_all_loop m1 = Some m'" "flushed m1 m'" "content m' = []" "\<forall>e \<in> set (pending_list m'). \<not> unused m e"
    using flush_all_loop_ok [OF flushed_ok [OF f(1)]] u by auto
  then show ?thesis using p flushed_trans [OF f(1)] by (auto simp: flush_all_def)
qed

lemma cm_step_inv: "cm_step p p' \<Longrightarrow> cm_inv p \<Longrightarrow> cm_inv p'"
proof (induction rule: cm_step.induct)
  case (step_get k m c m' h)
  then show ?case by (simp add: get_i_inv)
next
  case (step_put k data s ob m r c m' h)
  then show ?case by (simp add: put_i_inv)
next
  case (step_release c h m)
  then have c: "cm_ok m" "c \<in> cm_live m" by (auto simp: cm_inv_def)
  have "cm_live (cm_release c m) = cm_live m" by (simp add: cm_release_def)
  then show ?case
    using step_release cm_release_ok(1) [OF c(1), of c]
    by (auto simp: cm_inv_def cm_release_def cobj_release_def dest: in_diffD)
next
  case (step_flush m r m' h)
  have "cm_ok m" using step_flush(2) by (simp add: cm_inv_def)
  from inv_flushed [OF step_flush(2) flush_i_ok(1) [OF this step_flush(1)]] show ?case .
next
  case (step_flush_all m m' h)
  have "cm_ok m" using step_flush_all(2) by (simp add: cm_inv_def)
  then have "flushed m m'" using flush_all_ok [of m] step_flush_all(1) by auto
  then show ?case using inv_flushed [OF step_flush_all(2)] by blast
qed

lemma cm_new_ok: "cm_ok (cm_new objs items mn mx hi lo cof)"
proof -
  have "cd_content (cd_new objs items) = []" "cd_ok (cd_new objs items)"
    using cd_content_rep [OF cd_new_rep, of objs items] cd_rep_ok [OF cd_new_rep, of objs items] by simp_all
  then show ?thesis by (simp add: cm_ok_def cm_new_def cm_objs_def cm_live_def)
qed

lemma cm_new_inv: "cm_inv (cm_new objs items mn mx hi lo cof, {#})"
  using cm_new_ok [of objs items mn mx hi lo cof] by (auto simp: cm_inv_def cm_live_def cm_new_def)

section \<open>Properties\<close>

definition cm_demo :: "int \<Rightarrow> nat cache_manager" where
  "cm_demo hi = cm_new (\<lambda>_. cobj_new LRU null 0 null) (\<lambda>_. \<lparr>obj_id = 0, cd_cobj = null, cd_prev = null, cd_next = null\<rparr>)
     1 100 hi 1 None"

lemma cm_demo_ok: "cm_ok (cm_demo hi)" "cd_content (pqueue (cm_demo hi)) = []" "pending_list (cm_demo hi) = []"
proof -
  show "cm_ok (cm_demo hi)" unfolding cm_demo_def by (rule cm_new_ok)
  show "cd_content (pqueue (cm_demo hi)) = []" "pending_list (cm_demo hi) = []"
    using cd_content_rep [OF cd_new_rep] by (simp_all add: cm_demo_def cm_new_def)
qed

lemma cm_demo_put: "\<exists>m'. put_i 5 7 10 null 9 (cm_demo 1) = Some (0, 1, m')"
  by (simp add: put_i_def make_cobj_def cm_demo_def cm_new_def megabytes_def cd_new_def factory_create_def
      cd_insert_def set_cobj_def alloc_item_def Let_def)

text \<open>C25: In every sequence of lookups, insertions, releases and flushes on a new cache: an object
  that a client holds has not been destroyed, reference counts are the numbers of references
  held, no object is destroyed twice, the map and the deque agree, every cached or pending
  object is alive, and the water mark is the number of bytes of the objects alive.\<close>

theorem cache_runs_safe:
  assumes "cm_step\<^sup>*\<^sup>* (cm_new objs items mn mx hi lo cof, {#}) (m, h)"
  shows "set_mset h \<subseteq> cm_live m \<and> (\<forall>c \<in> cm_live m. co_refcount (cobjs (pqueue m) c) = int (count h c))
     \<and> distinct (cm_destroyed m) \<and> cache_map m = map_of (cd_content (pqueue m))
     \<and> snd ` set (cd_content (pqueue m)) \<union> snd ` set (pending_list m) \<subseteq> cm_live m
     \<and> water_mark m = (\<Sum>c \<in> cm_live m. co_size (cobjs (pqueue m) c))"
proof -
  have "cm_inv (m, h)"
    using assms by (induction rule: rtranclp_induct2) (auto simp: cm_new_inv intro: cm_step_inv)
  then show ?thesis by (auto simp: cm_inv_def cm_ok_def cm_objs_def)
qed

theorem cache_runs_safe_witness:
  "\<exists>m. cm_step\<^sup>*\<^sup>* (cm_demo 1, {#}) (m, {#1#}) \<and> 1 \<notin> set (cm_destroyed m) \<and> co_refcount (cobjs (pqueue m) 1) = 1"
proof -
  obtain m where "put_i 5 7 10 null 9 (cm_demo 1) = Some (0, 1, m)" using cm_demo_put by blast
  from step_put [OF this, of "{#}"] have s: "cm_step\<^sup>*\<^sup>* (cm_demo 1, {#}) (m, {#1#})" by auto
  then show ?thesis using cache_runs_safe [OF s [unfolded cm_demo_def]] by (auto simp: cm_live_def)
qed

text \<open>C26: Insertion always returns. On success the new object is the youngest entry, entries were
  evicted only from the least recently used end, the size limits hold and the cache is within
  the high mark, or within the low mark before the new object was counted. It fails only for null
  data, for a size outside the limits, when flushing was needed, or for a key that is cached. On
  failure no entry was added, and the caller's pointer is as it was, or null if the key is in the
  cache; null data and a wrong size change nothing, and so do not remove the key as
  \<^verbatim>\<open>cache_manager.h\<close> says.\<close>

theorem cache_put_correct:
  assumes "cm_ok m"
  shows "\<exists>r c m' n. put_i k data s ob c0 m = Some (r, c, m') \<and> cm_ok m' \<and>
    (if r = 0
     then cd_content (pqueue m') = drop n (cd_content (pqueue m)) @ [(k, c)] \<and> co_refcount (cobjs (pqueue m') c) = 1
       \<and> co_data (cobjs (pqueue m') c) = data \<and> co_size (cobjs (pqueue m') c) = s \<and> c \<notin> cm_live m
       \<and> cobj_min_size m \<le> s \<and> s \<le> cobj_max_size m
       \<and> (water_mark m' \<le> high_water_mark m \<or> water_mark m' - s \<le> low_water_mark m)
     else r = -1 \<and> cd_content (pqueue m') = drop n (cd_content (pqueue m)) \<and> cm_live m' \<subseteq> cm_live m
       \<and> (c = c0 \<or> c = null \<and> cache_map m' k \<noteq> None)
       \<and> (if data = null \<or> cobj_max_size m < s \<or> s < cobj_min_size m then c = c0 \<and> m' = m
          else high_water_mark m < s + water_mark m \<or> cache_map m k \<noteq> None))"
proof -
  obtain r c m' where p: "put_i k data s ob c0 m = Some (r, c, m')"
    "put_failed k data s c0 m (r, c, m') \<or> put_done k data s m (r, c, m')"
    using put_i_ok [OF assms, of k data s ob c0] by (metis prod_cases3)
  have "c \<notin> cm_live m" if "c = cm_fresh m" using that by (simp add: cm_live_def)
  then show ?thesis using p by (auto simp: put_failed_def put_done_def put_refused_def)
qed

theorem cache_put_correct_witness:
  "\<exists>m'. put_i 5 7 10 null 9 (cm_demo 1) = Some (0, 1, m') \<and> cd_content (pqueue m') = [(5, 1)]"
proof -
  obtain m where "put_i 5 7 10 null 9 (cm_demo 1) = Some (0, 1, m)" using cm_demo_put by blast
  with cache_put_correct [OF cm_demo_ok(1) [of 1], of 5 7 10 null 9] cm_demo_ok(2) [of 1] show ?thesis by auto
qed

text \<open>Lookup. A cached entry becomes the most recently used one and its object gets one more
  reference; otherwise a pending object is revived; otherwise null is returned and nothing
  changes.\<close>

theorem cache_get_correct:
  assumes "cm_ok m" "get_i k m = (c, m')"
  shows "cm_ok m' \<and>
    (case map_of (cd_content (pqueue m)) k of
       Some c' \<Rightarrow> c = c' \<and> cd_content (pqueue m') = filter (\<lambda>e. fst e \<noteq> k) (cd_content (pqueue m)) @ [(k, c)]
         \<and> co_refcount (cobjs (pqueue m') c) = co_refcount (cobjs (pqueue m) c) + 1
     | None \<Rightarrow>
        (case map_of (pending_list m) k of
           Some c' \<Rightarrow> c = c' \<and> cd_content (pqueue m') = cd_content (pqueue m)
             \<and> co_refcount (cobjs (pqueue m') c) = co_refcount (cobjs (pqueue m) c) + 1
         | None \<Rightarrow> c = null \<and> m' = m))"
proof -
  have mp: "cache_map m = map_of (content m)" and dk: "distinct (map fst (content m))" using assms(1) by (simp_all add: cm_ok_def)
  show ?thesis
  proof (cases "map_of (content m) k")
    case None
    then have n: "cache_map m k = None" using mp by simp
    show ?thesis
      using None assms get_i_missing [OF n] get_i_pending [OF assms(1) n] by (cases "map_of (pending_list m) k") auto
  next
    case (Some a)
    then obtain es gs where s: "content m = es @ (k, a) # gs" by (metis map_of_SomeD in_set_conv_decomp)
    then have "filter (\<lambda>e. fst e \<noteq> k) es = es" "filter (\<lambda>e. fst e \<noteq> k) gs = gs"
      using dk by (force simp: filter_id_conv)+
    then have "filter (\<lambda>e. fst e \<noteq> k) (content m) = es @ gs" using s by simp
    moreover obtain m1 where "get_i k m = (a, m1)" "cm_ok m1" "content m1 = es @ gs @ [(k, a)]"
      "cobjs (pqueue m1) = (cobjs (pqueue m))(a := acquire (cobj m a))"
      using get_i_cached [OF assms(1) s] by blast
    ultimately show ?thesis using Some assms(2) by simp
  qed
qed

theorem cache_get_correct_witness:
  "\<exists>m m'. put_i 5 7 10 null 9 (cm_demo 1) = Some (0, 1, m) \<and> get_i 5 m = (1, m')
     \<and> cd_content (pqueue m') = [(5, 1)] \<and> co_refcount (cobjs (pqueue m') 1) = 2"
proof -
  obtain m where m: "put_i 5 7 10 null 9 (cm_demo 1) = Some (0, 1, m)" using cm_demo_put by blast
  then have "put_done 5 7 10 (cm_demo 1) (0, 1, m)"
    using put_i_ok [OF cm_demo_ok(1) [of 1], of 5 7 10 null 9] by (auto simp: put_failed_def)
  then have d: "cm_ok m" "cd_content (pqueue m) = [(5, 1)]" "co_refcount (cobjs (pqueue m) 1) = 1"
    using cm_demo_ok(2) [of 1] by (auto simp: put_done_def)
  obtain c m' where "get_i 5 m = (c, m')" by fastforce
  with cache_get_correct [OF d(1), of 5 c m'] d(2,3) m show ?thesis by auto
qed

text \<open>\<^verbatim>\<open>flush_all\<close> returns; afterwards the cache is empty, the objects it destroyed were not
  referenced, and what is left in the pending list is still referenced.\<close>

theorem cache_flush_all_correct:
  assumes "cm_ok m"
  shows "\<exists>m'. flush_all m = Some m' \<and> cm_ok m' \<and> cd_content (pqueue m') = [] \<and> cache_map m' = Map.empty
    \<and> (\<forall>c \<in> set (cm_destroyed m') - set (cm_destroyed m). co_refcount (cobjs (pqueue m) c) = 0)
    \<and> (\<forall>(k, c) \<in> set (pending_list m'). co_refcount (cobjs (pqueue m) c) \<noteq> 0)"
proof -
  obtain m' where "flush_all m = Some m'" "flushed m m'" "content m' = []" "\<forall>e \<in> set (pending_list m'). \<not> unused m e"
    using flush_all_ok [OF assms] by blast
  then show ?thesis by (auto simp: flushed_def cm_ok_def unused_def)
qed

theorem cache_flush_all_correct_witness: "\<exists>m'. flush_all (cm_demo 1) = Some m' \<and> cache_map m' = Map.empty"
  using cache_flush_all_correct [OF cm_demo_ok(1) [of 1]] by blast

text \<open>Finding. When the oldest entry is evicted while it is referenced and another object with
  the same key is already pending, the object is put neither into the map, nor the deque, nor
  the pending list, and its bytes stay on the water mark: no later flush can destroy it.\<close>

theorem cache_evict_leaks:
  assumes "cm_ok m" "cd_content (pqueue m) = (k, c) # es" "co_refcount (cobjs (pqueue m) c) \<noteq> 0"
    "cd_remove (pqueue m) = (Some (k, c), d)" "k \<in> fst ` set (pending_list m)"
  shows "c \<notin> set (cm_objs (evict k c d m)) \<and> c \<in> cm_live (evict k c d m) \<and> water_mark (evict k c d m) = water_mark m"
proof -
  have d: "cd_content d = es" "cobjs d = cobjs (pqueue m)"
    using cd_remove_content(2) [OF _ assms(2)] assms(1,4) by (auto simp: cm_ok_def)
  have "sorted_wrt (<) (map fst (pending_list m))" "c \<notin> snd ` set es" "c \<notin> snd ` set (pending_list m)" "c \<in> cm_live m"
    using assms(1,2) by (auto simp: cm_ok_def cm_objs_def image_iff)
  then show ?thesis
    using assms(3,5) d map_insert_props(3) [of "pending_list m" k c]
    by (simp add: cm_objs_def cm_live_def evict_def drop_i_def Let_def)
qed

definition cm_leak :: "nat cache_manager" where
  "cm_leak = (cm_demo 1)\<lparr>water_mark := 84, cache_map := map_of [(100, 11), (200, 12)],
     pqueue := (cd_demo null)\<lparr>cobjs := (\<lambda>c. (cobj_new LRU 5 7 null)\<lparr>co_proxy := c - 10, co_refcount := 1\<rparr>)\<rparr>,
     pending_list := [(100, 1)], cm_fresh := 13\<rparr>"

lemma cm_leak_ok: "cm_ok cm_leak" "cd_content (pqueue cm_leak) = [(100, 11), (200, 12)]"
proof -
  have r: "cd_rep (pqueue cm_leak) [1, 2] []"
    by (simp add: cm_leak_def cd_rep_def cd_demo_def dll_def inx_def ipv_def)
  then show c: "cd_content (pqueue cm_leak) = [(100, 11), (200, 12)]"
    by (simp add: cd_content_rep entry_of_def) (simp add: cm_leak_def cd_demo_def)
  have l: "cm_live cm_leak = {1..<13}" by (simp add: cm_live_def cm_leak_def cm_demo_def cm_new_def)
  show "cm_ok cm_leak"
    using cd_rep_ok [OF r] c l by (simp add: cm_ok_def cm_objs_def) (auto simp: cm_leak_def cobj_new_def cm_demo_def cm_new_def)
qed

theorem cache_evict_leaks_witness:
  "\<exists>d. cd_remove (pqueue cm_leak) = (Some (100, 11), d) \<and> 11 \<notin> set (cm_objs (evict 100 11 d cm_leak))
     \<and> 11 \<in> cm_live (evict 100 11 d cm_leak)"
proof -
  have "cd_ok (pqueue cm_leak)" using cm_leak_ok(1) by (simp add: cm_ok_def)
  then obtain d where d: "cd_remove (pqueue cm_leak) = (Some (100, 11), d)"
    using cd_remove_content(2) [OF _ cm_leak_ok(2)] by blast
  have "co_refcount (cobjs (pqueue cm_leak) 11) \<noteq> 0" "100 \<in> fst ` set (pending_list cm_leak)"
    by (simp_all add: cm_leak_def)
  from cache_evict_leaks [OF cm_leak_ok this(1) d this(2)] d show ?thesis by blast
qed

text \<open>Finding. The high mark in bytes is computed in 32-bit arithmetic: with a limit of 4096
  megabytes it is zero, and the cache refuses every object.\<close>

theorem cache_mark_overflow:
  assumes "s \<noteq> 0"
  shows "\<exists>m. put_i k data s ob c0 (cm_new objs items mn mx 4096 lo cof) = Some (-1, c0, m)"
proof (cases "data = null \<or> word_of_int mx < s \<or> s < word_of_int mn")
  case True
  then show ?thesis by (auto simp: put_i_def make_cobj_def cm_new_def)
next
  case False
  let ?m = "cm_new objs items mn mx 4096 lo cof"
  have "flush_i ?m = (-1, ?m)" by (simp add: flush_i_def flush_pending_objs_def cm_new_def cd_remove_def cd_new_def)
  then have "flush_until ?m = Some (-1, ?m)" by (subst flush_until.simps) simp
  moreover have "high_water_mark ?m < s + water_mark ?m"
    using assms by (simp add: cm_new_def megabytes_def word_neq_0_conv)
  ultimately have "make_cobj data s ob c0 ?m = Some (-1, c0, ?m)"
    using False by (auto simp: make_cobj_def cm_new_def)
  then show ?thesis using False by (simp add: put_i_def)
qed

theorem cache_mark_overflow_witness: "\<exists>m. put_i 5 7 10 null 9 (cm_demo 4096) = Some (-1, 9, m)"
  unfolding cm_demo_def by (rule cache_mark_overflow) simp

end
