(* ===== verification/CacheHeap.thy ===== *)
theory CacheHeap
  imports BinHeap CacheDeque
begin

text \<open>
  \<^verbatim>\<open>ndk/cache_heap.h\<close>: cache objects in a binary heap, for replacement by priority (the least frequently
  used object first). An item of the heap names a key and an object; its priority is that of the
  object, read whenever the heap compares items. Items not in use are on a free list.
\<close>

section \<open>State and operations\<close>

record 'k ch_item =
  chi_key :: 'k
  chi_cobj :: addr
  chi_next :: addr

record 'k cache_heap =
  ch_kind :: heap_kind
  free_heap_items :: addr
  ch_heap :: bin_heap
  ch_items :: "addr \<Rightarrow> 'k ch_item"
  ch_fresh :: addr
  ch_cobjs :: "addr \<Rightarrow> cache_object"

definition ch_priority :: "'k cache_heap \<Rightarrow> addr \<Rightarrow> int" where
  "ch_priority c a = cobj_priority (ch_cobjs c (chi_cobj (ch_items c a)))"

text \<open>The heap as its comparisons see it now.\<close>

definition ch_view :: "'k cache_heap \<Rightarrow> bin_heap" where
  "ch_view c = (ch_heap c)\<lparr>priority := ch_priority c\<rparr>"

definition ch_new :: "(addr \<Rightarrow> cache_object) \<Rightarrow> (addr \<Rightarrow> 'k ch_item) \<Rightarrow> int \<Rightarrow> int \<Rightarrow> 'k cache_heap option" where
  "ch_new objs items min_or_max max_size =
     map_option (\<lambda>h. \<lparr>ch_kind = (if min_or_max = 0 then MinHeap else MaxHeap), free_heap_items = null, ch_heap = h,
       ch_items = items, ch_fresh = 1, ch_cobjs = objs\<rparr>) (hp_new max_size (\<lambda>_. -1) (\<lambda>_. 0))"

definition ch_is_empty :: "'k cache_heap \<Rightarrow> bool" where
  "ch_is_empty c \<longleftrightarrow> hp_is_empty (ch_heap c)"

definition ch_is_full :: "'k cache_heap \<Rightarrow> bool" where
  "ch_is_full c \<longleftrightarrow> hp_is_full (ch_heap c)"

definition set_heap_idx :: "addr \<Rightarrow> int \<Rightarrow> 'k cache_heap \<Rightarrow> 'k cache_heap" where
  "set_heap_idx a i c = c\<lparr>ch_heap := (ch_heap c)\<lparr>heap_idx := (heap_idx (ch_heap c))(a := i)\<rparr>\<rparr>"

text \<open>The constructor of an item and \<^verbatim>\<open>reset\<close> set the same fields.\<close>

definition chi_reset :: "addr \<Rightarrow> 'k \<Rightarrow> addr \<Rightarrow> 'k cache_heap \<Rightarrow> 'k cache_heap" where
  "chi_reset a key cobj c = set_heap_idx a (-1)
     (c\<lparr>ch_items := (ch_items c)(a := \<lparr>chi_key = key, chi_cobj = cobj, chi_next = null\<rparr>),
       ch_cobjs := (ch_cobjs c)(cobj := (ch_cobjs c cobj)\<lparr>co_proxy := a\<rparr>)\<rparr>)"

definition ch_alloc_item :: "'k \<Rightarrow> addr \<Rightarrow> 'k cache_heap \<Rightarrow> addr \<times> 'k cache_heap" where
  "ch_alloc_item key cobj c =
     (if free_heap_items c = null
      then (ch_fresh c, chi_reset (ch_fresh c) key cobj (c\<lparr>ch_fresh := Suc (ch_fresh c)\<rparr>))
      else (let item = free_heap_items c
            in (item, chi_reset item key cobj (c\<lparr>free_heap_items := chi_next (ch_items c item)\<rparr>))))"

definition ch_release_item :: "addr \<Rightarrow> 'k cache_heap \<Rightarrow> 'k cache_heap" where
  "ch_release_item item c =
     (if item = null then c
      else (set_heap_idx item (-1)
             (c\<lparr>ch_items := (ch_items c)(item := (ch_items c item)\<lparr>chi_next := free_heap_items c\<rparr>)\<rparr>))
             \<lparr>free_heap_items := item\<rparr>)"

definition ch_push :: "addr \<Rightarrow> 'k cache_heap \<Rightarrow> fault + (int \<times> 'k cache_heap)" where
  "ch_push item c = map_sum id (\<lambda>(v, h). (v, c\<lparr>ch_heap := h\<rparr>)) (push (ch_kind c) item (ch_view c))"

definition ch_insert :: "'k \<Rightarrow> addr \<Rightarrow> 'k cache_heap \<Rightarrow> fault + (int \<times> 'k cache_heap)" where
  "ch_insert key cobj c =
     (if ch_is_full c then Inr (-1, c)
      else if cobj = null then Inl NullDeref
      else (let (item, c1) = ch_alloc_item key cobj c in ch_push item c1))"

text \<open>The removal of the first item: -1 when there is none, else its key and object.\<close>

definition ch_remove :: "'k cache_heap \<Rightarrow> fault + (('k \<times> addr) option \<times> 'k cache_heap)" where
  "ch_remove c =
     (case pop_idx (ch_kind c) 0 (ch_view c) of
        Inl f \<Rightarrow> Inl f
      | Inr (item, h) \<Rightarrow>
          (let c1 = c\<lparr>ch_heap := h\<rparr> in
           if item = null then Inr (None, c1)
           else Inr (Some (chi_key (ch_items c1 item), chi_cobj (ch_items c1 item)), ch_release_item item c1)))"

definition ch_remove_item :: "addr \<Rightarrow> 'k cache_heap \<Rightarrow> fault + (int \<times> 'k cache_heap)" where
  "ch_remove_item item c =
     (if item = null then Inr (-1, c)
      else (let ob = chi_cobj (ch_items c item);
                c1 = c\<lparr>ch_cobjs := (ch_cobjs c)(ob := (ch_cobjs c ob)\<lparr>co_proxy := null\<rparr>)\<rparr>
            in case erase (ch_kind c1) item (ch_view c1) of
                 Inl f \<Rightarrow> Inl f
               | Inr (v, h) \<Rightarrow>
                   (let c2 = c1\<lparr>ch_heap := h\<rparr>
                    in if v = 0 then Inr (0, ch_release_item item c2) else Inr (-1, c2))))"

text \<open>\<^verbatim>\<open>adjust\<close> takes the item out, counts the use of its object and puts it back.\<close>

definition ch_adjust :: "addr \<Rightarrow> 'k cache_heap \<Rightarrow> fault + (int \<times> 'k cache_heap)" where
  "ch_adjust item c =
     (if item = null then Inr (-1, c)
      else (case erase (ch_kind c) item (ch_view c) of
              Inl f \<Rightarrow> Inl f
            | Inr (_, h) \<Rightarrow>
                (let ob = chi_cobj (ch_items c item)
                 in ch_push item (c\<lparr>ch_heap := h, ch_cobjs := (ch_cobjs c)(ob := acquire (ch_cobjs c ob))\<rparr>))))"

text \<open>The destructor: pop until the heap is empty, then delete the free list; the result lists the
  deleted items.\<close>

function ch_pop_all :: "'k cache_heap \<Rightarrow> 'k cache_heap" where
  "ch_pop_all c =
     (if hp_size (ch_heap c) = 0 then c
      else ch_pop_all (ch_release_item (fst (pop (ch_kind c) (ch_view c))) (c\<lparr>ch_heap := snd (pop (ch_kind c) (ch_view c))\<rparr>)))"
  by pat_completeness auto

lemma ch_release_size [simp]: "hp_size (ch_heap (ch_release_item a c)) = hp_size (ch_heap c)"
  by (simp add: ch_release_item_def set_heap_idx_def)

termination ch_pop_all
  by (relation "measure (\<lambda>c. hp_size (ch_heap c))") (auto simp: pop_size ch_view_def)

declare ch_pop_all.simps [simp del]

partial_function (option) ch_delete_free :: "addr \<Rightarrow> (addr \<Rightarrow> 'k ch_item) \<Rightarrow> addr list option" where
  "ch_delete_free item items =
     (if item = null then Some []
      else Option.bind (ch_delete_free (chi_next (items item)) items) (\<lambda>ds. Some (item # ds)))"

definition ch_destroy :: "'k cache_heap \<Rightarrow> addr list option" where
  "ch_destroy c = (let c1 = ch_pop_all c in ch_delete_free (free_heap_items c1) (ch_items c1))"

section \<open>Invariant\<close>

definition ch_used :: "'k cache_heap \<Rightarrow> addr set" where
  "ch_used c = set_mset (hp_items (ch_heap c))"

definition chx :: "'k cache_heap \<Rightarrow> addr \<Rightarrow> addr" where
  "chx c = (\<lambda>a. chi_next (ch_items c a))"

text \<open>The heap is in order, \<open>fs\<close> is the free list, \<open>hand\<close> are items in the hands of a running operation, and
  these are all the items there are.\<close>

definition ch_rep :: "'k cache_heap \<Rightarrow> addr list \<Rightarrow> addr set \<Rightarrow> bool" where
  "ch_rep c fs hand \<longleftrightarrow> hp_ok (ch_kind c) (ch_view c) \<and> chain (chx c) (free_heap_items c) fs null
     \<and> set fs \<inter> ch_used c = {} \<and> hand \<inter> (set fs \<union> ch_used c) = {} \<and> set fs \<union> ch_used c \<union> hand = {0<..<ch_fresh c} \<and> 0 < ch_fresh c"

text \<open>Different items hold different objects, and each object knows its item.\<close>

definition obj_ok :: "'k cache_heap \<Rightarrow> addr set \<Rightarrow> bool" where
  "obj_ok c A \<longleftrightarrow> (\<forall>a \<in> A. chi_cobj (ch_items c a) \<noteq> null \<and> co_proxy (ch_cobjs c (chi_cobj (ch_items c a))) = a)"

definition ch_ok :: "'k cache_heap \<Rightarrow> bool" where
  "ch_ok c \<longleftrightarrow> (\<exists>fs. ch_rep c fs {}) \<and> obj_ok c (ch_used c)"

definition ch_entry :: "'k cache_heap \<Rightarrow> addr \<Rightarrow> 'k \<times> addr" where
  "ch_entry c a = (chi_key (ch_items c a), chi_cobj (ch_items c a))"

definition ch_content :: "'k cache_heap \<Rightarrow> ('k \<times> addr) multiset" where
  "ch_content c = image_mset (ch_entry c) (hp_items (ch_heap c))"

text \<open>An object that the heap gives out no later than another one.\<close>

definition ch_before :: "'k cache_heap \<Rightarrow> addr \<Rightarrow> addr \<Rightarrow> bool" where
  "ch_before c ob ob' \<longleftrightarrow>
     (case ch_kind c of MinHeap \<Rightarrow> cobj_priority (ch_cobjs c ob) \<le> cobj_priority (ch_cobjs c ob')
      | MaxHeap \<Rightarrow> cobj_priority (ch_cobjs c ob') \<le> cobj_priority (ch_cobjs c ob))"

lemma hp_items_pri [simp]: "hp_items (h\<lparr>priority := p\<rparr>) = hp_items h"
  by (simp add: hp_items_def)

lemma view_sel [simp]:
  "hp_items (ch_view c) = hp_items (ch_heap c)" "hp_size (ch_view c) = hp_size (ch_heap c)"
  "hp_max_size (ch_view c) = hp_max_size (ch_heap c)" "priority (ch_view c) = ch_priority c"
  by (simp_all add: ch_view_def)

lemma hp_ok_priority:
  assumes "hp_ok k h" "\<And>a. a \<in># hp_items h \<Longrightarrow> p a = priority h a"
  shows "hp_ok k (h\<lparr>priority := p\<rparr>)"
proof -
  have i: "hp_heap h ! i \<in># hp_items h" if "i < hp_size h" for i
    using that assms(1) by (auto simp: hp_items_def hp_ok_def in_set_conv_nth)
  have "par i < hp_size h" if "i < hp_size h" for i using that par_le [of i] by simp
  then have "hp_lt k (h\<lparr>priority := p\<rparr>) (hp_heap h ! i) (hp_heap h ! par i) = hp_lt k h (hp_heap h ! i) (hp_heap h ! par i)"
    if "i < hp_size h" for i using that i assms(2) by (simp add: hp_lt_def split: heap_kind.splits)
  then show ?thesis using assms(1) by (simp add: hp_ok_def heap_on_def)
qed

text \<open>A heap of the cache after its binary heap became \<open>h\<close>.\<close>

lemma view_ok:
  assumes "hp_ok (ch_kind c) h" "\<And>a. a \<in># hp_items h \<Longrightarrow> ch_priority c a = priority h a"
  shows "hp_ok (ch_kind c) (ch_view (c\<lparr>ch_heap := h\<rparr>))"
proof -
  have "ch_priority (c\<lparr>ch_heap := h\<rparr>) = ch_priority c" by (simp add: ch_priority_def fun_eq_iff)
  then show ?thesis using hp_ok_priority [OF assms] by (simp add: ch_view_def)
qed

lemma ch_rep_hand:
  assumes "ch_rep c fs {a}"
  shows "a \<noteq> null" "a \<notin># hp_items (ch_heap c)"
proof -
  have "a \<in> {0<..<ch_fresh c}" using assms unfolding ch_rep_def by blast
  then show "a \<noteq> null" by simp
  show "a \<notin># hp_items (ch_heap c)" using assms by (simp add: ch_rep_def ch_used_def)
qed

lemma ch_push_rep:
  assumes "ch_rep c fs {a}" "hp_size (ch_heap c) < hp_max_size (ch_heap c)"
  obtains h where "ch_push a c = Inr (0, c\<lparr>ch_heap := h\<rparr>)" "ch_rep (c\<lparr>ch_heap := h\<rparr>) fs {}"
    "hp_items h = add_mset a (hp_items (ch_heap c))"
proof -
  have a: "a \<noteq> null" "a \<notin># hp_items (ch_heap c)" "hp_ok (ch_kind c) (ch_view c)"
    using ch_rep_hand [OF assms(1)] assms(1) by (simp_all add: ch_rep_def)
  obtain h where h: "push (ch_kind c) a (ch_view c) = Inr (0, h)" "hp_ok (ch_kind c) h" "hp_items h = add_mset a (hp_items (ch_heap c))"
    "priority h = ch_priority c"
    by (rule push_ok [of "ch_kind c" "ch_view c" a]) (use a assms(2) in auto)
  have "hp_ok (ch_kind c) (ch_view (c\<lparr>ch_heap := h\<rparr>))" by (rule view_ok) (use h in auto)
  then have "ch_rep (c\<lparr>ch_heap := h\<rparr>) fs {}"
    using assms(1) h(3) by (auto simp: ch_rep_def ch_used_def chx_def)
  then show ?thesis using that h by (simp add: ch_push_def)
qed

lemma taken_rep:
  assumes "ch_rep c fs {}" "hp_ok (ch_kind c) h" "hp_items (ch_heap c) = add_mset a (hp_items h)" "priority h = ch_priority c"
  shows "ch_rep (c\<lparr>ch_heap := h\<rparr>) fs {a}" "a \<notin># hp_items h"
proof -
  have "distinct (take (hp_size (ch_heap c)) (hp_heap (ch_heap c)))" using assms(1) by (simp add: ch_rep_def hp_ok_def ch_view_def)
  then have "Multiset.count (hp_items (ch_heap c)) a \<le> 1" by (simp add: hp_items_def distinct_count_atmost_1)
  then show n: "a \<notin># hp_items h" unfolding assms(3) by (auto simp: not_in_iff)
  have "hp_ok (ch_kind c) (ch_view (c\<lparr>ch_heap := h\<rparr>))" by (rule view_ok) (use assms in auto)
  then show "ch_rep (c\<lparr>ch_heap := h\<rparr>) fs {a}"
    using assms(1,3) n by (auto simp: ch_rep_def ch_used_def chx_def)
qed

lemma erase_rep:
  assumes "ch_rep c fs {}" "a \<in># hp_items (ch_heap c)"
  obtains h where "erase (ch_kind c) a (ch_view c) = Inr (0, h)" "ch_rep (c\<lparr>ch_heap := h\<rparr>) fs {a}"
    "hp_items (ch_heap c) = add_mset a (hp_items h)" "hp_size h < hp_max_size h" "a \<notin># hp_items h" "a \<noteq> null"
proof -
  have ok: "hp_ok (ch_kind c) (ch_view c)" using assms(1) by (simp add: ch_rep_def)
  have i: "heap_idx (ch_view c) a \<ge> 0" "nat (heap_idx (ch_view c) a) < hp_size (ch_view c)"
    "hp_heap (ch_view c) ! nat (heap_idx (ch_view c) a) = a" "a \<noteq> null"
    using hp_items_nth [OF _ ok, of a] assms(2) by auto
  obtain h where h: "pop_idx (ch_kind c) (heap_idx (ch_view c) a) (ch_view c) = Inr (a, h)" "hp_ok (ch_kind c) h"
    "hp_items (ch_heap c) = add_mset a (hp_items h)" "priority h = ch_priority c" "hp_max_size h = hp_max_size (ch_view c)"
    "hp_size (ch_view c) = Suc (hp_size h)"
    by (rule pop_idx_ok [OF ok i(2)]) (use i in simp)
  have "hp_size (ch_view c) \<le> hp_max_size (ch_view c)" using ok by (simp add: hp_ok_def)
  then show ?thesis using that [of h] taken_rep [OF assms(1) h(2-4)] h i(4) by (simp add: erase_def)
qed

lemma release_cobj [simp]: "chi_cobj (ch_items (ch_release_item a c) b) = chi_cobj (ch_items c b)"
  by (simp add: ch_release_item_def set_heap_idx_def)

lemma ch_release_rep:
  assumes "ch_rep c fs {a}" "a \<noteq> null"
  shows "ch_rep (ch_release_item a c) (a # fs) {}"
    and "hp_items (ch_heap (ch_release_item a c)) = hp_items (ch_heap c)"
    and "b \<noteq> a \<Longrightarrow> ch_items (ch_release_item a c) b = ch_items c b" "ch_cobjs (ch_release_item a c) = ch_cobjs c"
    and "ch_entry (ch_release_item a c) = ch_entry c"
proof -
  let ?c = "ch_release_item a c"
  show s: "hp_items (ch_heap ?c) = hp_items (ch_heap c)" "b \<noteq> a \<Longrightarrow> ch_items ?c b = ch_items c b" "ch_cobjs ?c = ch_cobjs c"
    "ch_entry ?c = ch_entry c" for b
    using assms(2) by (auto simp: ch_release_item_def set_heap_idx_def ch_entry_def)
  have "ch_priority ?c = ch_priority c" using assms(2) by (auto simp: ch_priority_def ch_release_item_def set_heap_idx_def)
  then have "ch_view ?c = (ch_view c)\<lparr>heap_idx := (heap_idx (ch_view c))(a := -1)\<rparr>"
    using assms(2) by (simp add: ch_view_def ch_release_item_def set_heap_idx_def)
  moreover have "a \<notin># hp_items (ch_view c)" using assms(1) by (auto simp: ch_rep_def ch_used_def)
  ultimately have "hp_ok (ch_kind ?c) (ch_view ?c)"
    using hp_ok_outside [of "ch_kind c" "ch_view c" a] assms by (simp add: ch_rep_def ch_release_item_def set_heap_idx_def)
  moreover have "chx ?c = (chx c)(a := free_heap_items c)" "free_heap_items ?c = a" "ch_fresh ?c = ch_fresh c"
    using assms(2) by (auto simp: chx_def ch_release_item_def set_heap_idx_def)
  moreover have "ch_used ?c = ch_used c" using s(1) by (simp add: ch_used_def)
  ultimately show "ch_rep ?c (a # fs) {}" using assms unfolding ch_rep_def by auto
qed

lemma cobj_priority_proxy [simp]: "cobj_priority (ob\<lparr>co_proxy := a\<rparr>) = cobj_priority ob"
  by (simp add: cobj_priority_def split: cache_kind.split)

lemma ch_entry_heap [simp]: "ch_entry (c\<lparr>ch_heap := h\<rparr>) = ch_entry c"
  by (simp add: ch_entry_def fun_eq_iff)

lemma reset_rep:
  assumes "hp_ok (ch_kind c) (ch_view c)" "a \<notin># hp_items (ch_heap c)"
  shows "hp_ok (ch_kind c) (ch_view (chi_reset a key cobj c))"
proof -
  let ?c = "chi_reset a key cobj c"
  have p: "ch_priority ?c b = ch_priority c b" if "b \<noteq> a" for b
    using that by (simp add: ch_priority_def chi_reset_def set_heap_idx_def)
  have ok: "hp_ok (ch_kind c) ((ch_view c)\<lparr>heap_idx := (heap_idx (ch_view c))(a := -1)\<rparr>)"
    by (rule hp_ok_outside) (use assms in auto)
  have "hp_ok (ch_kind c) ((ch_view c)\<lparr>heap_idx := (heap_idx (ch_view c))(a := -1), priority := ch_priority ?c\<rparr>)"
    by (rule hp_ok_priority [OF ok]) (use assms(2) in \<open>auto intro!: p\<close>)
  then show ?thesis by (simp add: ch_view_def chi_reset_def set_heap_idx_def)
qed

lemma ch_alloc_rep:
  assumes "ch_rep c fs {}" "ch_alloc_item key cobj c = (a, c')"
  obtains fs' where "ch_rep c' fs' {a}" "ch_items c' = (ch_items c)(a := \<lparr>chi_key = key, chi_cobj = cobj, chi_next = null\<rparr>)"
    "ch_cobjs c' = (ch_cobjs c)(cobj := (ch_cobjs c cobj)\<lparr>co_proxy := a\<rparr>)" "hp_items (ch_heap c') = hp_items (ch_heap c)"
    "hp_size (ch_heap c') = hp_size (ch_heap c)" "hp_max_size (ch_heap c') = hp_max_size (ch_heap c)" "ch_kind c' = ch_kind c"
proof (cases fs)
  case Nil
  then have f: "free_heap_items c = null" using assms(1) by (simp add: ch_rep_def)
  let ?c = "c\<lparr>ch_fresh := Suc (ch_fresh c)\<rparr>"
  have a: "a = ch_fresh c" "c' = chi_reset a key cobj ?c" using assms(2) f by (auto simp: ch_alloc_item_def)
  have na: "a \<notin># hp_items (ch_heap c)"
  proof
    assume "a \<in># hp_items (ch_heap c)"
    then have "a \<in> {0<..<ch_fresh c}" using assms(1) unfolding ch_rep_def ch_used_def by blast
    then show False using a(1) by simp
  qed
  have v: "ch_view ?c = ch_view c" by (simp add: ch_view_def ch_priority_def fun_eq_iff)
  have "hp_ok (ch_kind ?c) (ch_view c')" unfolding a(2) by (rule reset_rep) (use assms(1) na v in \<open>simp_all add: ch_rep_def\<close>)
  moreover have "{0<..<Suc (ch_fresh c)} = insert a {0<..<ch_fresh c}" using a(1) assms(1) by (auto simp: ch_rep_def)
  ultimately have "ch_rep c' [] {a}"
    using assms(1) Nil na f unfolding ch_rep_def by (simp add: a(2) chi_reset_def set_heap_idx_def ch_used_def)
  then show ?thesis using that [of "[]"] by (simp add: a(2) chi_reset_def set_heap_idx_def)
next
  case (Cons g gs)
  let ?c = "c\<lparr>free_heap_items := chx c g\<rparr>"
  have f: "free_heap_items c = g" "g \<noteq> null" "chain (chx c) (chx c g) gs null" "g \<notin> set gs"
    using assms(1) Cons chain_distinct [of "chx c" "free_heap_items c" fs] by (auto simp: ch_rep_def)
  have a: "a = g" "c' = chi_reset a key cobj ?c" using assms(2) f by (auto simp: ch_alloc_item_def chx_def Let_def)
  have na: "a \<notin># hp_items (ch_heap c)" using assms(1) Cons a(1) by (auto simp: ch_rep_def ch_used_def)
  have v: "ch_view ?c = ch_view c" by (simp add: ch_view_def ch_priority_def fun_eq_iff)
  have ok: "hp_ok (ch_kind ?c) (ch_view c')" unfolding a(2) by (rule reset_rep) (use assms(1) na v in \<open>simp_all add: ch_rep_def\<close>)
  have "chx c' = (chx c)(a := null)" by (auto simp: chx_def a(2) chi_reset_def set_heap_idx_def)
  then have "chain (chx c') (chx c g) gs null" using f(3,4) a(1) by simp
  moreover have "ch_used c' = ch_used c" "free_heap_items c' = chx c g" "ch_fresh c' = ch_fresh c" "ch_kind c' = ch_kind ?c"
    by (simp_all add: a(2) chi_reset_def set_heap_idx_def ch_used_def)
  moreover have "set gs \<inter> ch_used c = {}" "a \<notin> set gs" "a \<notin> ch_used c" "0 < ch_fresh c" "insert a (set gs \<union> ch_used c) = {0<..<ch_fresh c}"
    using assms(1) f(4) a(1) unfolding ch_rep_def Cons by simp_all
  ultimately have "ch_rep c' gs {a}" using ok by (simp add: ch_rep_def)
  then show ?thesis using that [of gs] by (simp add: a(2) chi_reset_def set_heap_idx_def)
qed

lemma content_cong:
  assumes "hp_items (ch_heap c') = hp_items (ch_heap c)" "\<And>a. a \<in># hp_items (ch_heap c) \<Longrightarrow> ch_entry c' a = ch_entry c a"
  shows "ch_content c' = ch_content c"
  unfolding ch_content_def assms(1) by (rule image_mset_cong) (rule assms(2))

lemma obj_ok_acquire:
  "obj_ok c A \<Longrightarrow> obj_ok (c\<lparr>ch_heap := h, ch_cobjs := (ch_cobjs c)(ob := acquire (ch_cobjs c ob))\<rparr>) A"
  by (simp add: obj_ok_def) blast

section \<open>Properties\<close>

lemma insert_rep:
  assumes "ch_ok c" "cobj \<noteq> null" "\<forall>(k, ob) \<in># ch_content c. ob \<noteq> cobj" "\<not> ch_is_full c"
  obtains c' where "ch_insert key cobj c = Inr (0, c')" "ch_ok c'" "ch_content c' = add_mset (key, cobj) (ch_content c)"
proof -
  obtain fs where fs: "ch_rep c fs {}" using assms(1) by (auto simp: ch_ok_def)
  obtain a c1 where a: "ch_alloc_item key cobj c = (a, c1)" by fastforce
  obtain gs where g: "ch_rep c1 gs {a}" "ch_items c1 = (ch_items c)(a := \<lparr>chi_key = key, chi_cobj = cobj, chi_next = null\<rparr>)"
    "ch_cobjs c1 = (ch_cobjs c)(cobj := (ch_cobjs c cobj)\<lparr>co_proxy := a\<rparr>)" "hp_items (ch_heap c1) = hp_items (ch_heap c)"
    "hp_size (ch_heap c1) = hp_size (ch_heap c)" "hp_max_size (ch_heap c1) = hp_max_size (ch_heap c)"
    by (rule ch_alloc_rep [OF fs a])
  have "hp_size (ch_heap c) \<le> hp_max_size (ch_heap c)" using fs by (simp add: ch_rep_def hp_ok_def)
  then have lt: "hp_size (ch_heap c1) < hp_max_size (ch_heap c1)" using assms(4) g(5,6) by (simp add: ch_is_full_def hp_is_full_def)
  obtain h where h: "ch_push a c1 = Inr (0, c1\<lparr>ch_heap := h\<rparr>)" "ch_rep (c1\<lparr>ch_heap := h\<rparr>) gs {}"
    "hp_items h = add_mset a (hp_items (ch_heap c1))" by (rule ch_push_rep [OF g(1) lt])
  let ?c = "c1\<lparr>ch_heap := h\<rparr>"
  have na: "a \<notin># hp_items (ch_heap c)" using ch_rep_hand [OF g(1)] g(4) by simp
  have nc: "chi_cobj (ch_items c b) \<noteq> cobj" if "b \<in># hp_items (ch_heap c)" for b
    using assms(3) that by (auto simp: ch_content_def ch_entry_def)
  have "obj_ok ?c (ch_used ?c)"
    using assms(1,2) g(2-4) h(3) na nc by (auto simp: ch_ok_def obj_ok_def ch_used_def)
  moreover have "ch_content ?c = add_mset (key, cobj) (ch_content c)"
    using h(3) g(2,4) na by (auto simp: ch_content_def ch_entry_def intro!: image_mset_cong)
  ultimately show ?thesis using that [of ?c] assms(2,4) a h(1,2) by (auto simp: ch_insert_def ch_ok_def)
qed

text \<open>Inserting refuses only when the heap is full; otherwise it adds exactly the key with its object,
  keeps the heap in order and makes the item the object's proxy.\<close>

theorem cache_heap_insert_correct:
  assumes "ch_ok c" "cobj \<noteq> null" "\<forall>(k, ob) \<in># ch_content c. ob \<noteq> cobj"
  shows "if ch_is_full c then ch_insert key cobj c = Inr (-1, c)
    else \<exists>c'. ch_insert key cobj c = Inr (0, c') \<and> ch_ok c' \<and> ch_content c' = add_mset (key, cobj) (ch_content c)"
proof (cases "ch_is_full c")
  case False
  then show ?thesis using insert_rep [OF assms False, of key] by (metis (no_types))
qed (simp add: ch_insert_def)

text \<open>C38: Removing the first item takes out an object that no other precedes: in a min heap of LFU objects,
  one used least often. It returns the key and the object, and exactly this entry is gone.\<close>

theorem cache_heap_evicts_first:
  assumes "ch_ok c"
  shows "if ch_is_empty c then ch_remove c = Inr (None, c\<lparr>ch_heap := ch_view c\<rparr>)
    else \<exists>key ob c'. ch_remove c = Inr (Some (key, ob), c') \<and> ch_content c = add_mset (key, ob) (ch_content c') \<and> ch_ok c'
      \<and> (\<forall>(k, ob') \<in># ch_content c. ch_before c ob ob')"
proof (cases "ch_is_empty c")
  case True
  then have "hp_size (ch_heap c) = 0" by (simp add: ch_is_empty_def hp_is_empty_def)
  then show ?thesis using True by (cases "ch_kind c") (simp_all add: ch_remove_def pop_idx_def min_pop_idx_def max_pop_idx_def)
next
  case False
  obtain fs where fs: "ch_rep c fs {}" using assms by (auto simp: ch_ok_def)
  have ok: "hp_ok (ch_kind c) (ch_view c)" and sz: "0 < hp_size (ch_view c)"
    using fs False by (simp_all add: ch_rep_def ch_is_empty_def hp_is_empty_def)
  obtain a h where p: "pop (ch_kind c) (ch_view c) = (a, h)" by fastforce
  have r: "\<forall>b \<in># hp_items (ch_heap c). \<not> hp_lt (ch_kind c) (ch_view c) b a" "hp_ok (ch_kind c) h"
    "hp_items (ch_heap c) = add_mset a (hp_items h)" "priority h = ch_priority c"
    using pop_ok [OF ok sz p] by auto
  note t = taken_rep [OF fs r(2-4)]
  let ?c = "c\<lparr>ch_heap := h\<rparr>"
  have nn: "a \<noteq> null" using ch_rep_hand [OF t(1)] by simp
  note rel = ch_release_rep [OF t(1) nn]
  obtain key ob where k: "ch_entry c a = (key, ob)" by fastforce
  have "ch_remove c = Inr (Some (key, ob), ch_release_item a ?c)"
    using pop_is_pop_idx [OF ok sz] p nn k by (simp add: ch_remove_def ch_entry_def)
  moreover have "ch_content c = add_mset (key, ob) (ch_content (ch_release_item a ?c))"
    using rel(2,5) r(3) k by (simp add: ch_content_def)
  moreover have "obj_ok (ch_release_item a ?c) (ch_used (ch_release_item a ?c))"
    using assms r(3) rel(2,4) by (simp add: ch_ok_def obj_ok_def ch_used_def)
  then have "ch_ok (ch_release_item a ?c)" using rel(1) by (auto simp: ch_ok_def)
  moreover have "\<forall>(k, ob') \<in># ch_content c. ch_before c ob ob'"
    using r(1) k by (auto simp: ch_content_def ch_entry_def ch_before_def hp_lt_def ch_priority_def not_less split: heap_kind.splits)
  ultimately show ?thesis unfolding if_not_P [OF False] by blast
qed

text \<open>C39: Adjusting an item after a hit counts the use of its object and moves the item to its new place:
  the content is the same, the heap is in order again.\<close>

theorem cache_heap_adjust_correct:
  assumes "ch_ok c" "a \<in># hp_items (ch_heap c)"
  shows "\<exists>c'. ch_adjust a c = Inr (0, c') \<and> ch_ok c' \<and> ch_content c' = ch_content c
    \<and> ch_cobjs c' = (ch_cobjs c)(chi_cobj (ch_items c a) := acquire (ch_cobjs c (chi_cobj (ch_items c a))))"
proof -
  let ?ob = "chi_cobj (ch_items c a)"
  obtain fs where fs: "ch_rep c fs {}" using assms by (auto simp: ch_ok_def)
  obtain h where h: "erase (ch_kind c) a (ch_view c) = Inr (0, h)" "ch_rep (c\<lparr>ch_heap := h\<rparr>) fs {a}"
    "hp_items (ch_heap c) = add_mset a (hp_items h)" "hp_size h < hp_max_size h" "a \<notin># hp_items h" "a \<noteq> null"
    by (rule erase_rep [OF fs assms(2)])
  let ?c = "c\<lparr>ch_heap := h, ch_cobjs := (ch_cobjs c)(?ob := acquire (ch_cobjs c ?ob))\<rparr>"
  have nc: "chi_cobj (ch_items c b) \<noteq> ?ob" if "b \<in># hp_items h" for b
  proof
    assume e: "chi_cobj (ch_items c b) = ?ob"
    have o: "co_proxy (ch_cobjs c (chi_cobj (ch_items c x))) = x" if "x \<in># hp_items (ch_heap c)" for x
      using assms(1) that by (simp add: ch_ok_def obj_ok_def ch_used_def)
    have "co_proxy (ch_cobjs c (chi_cobj (ch_items c b))) = b" by (rule o) (use \<open>b \<in># hp_items h\<close> h(3) in simp)
    then have "b = a" unfolding e o [OF assms(2)] ..
    then show False using \<open>b \<in># hp_items h\<close> h(5) by simp
  qed
  have "hp_ok (ch_kind c) (ch_view (c\<lparr>ch_heap := h\<rparr>))" using h(2) by (simp add: ch_rep_def)
  then have "hp_ok (ch_kind c) ((ch_view (c\<lparr>ch_heap := h\<rparr>))\<lparr>priority := ch_priority ?c\<rparr>)"
    by (rule hp_ok_priority) (use nc in \<open>simp add: ch_priority_def\<close>)
  then have "ch_rep ?c fs {a}" using h(2) by (simp add: ch_rep_def ch_view_def ch_used_def chx_def)
  then obtain h' where h': "ch_push a ?c = Inr (0, ?c\<lparr>ch_heap := h'\<rparr>)" "ch_rep (?c\<lparr>ch_heap := h'\<rparr>) fs {}"
    "hp_items h' = add_mset a (hp_items h)" by (rule ch_push_rep) (use h(4) in simp_all)
  have "ch_used (?c\<lparr>ch_heap := h'\<rparr>) = ch_used c" unfolding ch_used_def h(3) by (simp add: h'(3))
  moreover have "obj_ok ?c (ch_used c)" using assms(1) unfolding ch_ok_def by (auto intro: obj_ok_acquire)
  ultimately have "obj_ok (?c\<lparr>ch_heap := h'\<rparr>) (ch_used (?c\<lparr>ch_heap := h'\<rparr>))" by (simp add: obj_ok_def)
  moreover have "ch_content (?c\<lparr>ch_heap := h'\<rparr>) = ch_content c" by (rule content_cong) (use h(3) h'(3) in \<open>simp_all add: ch_entry_def\<close>)
  ultimately show ?thesis using h(1,6) h'(1,2) by (auto simp: ch_adjust_def ch_ok_def Let_def)
qed

section \<open>Destruction\<close>

lemma ch_release_sel [simp]:
  "ch_kind (ch_release_item a c) = ch_kind c" "ch_fresh (ch_release_item a c) = ch_fresh c"
  by (simp_all add: ch_release_item_def set_heap_idx_def)

lemma pop_all_rep:
  "ch_rep c fs {} \<Longrightarrow> \<exists>fs'. ch_rep (ch_pop_all c) fs' {} \<and> hp_size (ch_heap (ch_pop_all c)) = 0 \<and> ch_fresh (ch_pop_all c) = ch_fresh c"
proof (induction c arbitrary: fs rule: ch_pop_all.induct)
  case (1 c)
  show ?case
  proof (cases "hp_size (ch_heap c) = 0")
    case True
    then show ?thesis using 1(2) by (subst (1 2 3) ch_pop_all.simps) auto
  next
    case False
    obtain a h where p: "pop (ch_kind c) (ch_view c) = (a, h)" by fastforce
    have ok: "hp_ok (ch_kind c) (ch_view c)" using 1(2) by (simp add: ch_rep_def)
    have r: "hp_ok (ch_kind c) h" "hp_items (ch_heap c) = add_mset a (hp_items h)" "priority h = ch_priority c"
      using pop_ok [OF ok _ p] False by auto
    note t = taken_rep [OF 1(2) r]
    have nn: "a \<noteq> null" using ch_rep_hand [OF t(1)] by simp
    have "ch_pop_all c = ch_pop_all (ch_release_item a (c\<lparr>ch_heap := h\<rparr>))"
      using False p by (subst ch_pop_all.simps) simp
    then show ?thesis using 1(1) [OF False] ch_release_rep(1) [OF t(1) nn] p by simp
  qed
qed

lemma delete_free_chain: "chain (\<lambda>a. chi_next (items a)) p fs null \<Longrightarrow> ch_delete_free p items = Some fs"
  by (induction fs arbitrary: p) (subst ch_delete_free.simps, auto)+

text \<open>The destructor returns and deletes every item ever allocated exactly once.\<close>

theorem cache_heap_destroy_correct:
  assumes "ch_ok c"
  shows "\<exists>ds. ch_destroy c = Some ds \<and> distinct ds \<and> set ds = {0<..<ch_fresh c}"
proof -
  obtain fs where "ch_rep c fs {}" using assms by (auto simp: ch_ok_def)
  from pop_all_rep [OF this] obtain ds where d: "ch_rep (ch_pop_all c) ds {}" "hp_size (ch_heap (ch_pop_all c)) = 0"
    "ch_fresh (ch_pop_all c) = ch_fresh c" by blast
  have c: "chain (chx (ch_pop_all c)) (free_heap_items (ch_pop_all c)) ds null" using d(1) by (simp add: ch_rep_def)
  then have "ch_destroy c = Some ds" unfolding ch_destroy_def Let_def chx_def by (rule delete_free_chain)
  moreover have "set ds = {0<..<ch_fresh c}" using d by (simp add: ch_rep_def ch_used_def hp_items_def)
  ultimately show ?thesis using chain_distinct [OF c] by blast
qed

section \<open>A heap of two objects\<close>

definition ch_demo0 :: "nat cache_heap" where
  "ch_demo0 = the (ch_new (\<lambda>a. (cobj_new LFU 100 8 null)\<lparr>hit_count := int a\<rparr>) (\<lambda>_. \<lparr>chi_key = 0, chi_cobj = 0, chi_next = 0\<rparr>) 0 4)"

lemma ch_demo0_ok: "ch_ok ch_demo0" "ch_content ch_demo0 = {#}" "\<not> ch_is_full ch_demo0"
  by (auto simp: ch_demo0_def ch_new_def hp_new_def ch_ok_def ch_rep_def hp_ok_def ch_view_def heap_on_def ch_used_def
      hp_items_def obj_ok_def ch_content_def ch_is_full_def hp_is_full_def intro!: exI [of _ "[]"])

text \<open>Object 5 under key 7, with five hits.\<close>

definition ch_demo :: "nat cache_heap" where
  "ch_demo = snd (projr (ch_insert 7 5 ch_demo0))"

lemma ch_demo_ok: "ch_ok ch_demo" "ch_content ch_demo = {#(7, 5)#}"
proof -
  obtain c' where c: "ch_insert 7 5 ch_demo0 = Inr (0, c')" "ch_ok c'" "ch_content c' = add_mset (7, 5) (ch_content ch_demo0)"
    by (rule insert_rep [OF ch_demo0_ok(1) _ _ ch_demo0_ok(3), of 5 7]) (simp_all add: ch_demo0_ok)
  then show "ch_ok ch_demo" "ch_content ch_demo = {#(7, 5)#}" by (simp_all add: ch_demo_def ch_demo0_ok)
qed

lemma ch_demo_nonempty: "\<not> ch_is_empty ch_demo"
proof
  assume "ch_is_empty ch_demo"
  then have "ch_content ch_demo = {#}" by (simp add: ch_content_def ch_is_empty_def hp_is_empty_def hp_items_def)
  then show False using ch_demo_ok(2) by simp
qed

lemma ch_demo_item: "\<exists>a. a \<in># hp_items (ch_heap ch_demo)"
  using ch_demo_ok(2) by (metis ch_content_def image_mset_empty multiset_nonemptyE add_mset_not_empty)

theorem cache_heap_insert_correct_witness:
  "\<exists>c'. ch_insert 7 5 ch_demo0 = Inr (0, c') \<and> ch_content c' = {#(7, 5)#}"
  using cache_heap_insert_correct [OF ch_demo0_ok(1), of 5 7] ch_demo0_ok(2,3) by auto

theorem cache_heap_evicts_first_witness:
  "\<exists>c'. ch_remove ch_demo = Inr (Some (7, 5), c') \<and> ch_content c' = {#}"
  using cache_heap_evicts_first [OF ch_demo_ok(1)] ch_demo_nonempty ch_demo_ok(2) by auto

theorem cache_heap_adjust_correct_witness:
  "\<exists>a c'. ch_adjust a ch_demo = Inr (0, c') \<and> ch_content c' = {#(7, 5)#}"
  using cache_heap_adjust_correct [OF ch_demo_ok(1)] ch_demo_item ch_demo_ok(2) by metis

theorem cache_heap_destroy_correct_witness:
  "\<exists>ds. ch_destroy ch_demo = Some ds \<and> distinct ds"
  using cache_heap_destroy_correct [OF ch_demo_ok(1)] by blast

end
