(* ===== verification/MemPool.thy ===== *)
theory MemPool
  imports Prelude
begin

text \<open>
  \<^verbatim>\<open>ndk/mem_pool.h\<close>, \<^verbatim>\<open>ndk/mem_pool.cpp\<close>: a memory pool. Slabs of one size are kept in a doubly linked list, in
  the order of the largest chunk known to be free in them. A slab is cut into chunks, each with a
  header in front of its memory; the headers of a slab are doubly linked in the order of their
  addresses. Headers are a store indexed by address: whatever bytes lie at an address can be read as
  a header, so the fields of a header that was never written are whatever the store has there.
  Memory from \<^verbatim>\<open>new\<close> is fresh. Sizes are unsigned 32-bit numbers, as integers with the wrap-around
  written out. Operations run under the pool's mutex.
\<close>

section \<open>State\<close>

definition u32 :: "int \<Rightarrow> int" where
  "u32 x = x mod 2 ^ 32"

text \<open>\<^verbatim>\<open>sizeof (obj_header)\<close> and \<^verbatim>\<open>MALLOC_ALIGN\<close> on a 64-bit system.\<close>

definition hdr_size :: nat where "hdr_size = 32"
definition malloc_align :: int where "malloc_align = 8"
definition INUSE_IDENTIRY :: int where "INUSE_IDENTIRY = 0x13"
definition PREALLOC_SLAB_NUM :: int where "PREALLOC_SLAB_NUM = 64"

record obj_header =
  oh_inuse :: int
  oh_size :: int
  oh_slab :: addr
  oh_prev :: addr
  oh_next :: addr

record slab_header =
  inuse_objs :: int
  max_seriate_size :: int
  sl_head :: addr
  max_seriate_free_head :: addr
  sl_prev :: addr
  sl_next :: addr

record mem_pool =
  slab_size :: int
  prealloc_slab_num :: int
  max_slabs :: int
  alloced_slabs :: int
  slabs_head :: addr
  slabs_tail :: addr
  objs :: "addr \<Rightarrow> obj_header"
  slabs :: "addr \<Rightarrow> slab_header"
  mem_fresh :: addr
  slab_fresh :: addr

definition malloc_roundup :: "int \<Rightarrow> int" where
  "malloc_roundup x = u32 ((x + (malloc_align - 1)) div malloc_align * malloc_align)"

definition slab_header_new :: "int \<Rightarrow> slab_header" where
  "slab_header_new sz = \<lparr>inuse_objs = 0, max_seriate_size = sz, sl_head = null, max_seriate_free_head = null,
     sl_prev = null, sl_next = null\<rparr>"

definition mem_pool_new :: "(addr \<Rightarrow> obj_header) \<Rightarrow> (addr \<Rightarrow> slab_header) \<Rightarrow> mem_pool" where
  "mem_pool_new os ss = \<lparr>slab_size = 0, prealloc_slab_num = 0, max_slabs = 0, alloced_slabs = 0, slabs_head = null,
     slabs_tail = null, objs = os, slabs = ss, mem_fresh = nat malloc_align, slab_fresh = 1\<rparr>"

definition upd_obj :: "addr \<Rightarrow> (obj_header \<Rightarrow> obj_header) \<Rightarrow> mem_pool \<Rightarrow> mem_pool" where
  "upd_obj a f p = p\<lparr>objs := (objs p)(a := f (objs p a))\<rparr>"

definition upd_slab :: "addr \<Rightarrow> (slab_header \<Rightarrow> slab_header) \<Rightarrow> mem_pool \<Rightarrow> mem_pool" where
  "upd_slab a f p = p\<lparr>slabs := (slabs p)(a := f (slabs p a))\<rparr>"

section \<open>Slabs\<close>

definition init_object :: "addr \<Rightarrow> addr \<Rightarrow> int \<Rightarrow> mem_pool \<Rightarrow> mem_pool" where
  "init_object memory slab sz p =
     upd_obj memory (\<lambda>oh. oh\<lparr>oh_size := sz, oh_slab := slab, oh_prev := null, oh_next := null\<rparr>) p"

text \<open>One turn of the loop of \<^verbatim>\<open>alloc_slabs\<close>: memory, a slab header, and its place at the end of the list.\<close>

definition alloc_slab :: "mem_pool \<Rightarrow> addr \<times> mem_pool" where
  "alloc_slab p =
     (let memory = mem_fresh p; slab = slab_fresh p;
          p1 = p\<lparr>mem_fresh := memory + (nat (slab_size p) + hdr_size), slab_fresh := Suc slab\<rparr>;
          p2 = upd_slab slab (\<lambda>_. slab_header_new (slab_size p1)) p1;
          p3 = init_object memory slab (slab_size p2) p2;
          p4 = upd_slab slab (\<lambda>s. s\<lparr>sl_head := memory, max_seriate_free_head := memory\<rparr>) p3;
          p5 = (if slabs_head p4 = null then p4\<lparr>slabs_head := slab, slabs_tail := slab\<rparr>
                else (upd_slab slab (\<lambda>s. s\<lparr>sl_prev := slabs_tail p4\<rparr>)
                       (upd_slab (slabs_tail p4) (\<lambda>s. s\<lparr>sl_next := slab\<rparr>) p4))\<lparr>slabs_tail := slab\<rparr>)
      in (slab, p5\<lparr>alloced_slabs := alloced_slabs p5 + 1\<rparr>))"

fun alloc_slabs_loop :: "nat \<Rightarrow> addr \<Rightarrow> mem_pool \<Rightarrow> addr \<times> mem_pool" where
  "alloc_slabs_loop 0 ret p = (ret, p)"
| "alloc_slabs_loop (Suc n) ret p =
     (let (slab, p1) = alloc_slab p; ret1 = (if ret = null then slab else ret)
      in if alloced_slabs p1 \<ge> max_slabs p1 then (ret1, p1) else alloc_slabs_loop n ret1 p1)"

definition alloc_slabs :: "int \<Rightarrow> mem_pool \<Rightarrow> addr \<times> mem_pool" where
  "alloc_slabs n p = (if alloced_slabs p \<ge> max_slabs p then (null, p) else alloc_slabs_loop (nat n) null p)"

definition pool_init :: "int \<Rightarrow> int \<Rightarrow> int \<Rightarrow> mem_pool \<Rightarrow> int \<times> mem_pool" where
  "pool_init sz prealloc maxs p =
     (let p1 = p\<lparr>slab_size := u32 sz\<rparr> in
      if maxs \<le> 0 then (-1, p1)
      else
       (let p2 = p1\<lparr>max_slabs := maxs, prealloc_slab_num := u32 prealloc\<rparr> in
        if slab_size p2 \<le> int hdr_size then (-1, p2)
        else
         (let p3 = p2\<lparr>slab_size := malloc_roundup (slab_size p2)\<rparr>;
              p4 = (if prealloc_slab_num p3 \<le> 0 then p3\<lparr>prealloc_slab_num := PREALLOC_SLAB_NUM\<rparr> else p3)
          in (0, snd (alloc_slabs (prealloc_slab_num p4) p4)))))"

partial_function (option) find_slab :: "int \<Rightarrow> addr \<Rightarrow> mem_pool \<Rightarrow> addr option" where
  "find_slab sz slab p =
     (if slab = null then Some null
      else if max_seriate_size (slabs p slab) \<ge> sz then Some slab
      else find_slab sz (sl_next (slabs p slab)) p)"

definition find_usable_slab :: "int \<Rightarrow> mem_pool \<Rightarrow> addr option" where
  "find_usable_slab sz p = find_slab sz (slabs_head p) p"

text \<open>The two loops of \<^verbatim>\<open>ajust_slab_order\<close>: a slab whose largest chunk shrank moves towards the head, one
  whose largest chunk grew towards the tail.\<close>

definition swap_ahead :: "addr \<Rightarrow> mem_pool \<Rightarrow> mem_pool" where
  "swap_ahead slab p =
     (let prev_slab = sl_prev (slabs p slab);
          pp = sl_prev (slabs p prev_slab);
          p1 = (if pp \<noteq> null then upd_slab pp (\<lambda>s. s\<lparr>sl_next := slab\<rparr>) p else p);
          n = sl_next (slabs p1 slab);
          p2 = upd_slab prev_slab (\<lambda>s. s\<lparr>sl_next := n\<rparr>) p1;
          p3 = (if n \<noteq> null then upd_slab n (\<lambda>s. s\<lparr>sl_prev := prev_slab\<rparr>) p2 else p2);
          p4 = upd_slab slab (\<lambda>s. s\<lparr>sl_prev := sl_prev (slabs p3 prev_slab)\<rparr>) p3;
          p5 = upd_slab prev_slab (\<lambda>s. s\<lparr>sl_prev := slab\<rparr>) p4;
          p6 = upd_slab slab (\<lambda>s. s\<lparr>sl_next := prev_slab\<rparr>) p5;
          p7 = (if sl_next (slabs p6 prev_slab) = null then p6\<lparr>slabs_tail := prev_slab\<rparr> else p6)
      in if sl_prev (slabs p7 slab) = null then p7\<lparr>slabs_head := slab\<rparr> else p7)"

partial_function (option) roll_ahead :: "addr \<Rightarrow> mem_pool \<Rightarrow> mem_pool option" where
  "roll_ahead slab p =
     (let prev_slab = sl_prev (slabs p slab) in
      if prev_slab \<noteq> null \<and> max_seriate_size (slabs p prev_slab) > max_seriate_size (slabs p slab)
      then roll_ahead slab (swap_ahead slab p) else Some p)"

definition swap_back :: "addr \<Rightarrow> mem_pool \<Rightarrow> mem_pool" where
  "swap_back slab p =
     (let next_slab = sl_next (slabs p slab);
          nn = sl_next (slabs p next_slab);
          p1 = (if nn \<noteq> null then upd_slab nn (\<lambda>s. s\<lparr>sl_prev := slab\<rparr>) p else p);
          p2 = upd_slab slab (\<lambda>s. s\<lparr>sl_next := sl_next (slabs p1 next_slab)\<rparr>) p1;
          q = sl_prev (slabs p2 slab);
          p3 = (if q \<noteq> null then upd_slab q (\<lambda>s. s\<lparr>sl_next := next_slab\<rparr>) p2 else p2);
          p4 = upd_slab next_slab (\<lambda>s. s\<lparr>sl_prev := sl_prev (slabs p3 slab)\<rparr>) p3;
          p5 = upd_slab next_slab (\<lambda>s. s\<lparr>sl_next := slab\<rparr>) p4;
          p6 = upd_slab slab (\<lambda>s. s\<lparr>sl_prev := next_slab\<rparr>) p5;
          p7 = (if sl_next (slabs p6 slab) = null then p6\<lparr>slabs_tail := slab\<rparr> else p6)
      in if sl_prev (slabs p7 next_slab) = null then p7\<lparr>slabs_head := next_slab\<rparr> else p7)"

partial_function (option) roll_back :: "addr \<Rightarrow> mem_pool \<Rightarrow> mem_pool option" where
  "roll_back slab p =
     (let next_slab = sl_next (slabs p slab) in
      if next_slab \<noteq> null \<and> max_seriate_size (slabs p next_slab) < max_seriate_size (slabs p slab)
      then roll_back slab (swap_back slab p) else Some p)"

definition ORDER_BY_AHEAD :: int where "ORDER_BY_AHEAD = 0x110"
definition ORDER_BY_BACK :: int where "ORDER_BY_BACK = 0x112"

definition ajust_slab_order :: "addr \<Rightarrow> int \<Rightarrow> mem_pool \<Rightarrow> mem_pool option" where
  "ajust_slab_order slab order_type p =
     (if order_type = ORDER_BY_AHEAD then (if slab = slabs_head p then Some p else roll_ahead slab p)
      else if order_type = ORDER_BY_BACK then (if slab = slabs_tail p then Some p else roll_back slab p)
      else Some p)"

section \<open>Allocation and release\<close>

text \<open>The part of \<^verbatim>\<open>pop_usable_object\<close> that makes a chunk of what is left over.\<close>

definition carve :: "addr \<Rightarrow> addr \<Rightarrow> int \<Rightarrow> mem_pool \<Rightarrow> mem_pool" where
  "carve slab free_obj alloc_size p =
     (let next_object = free_obj + hdr_size + nat alloc_size;
          n = oh_next (objs p free_obj);
          p1 = (if n \<noteq> null then upd_obj n (\<lambda>h. h\<lparr>oh_prev := next_object\<rparr>) p else p);
          p2 = upd_obj free_obj (\<lambda>h. h\<lparr>oh_size := alloc_size\<rparr>) p1;
          p3 = upd_obj next_object (\<lambda>h. h\<lparr>oh_next := oh_next (objs p2 free_obj)\<rparr>) p2;
          p4 = upd_obj next_object (\<lambda>h. h\<lparr>oh_slab := slab\<rparr>) p3;
          p5 = upd_obj free_obj (\<lambda>h. h\<lparr>oh_next := next_object\<rparr>) p4;
          p6 = upd_obj next_object (\<lambda>h. h\<lparr>oh_prev := free_obj\<rparr>) p5;
          p7 = upd_slab slab (\<lambda>s. s\<lparr>max_seriate_size := u32 (max_seriate_size s - int hdr_size)\<rparr>) p6;
          p8 = upd_obj next_object (\<lambda>h. h\<lparr>oh_size := max_seriate_size (slabs p7 slab)\<rparr>) p7
      in upd_slab slab (\<lambda>s. s\<lparr>max_seriate_free_head := next_object\<rparr>) p8)"

definition pop_usable_object :: "addr \<Rightarrow> int \<Rightarrow> mem_pool \<Rightarrow> fault + (addr \<times> mem_pool)" where
  "pop_usable_object slab alloc_size p =
     (let p1 = upd_slab slab (\<lambda>s. s\<lparr>max_seriate_size := u32 (max_seriate_size s - alloc_size)\<rparr>) p;
          free_obj = max_seriate_free_head (slabs p1 slab)
      in if free_obj = null then Inl NullDeref
         else
          (let p2 = upd_obj free_obj (\<lambda>h. h\<lparr>oh_slab := slab, oh_inuse := INUSE_IDENTIRY\<rparr>) p1;
               m = max_seriate_size (slabs p2 slab);
               p3 = (if 0 < m \<and> int hdr_size < m then carve slab free_obj alloc_size p2
                     else upd_slab slab (\<lambda>s. s\<lparr>max_seriate_free_head := null, max_seriate_size := 0\<rparr>) p2)
           in Inr (free_obj, upd_slab slab (\<lambda>s. s\<lparr>inuse_objs := inuse_objs s + 1\<rparr>) p3)))"

text \<open>\<^verbatim>\<open>malloc\<close>: a null result is a refusal.\<close>

definition pool_malloc :: "int \<Rightarrow> mem_pool \<Rightarrow> (fault + (addr \<times> mem_pool)) option" where
  "pool_malloc sz p =
     (if sz > slab_size p then Some (Inr (null, p))
      else
       (let sz1 = malloc_roundup sz in
        Option.bind (find_usable_slab sz1 p) (\<lambda>found.
          let (usable_slab, p1) = (if found = null then alloc_slabs (prealloc_slab_num p) p else (found, p))
          in if usable_slab = null then Some (Inr (null, p1))
             else (case pop_usable_object usable_slab sz1 p1 of
                     Inl f \<Rightarrow> Some (Inl f)
                   | Inr (usable_object, p2) \<Rightarrow>
                       Option.bind (ajust_slab_order usable_slab ORDER_BY_AHEAD p2)
                         (\<lambda>p3. Some (Inr (usable_object + hdr_size, p3)))))))"

text \<open>The merging of a released chunk with its neighbours: with the chunk before it, in the middle of a slab
  and at its end, and with the chunk behind it, in the middle and at the beginning.\<close>

definition merge_prev :: "addr \<Rightarrow> mem_pool \<Rightarrow> mem_pool" where
  "merge_prev obj p =
     (let prv = oh_prev (objs p obj); nxt = oh_next (objs p obj);
          p1 = upd_obj prv (\<lambda>h. h\<lparr>oh_next := nxt\<rparr>) p;
          p2 = upd_obj nxt (\<lambda>h. h\<lparr>oh_prev := prv\<rparr>) p1
      in upd_obj prv (\<lambda>h. h\<lparr>oh_size := u32 (oh_size h + (int hdr_size + oh_size (objs p2 obj)))\<rparr>) p2)"

definition merge_next :: "addr \<Rightarrow> mem_pool \<Rightarrow> mem_pool" where
  "merge_next obj p =
     (let nxt = oh_next (objs p obj); nn = oh_next (objs p nxt);
          p1 = (if nn \<noteq> null then upd_obj nn (\<lambda>h. h\<lparr>oh_prev := obj\<rparr>) p else p);
          p2 = upd_obj obj (\<lambda>h. h\<lparr>oh_size := u32 (oh_size h + (int hdr_size + oh_size (objs p1 nxt)))\<rparr>) p1
      in upd_obj obj (\<lambda>h. h\<lparr>oh_next := oh_next (objs p2 nxt)\<rparr>) p2)"

definition merge_prev_tail :: "addr \<Rightarrow> mem_pool \<Rightarrow> mem_pool" where
  "merge_prev_tail obj p =
     (let prv = oh_prev (objs p obj);
          p1 = upd_obj prv (\<lambda>h. h\<lparr>oh_next := null\<rparr>) p
      in upd_obj prv (\<lambda>h. h\<lparr>oh_size := u32 (oh_size h + (int hdr_size + oh_size (objs p1 obj)))\<rparr>) p1)"

definition merge_next_head :: "addr \<Rightarrow> mem_pool \<Rightarrow> mem_pool" where
  "merge_next_head obj p =
     (let nxt = oh_next (objs p obj);
          p1 = upd_obj obj (\<lambda>h. h\<lparr>oh_size := u32 (oh_size h + (int hdr_size + oh_size (objs p nxt)))\<rparr>) p;
          nn = oh_next (objs p1 nxt);
          p2 = (if nn \<noteq> null then upd_obj nn (\<lambda>h. h\<lparr>oh_prev := obj\<rparr>) p1 else p1)
      in upd_obj obj (\<lambda>h. h\<lparr>oh_next := oh_next (objs p2 nxt)\<rparr>) p2)"

text \<open>The result names the chunk that holds the released one afterwards.\<close>

definition merge_chunk :: "addr \<Rightarrow> mem_pool \<Rightarrow> addr \<times> mem_pool" where
  "merge_chunk obj p =
     (let prv = oh_prev (objs p obj); nxt = oh_next (objs p obj) in
      if prv \<noteq> null \<and> nxt \<noteq> null then
        (let (obj1, p1) = (if oh_inuse (objs p prv) = 0 then (prv, merge_prev obj p) else (obj, p))
         in (obj1, if oh_inuse (objs p1 (oh_next (objs p1 obj1))) = 0 then merge_next obj1 p1 else p1))
      else if prv \<noteq> null then (if oh_inuse (objs p prv) = 0 then (prv, merge_prev_tail obj p) else (obj, p))
      else if nxt \<noteq> null then (obj, if oh_inuse (objs p nxt) = 0 then merge_next_head obj p else p)
      else (obj, p))"

definition pool_free :: "addr \<Rightarrow> mem_pool \<Rightarrow> mem_pool option" where
  "pool_free memory p =
     (if memory = null \<or> slabs_head p = null then Some p
      else
       (let obj = memory - hdr_size in
        if oh_inuse (objs p obj) \<noteq> INUSE_IDENTIRY then Some p
        else
         (let p1 = upd_obj obj (\<lambda>h. h\<lparr>oh_inuse := 0\<rparr>) p;
              (o2, p2) = merge_chunk obj p1;
              s = oh_slab (objs p2 o2);
              p3 = (if oh_size (objs p2 o2) > max_seriate_size (slabs p2 s)
                    then upd_slab s (\<lambda>sh. sh\<lparr>max_seriate_size := oh_size (objs p2 o2), max_seriate_free_head := o2\<rparr>) p2
                    else p2)
          in Option.bind (ajust_slab_order s ORDER_BY_BACK p3)
               (\<lambda>p4. Some (upd_slab s (\<lambda>sh. sh\<lparr>inuse_objs := inuse_objs sh - 1\<rparr>) p4)))))"

declare find_slab.simps [code] roll_ahead.simps [code] roll_back.simps [code]

section \<open>The list of slabs\<close>

abbreviation snx :: "mem_pool \<Rightarrow> addr \<Rightarrow> addr" where "snx p \<equiv> \<lambda>a. sl_next (slabs p a)"
abbreviation spv :: "mem_pool \<Rightarrow> addr \<Rightarrow> addr" where "spv p \<equiv> \<lambda>a. sl_prev (slabs p a)"
abbreviation smax :: "mem_pool \<Rightarrow> addr \<Rightarrow> int" where "smax p \<equiv> \<lambda>a. max_seriate_size (slabs p a)"

definition slab_list :: "mem_pool \<Rightarrow> addr list \<Rightarrow> bool" where
  "slab_list p ss \<longleftrightarrow> dll (snx p) (spv p) (slabs_head p) (slabs_tail p) ss"

text \<open>Exchanging two neighbours of a doubly linked list.\<close>

lemma dll_around:
  assumes "dll nx pv h t (xs @ a # b # ys)"
  shows "pv a = (if xs = [] then null else last xs)" "nx b = (if ys = [] then null else hd ys)" "pv b = a" "nx a = b"
    and "xs \<noteq> [] \<Longrightarrow> last xs \<notin> {a, b, null} \<union> set ys" "ys \<noteq> [] \<Longrightarrow> hd ys \<notin> {a, b, null} \<union> set xs"
    and "distinct (xs @ a # b # ys)" "null \<notin> set (xs @ a # b # ys)"
proof -
  show d: "distinct (xs @ a # b # ys)" "null \<notin> set (xs @ a # b # ys)"
    using dll_distinct [OF assms(1)] dll_not_null [OF assms(1)] by auto
  show "pv a = (if xs = [] then null else last xs)" using dll_prev [OF assms(1)] .
  show "nx a = b" using dll_next [OF assms(1)] by simp
  show "pv b = a" using dll_prev [of nx pv h t "xs @ [a]" b ys] assms(1) by simp
  show "nx b = (if ys = [] then null else hd ys)" using dll_next [of nx pv h t "xs @ [a]" b ys] assms(1) by simp
  show "xs \<noteq> [] \<Longrightarrow> last xs \<notin> {a, b, null} \<union> set ys" "ys \<noteq> [] \<Longrightarrow> hd ys \<notin> {a, b, null} \<union> set xs"
  proof -
    assume "xs \<noteq> []"
    then have "last xs \<in> set xs" by simp
    then show "last xs \<notin> {a, b, null} \<union> set ys" using d by auto
  next
    assume "ys \<noteq> []"
    then have "hd ys \<in> set ys" by simp
    then show "hd ys \<notin> {a, b, null} \<union> set xs" using d by auto
  qed
qed

lemma dll_swap:
  assumes "dll nx pv h t (xs @ a # b # ys)"
    and "\<And>c. nx' c = (if c = b then a else if c = a then nx b else if c = pv a \<and> pv a \<noteq> null then b else nx c)"
    and "\<And>c. pv' c = (if c = b then pv a else if c = a then b else if c = nx b \<and> nx b \<noteq> null then a else pv c)"
    and "h' = (if pv a = null then b else h)" "t' = (if nx b = null then a else t)"
  shows "dll nx' pv' h' t' (xs @ b # a # ys)"
proof -
  note n = dll_around [OF assms(1)]
  note d = n(5-8) and pa = n(1) and nb = n(2)
  have f: "chain nx h (xs @ a # b # ys) null" and g: "chain pv t (rev ys @ b # a # rev xs) null"
    using assms(1) by (simp_all add: dll_def)
  have cy: "chain nx' r ys q = chain nx r ys q" "chain pv' r (rev xs) q = chain pv r (rev xs) q" for r q
    using d assms(2,3) pa nb by (auto intro!: chain_cong)
  have "chain nx' h' (xs @ b # a # ys) null"
  proof (cases xs rule: rev_cases)
    case Nil
    then show ?thesis using f d pa assms(2,4) by (auto simp: cy)
  next
    case (snoc zs z)
    have "chain nx' h zs z = chain nx h zs z" using d pa snoc assms(2) by (auto intro!: chain_cong)
    then show ?thesis using f d pa snoc assms(2,4) by (auto simp: chain_append cy)
  qed
  moreover have "chain pv' t' (rev ys @ a # b # rev xs) null"
  proof (cases ys)
    case Nil
    then show ?thesis using g d nb assms(3,5) by (auto simp: cy)
  next
    case (Cons z zs)
    have "chain pv' t (rev zs) z = chain pv t (rev zs) z" using d nb Cons assms(3) by (auto intro!: chain_cong)
    then show ?thesis using g d nb Cons assms(3,5) by (auto simp: chain_append cy)
  qed
  ultimately show ?thesis by (simp add: dll_def)
qed

text \<open>What the two loops leave alone.\<close>

definition same_but_links :: "mem_pool \<Rightarrow> mem_pool \<Rightarrow> bool" where
  "same_but_links p q \<longleftrightarrow> (\<exists>h t f g. q = p\<lparr>slabs_head := h, slabs_tail := t, slabs := \<lambda>a. (slabs p a)\<lparr>sl_prev := f a, sl_next := g a\<rparr>\<rparr>)"

text \<open>The links after an exchange of \<open>a\<close> with \<open>b\<close> behind it.\<close>

definition swap_links :: "addr \<Rightarrow> addr \<Rightarrow> mem_pool \<Rightarrow> mem_pool" where
  "swap_links a b p =
     p\<lparr>slabs_head := if spv p a = null then b else slabs_head p, slabs_tail := if snx p b = null then a else slabs_tail p,
       slabs := \<lambda>c. (slabs p c)\<lparr>sl_prev := if c = b then spv p a else if c = a then b else if c = snx p b \<and> snx p b \<noteq> null then a else spv p c,
         sl_next := if c = b then a else if c = a then snx p b else if c = spv p a \<and> spv p a \<noteq> null then b else snx p c\<rparr>\<rparr>"

lemma swap_links_list: "slab_list p (xs @ a # b # ys) \<Longrightarrow> slab_list (swap_links a b p) (xs @ b # a # ys)"
  unfolding slab_list_def by (erule dll_swap) (simp_all add: swap_links_def)

lemma swap_links_same: "same_but_links p (swap_links a b p)"
  unfolding same_but_links_def swap_links_def by (intro exI) (rule refl)

lemma slab_upd_eq: "(sh = sh') \<longleftrightarrow> inuse_objs sh = inuse_objs sh' \<and> max_seriate_size sh = max_seriate_size sh' \<and> sl_head sh = sl_head sh'
   \<and> max_seriate_free_head sh = max_seriate_free_head sh' \<and> sl_prev sh = sl_prev sh' \<and> sl_next sh = sl_next (sh' :: slab_header)"
  by (cases sh; cases sh') auto

lemma swap_ahead_links:
  assumes "spv p b = a" "snx p a = b" "spv p a = pp" "snx p b = nn" "a \<noteq> b" "pp \<notin> {a, b}" "nn \<notin> {a, b}" "pp \<noteq> nn \<or> pp = null"
  shows "swap_ahead b p = swap_links a b p"
proof -
  have "swap_ahead b p = p\<lparr>slabs_head := slabs_head (swap_links a b p), slabs_tail := slabs_tail (swap_links a b p),
    slabs := slabs (swap_links a b p)\<rparr>"
    using assms by (cases "pp = null"; cases "nn = null")
      (simp_all add: swap_ahead_def swap_links_def upd_slab_def fun_eq_iff slab_upd_eq)
  then show ?thesis by (simp add: swap_links_def)
qed

lemma swap_back_links:
  assumes "spv p b = a" "snx p a = b" "spv p a = pp" "snx p b = nn" "a \<noteq> b" "pp \<notin> {a, b}" "nn \<notin> {a, b}" "pp \<noteq> nn \<or> pp = null"
  shows "swap_back a p = swap_links a b p"
proof -
  have "swap_back a p = p\<lparr>slabs_head := slabs_head (swap_links a b p), slabs_tail := slabs_tail (swap_links a b p),
    slabs := slabs (swap_links a b p)\<rparr>"
    using assms by (cases "pp = null"; cases "nn = null")
      (simp_all add: swap_back_def swap_links_def upd_slab_def fun_eq_iff slab_upd_eq)
  then show ?thesis by (simp add: swap_links_def)
qed

lemma slab_list_around:
  assumes "slab_list p (xs @ a # b # ys)"
  shows "swap_ahead b p = swap_links a b p" "swap_back a p = swap_links a b p" "spv p b = a" "snx p a = b" "a \<noteq> null" "b \<noteq> null"
proof -
  note n = dll_around [OF assms [unfolded slab_list_def]]
  have m: "spv p a \<notin> {a, b}" "snx p b \<notin> {a, b}" "spv p a \<noteq> snx p b \<or> spv p a = null" "a \<noteq> b"
    using n(1,2,5,6,7,8) hd_in_set [of ys] by (auto split: if_splits)
  show "swap_ahead b p = swap_links a b p" by (rule swap_ahead_links [OF n(3,4) refl refl m(4,1,2,3)])
  show "swap_back a p = swap_links a b p" by (rule swap_back_links [OF n(3,4) refl refl m(4,1,2,3)])
  show "spv p b = a" "snx p a = b" "a \<noteq> null" "b \<noteq> null" using n by auto
qed

lemma same_but_links_refl [simp]: "same_but_links p p"
  unfolding same_but_links_def
  by (rule exI [of _ "slabs_head p"], rule exI [of _ "slabs_tail p"], rule exI [of _ "spv p"], rule exI [of _ "snx p"]) simp

lemma same_but_links_trans [trans]: "same_but_links p q \<Longrightarrow> same_but_links q r \<Longrightarrow> same_but_links p r"
  unfolding same_but_links_def by clarsimp (intro exI, rule refl)

lemma same_but_links_sel:
  assumes "same_but_links p q"
  shows "smax q s = smax p s" "objs q = objs p" "mem_fresh q = mem_fresh p" "slab_fresh q = slab_fresh p" "slab_size q = slab_size p"
    "max_slabs q = max_slabs p" "alloced_slabs q = alloced_slabs p" "prealloc_slab_num q = prealloc_slab_num p"
    "inuse_objs (slabs q s) = inuse_objs (slabs p s)" "sl_head (slabs q s) = sl_head (slabs p s)"
    "max_seriate_free_head (slabs q s) = max_seriate_free_head (slabs p s)"
  using assms by (auto simp: same_but_links_def)

text \<open>The loops end, and have moved the slab over neighbours that are out of order with it.\<close>

lemma roll_ahead_list:
  assumes "slab_list p (xs @ s # ys)"
  obtains p' as bs where "roll_ahead s p = Some p'" "same_but_links p p'" "xs = as @ bs" "slab_list p' (as @ s # bs @ ys)"
    "\<forall>c \<in> set bs. smax p s < smax p c" "as \<noteq> [] \<longrightarrow> smax p (last as) \<le> smax p s"
proof -
  have "\<exists>p' as bs. roll_ahead s p = Some p' \<and> same_but_links p p' \<and> xs = as @ bs \<and> slab_list p' (as @ s # bs @ ys)
    \<and> (\<forall>c \<in> set bs. smax p s < smax p c) \<and> (as \<noteq> [] \<longrightarrow> smax p (last as) \<le> smax p s)"
    using assms
  proof (induction xs arbitrary: ys p rule: rev_induct)
    case Nil
    then have "spv p s = null" using dll_prev [of "snx p" "spv p" _ _ "[]" s ys] by (simp add: slab_list_def)
    then show ?case using Nil by (subst roll_ahead.simps) (auto simp: Let_def)
  next
    case (snoc a xs)
    then have l: "slab_list p (xs @ a # s # ys)" by simp
    note a = slab_list_around [OF l]
    show ?case
    proof (cases "smax p s < smax p a")
      case False
      then have "roll_ahead s p = Some p" using a by (subst roll_ahead.simps) simp
      then show ?thesis using snoc.prems False by (intro exI [of _ p] exI [of _ "xs @ [a]"] exI [of _ "[]"]) simp
    next
      case True
      let ?q = "swap_links a s p"
      have r: "roll_ahead s p = roll_ahead s ?q" using a True by (subst roll_ahead.simps) simp
      have sm: "smax ?q c = smax p c" for c by (rule same_but_links_sel [OF swap_links_same])
      from snoc.IH [OF swap_links_list [OF l], unfolded sm]
      obtain p' as bs where "roll_ahead s ?q = Some p'" "same_but_links ?q p'" "xs = as @ bs" "slab_list p' (as @ s # bs @ a # ys)"
        "\<forall>c \<in> set bs. smax p s < smax p c" "as \<noteq> [] \<longrightarrow> smax p (last as) \<le> smax p s" by auto
      then show ?thesis using r True same_but_links_trans [OF swap_links_same]
        by (intro exI [of _ p'] exI [of _ as] exI [of _ "bs @ [a]"]) auto
    qed
  qed
  then show ?thesis using that by blast
qed

lemma roll_back_list:
  assumes "slab_list p (xs @ s # ys)"
  obtains p' as bs where "roll_back s p = Some p'" "same_but_links p p'" "ys = as @ bs" "slab_list p' (xs @ as @ s # bs)"
    "\<forall>c \<in> set as. smax p c < smax p s" "bs \<noteq> [] \<longrightarrow> smax p s \<le> smax p (hd bs)"
proof -
  have "\<exists>p' as bs. roll_back s p = Some p' \<and> same_but_links p p' \<and> ys = as @ bs \<and> slab_list p' (xs @ as @ s # bs)
    \<and> (\<forall>c \<in> set as. smax p c < smax p s) \<and> (bs \<noteq> [] \<longrightarrow> smax p s \<le> smax p (hd bs))"
    using assms
  proof (induction ys arbitrary: xs p)
    case Nil
    then have "snx p s = null" using dll_next [of "snx p" "spv p" _ _ xs s "[]"] by (simp add: slab_list_def)
    then show ?case using Nil by (subst roll_back.simps) (auto simp: Let_def)
  next
    case (Cons a ys)
    note a = slab_list_around [OF Cons.prems]
    show ?case
    proof (cases "smax p a < smax p s")
      case False
      then have "roll_back s p = Some p" using a by (subst roll_back.simps) simp
      then show ?thesis using Cons.prems False by (intro exI [of _ p] exI [of _ "[]"] exI [of _ "a # ys"]) simp
    next
      case True
      let ?q = "swap_links s a p"
      have r: "roll_back s p = roll_back s ?q" using a True by (subst roll_back.simps) simp
      have sm: "smax ?q c = smax p c" for c by (rule same_but_links_sel [OF swap_links_same])
      from Cons.IH [of ?q "xs @ [a]", unfolded sm] swap_links_list [OF Cons.prems]
      obtain p' as bs where "roll_back s ?q = Some p'" "same_but_links ?q p'" "ys = as @ bs" "slab_list p' (xs @ a # as @ s # bs)"
        "\<forall>c \<in> set as. smax p c < smax p s" "bs \<noteq> [] \<longrightarrow> smax p s \<le> smax p (hd bs)" by auto
      then show ?thesis using r True same_but_links_trans [OF swap_links_same]
        by (intro exI [of _ p'] exI [of _ "a # as"] exI [of _ bs]) auto
    qed
  qed
  then show ?thesis using that by blast
qed

text \<open>After a slab's largest chunk has shrunk, or grown, the list is put in order again.\<close>

lemma ajust_ahead_sorted:
  assumes "slab_list p (xs @ s # ys)" "sorted (map (smax p) (xs @ ys))" "\<forall>c \<in> set ys. smax p s \<le> smax p c"
  obtains p' ss where "ajust_slab_order s ORDER_BY_AHEAD p = Some p'" "same_but_links p p'" "slab_list p' ss"
    "sorted (map (smax p') ss)" "mset ss = mset (xs @ s # ys)"
proof -
  obtain p' as bs where r: "roll_ahead s p = Some p'" "same_but_links p p'" "xs = as @ bs" "slab_list p' (as @ s # bs @ ys)"
    "\<forall>c \<in> set bs. smax p s < smax p c" "as \<noteq> [] \<longrightarrow> smax p (last as) \<le> smax p s" by (rule roll_ahead_list [OF assms(1)])
  have "roll_ahead s p = Some p" if "s = slabs_head p"
  proof -
    have "xs = []" using assms(1) that dll_distinct [of "snx p" "spv p" _ _ "xs @ s # ys"] by (cases xs) (auto simp: slab_list_def dll_def)
    then have "spv p s = null" using assms(1) dll_prev [of "snx p" "spv p" _ _ "[]" s ys] by (simp add: slab_list_def)
    then show ?thesis by (subst roll_ahead.simps) simp
  qed
  then have "ajust_slab_order s ORDER_BY_AHEAD p = Some p'" using r(1) by (auto simp: ajust_slab_order_def)
  moreover have "smax p c \<le> smax p s" if "c \<in> set as" for c
  proof (cases as rule: rev_cases)
    case (snoc cs z)
    then show ?thesis using that r(6) assms(2) r(3) by (auto simp: sorted_append)
  qed (use that in simp)
  then have "sorted (map (smax p) (as @ s # bs @ ys))"
    using assms(2,3) r(3,5) by (auto simp: sorted_append less_imp_le intro: order_trans)
  ultimately show ?thesis using that [of p' "as @ s # bs @ ys"] r same_but_links_sel(1) [OF r(2)] by simp
qed

lemma ajust_back_sorted:
  assumes "slab_list p (xs @ s # ys)" "sorted (map (smax p) (xs @ ys))" "\<forall>c \<in> set xs. smax p c \<le> smax p s"
  obtains p' ss where "ajust_slab_order s ORDER_BY_BACK p = Some p'" "same_but_links p p'" "slab_list p' ss"
    "sorted (map (smax p') ss)" "mset ss = mset (xs @ s # ys)"
proof -
  obtain p' as bs where r: "roll_back s p = Some p'" "same_but_links p p'" "ys = as @ bs" "slab_list p' (xs @ as @ s # bs)"
    "\<forall>c \<in> set as. smax p c < smax p s" "bs \<noteq> [] \<longrightarrow> smax p s \<le> smax p (hd bs)" by (rule roll_back_list [OF assms(1)])
  have "roll_back s p = Some p" if "s = slabs_tail p"
  proof -
    have "ys = []" using assms(1) that dll_distinct [of "snx p" "spv p" _ _ "xs @ s # ys"] by (cases ys rule: rev_cases) (auto simp: slab_list_def dll_def)
    then have "snx p s = null" using assms(1) dll_next [of "snx p" "spv p" _ _ xs s "[]"] by (simp add: slab_list_def)
    then show ?thesis by (subst roll_back.simps) simp
  qed
  then have "ajust_slab_order s ORDER_BY_BACK p = Some p'" using r(1) by (auto simp: ajust_slab_order_def ORDER_BY_BACK_def ORDER_BY_AHEAD_def)
  moreover have "smax p s \<le> smax p c" if "c \<in> set bs" for c
  proof (cases bs)
    case (Cons z cs)
    then show ?thesis using that r(6) assms(2) r(3) by (auto simp: sorted_append)
  qed (use that in simp)
  then have "sorted (map (smax p) (xs @ as @ s # bs))"
    using assms(2,3) r(3,5) by (auto simp: sorted_append less_imp_le intro: order_trans)
  ultimately show ?thesis using that [of p' "xs @ as @ s # bs"] r same_but_links_sel(1) [OF r(2)] by simp
qed

section \<open>The chunks of a slab\<close>

abbreviation onx :: "(addr \<Rightarrow> obj_header) \<Rightarrow> addr \<Rightarrow> addr" where "onx os \<equiv> \<lambda>a. oh_next (os a)"
abbreviation opv :: "(addr \<Rightarrow> obj_header) \<Rightarrow> addr \<Rightarrow> addr" where "opv os \<equiv> \<lambda>a. oh_prev (os a)"

text \<open>Where the chunk with the header at \<open>c\<close> ends.\<close>

definition cend :: "(addr \<Rightarrow> obj_header) \<Rightarrow> addr \<Rightarrow> addr" where
  "cend os c = c + hdr_size + nat (oh_size (os c))"

text \<open>Chunks that lie one behind the other from \<open>a\<close> to \<open>b\<close>.\<close>

primrec tiles :: "(addr \<Rightarrow> obj_header) \<Rightarrow> addr \<Rightarrow> addr list \<Rightarrow> addr \<Rightarrow> bool" where
  "tiles os a [] b \<longleftrightarrow> a = b"
| "tiles os a (c # cs) b \<longleftrightarrow> a = c \<and> tiles os (cend os c) cs b"

lemma tiles_append: "tiles os a (xs @ ys) b \<longleftrightarrow> (\<exists>m. tiles os a xs m \<and> tiles os m ys b)"
  by (induction xs arbitrary: a) auto

lemma tiles_cong: "(\<And>c. c \<in> set cs \<Longrightarrow> oh_size (os c) = oh_size (os' c)) \<Longrightarrow> tiles os a cs b = tiles os' a cs b"
  by (induction cs arbitrary: a) (auto simp: cend_def)

lemma tiles_le: "tiles os a cs b \<Longrightarrow> a \<le> b"
  by (induction cs arbitrary: a) (force simp: cend_def)+

lemma tiles_in: "tiles os a cs b \<Longrightarrow> c \<in> set cs \<Longrightarrow> a \<le> c \<and> cend os c \<le> b"
proof (induction cs arbitrary: a)
  case (Cons d cs)
  then have "tiles os (cend os d) cs b" "a = d" by auto
  moreover have "a \<le> cend os d" using \<open>a = d\<close> by (simp add: cend_def)
  ultimately show ?case using Cons.IH [of "cend os d"] Cons.prems(2) tiles_le [of os "cend os d" cs b] by auto
qed simp

lemma tiles_disjoint: "tiles os a cs b \<Longrightarrow> c \<in> set cs \<Longrightarrow> d \<in> set cs \<Longrightarrow> c \<noteq> d \<Longrightarrow> cend os c \<le> d \<or> cend os d \<le> c"
proof (induction cs arbitrary: a)
  case (Cons e cs)
  then have t: "tiles os (cend os e) cs b" by auto
  show ?case using Cons.IH [OF t] Cons.prems(2-) tiles_in [OF t] by auto
qed simp

text \<open>The chunks \<open>cs\<close> fill the slab from its first header on, and are linked in this order.\<close>

definition chunks :: "(addr \<Rightarrow> obj_header) \<Rightarrow> int \<Rightarrow> addr \<Rightarrow> addr \<Rightarrow> addr list \<Rightarrow> bool" where
  "chunks os sz s a cs \<longleftrightarrow> cs \<noteq> [] \<and> 0 \<le> sz \<and> dll (onx os) (opv os) a (last cs) cs \<and> tiles os a cs (a + hdr_size + nat sz)
     \<and> (\<forall>c \<in> set cs. oh_slab (os c) = s \<and> 0 \<le> oh_size (os c) \<and> 8 dvd oh_size (os c) \<and> 8 dvd c)"

lemma chunks_in:
  assumes "chunks os sz s a cs" "c \<in> set cs"
  shows "a \<le> c" "cend os c \<le> a + hdr_size + nat sz" "oh_size (os c) \<le> sz" "0 \<le> oh_size (os c)" "oh_slab (os c) = s" "c \<noteq> null"
    "8 dvd oh_size (os c)" "8 dvd c"
proof -
  have t: "tiles os a cs (a + hdr_size + nat sz)" and "0 \<le> oh_size (os c)" "oh_slab (os c) = s" "8 dvd oh_size (os c)" "8 dvd c"
    using assms by (auto simp: chunks_def)
  then show "a \<le> c" "cend os c \<le> a + hdr_size + nat sz" "0 \<le> oh_size (os c)" "oh_slab (os c) = s" "8 dvd oh_size (os c)" "8 dvd c"
    using tiles_in [OF t assms(2)] by simp_all
  then show "oh_size (os c) \<le> sz" using assms(1) unfolding cend_def chunks_def by linarith
  have "null \<notin> set cs" using assms(1) dll_not_null unfolding chunks_def by blast
  then show "c \<noteq> null" using assms(2) by metis
qed

text \<open>One chunk takes in the next one.\<close>

definition absorb :: "addr \<Rightarrow> mem_pool \<Rightarrow> mem_pool" where
  "absorb a p = (let b = oh_next (objs p a); nn = oh_next (objs p b);
     q = (if nn \<noteq> null then upd_obj nn (\<lambda>h. h\<lparr>oh_prev := a\<rparr>) p else p)
     in upd_obj a (\<lambda>h. h\<lparr>oh_size := u32 (oh_size h + (int hdr_size + oh_size (objs q b))), oh_next := nn\<rparr>) q)"

lemma dll_last: "dll nx pv h t xs \<Longrightarrow> xs \<noteq> [] \<Longrightarrow> t = last xs"
  by (cases xs rule: rev_cases) (auto dest: dll_tail)

lemma dll_drop_next:
  assumes "dll nx pv h t (xs @ a # b # ys)"
  shows "dll (nx(a := nx b)) (if nx b \<noteq> null then pv(nx b := a) else pv) h (last (a # ys)) (xs @ a # ys)"
proof (cases ys)
  case Nil
  then show ?thesis using dll_around(2) [OF assms] dll_unlink_tail [of nx pv h t xs a b] assms by simp
next
  case (Cons c cs)
  have "t = last ys" using dll_last [OF assms] Cons by simp
  then show ?thesis using dll_around(2,8) [OF assms] dll_unlink [of nx pv h t xs a b c cs] assms Cons by simp
qed

lemma absorb_chunks:
  assumes "chunks (objs p) sz s h (xs @ a # b # ys)" "sz + int hdr_size < 2 ^ 32"
  shows "chunks (objs (absorb a p)) sz s h (xs @ a # ys)" "oh_size (objs (absorb a p) a) = oh_size (objs p a) + int hdr_size + oh_size (objs p b)"
    "c \<noteq> a \<Longrightarrow> oh_size (objs (absorb a p) c) = oh_size (objs p c)" "oh_inuse (objs (absorb a p) c) = oh_inuse (objs p c)"
    "c \<notin> set (xs @ a # b # ys) \<Longrightarrow> objs (absorb a p) c = objs p c" "absorb a p = p\<lparr>objs := objs (absorb a p)\<rparr>"
proof -
  let ?os = "objs p" and ?os' = "objs (absorb a p)"
  have d: "dll (onx ?os) (opv ?os) h (last (xs @ a # b # ys)) (xs @ a # b # ys)" using assms(1) by (simp add: chunks_def)
  note n = dll_around [OF d]
  have ne: "a \<noteq> b" "onx ?os b \<noteq> a" "onx ?os b \<noteq> b" using n(2,6,7,8) by (auto split: if_splits)
  have abs: "?os' = (if onx ?os b \<noteq> null then ?os(onx ?os b := (?os (onx ?os b))\<lparr>oh_prev := a\<rparr>) else ?os)
      (a := (?os a)\<lparr>oh_size := u32 (oh_size (?os a) + (int hdr_size + oh_size (?os b))), oh_next := onx ?os b\<rparr>)"
    using ne n(4) by (simp add: absorb_def upd_obj_def Let_def)
  have t: "tiles ?os h (xs @ a # b # ys) (h + hdr_size + nat sz)" using assms(1) by (simp add: chunks_def)
  have in1: "a \<in> set (xs @ a # b # ys)" "b \<in> set (xs @ a # b # ys)" by simp_all
  note ca = chunks_in [OF assms(1) in1(1)] and cb = chunks_in [OF assms(1) in1(2)]
  have ab: "b = cend ?os a" using t by (auto simp: tiles_append)
  have sz: "oh_size (?os a) + (int hdr_size + oh_size (?os b)) \<le> sz" "0 \<le> oh_size (?os a) + (int hdr_size + oh_size (?os b))"
    using ca(1,4) cb(2,4) ab assms(1) unfolding cend_def chunks_def by linarith+
  then have u: "u32 (oh_size (?os a) + (int hdr_size + oh_size (?os b))) = oh_size (?os a) + int hdr_size + oh_size (?os b)"
    using assms(2) by (simp add: u32_def)
  show sa: "oh_size (?os' a) = oh_size (?os a) + int hdr_size + oh_size (?os b)" by (simp add: abs u)
  show so: "c \<noteq> a \<Longrightarrow> oh_size (?os' c) = oh_size (?os c)" "oh_inuse (?os' c) = oh_inuse (?os c)" for c
    by (simp_all add: abs)
  show "c \<notin> set (xs @ a # b # ys) \<Longrightarrow> ?os' c = ?os c" for c using n(2) by (auto simp: abs)
  show "absorb a p = p\<lparr>objs := ?os'\<rparr>" by (simp add: absorb_def upd_obj_def Let_def)
  have tx: "tiles ?os' l xs r = tiles ?os l xs r" "tiles ?os' l ys r = tiles ?os l ys r" for l r
    using n(7) by (auto intro!: tiles_cong so(1))
  have "cend ?os' a = cend ?os b" using ab ca(4) cb(4) by (simp add: cend_def sa nat_add_distrib)
  then have "tiles ?os' h (xs @ a # ys) (h + hdr_size + nat sz)"
    using t tx by (auto simp: tiles_append)
  moreover have "dll (onx ?os') (opv ?os') h (last (xs @ a # ys)) (xs @ a # ys)"
  proof -
    have "onx ?os' = (onx ?os)(a := onx ?os b)" "opv ?os' = (if onx ?os b \<noteq> null then (opv ?os)(onx ?os b := a) else opv ?os)"
      using ne by (auto simp: abs fun_eq_iff)
    then show ?thesis using dll_drop_next [OF d] by simp
  qed
  moreover have "\<forall>c \<in> set (xs @ a # ys). oh_slab (?os' c) = s \<and> 0 \<le> oh_size (?os' c) \<and> 8 dvd oh_size (?os' c) \<and> 8 dvd c"
  proof
    fix c assume c: "c \<in> set (xs @ a # ys)"
    note cc = chunks_in [OF assms(1), of c]
    have "8 dvd oh_size (?os' c) \<and> 0 \<le> oh_size (?os' c)" using cc ca cb c sa so(1) [of c] by (cases "c = a") (auto simp: hdr_size_def)
    moreover have "oh_slab (?os' c) = s" using cc c by (auto simp: abs)
    ultimately show "oh_slab (?os' c) = s \<and> 0 \<le> oh_size (?os' c) \<and> 8 dvd oh_size (?os' c) \<and> 8 dvd c" using cc(8) c by auto
  qed
  ultimately show "chunks ?os' sz s h (xs @ a # ys)" using assms(1) by (simp add: chunks_def)
qed

text \<open>The four cases of \<^verbatim>\<open>free\<close> in two steps: the chunk before takes in the released one, and the result takes
  in the chunk behind, whenever these are marked as free.\<close>

definition absorb_free :: "addr \<Rightarrow> mem_pool \<Rightarrow> mem_pool" where
  "absorb_free a p = (if oh_next (objs p a) \<noteq> null \<and> oh_inuse (objs p (oh_next (objs p a))) = 0 then absorb a p else p)"

definition holder :: "addr \<Rightarrow> mem_pool \<Rightarrow> addr" where
  "holder c p = (if oh_prev (objs p c) \<noteq> null \<and> oh_inuse (objs p (oh_prev (objs p c))) = 0 then oh_prev (objs p c) else c)"

lemma obj_upd_eq: "(h = h') \<longleftrightarrow> oh_inuse h = oh_inuse h' \<and> oh_size h = oh_size h' \<and> oh_slab h = oh_slab h' \<and> oh_prev h = oh_prev h'
   \<and> oh_next h = oh_next (h' :: obj_header)"
  by (cases h; cases h') auto

lemma upd_obj_twist: "a \<noteq> b \<Longrightarrow> upd_obj a f (upd_obj b g p) = upd_obj b g (upd_obj a f p)"
  by (simp add: upd_obj_def fun_upd_twist)

lemma upd_obj_twice: "upd_obj a f (upd_obj a g p) = upd_obj a (\<lambda>h. f (g h)) p"
  by (simp add: upd_obj_def)

lemma upd_obj_objs: "objs (upd_obj a f p) c = (if c = a then f (objs p a) else objs p c)"
  by (simp add: upd_obj_def)

lemma merge_next_absorb:
  assumes "onx (objs p) a = b" "onx (objs p) b = nn" "a \<noteq> b" "nn \<notin> {a, b}"
  shows "merge_next a p = absorb a p" "merge_next_head a p = absorb a p"
  using assms by (auto simp: merge_next_def merge_next_head_def absorb_def upd_obj_objs upd_obj_twice Let_def upd_obj_twist)

lemma next_size_upd: "h\<lparr>oh_next := n, oh_size := z\<rparr> = h\<lparr>oh_size := z, oh_next := n\<rparr>"
  by simp

lemma merge_prev_absorb:
  assumes "onx (objs p) a = c" "onx (objs p) c = b" "opv (objs p) c = a" "a \<noteq> c" "b \<notin> {a, c}"
  shows "b \<noteq> null \<Longrightarrow> merge_prev c p = absorb a p" "b = null \<Longrightarrow> merge_prev_tail c p = absorb a p"
  using assms by (auto simp: merge_prev_def merge_prev_tail_def absorb_def upd_obj_objs upd_obj_twice Let_def upd_obj_twist [of b a] next_size_upd)

lemma absorb_sel:
  "onx (objs (absorb a p)) x = (if x = a then onx (objs p) (onx (objs p) a) else onx (objs p) x)"
  "oh_inuse (objs (absorb a p) x) = oh_inuse (objs p x)"
  by (simp_all add: absorb_def upd_obj_objs Let_def)

lemma chunk_neighbours:
  assumes "dll nx pv h t (xs @ c # ys)"
  shows "pv c \<noteq> null \<Longrightarrow> nx (pv c) = c" "pv c \<noteq> null \<Longrightarrow> pv c \<notin> {c, nx c}" "nx c \<noteq> c"
    "nx c \<noteq> null \<Longrightarrow> nx (nx c) \<notin> {c, nx c}" "nx c \<noteq> null \<Longrightarrow> pv c \<noteq> null \<Longrightarrow> nx (nx c) \<noteq> pv c"
proof -
  have d: "distinct (xs @ c # ys)" "null \<notin> set (xs @ c # ys)" using dll_distinct [OF assms] dll_not_null [OF assms] by auto
  have p: "pv c = (if xs = [] then null else last xs)" and n: "nx c = (if ys = [] then null else hd ys)"
    using dll_prev [OF assms] dll_next [OF assms] by auto
  show "nx c \<noteq> c" using n d by (cases ys) auto
  show pn: "pv c \<noteq> null \<Longrightarrow> nx (pv c) = c" "pv c \<noteq> null \<Longrightarrow> pv c \<notin> {c, nx c}"
    using p n d dll_next [of nx pv h t "butlast xs" "last xs" "c # ys"] assms
    by (cases xs rule: rev_cases; cases ys; auto)+
  have nn: "nx (nx c) = (if tl ys = [] then null else hd (tl ys))" if "ys \<noteq> []"
    using that n dll_next [of nx pv h t "xs @ [c]" "hd ys" "tl ys"] assms by simp
  show "nx c \<noteq> null \<Longrightarrow> nx (nx c) \<notin> {c, nx c}" "nx c \<noteq> null \<Longrightarrow> pv c \<noteq> null \<Longrightarrow> nx (nx c) \<noteq> pv c"
    using n p nn d by (cases xs rule: rev_cases; cases ys; cases "tl ys"; auto)+
qed

lemma merge_chunk_absorb:
  assumes "dll (onx (objs p)) (opv (objs p)) h t (xs @ c # ys)"
  shows "merge_chunk c p = (holder c p, absorb_free (holder c p) (if holder c p = c then p else absorb (holder c p) p))"
proof -
  note n = chunk_neighbours [OF assms]
  let ?a = "opv (objs p) c" and ?b = "onx (objs p) c"
  note ab = merge_prev_absorb [of p ?a c ?b] and bn = merge_next_absorb [of p c ?b]
  have bb: "merge_next ?a (absorb ?a p) = absorb ?a (absorb ?a p)" if "?a \<noteq> null" "?b \<noteq> null"
    using merge_next_absorb(1) [of "absorb ?a p" ?a ?b] n that by (simp add: absorb_sel)
  show ?thesis
  proof (cases "?a = null")
    case True
    then show ?thesis using n bn by (simp add: merge_chunk_def holder_def absorb_free_def Let_def)
  next
    case False
    show ?thesis
    proof (cases "?b = null")
      case True
      then show ?thesis using False n ab by (simp add: merge_chunk_def holder_def absorb_free_def absorb_sel Let_def)
    next
      case b: False
      then show ?thesis using False n ab bn bb by (simp add: merge_chunk_def holder_def absorb_free_def absorb_sel Let_def)
    qed
  qed
qed

text \<open>The chunk \<open>a\<close> may have taken in chunks marked as free; the others are as before.\<close>

definition gathered :: "mem_pool \<Rightarrow> addr list \<Rightarrow> addr \<Rightarrow> mem_pool \<Rightarrow> addr list \<Rightarrow> bool" where
  "gathered p cs a q ds \<longleftrightarrow> set ds \<subseteq> set cs \<and> a \<in> set ds \<and> q = p\<lparr>objs := objs q\<rparr>
     \<and> (\<forall>d \<in> set cs - set ds. oh_inuse (objs p d) = 0 \<and> oh_size (objs p d) < oh_size (objs q a))
     \<and> (\<forall>d. d \<noteq> a \<longrightarrow> oh_size (objs q d) = oh_size (objs p d)) \<and> oh_size (objs p a) \<le> oh_size (objs q a)
     \<and> (\<forall>d. oh_inuse (objs q d) = oh_inuse (objs p d)) \<and> (\<forall>d. d \<notin> set cs \<longrightarrow> objs q d = objs p d)"

lemma absorb_gathered:
  assumes "chunks (objs p) sz s h (xs @ a # b # ys)" "sz + int hdr_size < 2 ^ 32" "oh_inuse (objs p b) = 0"
  shows "gathered p (xs @ a # b # ys) a (absorb a p) (xs @ a # ys)" "oh_size (objs p a) < oh_size (objs (absorb a p) a)"
proof -
  note ab = absorb_chunks [OF assms(1,2)]
  have "0 \<le> oh_size (objs p a)" "0 \<le> oh_size (objs p b)" by (rule chunks_in [OF assms(1)], simp)+
  then show "gathered p (xs @ a # b # ys) a (absorb a p) (xs @ a # ys)" "oh_size (objs p a) < oh_size (objs (absorb a p) a)"
    using ab(2-6) assms(3) unfolding gathered_def by (auto simp: hdr_size_def)
qed

lemma gathered_refl: "a \<in> set cs \<Longrightarrow> gathered p cs a p cs"
  by (simp add: gathered_def)

lemma absorb_free_gathered:
  assumes "chunks (objs p) sz s h (xs @ a # ys)" "sz + int hdr_size < 2 ^ 32"
  obtains zs where "chunks (objs (absorb_free a p)) sz s h (xs @ a # zs)" "gathered p (xs @ a # ys) a (absorb_free a p) (xs @ a # zs)"
    "zs = (if ys \<noteq> [] \<and> oh_inuse (objs p (hd ys)) = 0 then tl ys else ys)"
proof (cases "onx (objs p) a \<noteq> null \<and> oh_inuse (objs p (onx (objs p) a)) = 0")
  case False
  have "onx (objs p) a = (if ys = [] then null else hd ys)" using assms(1) dll_next unfolding chunks_def by blast
  moreover have "null \<notin> set ys" using assms(1) dll_not_null unfolding chunks_def by fastforce
  ultimately have "\<not> (ys \<noteq> [] \<and> oh_inuse (objs p (hd ys)) = 0)" using False by (cases ys) auto
  then have ys: "ys = (if ys \<noteq> [] \<and> oh_inuse (objs p (hd ys)) = 0 then tl ys else ys)" by (rule if_not_P [symmetric])
  have "absorb_free a p = p" using False by (auto simp: absorb_free_def)
  then have "chunks (objs (absorb_free a p)) sz s h (xs @ a # ys)" "gathered p (xs @ a # ys) a (absorb_free a p) (xs @ a # ys)"
    using assms(1) gathered_refl [of a "xs @ a # ys" p] by simp_all
  then show ?thesis using ys by (rule that)
next
  case True
  have "onx (objs p) a = (if ys = [] then null else hd ys)" using assms(1) dll_next unfolding chunks_def by blast
  then obtain b zs where ys: "ys = b # zs" "onx (objs p) a = b" using True by (cases ys) auto
  have "zs = (if ys \<noteq> [] \<and> oh_inuse (objs p (hd ys)) = 0 then tl ys else ys)" using True unfolding ys by simp
  moreover have "absorb_free a p = absorb a p" "oh_inuse (objs p b) = 0" using True ys(2) by (simp_all add: absorb_free_def)
  ultimately show ?thesis
    using that [of zs] absorb_chunks(1) [of p sz s h xs a b zs] absorb_gathered(1) [of p sz s h xs a b zs] assms unfolding ys(1) by metis
qed

lemma objs_only_trans: "q = p\<lparr>objs := f\<rparr> \<Longrightarrow> r = q\<lparr>objs := g\<rparr> \<Longrightarrow> r = p\<lparr>objs := g\<rparr>" for p :: mem_pool
  by simp

lemma gathered_trans:
  assumes "gathered p cs a q ds" "gathered q ds a r es"
  shows "gathered p cs a r es" "oh_size (objs q a) \<le> oh_size (objs r a)"
proof -
  note u = assms [unfolded gathered_def]
  show le: "oh_size (objs q a) \<le> oh_size (objs r a)" using u by blast
  have q: "q = p\<lparr>objs := objs q\<rparr>" "r = q\<lparr>objs := objs r\<rparr>" using u by blast+
  have "oh_inuse (objs p d) = 0 \<and> oh_size (objs p d) < oh_size (objs r a)" if "d \<in> set cs - set es" for d
  proof (cases "d \<in> set ds")
    case True
    then have "d \<noteq> a" using that u(2) by blast
    then show ?thesis using True that u by (metis DiffI DiffE)
  next
    case False
    then show ?thesis using that u(1) le by force
  qed
  moreover have "r = p\<lparr>objs := objs r\<rparr>" by (rule objs_only_trans [OF q])
  moreover have "objs r d = objs p d" if "d \<notin> set cs" for d using that u by (metis subsetD)
  moreover have "oh_size (objs p a) \<le> oh_size (objs r a)" using u le by linarith
  moreover have "set es \<subseteq> set cs" "a \<in> set es" using u by blast+
  moreover have "oh_inuse (objs r d) = oh_inuse (objs p d)" "d \<noteq> a \<longrightarrow> oh_size (objs r d) = oh_size (objs p d)" for d using u by simp_all
  ultimately show "gathered p cs a r es" unfolding gathered_def by blast
qed

text \<open>The chunks of a slab after the release of \<open>c\<close> between \<open>xs\<close> and \<open>ys\<close>: a free chunk just before it takes
  it in, and what results takes in a free chunk just behind.\<close>

definition merge_around :: "(addr \<Rightarrow> obj_header) \<Rightarrow> addr list \<Rightarrow> addr \<Rightarrow> addr list \<Rightarrow> addr list" where
  "merge_around os xs c ys =
     (if xs \<noteq> [] \<and> oh_inuse (os (last xs)) = 0 then xs else xs @ [c])
     @ (if ys \<noteq> [] \<and> oh_inuse (os (hd ys)) = 0 then tl ys else ys)"

lemma merge_gathered:
  assumes "chunks (objs p) sz s h cs" "sz + int hdr_size < 2 ^ 32" "cs = xs @ c # ys" "oh_inuse (objs p c) = 0"
  obtains a q ds where "merge_chunk c p = (a, q)" "chunks (objs q) sz s h ds" "gathered p cs a q ds"
    "a = c \<or> (oh_inuse (objs p a) = 0 \<and> oh_size (objs p a) < oh_size (objs q a))" "ds = merge_around (objs p) xs c ys"
proof -
  note cs = assms(3)
  have d: "dll (onx (objs p)) (opv (objs p)) h (last cs) (xs @ c # ys)" using assms(1) cs by (simp add: chunks_def)
  note m = merge_chunk_absorb [OF d]
  have pc: "opv (objs p) c = (if xs = [] then null else last xs)" using dll_prev [OF d] .
  show ?thesis
  proof (cases "holder c p = c")
    case True
    obtain zs where z: "chunks (objs (absorb_free c p)) sz s h (xs @ c # zs)" "gathered p (xs @ c # ys) c (absorb_free c p) (xs @ c # zs)"
      "zs = (if ys \<noteq> [] \<and> oh_inuse (objs p (hd ys)) = 0 then tl ys else ys)"
      by (rule absorb_free_gathered [of p sz s h xs c ys]) (use assms cs in auto)
    have "\<not> (xs \<noteq> [] \<and> oh_inuse (objs p (last xs)) = 0)"
      using True pc dll_not_null [OF d] dll_distinct [OF d] by (auto simp: holder_def dest: last_in_set split: if_splits)
    then have "xs @ c # zs = merge_around (objs p) xs c ys" using z(3) by (simp add: merge_around_def)
    then show ?thesis using that z(1,2) m True cs by simp
  next
    case False
    then have "xs \<noteq> []" "holder c p = last xs" "oh_inuse (objs p (last xs)) = 0" using pc by (auto simp: holder_def split: if_splits)
    then obtain ws a where w: "xs = ws @ [a]" "holder c p = a" "oh_inuse (objs p a) = 0" by (cases xs rule: rev_cases) auto
    then have cs': "cs = ws @ a # c # ys" using cs by simp
    note ab = absorb_chunks(1) [OF assms(1) [unfolded cs'] assms(2)] and
      ag = absorb_gathered [OF assms(1) [unfolded cs'] assms(2,4)]
    obtain zs where z: "chunks (objs (absorb_free a (absorb a p))) sz s h (ws @ a # zs)"
      "gathered (absorb a p) (ws @ a # ys) a (absorb_free a (absorb a p)) (ws @ a # zs)"
      "zs = (if ys \<noteq> [] \<and> oh_inuse (objs (absorb a p) (hd ys)) = 0 then tl ys else ys)"
      by (rule absorb_free_gathered [OF ab assms(2)])
    have "ws @ a # zs = merge_around (objs p) xs c ys" using z(3) w(1,3) by (simp add: merge_around_def absorb_sel)
    then show ?thesis using that [of a _ "ws @ a # zs"] m False w z(1) gathered_trans [OF ag(1) z(2)] ag(2) cs' by auto
  qed
qed

end
