(* ===== verification/MemPoolCorrect.thy ===== *)
theory MemPoolCorrect
  imports MemPool
begin

text \<open>
  The invariant of the memory pool and its properties: every run of allocations and releases, with
  clients that write into their blocks in between, keeps the blocks apart from each other and from
  the headers of the pool.
\<close>

section \<open>The invariant\<close>

definition slab_range :: "int \<Rightarrow> slab_header \<Rightarrow> addr set" where
  "slab_range sz sh = {sl_head sh ..< sl_head sh + hdr_size + nat sz}"

text \<open>A slab with the chunks \<open>cs\<close>, of which those in \<open>L\<close> are in the hands of clients.\<close>

definition slab_ok :: "(addr \<Rightarrow> obj_header) \<Rightarrow> int \<Rightarrow> addr \<Rightarrow> slab_header \<Rightarrow> addr list \<Rightarrow> addr set \<Rightarrow> bool" where
  "slab_ok os sz s sh cs L \<longleftrightarrow> chunks os sz s (sl_head sh) cs \<and> L \<inter> slab_range sz sh \<subseteq> set cs
     \<and> (\<forall>c \<in> set cs \<inter> L. oh_inuse (os c) = INUSE_IDENTIRY) \<and> inuse_objs sh = int (card (set cs \<inter> L))
     \<and> (if max_seriate_free_head sh = null then max_seriate_size sh = 0
        else max_seriate_free_head sh \<in> set cs - L \<and> max_seriate_size sh = oh_size (os (max_seriate_free_head sh)) \<and> 0 < max_seriate_size sh)"

lemma chunks_cong: "(\<And>c. c \<in> set cs \<Longrightarrow> os c = os' c) \<Longrightarrow> chunks os sz s a cs = chunks os' sz s a cs"
  using chain_cong [of cs "onx os" "onx os'"] chain_cong [of "rev cs" "opv os" "opv os'"] tiles_cong [of cs os os']
  by (simp add: chunks_def dll_def)

lemma slab_range_chunk: "chunks os sz s (sl_head sh) cs \<Longrightarrow> c \<in> set cs \<Longrightarrow> c \<in> slab_range sz sh"
  using chunks_in [of os sz s "sl_head sh" cs c] by (auto simp: slab_range_def cend_def hdr_size_def)

lemma slab_ok_cong:
  assumes "slab_ok os sz s sh cs L" "\<And>c. c \<in> set cs \<Longrightarrow> os' c = os c" "L' \<inter> slab_range sz sh = L \<inter> slab_range sz sh"
    "inuse_objs sh' = inuse_objs sh" "max_seriate_size sh' = max_seriate_size sh" "sl_head sh' = sl_head sh"
    "max_seriate_free_head sh' = max_seriate_free_head sh"
  shows "slab_ok os' sz s sh' cs L'"
proof -
  have "set cs \<subseteq> slab_range sz sh" using assms(1) slab_range_chunk [of os sz s sh cs] by (auto simp: slab_ok_def)
  then have "set cs \<inter> L' = set cs \<inter> L" "set cs - L' = set cs - L" using assms(3) by blast+
  moreover have "L' \<inter> slab_range sz sh' \<subseteq> set cs" using assms by (simp add: slab_ok_def slab_range_def)
  moreover have "chunks os' sz s (sl_head sh) cs" using assms(1,2) chunks_cong [of cs os os'] by (simp add: slab_ok_def)
  ultimately show ?thesis using assms(1,2,4-) unfolding slab_ok_def by (simp split: if_splits)
qed

text \<open>Releasing a chunk: what it has become part of is known as the largest free chunk of its slab if it
  is larger than the one known before.\<close>

definition note_free :: "addr \<Rightarrow> int \<Rightarrow> slab_header \<Rightarrow> slab_header" where
  "note_free a n sh = (if n > max_seriate_size sh then sh\<lparr>max_seriate_size := n, max_seriate_free_head := a\<rparr> else sh)"

lemma free_slab:
  assumes "slab_ok (objs p) sz s sh cs L" "sz + int hdr_size < 2 ^ 32" "cs = xs @ c # ys" "c \<in> L"
  obtains a q ds where "merge_chunk c (upd_obj c (\<lambda>h. h\<lparr>oh_inuse := 0\<rparr>) p) = (a, q)" "oh_slab (objs q a) = s" "q = p\<lparr>objs := objs q\<rparr>"
    "slab_ok (objs q) sz s ((note_free a (oh_size (objs q a)) sh)\<lparr>inuse_objs := inuse_objs sh - 1\<rparr>) ds (L - {c})"
    "\<forall>d \<in> L - {c}. oh_size (objs q d) = oh_size (objs p d)" "\<forall>d. d \<notin> set cs \<longrightarrow> objs q d = objs p d" "oh_inuse (objs q c) = 0"
    "ds = merge_around (objs p) xs c ys"
proof -
  have inc: "c \<in> set cs" using assms(3) by simp
  let ?p = "upd_obj c (\<lambda>h. h\<lparr>oh_inuse := 0\<rparr>) p"
  have ch: "chunks (objs p) sz s (sl_head sh) cs" and live: "\<And>d. d \<in> set cs \<Longrightarrow> d \<in> L \<Longrightarrow> oh_inuse (objs p d) = INUSE_IDENTIRY"
    using assms(1) by (auto simp: slab_ok_def)
  have sel: "oh_size (objs ?p d) = oh_size (objs p d)" "onx (objs ?p) d = onx (objs p) d" "opv (objs ?p) d = opv (objs p) d"
    "oh_slab (objs ?p d) = oh_slab (objs p d)" for d
    by (simp_all add: upd_obj_objs)
  have "chunks (objs ?p) sz s (sl_head sh) cs"
    using ch tiles_cong [of cs "objs ?p" "objs p"] unfolding chunks_def sel by simp
  then obtain a q ds where m: "merge_chunk c ?p = (a, q)" "chunks (objs q) sz s (sl_head sh) ds" "gathered ?p cs a q ds"
    "a = c \<or> (oh_inuse (objs ?p a) = 0 \<and> oh_size (objs ?p a) < oh_size (objs q a))" "ds = merge_around (objs ?p) xs c ys"
    by (rule merge_gathered [OF _ assms(2,3)]) (simp_all add: upd_obj_objs)
  have "distinct cs" using ch dll_distinct unfolding chunks_def by blast
  then have "merge_around (objs ?p) xs c ys = merge_around (objs p) xs c ys"
  proof -
    have "xs \<noteq> [] \<longrightarrow> last xs \<noteq> c" "ys \<noteq> [] \<longrightarrow> hd ys \<noteq> c"
      using \<open>distinct cs\<close> assms(3) by (cases xs rule: rev_cases; cases ys; simp)+
    then have "xs \<noteq> [] \<longrightarrow> oh_inuse (objs ?p (last xs)) = oh_inuse (objs p (last xs))"
      "ys \<noteq> [] \<longrightarrow> oh_inuse (objs ?p (hd ys)) = oh_inuse (objs p (hd ys))" by (simp_all add: upd_obj_objs)
    then show ?thesis unfolding merge_around_def by (intro arg_cong2 [where f = "(@)"] if_cong) auto
  qed
  then have ds: "ds = merge_around (objs p) xs c ys" using m(5) by simp
  note g = m(3) [unfolded gathered_def sel]
  have free: "oh_inuse (objs ?p d) = 0 \<Longrightarrow> d \<in> set cs \<Longrightarrow> d \<notin> L - {c}" for d
    using live [of d] by (auto simp: upd_obj_objs INUSE_IDENTIRY_def split: if_splits)
  have a: "a \<in> set ds" "set ds \<subseteq> set cs" "a \<notin> L - {c}" using g m(4) free [of a] by auto
  have L: "set ds \<inter> (L - {c}) = set cs \<inter> L - {c}" using g free by blast
  let ?sh = "note_free a (oh_size (objs q a)) sh" and ?f = "max_seriate_free_head sh"
  have an: "a \<noteq> null" using chunks_in(6) [OF m(2) a(1)] .
  have kept: "?f \<in> set ds \<and> oh_size (objs q ?f) = oh_size (objs p ?f)"
    if f: "?f \<noteq> null" "\<not> max_seriate_size sh < oh_size (objs q a)"
  proof -
    have f': "?f \<in> set cs" "?f \<notin> L" "max_seriate_size sh = oh_size (objs p ?f)" using assms(1) f(1) by (auto simp: slab_ok_def)
    then have "?f \<in> set ds" using g f(2) by force
    moreover have "?f \<noteq> a" using m(4) f(2) f'(2,3) assms(4) by (auto simp: sel)
    ultimately show ?thesis using g by simp
  qed
  have "0 \<le> max_seriate_size sh" using assms(1) by (auto simp: slab_ok_def split: if_splits)
  then have head: "if max_seriate_free_head ?sh = null then max_seriate_size ?sh = 0
      else max_seriate_free_head ?sh \<in> set ds - (L - {c}) \<and> max_seriate_size ?sh = oh_size (objs q (max_seriate_free_head ?sh)) \<and> 0 < max_seriate_size ?sh"
    using an a(1,3) kept assms(1) by (auto simp: note_free_def slab_ok_def split: if_splits)
  have card: "int (card (set ds \<inter> (L - {c}))) = inuse_objs sh - 1"
  proof -
    have "card (set cs \<inter> L) = Suc (card (set cs \<inter> L - {c}))" using inc assms(4) by (intro card.remove) auto
    then show ?thesis using assms(1) unfolding L slab_ok_def by simp
  qed
  have sl: "sl_head ?sh = sl_head sh" by (simp add: note_free_def)
  have "oh_inuse (objs q d) = INUSE_IDENTIRY" if "d \<in> set ds \<inter> (L - {c})" for d
    using that g live [of d] by (auto simp: L upd_obj_objs)
  moreover have "(L - {c}) \<inter> slab_range sz sh \<subseteq> set ds" using assms(1) L by (auto simp: slab_ok_def)
  ultimately have "slab_ok (objs q) sz s (?sh\<lparr>inuse_objs := inuse_objs sh - 1\<rparr>) ds (L - {c})"
    using m(2) head card sl by (simp add: slab_ok_def slab_range_def split: if_splits)
  moreover have "oh_slab (objs q a) = s" using chunks_in(5) [OF m(2) a(1)] .
  moreover have "q = p\<lparr>objs := objs q\<rparr>" by (rule objs_only_trans [where q = ?p]) (use g in \<open>auto simp: upd_obj_def\<close>)
  moreover have "\<forall>d \<in> L - {c}. oh_size (objs q d) = oh_size (objs p d)" using g a(3) by metis
  moreover have "\<forall>d. d \<notin> set cs \<longrightarrow> objs q d = objs p d" "oh_inuse (objs q c) = 0" using g inc by (auto simp: upd_obj_objs)
  ultimately show ?thesis using that m(1) ds by blast
qed

text \<open>Cutting a chunk in two.\<close>

lemma dll_insert_behind:
  assumes "dll nx pv h t (xs @ f # ys)" "g \<notin> set (xs @ f # ys)" "g \<noteq> null"
  shows "dll (nx(g := nx f, f := g)) ((if nx f \<noteq> null then pv(nx f := g) else pv)(g := f)) h (last (g # ys)) (xs @ f # g # ys)"
proof -
  have d: "distinct (xs @ f # ys)" "null \<notin> set (xs @ f # ys)" using dll_distinct [OF assms(1)] dll_not_null [OF assms(1)] by auto
  have n: "nx f = (if ys = [] then null else hd ys)" using dll_next [OF assms(1)] .
  have l: "t = last (f # ys)" using dll_last [OF assms(1)] by simp
  have f: "chain nx h (xs @ f # ys) null" and b: "chain pv t (rev ys @ f # rev xs) null" using assms(1) by (simp_all add: dll_def)
  have "chain (nx(g := nx f, f := g)) h (xs @ f # g # ys) null" using f d assms(2,3) by (auto simp: chain_append)
  moreover have "chain ((if nx f \<noteq> null then pv(nx f := g) else pv)(g := f)) (last (g # ys)) (rev ys @ g # f # rev xs) null"
  proof (cases ys)
    case Nil
    then show ?thesis using b d n l assms(2,3) by auto
  next
    case (Cons z zs)
    then show ?thesis using b d n l assms(2,3) by (auto simp: chain_append)
  qed
  ultimately show ?thesis by (simp add: dll_def)
qed

definition carved :: "(addr \<Rightarrow> obj_header) \<Rightarrow> addr \<Rightarrow> addr \<Rightarrow> int \<Rightarrow> addr \<Rightarrow> int \<Rightarrow> addr \<Rightarrow> obj_header" where
  "carved os s f n g m =
     (let h = os f in (if oh_next h \<noteq> null then os(oh_next h := (os (oh_next h))\<lparr>oh_prev := g\<rparr>) else os)
       (g := (os g)\<lparr>oh_size := m, oh_slab := s, oh_prev := f, oh_next := oh_next h\<rparr>,
        f := h\<lparr>oh_inuse := INUSE_IDENTIRY, oh_size := n, oh_slab := s, oh_next := g\<rparr>))"

lemma carved_chunks:
  assumes "chunks os sz s h (xs @ f # ys)" "0 \<le> n" "8 dvd n" "n + int hdr_size < oh_size (os f)" "g = f + hdr_size + nat n"
  shows "chunks (carved os s f n g (oh_size (os f) - n - int hdr_size)) sz s h (xs @ f # g # ys)" "g \<notin> set (xs @ f # ys)"
    "g + hdr_size \<le> cend os f"
proof -
  let ?os = "carved os s f n g (oh_size (os f) - n - int hdr_size)"
  have inf: "f \<in> set (xs @ f # ys)" by simp
  note cf = chunks_in [OF assms(1) inf]
  have t: "tiles os h (xs @ f # ys) (h + hdr_size + nat sz)" and d: "dll (onx os) (opv os) h (last (xs @ f # ys)) (xs @ f # ys)"
    using assms(1) by (simp_all add: chunks_def)
  show ge: "g + hdr_size \<le> cend os f" using assms(2,4,5) by (simp add: cend_def)
  show ng: "g \<notin> set (xs @ f # ys)"
  proof
    assume "g \<in> set (xs @ f # ys)"
    moreover have "g \<noteq> f" using assms(5) by (simp add: hdr_size_def)
    moreover have "g < cend os f" "f < g" using ge assms(5) by (simp_all add: hdr_size_def)
    moreover have "g \<le> cend os g" by (simp add: cend_def)
    ultimately show False using tiles_disjoint [OF t _ inf] by force
  qed
  have gn: "g \<noteq> null" using assms(5) by (simp add: hdr_size_def)
  have dis: "distinct (xs @ f # ys)" using dll_distinct [OF d] .
  have nf: "onx os f = (if ys = [] then null else hd ys)" using dll_next [OF d] .
  have nfi: "onx os f \<noteq> null \<Longrightarrow> onx os f \<in> set ys" using nf by (auto split: if_splits)
  then have nfg: "onx os f \<noteq> g" "onx os f \<noteq> f" using ng gn dis cf(6) by (cases "onx os f = null"; auto)+
  have sz: "oh_size (?os d) = (if d = f then n else if d = g then oh_size (os f) - n - int hdr_size else oh_size (os d))" for d
    by (simp add: carved_def Let_def)
  have tx: "tiles ?os l xs r = tiles os l xs r" "tiles ?os l ys r = tiles os l ys r" for l r
    using ng dis sz by (auto intro!: tiles_cong)
  have "g \<noteq> f" using ng by auto
  then have sfg: "oh_size (?os f) = n" "oh_size (?os g) = oh_size (os f) - n - int hdr_size" using sz by simp_all
  have "cend ?os f = g" unfolding cend_def sfg(1) using assms(5) by (rule sym)
  moreover have "cend ?os g = cend os f" unfolding cend_def sfg(2) using assms(2,4,5) by linarith
  ultimately have ce: "cend ?os f = g" "cend ?os g = cend os f" by simp_all
  have "tiles ?os h (xs @ f # g # ys) (h + hdr_size + nat sz)" using t tx ce by (auto simp: tiles_append)
  moreover have "dll (onx ?os) (opv ?os) h (last (xs @ f # g # ys)) (xs @ f # g # ys)"
  proof -
    have "onx ?os = (onx os)(g := onx os f, f := g)" "opv ?os = (if onx os f \<noteq> null then (opv os)(onx os f := g) else opv os)(g := f)"
      using nfg ng by (auto simp: carved_def Let_def fun_eq_iff)
    then show ?thesis using dll_insert_behind [OF d ng gn] by simp
  qed
  moreover have "oh_slab (?os c) = s \<and> 0 \<le> oh_size (?os c) \<and> 8 dvd oh_size (?os c) \<and> 8 dvd c" if "c \<in> set (xs @ f # g # ys)" for c
  proof -
    have "8 dvd g" unfolding assms(5) hdr_size_def using cf(8) assms(2,3) by presburger
    moreover have "8 dvd oh_size (os f) - n - int hdr_size" using cf(7) assms(3) by (simp add: hdr_size_def)
    moreover have "oh_slab (?os c) = s" using that chunks_in(5) [OF assms(1), of c] by (auto simp: carved_def Let_def)
    ultimately show ?thesis using that assms(2-4) chunks_in(4,7,8) [OF assms(1), of c] ng cf(8) unfolding sz by auto
  qed
  ultimately show "chunks ?os sz s h (xs @ f # g # ys)" using assms(1) by (simp add: chunks_def)
qed

lemma upd_sel:
  "objs (upd_slab a k p) = objs p" "slabs (upd_obj a f p) = slabs p"
  "slabs (upd_slab a k p) b = (if b = a then k (slabs p a) else slabs p b)"
  by (simp_all add: upd_slab_def upd_obj_def)

lemma carve_carved:
  assumes "onx (objs p) f = nf" "nf \<noteq> f" "nf \<noteq> g" "f + hdr_size + nat n = g" "f \<noteq> g"
    "u32 (max_seriate_size (slabs p s) - int hdr_size) = m" "oh_inuse (objs p f) = INUSE_IDENTIRY" "oh_slab (objs p f) = s"
  shows "objs (carve s f n p) = carved (objs p) s f n g m"
    "slabs (carve s f n p) = (slabs p)(s := (slabs p s)\<lparr>max_seriate_size := m, max_seriate_free_head := g\<rparr>)"
    "carve s f n p = p\<lparr>objs := objs (carve s f n p), slabs := slabs (carve s f n p)\<rparr>"
proof -
  show "objs (carve s f n p) = carved (objs p) s f n g m"
  proof
    fix x show "objs (carve s f n p) x = carved (objs p) s f n g m x"
      using assms by (auto simp: carve_def carved_def upd_sel upd_obj_objs Let_def obj_upd_eq)
  qed
  show "slabs (carve s f n p) = (slabs p)(s := (slabs p s)\<lparr>max_seriate_size := m, max_seriate_free_head := g\<rparr>)"
  proof
    fix x show "slabs (carve s f n p) x = ((slabs p)(s := (slabs p s)\<lparr>max_seriate_size := m, max_seriate_free_head := g\<rparr>)) x"
      using assms by (auto simp: carve_def upd_sel Let_def)
  qed
  show "carve s f n p = p\<lparr>objs := objs (carve s f n p), slabs := slabs (carve s f n p)\<rparr>"
    by (simp add: carve_def upd_obj_def upd_slab_def Let_def)
qed

text \<open>Taking a chunk out of a slab: the two outcomes.\<close>

lemma live_more:
  assumes "slab_ok os sz s sh cs L" "f \<in> set cs" "f \<notin> L"
  shows "insert f L \<inter> slab_range sz sh \<subseteq> set cs" "int (card (set cs \<inter> insert f L)) = inuse_objs sh + 1"
  using assms by (auto simp: slab_ok_def Int_insert_right)

lemma pop_whole:
  assumes "slab_ok (objs p) sz s (slabs p s) cs L" "f = max_seriate_free_head (slabs p s)" "f \<noteq> null"
  defines "os \<equiv> (objs p)(f := (objs p f)\<lparr>oh_slab := s, oh_inuse := INUSE_IDENTIRY\<rparr>)"
  shows "slab_ok os sz s ((slabs p s)\<lparr>inuse_objs := inuse_objs (slabs p s) + 1, max_seriate_size := 0, max_seriate_free_head := null\<rparr>) cs (insert f L)"
proof -
  have f: "f \<in> set cs" "f \<notin> L" and ch: "chunks (objs p) sz s (sl_head (slabs p s)) cs" using assms(1-3) by (auto simp: slab_ok_def)
  have sel: "oh_size (os d) = oh_size (objs p d)" "onx os d = onx (objs p) d" "opv os d = opv (objs p) d" for d by (simp_all add: os_def)
  have "oh_slab (os d) = s" if "d \<in> set cs" for d using that chunks_in(5) [OF ch that] by (simp add: os_def)
  then have "chunks os sz s (sl_head (slabs p s)) cs"
    using ch tiles_cong [of cs os "objs p"] unfolding chunks_def sel by simp
  moreover have "oh_inuse (os d) = INUSE_IDENTIRY" if "d \<in> set cs \<inter> insert f L" for d using that assms(1) by (auto simp: os_def slab_ok_def)
  ultimately show ?thesis using live_more [OF assms(1) f] by (simp add: slab_ok_def slab_range_def)
qed

lemma pop_carve:
  assumes "slab_ok (objs p) sz s (slabs p s) cs L" "f = max_seriate_free_head (slabs p s)" "f \<noteq> null"
    "0 \<le> n" "8 dvd n" "n + int hdr_size < max_seriate_size (slabs p s)" "g = f + hdr_size + nat n"
  defines "m \<equiv> max_seriate_size (slabs p s) - n - int hdr_size"
  obtains ds where "slab_ok (carved (objs p) s f n g m) sz s
      ((slabs p s)\<lparr>inuse_objs := inuse_objs (slabs p s) + 1, max_seriate_size := m, max_seriate_free_head := g\<rparr>) ds (insert f L)"
    "g \<notin> set cs" "g \<in> slab_range sz (slabs p s)" "f \<in> set ds"
proof -
  let ?os = "carved (objs p) s f n g m"
  have f: "f \<in> set cs" "f \<notin> L" "oh_size (objs p f) = max_seriate_size (slabs p s)"
    and ch: "chunks (objs p) sz s (sl_head (slabs p s)) cs" using assms(1-3) by (auto simp: slab_ok_def)
  obtain xs ys where cs: "cs = xs @ f # ys" using f(1) by (auto simp: in_set_conv_decomp)
  note c = carved_chunks [OF ch [unfolded cs] assms(4,5) _ assms(7)]
  have n: "n + int hdr_size < oh_size (objs p f)" using assms(6) f(3) by simp
  have m: "oh_size (objs p f) - n - int hdr_size = m" using f(3) by (simp add: m_def)
  note c' = c [OF n, unfolded m]
  have g: "g \<in> slab_range sz (slabs p s)"
    using slab_range_chunk [OF ch f(1)] c'(3) chunks_in(1,2) [OF ch f(1)] assms(7) by (auto simp: slab_range_def hdr_size_def)
  have gL: "g \<notin> L" "g \<noteq> f" "g \<notin> set cs" "g \<noteq> null" using assms(1) g c'(2) cs assms(7) by (auto simp: slab_ok_def hdr_size_def)
  have "oh_inuse (?os d) = INUSE_IDENTIRY" if "d \<in> set cs \<inter> insert f L" for d using that assms(1) gL by (auto simp: carved_def Let_def slab_ok_def)
  moreover have "set (xs @ f # g # ys) \<inter> insert f L = set cs \<inter> insert f L" using gL(1,2) cs by auto
  moreover have "oh_size (?os g) = m" using gL(2) by (simp add: carved_def Let_def)
  moreover have "insert f L \<inter> slab_range sz (slabs p s) \<subseteq> set (xs @ f # g # ys)" using live_more(1) [OF assms(1) f(1,2)] cs by auto
  ultimately have "slab_ok ?os sz s ((slabs p s)\<lparr>inuse_objs := inuse_objs (slabs p s) + 1, max_seriate_size := m, max_seriate_free_head := g\<rparr>)
      (xs @ f # g # ys) (insert f L)"
    using c'(1) live_more(2) [OF assms(1) f(1,2)] gL assms(6) by (simp add: slab_ok_def slab_range_def m_def)
  then show ?thesis using that [of "xs @ f # g # ys"] gL(3) g by simp
qed

lemma pool_eq: "f = f' \<Longrightarrow> g = g' \<Longrightarrow> p\<lparr>objs := f, slabs := g\<rparr> = p\<lparr>objs := f', slabs := g'\<rparr>"
  by simp

lemma chunk_next:
  assumes "chunks os sz s h cs" "f \<in> set cs"
  shows "onx os f \<noteq> f" "onx os f = null \<or> onx os f \<in> set cs"
proof -
  obtain xs ys where cs: "cs = xs @ f # ys" using assms(2) by (auto simp: in_set_conv_decomp)
  have d: "dll (onx os) (opv os) h (last cs) (xs @ f # ys)" using assms(1) cs by (simp add: chunks_def)
  show "onx os f \<noteq> f" by (rule chunk_neighbours(3) [OF d])
  show "onx os f = null \<or> onx os f \<in> set cs" using dll_next [OF d] cs by (auto split: if_splits)
qed

lemma pop_slab:
  assumes "slab_ok (objs p) sz s (slabs p s) cs L" "f = max_seriate_free_head (slabs p s)" "f \<noteq> null"
    "0 \<le> n" "8 dvd n" "n \<le> max_seriate_size (slabs p s)" "sz + int hdr_size < 2 ^ 32"
  obtains os sh ds where "pop_usable_object s n p = Inr (f, p\<lparr>objs := os, slabs := (slabs p)(s := sh)\<rparr>)" "slab_ok os sz s sh ds (insert f L)"
    "f \<in> set ds" "n \<le> oh_size (os f)" "\<forall>d. d \<notin> slab_range sz (slabs p s) \<longrightarrow> os d = objs p d" "\<forall>d \<in> L. oh_size (os d) = oh_size (objs p d)"
    "sl_head sh = sl_head (slabs p s)" "sl_prev sh = spv p s" "sl_next sh = snx p s" "max_seriate_size sh \<le> smax p s"
proof -
  have f: "f \<in> set cs" "f \<notin> L" "oh_size (objs p f) = max_seriate_size (slabs p s)" "0 < max_seriate_size (slabs p s)"
    and ch: "chunks (objs p) sz s (sl_head (slabs p s)) cs" using assms(1-3) by (auto simp: slab_ok_def)
  have u: "u32 (max_seriate_size (slabs p s) - n) = max_seriate_size (slabs p s) - n"
    using assms(4,6,7) chunks_in(3) [OF ch f(1)] f(3) by (simp add: u32_def hdr_size_def)
  let ?q = "upd_obj f (\<lambda>h. h\<lparr>oh_slab := s, oh_inuse := INUSE_IDENTIRY\<rparr>)
    (upd_slab s (\<lambda>s. s\<lparr>max_seriate_size := u32 (max_seriate_size s - n)\<rparr>) p)"
  have fr: "f \<in> slab_range sz (slabs p s)" using slab_range_chunk [OF ch f(1)] .
  show ?thesis
  proof (cases "int hdr_size < max_seriate_size (slabs p s) - n")
    case False
    let ?os = "(objs p)(f := (objs p f)\<lparr>oh_slab := s, oh_inuse := INUSE_IDENTIRY\<rparr>)"
    let ?sh = "(slabs p s)\<lparr>inuse_objs := inuse_objs (slabs p s) + 1, max_seriate_size := 0, max_seriate_free_head := null\<rparr>"
    have "pop_usable_object s n p = Inr (f, p\<lparr>objs := ?os, slabs := (slabs p)(s := ?sh)\<rparr>)"
      using False u assms(2,3) by (auto simp: pop_usable_object_def Let_def upd_slab_def upd_obj_def intro!: pool_eq)
    then show ?thesis using that [where os = ?os and sh = ?sh and ds = cs] pop_whole [OF assms(1-3)] f assms(6) fr by auto
  next
    case True
    obtain g where g: "g = f + hdr_size + nat n" by blast
    obtain m where m: "max_seriate_size (slabs p s) - n - int hdr_size = m" by blast
    let ?os = "carved (objs p) s f n g m"
    let ?sh = "(slabs p s)\<lparr>inuse_objs := inuse_objs (slabs p s) + 1, max_seriate_size := m, max_seriate_free_head := g\<rparr>"
    obtain ds where d: "slab_ok ?os sz s ?sh ds (insert f L)" "g \<notin> set cs" "g \<in> slab_range sz (slabs p s)" "f \<in> set ds"
      by (rule pop_carve [OF assms(1-5) _ g, unfolded m]) (use True in linarith)+
    have gf: "f \<noteq> g" "g \<noteq> null" using g by (simp_all add: hdr_size_def)
    have nx: "onx (objs ?q) f = onx (objs p) f" by (simp add: upd_obj_def upd_slab_def)
    note nf = chunk_next [OF ch f(1)]
    have um: "u32 (max_seriate_size (slabs ?q s) - int hdr_size) = m"
      using u m True assms(4,7) chunks_in(3) [OF ch f(1)] f(3) by (simp add: upd_sel u32_def hdr_size_def)
    have c: "objs (carve s f n ?q) = carved (objs ?q) s f n g m"
      "slabs (carve s f n ?q) = (slabs ?q)(s := (slabs ?q s)\<lparr>max_seriate_size := m, max_seriate_free_head := g\<rparr>)"
      "carve s f n ?q = ?q\<lparr>objs := objs (carve s f n ?q), slabs := slabs (carve s f n ?q)\<rparr>"
      by (rule carve_carved [OF nx _ _ g [symmetric] gf(1) um], use nf d(2) gf in \<open>auto simp: upd_obj_objs\<close>)+
    have co: "carved (objs ?q) s f n g m = ?os"
    proof
      fix x show "carved (objs ?q) s f n g m x = ?os x"
        using nf(1) gf(1) by (simp add: carved_def Let_def upd_obj_objs upd_sel)
    qed
    have cq: "carve s f n ?q = ?q\<lparr>objs := ?os, slabs := (slabs ?q)(s := (slabs ?q s)\<lparr>max_seriate_size := m, max_seriate_free_head := g\<rparr>)\<rparr>"
      using c(3) unfolding c(1,2) co .
    have "upd_slab s (\<lambda>s. s\<lparr>inuse_objs := inuse_objs s + 1\<rparr>) (carve s f n ?q) = p\<lparr>objs := ?os, slabs := (slabs p)(s := ?sh)\<rparr>"
      unfolding cq by (auto simp: upd_slab_def upd_obj_def intro!: pool_eq)
    moreover have "pop_usable_object s n p = Inr (f, upd_slab s (\<lambda>s. s\<lparr>inuse_objs := inuse_objs s + 1\<rparr>) (carve s f n ?q))"
      using True u assms(2,3) by (simp add: pop_usable_object_def upd_sel hdr_size_def Let_def)
    ultimately have "pop_usable_object s n p = Inr (f, p\<lparr>objs := ?os, slabs := (slabs p)(s := ?sh)\<rparr>)" by simp
    moreover have "n \<le> oh_size (?os f)" by (simp add: carved_def Let_def)
    moreover have "\<forall>d \<in> L. oh_size (?os d) = oh_size (objs p d)" using f(2) d(2,3) assms(1) by (auto simp: carved_def Let_def slab_ok_def)
    moreover have "\<forall>d. d \<notin> slab_range sz (slabs p s) \<longrightarrow> ?os d = objs p d"
      using fr d(3) nf slab_range_chunk [OF ch, of "onx (objs p) f"] by (auto simp: carved_def Let_def)
    ultimately show ?thesis using that [where os = ?os and sh = ?sh and ds = ds] d(1,4) assms(4) m by (simp add: hdr_size_def)
  qed
qed

section \<open>The pool\<close>

definition slab_end :: "mem_pool \<Rightarrow> addr \<Rightarrow> addr" where
  "slab_end p s = sl_head (slabs p s) + hdr_size + nat (slab_size p)"

text \<open>All slabs are in order, lie apart from each other in memory that was handed out, and hold all live chunks.\<close>

definition slabs_ok :: "mem_pool \<Rightarrow> addr list \<Rightarrow> (addr \<Rightarrow> addr list) \<Rightarrow> addr set \<Rightarrow> bool" where
  "slabs_ok p ss cs L \<longleftrightarrow>
     (\<forall>s \<in> set ss. slab_ok (objs p) (slab_size p) s (slabs p s) (cs s) L \<and> slab_end p s \<le> mem_fresh p \<and> s < slab_fresh p)
     \<and> (\<forall>s \<in> set ss. \<forall>t \<in> set ss. s \<noteq> t \<longrightarrow> slab_range (slab_size p) (slabs p s) \<inter> slab_range (slab_size p) (slabs p t) = {})
     \<and> L \<subseteq> (\<Union>s \<in> set ss. set (cs s))"

definition config_ok :: "mem_pool \<Rightarrow> bool" where
  "config_ok p \<longleftrightarrow> int hdr_size < slab_size p \<and> 8 dvd slab_size p \<and> slab_size p + int hdr_size < 2 ^ 32 \<and> 0 < prealloc_slab_num p
     \<and> 8 dvd mem_fresh p \<and> 0 < mem_fresh p \<and> 0 < slab_fresh p"

definition pool_rep :: "mem_pool \<Rightarrow> addr list \<Rightarrow> (addr \<Rightarrow> addr list) \<Rightarrow> addr set \<Rightarrow> bool" where
  "pool_rep p ss cs L \<longleftrightarrow> slab_list p ss \<and> sorted (map (smax p) ss) \<and> slabs_ok p ss cs L \<and> config_ok p \<and> alloced_slabs p = int (length ss)"

lemma slabs_ok_in:
  assumes "slabs_ok p ss cs L" "s \<in> set ss"
  shows "slab_ok (objs p) (slab_size p) s (slabs p s) (cs s) L" "slab_end p s \<le> mem_fresh p" "s < slab_fresh p"
    "chunks (objs p) (slab_size p) s (sl_head (slabs p s)) (cs s)" "set (cs s) \<subseteq> slab_range (slab_size p) (slabs p s)"
    "smax p s \<le> slab_size p" "0 \<le> smax p s"
proof -
  show a: "slab_ok (objs p) (slab_size p) s (slabs p s) (cs s) L" "slab_end p s \<le> mem_fresh p" "s < slab_fresh p"
    using assms by (simp_all add: slabs_ok_def)
  then show c: "chunks (objs p) (slab_size p) s (sl_head (slabs p s)) (cs s)" by (simp add: slab_ok_def)
  then show "set (cs s) \<subseteq> slab_range (slab_size p) (slabs p s)" using slab_range_chunk by blast
  show "smax p s \<le> slab_size p" "0 \<le> smax p s"
    using a(1) chunks_in(3,4) [OF c, of "max_seriate_free_head (slabs p s)"] c
    by (auto simp: slab_ok_def chunks_def split: if_splits)
qed

text \<open>One slab changes within its memory, and with it its live chunks.\<close>

lemma slabs_ok_change:
  assumes "slabs_ok p ss cs L" "s \<in> set ss"
    and "slab_ok (objs q) (slab_size p) s (slabs q s) ds L'" "sl_head (slabs q s) = sl_head (slabs p s)"
    and "\<forall>d. d \<notin> slab_range (slab_size p) (slabs p s) \<longrightarrow> objs q d = objs p d"
    and "\<forall>t. t \<noteq> s \<longrightarrow> inuse_objs (slabs q t) = inuse_objs (slabs p t) \<and> max_seriate_size (slabs q t) = max_seriate_size (slabs p t)
       \<and> sl_head (slabs q t) = sl_head (slabs p t) \<and> max_seriate_free_head (slabs q t) = max_seriate_free_head (slabs p t)"
    and "L' - set ds = L - set (cs s)" "slab_size q = slab_size p" "mem_fresh q = mem_fresh p" "slab_fresh q = slab_fresh p" "set ts = set ss"
  shows "slabs_ok q ts (cs(s := ds)) L'"
proof -
  let ?R = "\<lambda>t. slab_range (slab_size p) (slabs p t)"
  have h: "sl_head (slabs q t) = sl_head (slabs p t)" for t using assms(4,6) by (cases "t = s") auto
  then have r: "slab_range (slab_size q) (slabs q t) = ?R t" "slab_end q t = slab_end p t" for t
    using assms(8) by (simp_all add: slab_range_def slab_end_def)
  have dis: "?R s \<inter> ?R t = {}" if "t \<in> set ss" "t \<noteq> s" for t using assms(1,2) that unfolding slabs_ok_def by blast
  have ds: "set ds \<subseteq> ?R s" using assms(3) slab_range_chunk [of "objs q" _ s "slabs q s" ds] r(1) [of s] assms(8) by (auto simp: slab_ok_def)
  have cs: "set (cs s) \<subseteq> ?R s" using slabs_ok_in(5) [OF assms(1,2)] .
  have "slab_ok (objs q) (slab_size q) t (slabs q t) ((cs(s := ds)) t) L'" if t: "t \<in> set ss" for t
  proof (cases "t = s")
    case True
    then show ?thesis using assms(3,8) by simp
  next
    case False
    have "slab_ok (objs q) (slab_size p) t (slabs q t) (cs t) L'"
    proof (rule slab_ok_cong [OF slabs_ok_in(1) [OF assms(1) t]])
      show "objs q c = objs p c" if "c \<in> set (cs t)" for c
        using that slabs_ok_in(5) [OF assms(1) t] dis [OF t False] assms(5) by blast
      show "L' \<inter> ?R t = L \<inter> ?R t" using assms(7) ds cs dis [OF t False] by blast
    qed (use assms(6) False in auto)
    then show ?thesis using False assms(8) by simp
  qed
  moreover have "L' \<subseteq> (\<Union>t \<in> set ss. set ((cs(s := ds)) t))"
  proof
    fix c assume "c \<in> L'"
    show "c \<in> (\<Union>t \<in> set ss. set ((cs(s := ds)) t))"
    proof (cases "c \<in> set ds")
      case True
      then show ?thesis using assms(2) by auto
    next
      case False
      then have "c \<in> L" "c \<notin> set (cs s)" using \<open>c \<in> L'\<close> assms(7) by blast+
      moreover have "L \<subseteq> (\<Union>t \<in> set ss. set (cs t))" using assms(1) by (simp add: slabs_ok_def)
      ultimately obtain t where "t \<in> set ss" "c \<in> set (cs t)" "t \<noteq> s" by blast
      then show ?thesis by auto
    qed
  qed
  ultimately show ?thesis using assms(1,9-11) r unfolding slabs_ok_def by simp
qed

text \<open>A new slab, one free chunk, goes to the end of the list.\<close>

lemma alloc_slab_eq:
  assumes "slab_fresh p = s" "mem_fresh p = a" "slabs_tail p = t" "t \<noteq> s"
  shows "alloc_slab p = (s, p\<lparr>alloced_slabs := alloced_slabs p + 1, slabs_head := if slabs_head p = null then s else slabs_head p, slabs_tail := s,
      objs := (objs p)(a := (objs p a)\<lparr>oh_size := slab_size p, oh_slab := s, oh_prev := null, oh_next := null\<rparr>),
      slabs := (if slabs_head p = null then slabs p else (slabs p)(t := (slabs p t)\<lparr>sl_next := s\<rparr>))
        (s := \<lparr>inuse_objs = 0, max_seriate_size = slab_size p, sl_head = a, max_seriate_free_head = a,
              sl_prev = if slabs_head p = null then null else t, sl_next = null\<rparr>),
      mem_fresh := a + (nat (slab_size p) + hdr_size), slab_fresh := Suc s\<rparr>)"
  using assms
  by (cases "slabs_head p = null")
    (simp_all add: alloc_slab_def init_object_def upd_slab_def upd_obj_def slab_header_new_def fun_upd_twist)

lemma alloc_slab_links:
  assumes "slab_list p ss" "slab_fresh p \<notin> set ss" "0 < slab_fresh p" "alloc_slab p = (s, p')"
  shows "s = slab_fresh p" "slab_list p' (ss @ [s])"
    "slabs p' s = \<lparr>inuse_objs = 0, max_seriate_size = slab_size p, sl_head = mem_fresh p, max_seriate_free_head = mem_fresh p,
       sl_prev = slabs_tail p, sl_next = null\<rparr>"
    "\<forall>t \<in> set ss. inuse_objs (slabs p' t) = inuse_objs (slabs p t) \<and> max_seriate_size (slabs p' t) = max_seriate_size (slabs p t)
       \<and> sl_head (slabs p' t) = sl_head (slabs p t) \<and> max_seriate_free_head (slabs p' t) = max_seriate_free_head (slabs p t)"
    "objs p' = (objs p)(mem_fresh p := (objs p (mem_fresh p))\<lparr>oh_size := slab_size p, oh_slab := s, oh_prev := null, oh_next := null\<rparr>)"
    "mem_fresh p' = mem_fresh p + (nat (slab_size p) + hdr_size)" "slab_fresh p' = Suc (slab_fresh p)" "slab_size p' = slab_size p"
    "max_slabs p' = max_slabs p" "alloced_slabs p' = alloced_slabs p + 1" "prealloc_slab_num p' = prealloc_slab_num p"
proof -
  let ?s = "slab_fresh p"
  have d: "dll (snx p) (spv p) (slabs_head p) (slabs_tail p) ss" using assms(1) by (simp add: slab_list_def)
  have e: "slabs_head p = null \<longleftrightarrow> ss = []" "slabs_tail p = null \<longleftrightarrow> ss = []" using dll_empty_iff [OF d] by auto
  have tl: "ss \<noteq> [] \<Longrightarrow> slabs_tail p \<in> set ss" using dll_last [OF d] by simp
  then have ts: "slabs_tail p \<noteq> ?s" using assms(2,3) e by (cases "ss = []") auto
  note a = assms(4) [unfolded alloc_slab_eq [OF refl refl refl ts], symmetric]
  show s: "s = ?s" using a by simp
  show "objs p' = (objs p)(mem_fresh p := (objs p (mem_fresh p))\<lparr>oh_size := slab_size p, oh_slab := s, oh_prev := null, oh_next := null\<rparr>)"
    "mem_fresh p' = mem_fresh p + (nat (slab_size p) + hdr_size)" "slab_fresh p' = Suc (slab_fresh p)" "slab_size p' = slab_size p"
    "max_slabs p' = max_slabs p" "alloced_slabs p' = alloced_slabs p + 1" "prealloc_slab_num p' = prealloc_slab_num p"
    using a s by (auto split: if_splits)
  show sh: "slabs p' s = \<lparr>inuse_objs = 0, max_seriate_size = slab_size p, sl_head = mem_fresh p, max_seriate_free_head = mem_fresh p,
       sl_prev = slabs_tail p, sl_next = null\<rparr>"
    using a s ts e by (auto split: if_splits)
  show "\<forall>t \<in> set ss. inuse_objs (slabs p' t) = inuse_objs (slabs p t) \<and> max_seriate_size (slabs p' t) = max_seriate_size (slabs p t)
       \<and> sl_head (slabs p' t) = sl_head (slabs p t) \<and> max_seriate_free_head (slabs p' t) = max_seriate_free_head (slabs p t)"
    using a assms(2) by (auto split: if_splits)
  show "slab_list p' (ss @ [s])"
  proof (cases ss rule: rev_cases)
    case Nil
    then have "slabs_head p' = s" "slabs_tail p' = s" using a s e by auto
    then show ?thesis using Nil sh s assms(3) e by (simp add: slab_list_def dll_def)
  next
    case (snoc ts t)
    then have t: "slabs_tail p = t" using dll_last [OF d] by simp
    have l: "slabs_head p' = slabs_head p" "slabs_tail p' = s" "snx p' = ((snx p)(s := null))(t := s)" "spv p' = ((spv p)(s := null))(s := t)"
      using a s e t ts snoc by (auto split: if_splits)
    have "dll ((snx p)(s := null)) ((spv p)(s := null)) (slabs_head p) t (ts @ [t])" using d snoc t assms(2) s by simp
    moreover have "dll ((snx p)(s := null)) ((spv p)(s := null)) s s [s]" using s assms(3) by (simp add: dll_def)
    ultimately have "dll (snx p') (spv p') (slabs_head p) s (ts @ t # s # [])"
      unfolding l by (rule dll_join) (use assms(2) s snoc in auto)
    then show ?thesis using l snoc by (simp add: slab_list_def)
  qed
qed

lemma range_below:
  assumes "slabs_ok p ss cs L" "t \<in> set ss"
  shows "slab_range (slab_size p) (slabs p t) \<subseteq> {..<mem_fresh p}"
  using slabs_ok_in(2) [OF assms] by (auto simp: slab_range_def slab_end_def)

lemma live_below:
  assumes "slabs_ok p ss cs L" "c \<in> L"
  shows "c < mem_fresh p"
proof -
  obtain t where "t \<in> set ss" "c \<in> set (cs t)" using assms by (auto simp: slabs_ok_def)
  then show ?thesis using range_below [OF assms(1)] slabs_ok_in(5) [OF assms(1)] by blast
qed

lemma dvd_align: "8 dvd a \<Longrightarrow> 8 dvd z \<Longrightarrow> 0 \<le> z \<Longrightarrow> 8 dvd a + (nat z + 32)" for a :: nat and z :: int
  by presburger

lemma alloc_slab_rep:
  assumes "pool_rep p ss cs L" "alloc_slab p = (s, p')"
  shows "pool_rep p' (ss @ [s]) (cs(s := [mem_fresh p])) L" "\<forall>c \<in> L. objs p' c = objs p c" "smax p' s = slab_size p" "s \<noteq> null"
    "slab_size p' = slab_size p" "max_slabs p' = max_slabs p" "\<forall>t \<in> set ss. smax p' t = smax p t"
proof -
  let ?a = "mem_fresh p" and ?sz = "slab_size p"
  have ok: "slabs_ok p ss cs L" and cf: "config_ok p" and sl: "slab_list p ss" using assms(1) by (simp_all add: pool_rep_def)
  have ns: "slab_fresh p \<notin> set ss" using slabs_ok_in(3) [OF ok] by blast
  have "0 < slab_fresh p" using cf by (simp add: config_ok_def)
  note a = alloc_slab_links [OF sl ns this assms(2)]
  show "s \<noteq> null" "smax p' s = ?sz" "slab_size p' = ?sz" "max_slabs p' = max_slabs p" "\<forall>t \<in> set ss. smax p' t = smax p t"
    using a \<open>0 < slab_fresh p\<close> by simp_all
  show L: "\<forall>c \<in> L. objs p' c = objs p c" using live_below [OF ok] a(5) by fastforce
  have new: "slab_range (slab_size p') (slabs p' s) = {?a ..< ?a + hdr_size + nat ?sz}" by (simp add: slab_range_def a(3,8))
  have old: "slab_range (slab_size p') (slabs p' t) = slab_range ?sz (slabs p t)" "slab_end p' t = slab_end p t" if "t \<in> set ss" for t
    using that a(4,8) by (simp_all add: slab_range_def slab_end_def)
  have "slab_ok (objs p') ?sz t (slabs p' t) (cs t) L" if t: "t \<in> set ss" for t
  proof (rule slab_ok_cong [OF slabs_ok_in(1) [OF ok t]])
    show "objs p' c = objs p c" if "c \<in> set (cs t)" for c
      using that slabs_ok_in(5) [OF ok t] range_below [OF ok t] a(5) by fastforce
  qed (use a(4) t in auto)
  moreover have "slab_ok (objs p') ?sz s (slabs p' s) [?a] L"
  proof -
    have "chunks (objs p') ?sz s ?a [?a]"
      using cf by (simp add: chunks_def dll_def a(5) cend_def config_ok_def hdr_size_def)
    moreover have "L \<inter> slab_range ?sz (slabs p' s) = {}" "?a \<notin> L" using new live_below [OF ok] a(8) by fastforce+
    ultimately show ?thesis using cf by (simp add: slab_ok_def a(3,5) config_ok_def hdr_size_def)
  qed
  moreover have "s \<notin> set ss" using ns a(1) by simp
  moreover have "slab_range (slab_size p') (slabs p' s) \<inter> slab_range (slab_size p') (slabs p' t) = {}" if "t \<in> set ss" for t
    using old [OF that] new range_below [OF ok that] by fastforce
  moreover have "slab_end p' s = mem_fresh p'" by (simp add: slab_end_def a(3,6,8))
  moreover have "L \<subseteq> (\<Union>t \<in> set (ss @ [s]). set ((cs(s := [?a])) t))"
    using ok \<open>s \<notin> set ss\<close> unfolding slabs_ok_def by fastforce
  ultimately have parts: "\<And>t. t \<in> set ss \<Longrightarrow> slab_ok (objs p') ?sz t (slabs p' t) (cs t) L" "slab_ok (objs p') ?sz s (slabs p' s) [?a] L"
    "s \<notin> set ss" "\<And>t. t \<in> set ss \<Longrightarrow> slab_range (slab_size p') (slabs p' s) \<inter> slab_range (slab_size p') (slabs p' t) = {}"
    "slab_end p' s = mem_fresh p'" "L \<subseteq> (\<Union>t \<in> set (ss @ [s]). set ((cs(s := [?a])) t))" by blast+
  have dis: "slab_range ?sz (slabs p t) \<inter> slab_range ?sz (slabs p u) = {}" if "t \<in> set ss" "u \<in> set ss" "t \<noteq> u" for t u
    using ok that unfolding slabs_ok_def by blast
  have "slab_ok (objs p') (slab_size p') t (slabs p' t) ((cs(s := [?a])) t) L \<and> slab_end p' t \<le> mem_fresh p' \<and> t < slab_fresh p'"
    if "t \<in> set (ss @ [s])" for t
  proof (cases "t = s")
    case False
    then have "t \<in> set ss" using that by simp
    then show ?thesis using False parts(1) slabs_ok_in(2,3) [OF ok, of t] old(2) a(6,7,8) by (simp add: less_Suc_eq_le)
  qed (use parts(2,5) a(1,7,8) in simp)
  moreover have "slab_range (slab_size p') (slabs p' t) \<inter> slab_range (slab_size p') (slabs p' u) = {}"
    if "t \<in> set (ss @ [s])" "u \<in> set (ss @ [s])" "t \<noteq> u" for t u
    using that parts(3) parts(4) [of t] parts(4) [of u] dis [of t u] old(1) [of t] old(1) [of u] by (auto simp: Int_commute)
  ultimately have "slabs_ok p' (ss @ [s]) (cs(s := [?a])) L" using parts(6) unfolding slabs_ok_def by blast
  moreover have "sorted (map (smax p') (ss @ [s]))"
  proof -
    have m: "map (smax p') ss = map (smax p) ss" using a(4) by simp
    have "sorted (map (smax p') ss)" unfolding m using assms(1) by (simp add: pool_rep_def)
    then show ?thesis using slabs_ok_in(6) [OF ok] a(3,4) by (auto simp: sorted_append)
  qed
  moreover have "config_ok p'" using cf a(6-11) dvd_align [of ?a ?sz] by (simp add: config_ok_def hdr_size_def)
  ultimately show "pool_rep p' (ss @ [s]) (cs(s := [?a])) L" using a assms(1) by (simp add: pool_rep_def)
qed

lemma alloc_loop_rep:
  assumes "pool_rep p ss cs L" "alloc_slabs_loop n ret p = (r, p')"
  shows "\<exists>ns cs'. pool_rep p' (ss @ ns) cs' L \<and> (\<forall>c \<in> L. objs p' c = objs p c) \<and> slab_size p' = slab_size p \<and> max_slabs p' = max_slabs p
    \<and> (\<forall>t \<in> set ns. smax p' t = slab_size p) \<and> (\<forall>t \<in> set ss. smax p' t = smax p t)
    \<and> (if n = 0 then ns = [] \<and> r = ret else ns \<noteq> [] \<and> r = (if ret = null then hd ns else ret))"
  using assms
proof (induction n arbitrary: ret p ss cs)
  case 0
  then show ?case by (intro exI [of _ "[]"]) auto
next
  case (Suc n)
  obtain s p1 where a: "alloc_slab p = (s, p1)" by fastforce
  note r = alloc_slab_rep [OF Suc.prems(1) a]
  let ?ret = "if ret = null then s else ret"
  show ?case
  proof (cases "alloced_slabs p1 \<ge> max_slabs p1")
    case True
    then have "r = ?ret" "p' = p1" using Suc.prems(2) a by auto
    moreover have "?ret = (if ret = null then hd [s] else ret)" by simp
    ultimately show ?thesis using r by (intro exI [of _ "[s]"] exI [of _ "cs(s := [mem_fresh p])"] conjI) (simp_all del: fun_upd_apply)
  next
    case False
    then have "alloc_slabs_loop n ?ret p1 = (r, p')" using Suc.prems(2) a by simp
    from Suc.IH [OF r(1) this] obtain ns cs' where n: "pool_rep p' ((ss @ [s]) @ ns) cs' L" "\<forall>c \<in> L. objs p' c = objs p1 c"
      "slab_size p' = slab_size p1" "max_slabs p' = max_slabs p1" "\<forall>t \<in> set ns. smax p' t = slab_size p1"
      "\<forall>t \<in> set (ss @ [s]). smax p' t = smax p1 t" "if n = 0 then ns = [] \<and> r = ?ret else ns \<noteq> [] \<and> r = (if ?ret = null then hd ns else ?ret)" by blast
    show ?thesis using n r by (intro exI [of _ "s # ns"] exI [of _ cs']) (auto split: if_splits)
  qed
qed

lemma find_slab_list:
  assumes "chain (snx p) a ss null"
  shows "find_slab n a p = Some (if \<exists>s \<in> set ss. n \<le> smax p s then hd (filter (\<lambda>s. n \<le> smax p s) ss) else null)"
  using assms
proof (induction ss arbitrary: a)
  case Nil
  then show ?case by (subst find_slab.simps) simp
next
  case (Cons b ss)
  then show ?case by (subst find_slab.simps) auto
qed

lemma same_but_links_slabs_ok:
  assumes "same_but_links p q" "slabs_ok p ss cs L" "set ts = set ss"
  shows "slabs_ok q ts cs L"
proof -
  note e = same_but_links_sel [OF assms(1)]
  have "slab_ok (objs q) (slab_size q) t (slabs q t) (cs t) L" if "t \<in> set ss" for t
    unfolding e by (rule slab_ok_cong [OF slabs_ok_in(1) [OF assms(2) that]]) (simp_all add: e)
  then show ?thesis using assms(2,3) unfolding slabs_ok_def by (simp add: slab_range_def slab_end_def e)
qed

lemma same_but_links_config: "same_but_links p q \<Longrightarrow> config_ok p \<Longrightarrow> config_ok q"
  using same_but_links_sel [of p q] by (simp add: config_ok_def)

lemma slab_list_cong:
  assumes "slab_list p ss" "\<And>t. snx q t = snx p t" "\<And>t. spv q t = spv p t" "slabs_head q = slabs_head p" "slabs_tail q = slabs_tail p"
  shows "slab_list q ss"
  using assms by (simp add: slab_list_def)

text \<open>A change of one slab does not touch live chunks elsewhere, nor the order of the other slabs.\<close>

lemma live_outside:
  assumes "slab_ok os sz s sh cs L" "slab_ok os' sz s sh' ds L'" "sl_head sh' = sl_head sh"
    "L' - slab_range sz sh = L - slab_range sz sh"
  shows "L' - set ds = L - set cs"
proof -
  have "slab_range sz sh' = slab_range sz sh" using assms(3) by (simp add: slab_range_def)
  then have "L \<inter> slab_range sz sh \<subseteq> set cs" "L' \<inter> slab_range sz sh \<subseteq> set ds" "set cs \<subseteq> slab_range sz sh" "set ds \<subseteq> slab_range sz sh"
    using assms(1,2) slab_range_chunk [of os sz s sh cs] slab_range_chunk [of os' sz s sh' ds] by (auto simp: slab_ok_def)
  then show ?thesis using assms(4) by blast
qed

lemma sorted_around:
  assumes "sorted (map (f :: addr \<Rightarrow> int) (xs @ s # ys))" "distinct (xs @ s # ys)" "\<And>t. t \<noteq> s \<Longrightarrow> f' t = f t"
  shows "sorted (map f' (xs @ ys))" "f' s \<le> f s \<Longrightarrow> \<forall>t \<in> set ys. f' s \<le> f' t" "f s \<le> f' s \<Longrightarrow> \<forall>t \<in> set xs. f' t \<le> f' s"
proof -
  have e: "f' t = f t" if "t \<in> set (xs @ ys)" for t by (rule assms(3)) (use assms(2) that in auto)
  then have m: "map f' xs = map f xs" "map f' ys = map f ys" by auto
  show "sorted (map f' (xs @ ys))" unfolding map_append m using assms(1) by (simp add: sorted_append)
  show "f' s \<le> f s \<Longrightarrow> \<forall>t \<in> set ys. f' s \<le> f' t" "f s \<le> f' s \<Longrightarrow> \<forall>t \<in> set xs. f' t \<le> f' s"
    using assms(1) e by (fastforce simp: sorted_append)+
qed

text \<open>Taking \<open>k\<close> bytes out of a slab that has them.\<close>

lemma take_rep:
  assumes "pool_rep p ss cs L" "s \<in> set ss" "0 < k" "k \<le> smax p s" "8 dvd k"
  obtains c p1 q ts cs' where "pop_usable_object s k p = Inr (c, p1)" "ajust_slab_order s ORDER_BY_AHEAD p1 = Some q"
    "pool_rep q ts cs' (insert c L)" "c \<notin> L" "k \<le> oh_size (objs q c)" "oh_slab (objs q c) = s" "\<forall>d \<in> L. oh_size (objs q d) = oh_size (objs p d)"
    "8 dvd c" "mset ts = mset ss"
proof -
  have ok: "slabs_ok p ss cs L" and cf: "config_ok p" and sl: "slab_list p ss" and so: "sorted (map (smax p) ss)"
    using assms(1) by (simp_all add: pool_rep_def)
  let ?c = "max_seriate_free_head (slabs p s)"
  note s = slabs_ok_in [OF ok assms(2)]
  have c: "?c \<noteq> null" using s(1) assms(3,4) by (auto simp: slab_ok_def split: if_splits)
  then have nL: "?c \<notin> L" "?c \<in> set (cs s)" using s(1) by (auto simp: slab_ok_def)
  obtain os sh ds where d: "pop_usable_object s k p = Inr (?c, p\<lparr>objs := os, slabs := (slabs p)(s := sh)\<rparr>)" "slab_ok os (slab_size p) s sh ds (insert ?c L)"
    "?c \<in> set ds" "k \<le> oh_size (os ?c)" "\<forall>d. d \<notin> slab_range (slab_size p) (slabs p s) \<longrightarrow> os d = objs p d" "\<forall>d \<in> L. oh_size (os d) = oh_size (objs p d)"
    "sl_head sh = sl_head (slabs p s)" "sl_prev sh = spv p s" "sl_next sh = snx p s" "max_seriate_size sh \<le> smax p s"
    by (rule pop_slab [OF s(1) refl c]) (use assms(3-5) cf in \<open>auto simp: config_ok_def\<close>)
  let ?p = "p\<lparr>objs := os, slabs := (slabs p)(s := sh)\<rparr>"
  have dL: "insert ?c L - set ds = L - set (cs s)"
    by (rule live_outside [OF s(1) d(2,7)]) (use s(5) nL(2) in blast)
  have ok1: "slabs_ok ?p ss (cs(s := ds)) (insert ?c L)"
    by (rule slabs_ok_change [OF ok assms(2)]) (use d dL in auto)
  have sl1: "slab_list ?p ss" by (rule slab_list_cong [OF sl]) (use d in auto)
  obtain xs ys where ss: "ss = xs @ s # ys" using assms(2) by (auto simp: in_set_conv_decomp)
  have "distinct ss" using sl dll_distinct by (auto simp: slab_list_def)
  note so1 = sorted_around(1,2) [OF so [unfolded ss] this [unfolded ss], of "smax ?p"]
  obtain q ts where q: "ajust_slab_order s ORDER_BY_AHEAD ?p = Some q" "same_but_links ?p q" "slab_list q ts" "sorted (map (smax q) ts)" "mset ts = mset (xs @ s # ys)"
    by (rule ajust_ahead_sorted [OF sl1 [unfolded ss] so1]) (use d(10) in auto)
  have "set ts = set ss" "length ts = length ss" using q(5) ss by (metis set_mset_mset, metis size_mset)
  then have "pool_rep q ts (cs(s := ds)) (insert ?c L)"
    using same_but_links_slabs_ok [OF q(2) ok1] same_but_links_config [OF q(2)] cf q(3,4) same_but_links_sel [OF q(2)] assms(1)
    by (simp add: pool_rep_def config_ok_def)
  moreover have "objs q = os" using same_but_links_sel(2) [OF q(2)] by simp
  moreover have "oh_slab (os ?c) = s" "8 dvd ?c" using d(2,3) chunks_in(5,8) by (auto simp: slab_ok_def)
  ultimately show ?thesis using that d(1,4,6) q(1,5) nL(1) ss by metis
qed

lemma roundup_bounds:
  assumes "0 < n" "n \<le> z" "8 dvd z" "z + int hdr_size < 2 ^ 32"
  shows "n \<le> malloc_roundup n" "malloc_roundup n \<le> z" "8 dvd malloc_roundup n" "malloc_roundup n < n + 8"
proof -
  let ?r = "(n + 7) div 8 * 8"
  have r: "n \<le> ?r" "?r \<le> z" "8 dvd ?r" "?r < n + 8" using assms(1-3) by presburger+
  then have "malloc_roundup n = ?r" using assms(1,4) by (simp add: malloc_roundup_def malloc_align_def u32_def hdr_size_def)
  then show "n \<le> malloc_roundup n" "malloc_roundup n \<le> z" "8 dvd malloc_roundup n" "malloc_roundup n < n + 8" using r by simp_all
qed

lemma first_is_least:
  assumes "sorted (map f ss)" "\<exists>s \<in> set ss. k \<le> f s"
  shows "hd (filter (\<lambda>s. k \<le> f s) ss) \<in> set ss" "k \<le> f (hd (filter (\<lambda>s. k \<le> f s) ss))"
    "\<forall>t \<in> set ss. k \<le> f t \<longrightarrow> f (hd (filter (\<lambda>s. k \<le> f s) ss)) \<le> (f t :: int)"
  using assms by (induction ss) auto

text \<open>What an allocation of \<open>n\<close> bytes returns.\<close>

definition malloc_result :: "int \<Rightarrow> mem_pool \<Rightarrow> addr set \<Rightarrow> addr \<Rightarrow> mem_pool \<Rightarrow> bool" where
  "malloc_result n p L r q \<longleftrightarrow> (\<exists>c ts cs'. r = c + hdr_size \<and> pool_rep q ts cs' (insert c L) \<and> c \<notin> L \<and> n \<le> oh_size (objs q c) \<and> 8 dvd r
     \<and> (\<forall>d \<in> L. oh_size (objs q d) = oh_size (objs p d)))"

lemma malloc_rep:
  assumes "pool_rep p ss cs L" "0 < n" "n \<le> slab_size p"
  shows "if (\<exists>s \<in> set ss. malloc_roundup n \<le> smax p s) \<or> alloced_slabs p < max_slabs p
    then \<exists>r q. pool_malloc n p = Some (Inr (r, q)) \<and> malloc_result n p L r q
    else pool_malloc n p = Some (Inr (null, p))"
proof -
  have cf: "config_ok p" and sl: "slab_list p ss" and so: "sorted (map (smax p) ss)" using assms(1) by (simp_all add: pool_rep_def)
  let ?k = "malloc_roundup n"
  have k: "n \<le> ?k" "?k \<le> slab_size p" "8 dvd ?k" by (rule roundup_bounds, use assms(2,3) cf in \<open>auto simp: config_ok_def\<close>)+
  have res: "\<exists>r q'. Option.bind (ajust_slab_order s ORDER_BY_AHEAD p1) (\<lambda>p3. Some (Inr (c + hdr_size, p3))) = Some (Inr (r, q')) \<and> malloc_result n p L r q'"
    if "pool_rep q ts cs' (insert c L)" "ajust_slab_order s ORDER_BY_AHEAD p1 = Some q" "c \<notin> L" "?k \<le> oh_size (objs q c)" "8 dvd c"
      "\<forall>d \<in> L. oh_size (objs q d) = oh_size (objs p d)" for s c p1 q ts cs'
    using that k(1) unfolding malloc_result_def by (auto simp: hdr_size_def)
  have nf: "\<not> slab_size p < n" using assms(3) by simp
  have nn: "null \<notin> set ss" using sl dll_not_null unfolding slab_list_def by blast
  have f: "find_usable_slab ?k p = Some (if \<exists>s \<in> set ss. ?k \<le> smax p s then hd (filter (\<lambda>s. ?k \<le> smax p s) ss) else null)"
    using sl find_slab_list [of p "slabs_head p" ss ?k] by (simp add: find_usable_slab_def slab_list_def dll_def)
  show ?thesis
  proof (cases "\<exists>s \<in> set ss. ?k \<le> smax p s")
    case True
    let ?s = "hd (filter (\<lambda>s. ?k \<le> smax p s) ss)"
    note h = first_is_least [OF so True]
    obtain c p1 q ts cs' where t: "pop_usable_object ?s ?k p = Inr (c, p1)" "ajust_slab_order ?s ORDER_BY_AHEAD p1 = Some q"
      "pool_rep q ts cs' (insert c L)" "c \<notin> L" "?k \<le> oh_size (objs q c)" "\<forall>d \<in> L. oh_size (objs q d) = oh_size (objs p d)" "8 dvd c"
      by (rule take_rep [OF assms(1) h(1) _ h(2) k(3)]) (use k(1) assms(2) in auto)
    have "?s \<noteq> null" using h(1) nn by metis
    then show ?thesis using nf f t(1) True res [OF t(3,2,4,5,7,6)] by (simp add: pool_malloc_def)
  next
    case False
    then have f': "find_usable_slab ?k p = Some null" using f by simp
    show ?thesis
    proof (cases "alloced_slabs p < max_slabs p")
      case a: False
      then show ?thesis using nf f' False by (simp add: pool_malloc_def alloc_slabs_def)
    next
      case True
      obtain s p1 where al: "alloc_slabs_loop (nat (prealloc_slab_num p)) null p = (s, p1)" by fastforce
      have "nat (prealloc_slab_num p) \<noteq> 0" using cf by (simp add: config_ok_def)
      with alloc_loop_rep [OF assms(1) al] obtain ns cs1 where n: "pool_rep p1 (ss @ ns) cs1 L" "\<forall>c \<in> L. objs p1 c = objs p c"
        "\<forall>t \<in> set ns. smax p1 t = slab_size p" "ns \<noteq> []" "s = hd ns" by auto
      have s: "s \<in> set (ss @ ns)" "smax p1 s = slab_size p" using n by auto
      have sn: "s \<noteq> null" using s(1) n(1) dll_not_null unfolding pool_rep_def slab_list_def by metis
      obtain c p2 q ts cs' where t: "pop_usable_object s ?k p1 = Inr (c, p2)" "ajust_slab_order s ORDER_BY_AHEAD p2 = Some q"
        "pool_rep q ts cs' (insert c L)" "c \<notin> L" "?k \<le> oh_size (objs q c)" "\<forall>d \<in> L. oh_size (objs q d) = oh_size (objs p1 d)" "8 dvd c"
        by (rule take_rep [OF n(1) s(1) _ _ k(3)]) (use k(1,2) s(2) assms(2) in auto)
      have "\<forall>d \<in> L. oh_size (objs q d) = oh_size (objs p d)" using t(6) n(2) by simp
      then show ?thesis using nf f' t(1) True sn al res [OF t(3,2,4,5,7)] by (simp add: pool_malloc_def alloc_slabs_def)
    qed
  qed
qed

definition one_less :: "slab_header \<Rightarrow> slab_header" where
  "one_less sh = sh\<lparr>inuse_objs := inuse_objs sh - 1\<rparr>"

lemma same_but_links_one_less:
  assumes "same_but_links p q"
  shows "same_but_links (upd_slab s one_less p) (upd_slab s one_less q)"
proof -
  obtain h t f g where q: "q = p\<lparr>slabs_head := h, slabs_tail := t, slabs := \<lambda>a. (slabs p a)\<lparr>sl_prev := f a, sl_next := g a\<rparr>\<rparr>"
    using assms by (auto simp: same_but_links_def)
  have "upd_slab s one_less q = (upd_slab s one_less p)\<lparr>slabs_head := h, slabs_tail := t,
      slabs := \<lambda>a. (slabs (upd_slab s one_less p) a)\<lparr>sl_prev := f a, sl_next := g a\<rparr>\<rparr>"
    unfolding q by (auto simp: upd_slab_def one_less_def fun_eq_iff)
  then show ?thesis unfolding same_but_links_def by blast
qed

lemma note_free_sel [simp]:
  "sl_head (note_free a n sh) = sl_head sh" "sl_prev (note_free a n sh) = sl_prev sh" "sl_next (note_free a n sh) = sl_next sh"
  "inuse_objs (note_free a n sh) = inuse_objs sh" "max_seriate_size sh \<le> max_seriate_size (note_free a n sh)"
  by (simp_all add: note_free_def)

lemma free_rep_at:
  assumes "pool_rep p ss cs L" "c \<in> L" and s: "s \<in> set ss" and s2: "cs s = xs @ c # ys"
  obtains q ts where "pool_free (c + hdr_size) p = Some q" "pool_rep q ts (cs(s := merge_around (objs p) xs c ys)) (L - {c})"
    "\<forall>d \<in> L - {c}. oh_size (objs q d) = oh_size (objs p d)" "oh_inuse (objs q c) = 0" "mset ts = mset ss"
proof -
  have ok: "slabs_ok p ss cs L" and cf: "config_ok p" and sl: "slab_list p ss" and so: "sorted (map (smax p) ss)"
    using assms(1) by (simp_all add: pool_rep_def)
  have s2': "c \<in> set (cs s)" using s2 by simp
  note so1 = slabs_ok_in [OF ok s]
  let ?sh = "slabs p s"
  obtain a q ds where m: "merge_chunk c (upd_obj c (\<lambda>h. h\<lparr>oh_inuse := 0\<rparr>) p) = (a, q)" "oh_slab (objs q a) = s" "q = p\<lparr>objs := objs q\<rparr>"
    "slab_ok (objs q) (slab_size p) s ((note_free a (oh_size (objs q a)) ?sh)\<lparr>inuse_objs := inuse_objs ?sh - 1\<rparr>) ds (L - {c})"
    "\<forall>d \<in> L - {c}. oh_size (objs q d) = oh_size (objs p d)" "\<forall>d. d \<notin> set (cs s) \<longrightarrow> objs q d = objs p d"
    "oh_inuse (objs q c) = 0" "ds = merge_around (objs p) xs c ys"
    by (rule free_slab [OF so1(1) _ s2 assms(2)]) (use cf in \<open>auto simp: config_ok_def\<close>)
  have qs: "slabs q = slabs p" "slab_size q = slab_size p" "slabs_head q = slabs_head p" "slabs_tail q = slabs_tail p" "mem_fresh q = mem_fresh p"
    "slab_fresh q = slab_fresh p" "prealloc_slab_num q = prealloc_slab_num p" "alloced_slabs q = alloced_slabs p" "max_slabs q = max_slabs p"
    by (subst m(3); simp)+
  let ?sh' = "note_free a (oh_size (objs q a)) ?sh"
  let ?p = "q\<lparr>slabs := (slabs p)(s := ?sh')\<rparr>"
  have nf: "(if oh_size (objs q a) > max_seriate_size (slabs q s)
      then upd_slab s (\<lambda>sh. sh\<lparr>max_seriate_size := oh_size (objs q a), max_seriate_free_head := a\<rparr>) q else q) = ?p"
    using qs(1) by (auto simp: upd_slab_def note_free_def)
  have dL: "L - {c} - set ds = L - set (cs s)"
    by (rule live_outside [OF so1(1) m(4)]) (use so1(5) s2' in auto)
  have ok1: "slabs_ok (upd_slab s one_less ?p) ss (cs(s := ds)) (L - {c})"
    by (rule slabs_ok_change [OF ok s]) (use m(4,6) dL qs so1(5) in \<open>auto simp: upd_slab_def one_less_def\<close>)
  have sl1: "slab_list ?p ss" by (rule slab_list_cong [OF sl]) (use qs in auto)
  obtain ps rs where ss: "ss = ps @ s # rs" using s by (auto simp: in_set_conv_decomp)
  have "distinct ss" using sl dll_distinct by (auto simp: slab_list_def)
  note so2 = sorted_around(1,3) [OF so [unfolded ss] this [unfolded ss], of "smax ?p"]
  obtain r ts where r: "ajust_slab_order s ORDER_BY_BACK ?p = Some r" "same_but_links ?p r" "slab_list r ts" "sorted (map (smax r) ts)" "mset ts = mset (ps @ s # rs)"
    by (rule ajust_back_sorted [OF sl1 [unfolded ss] so2]) (use note_free_sel(5) [of ?sh] in auto)
  let ?q = "upd_slab s one_less r"
  note sb = same_but_links_one_less [OF r(2), of s]
  have ts: "set ts = set ss" "length ts = length ss" using r(5) ss by (metis set_mset_mset, metis size_mset)
  have q: "smax ?q t = smax r t" "snx ?q t = snx r t" "spv ?q t = spv r t" "slabs_head ?q = slabs_head r" "slabs_tail ?q = slabs_tail r" for t
    by (simp_all add: upd_slab_def one_less_def)
  have "config_ok ?q" by (rule same_but_links_config [OF sb]) (use cf qs in \<open>simp add: config_ok_def upd_slab_def\<close>)
  moreover have "alloced_slabs ?q = int (length ts)" using same_but_links_sel(7) [OF sb] ts qs assms(1) by (simp add: upd_slab_def pool_rep_def)
  moreover have "sorted (map (smax ?q) ts)" unfolding q(1) by (rule r(4))
  moreover have "slab_list ?q ts" by (rule slab_list_cong [OF r(3)]) (simp_all add: q)
  ultimately have "pool_rep ?q ts (cs(s := ds)) (L - {c})" using same_but_links_slabs_ok [OF sb ok1 ts(1)] by (simp add: pool_rep_def)
  moreover have "pool_free (c + hdr_size) p = Some ?q"
  proof -
    have "slabs_head p \<noteq> null" using sl ss dll_empty_iff [of "snx p" "spv p" _ _ ss] by (auto simp: slab_list_def)
    moreover have "oh_inuse (objs p c) = INUSE_IDENTIRY" using so1(1) s2' assms(2) by (simp add: slab_ok_def)
    ultimately show ?thesis using m(1,2) nf r(1) by (simp add: pool_free_def hdr_size_def one_less_def upd_slab_def)
  qed
  moreover have "objs ?q = objs q" using same_but_links_sel(2) [OF r(2)] by (simp add: upd_slab_def)
  ultimately show ?thesis using that m(5,7,8) r(5) ss by simp
qed

lemma free_rep:
  assumes "pool_rep p ss cs L" "c \<in> L"
  obtains q ts cs' where "pool_free (c + hdr_size) p = Some q" "pool_rep q ts cs' (L - {c})" "oh_inuse (objs q c) = 0"
proof -
  have "slabs_ok p ss cs L" using assms(1) by (simp add: pool_rep_def)
  then obtain s where s: "s \<in> set ss" "c \<in> set (cs s)" using assms(2) by (auto simp: slabs_ok_def)
  obtain xs ys where "cs s = xs @ c # ys" using split_list [OF s(2)] by blast
  then show ?thesis using that by (rule free_rep_at [OF assms s(1)])
qed

section \<open>Initialisation and runs\<close>

lemma init_rep:
  assumes "int hdr_size < sz" "sz < 2 ^ 31" "0 < maxs" "pool_init sz pre maxs (mem_pool_new os shs) = (v, p)"
  shows "v = 0" "\<exists>ss cs. pool_rep p ss cs {}"
proof -
  let ?p0 = "(mem_pool_new os shs)\<lparr>slab_size := malloc_roundup (u32 sz), max_slabs := maxs,
    prealloc_slab_num := if u32 pre \<le> 0 then PREALLOC_SLAB_NUM else u32 pre\<rparr>"
  have u: "u32 sz = sz" using assms(1,2) by (simp add: u32_def hdr_size_def)
  have pi: "pool_init sz pre maxs (mem_pool_new os shs) = (0, snd (alloc_slabs (prealloc_slab_num ?p0) ?p0))"
    using assms(1,3) u by (auto simp: pool_init_def mem_pool_new_def Let_def)
  then show "v = 0" using assms(4) by simp
  have r: "sz \<le> malloc_roundup sz" "malloc_roundup sz < 2 ^ 31 + 8" "8 dvd malloc_roundup sz"
    using roundup_bounds [of sz "2 ^ 31"] assms(1,2) by (simp_all add: hdr_size_def)
  have "config_ok ?p0" using r assms(1) u by (auto simp: config_ok_def mem_pool_new_def hdr_size_def malloc_align_def PREALLOC_SLAB_NUM_def)
  then have p0: "pool_rep ?p0 [] (\<lambda>_. []) {}" by (simp add: pool_rep_def slabs_ok_def slab_list_def mem_pool_new_def)
  obtain r q where l: "alloc_slabs_loop (nat (prealloc_slab_num ?p0)) null ?p0 = (r, q)" by fastforce
  have "\<not> alloced_slabs ?p0 \<ge> max_slabs ?p0" using assms(3) by (simp add: mem_pool_new_def)
  then have "p = q" using pi assms(4) l by (simp add: alloc_slabs_def)
  then show "\<exists>ss cs. pool_rep p ss cs {}" using alloc_loop_rep [OF p0 l] by auto
qed

text \<open>The memory of a client: the block behind the header at \<open>c\<close>. What a client writes there can change what is
  found at any address whose header would overlap the block.\<close>

definition block :: "mem_pool \<Rightarrow> addr \<Rightarrow> addr set" where
  "block p c = {c + hdr_size ..< cend (objs p) c}"

definition client_write :: "mem_pool \<Rightarrow> addr set \<Rightarrow> (addr \<Rightarrow> obj_header) \<Rightarrow> bool" where
  "client_write p L os \<longleftrightarrow> (\<forall>a. (\<forall>c \<in> L. {a ..< a + hdr_size} \<inter> block p c = {}) \<longrightarrow> os a = objs p a)"

inductive pool_run :: "mem_pool \<Rightarrow> addr set \<Rightarrow> bool" where
  start: "int hdr_size < sz \<Longrightarrow> sz < 2 ^ 31 \<Longrightarrow> 0 < maxs \<Longrightarrow> pool_init sz pre maxs (mem_pool_new os shs) = (v, p) \<Longrightarrow> pool_run p {}"
| malloc: "pool_run p L \<Longrightarrow> 0 < n \<Longrightarrow> pool_malloc n p = Some (Inr (r, q)) \<Longrightarrow> r \<noteq> null \<Longrightarrow> pool_run q (insert (r - hdr_size) L)"
| refused: "pool_run p L \<Longrightarrow> 0 < n \<Longrightarrow> pool_malloc n p = Some (Inr (r, q)) \<Longrightarrow> r = null \<Longrightarrow> pool_run q L"
| free: "pool_run p L \<Longrightarrow> c \<in> L \<Longrightarrow> pool_free (c + hdr_size) p = Some q \<Longrightarrow> pool_run q (L - {c})"
| client: "pool_run p L \<Longrightarrow> client_write p L os \<Longrightarrow> pool_run (p\<lparr>objs := os\<rparr>) L"

lemma chunks_apart:
  assumes "slabs_ok p ss cs L" "s \<in> set ss" "t \<in> set ss" "c \<in> set (cs s)" "d \<in> set (cs t)" "c \<noteq> d"
  shows "{c ..< cend (objs p) c} \<inter> {d ..< cend (objs p) d} = {}"
proof (cases "s = t")
  case True
  have "tiles (objs p) (sl_head (slabs p s)) (cs s) (sl_head (slabs p s) + hdr_size + nat (slab_size p))"
    using slabs_ok_in(4) [OF assms(1,2)] by (simp add: chunks_def)
  from tiles_disjoint [OF this assms(4) _ assms(6)] show ?thesis using assms(5) True by auto
next
  case False
  have r: "{x ..< cend (objs p) x} \<subseteq> slab_range (slab_size p) (slabs p u)" if "u \<in> set ss" "x \<in> set (cs u)" for u x
    using chunks_in(1,2) [OF slabs_ok_in(4) [OF assms(1) that(1)] that(2)] by (auto simp: slab_range_def)
  have "slab_range (slab_size p) (slabs p s) \<inter> slab_range (slab_size p) (slabs p t) = {}"
    using assms(1-3) False unfolding slabs_ok_def by blast
  then show ?thesis using r [OF assms(2,4)] r [OF assms(3,5)] by blast
qed

lemma header_outside:
  assumes ok: "slabs_ok p ss cs L" and s: "s \<in> set ss" "c \<in> set (cs s)" and d: "d \<in> L"
  shows "{c ..< c + hdr_size} \<inter> block p d = {}"
proof (cases "d = c")
  case False
  obtain t where "t \<in> set ss" "d \<in> set (cs t)" using ok d by (auto simp: slabs_ok_def)
  then have "{c ..< cend (objs p) c} \<inter> {d ..< cend (objs p) d} = {}"
    using chunks_apart [OF ok s(1) _ s(2)] False by blast
  then show ?thesis by (auto simp: block_def cend_def)
qed (auto simp: block_def)

lemma client_rep:
  assumes "pool_rep p ss cs L" "client_write p L os"
  shows "pool_rep (p\<lparr>objs := os\<rparr>) ss cs L"
proof -
  have ok: "slabs_ok p ss cs L" using assms(1) by (simp add: pool_rep_def)
  have h: "os c = objs p c" if "s \<in> set ss" "c \<in> set (cs s)" for s c
  proof -
    have "{c ..< c + hdr_size} \<inter> block p d = {}" if "d \<in> L" for d
      using header_outside [OF ok \<open>s \<in> set ss\<close> \<open>c \<in> set (cs s)\<close> that] .
    then show ?thesis using assms(2) by (simp add: client_write_def)
  qed
  have "slab_ok os (slab_size p) s (slabs p s) (cs s) L" if "s \<in> set ss" for s
    by (rule slab_ok_cong [OF slabs_ok_in(1) [OF ok that]]) (use h that in auto)
  then have "slabs_ok (p\<lparr>objs := os\<rparr>) ss cs L" using ok by (simp add: slabs_ok_def slab_end_def)
  then show ?thesis using assms(1) by (simp add: pool_rep_def slab_list_def config_ok_def)
qed

lemma malloc_any:
  assumes "pool_rep p ss cs L" "0 < n"
  shows "pool_malloc n p = Some (Inr (null, p)) \<or> (\<exists>r q. pool_malloc n p = Some (Inr (r, q)) \<and> malloc_result n p L r q)"
  using malloc_rep [OF assms] by (cases "n \<le> slab_size p") (auto simp: pool_malloc_def split: if_splits)

lemma run_rep: "pool_run p L \<Longrightarrow> \<exists>ss cs. pool_rep p ss cs L"
proof (induction rule: pool_run.induct)
  case (start sz maxs pre os shs v p)
  then show ?case using init_rep by blast
next
  case (malloc p L n r q)
  then obtain ss cs where "pool_rep p ss cs L" by blast
  from malloc_any [OF this malloc(2)] have "malloc_result n p L r q" using malloc(3,4) by auto
  then obtain c ts cs' where "r = c + hdr_size" "pool_rep q ts cs' (insert c L)" by (auto simp: malloc_result_def)
  then show ?case by auto
next
  case (refused p L n r q)
  then obtain ss cs where p: "pool_rep p ss cs L" by blast
  from malloc_any [OF p refused(2)] refused(3,4) p show ?case by (auto simp: malloc_result_def hdr_size_def)
next
  case (free p L c q)
  then obtain ss cs where "pool_rep p ss cs L" by blast
  from this free(2) show ?case by (rule free_rep) (use free(3) in auto)
next
  case (client p L os)
  then show ?case using client_rep by blast
qed

text \<open>C14: In every run of allocations of at least one byte, releases of live blocks and writes of the
  clients into their blocks: live blocks are aligned, neither they nor their headers overlap, no
  header of a chunk of any slab, in use or free, lies in a live block, and the next call returns: an
  allocation of at least one byte with a fresh block of the requested size or null, a release with
  the block's memory back in the pool. (A request for no bytes may follow a null pointer,
  \<^verbatim>\<open>malloc_zero_faults\<close>.)\<close>

theorem pool_runs_safe:
  assumes "pool_run p L"
  shows "(\<forall>c \<in> L. 8 dvd c + hdr_size) \<and> (\<forall>c \<in> L. \<forall>d \<in> L. c \<noteq> d \<longrightarrow> {c ..< cend (objs p) c} \<inter> {d ..< cend (objs p) d} = {})
    \<and> (\<exists>ss cs. pool_rep p ss cs L \<and> (\<forall>s \<in> set ss. \<forall>d \<in> set (cs s). \<forall>c \<in> L. {d ..< d + hdr_size} \<inter> block p c = {}))
    \<and> (\<forall>n > 0. \<exists>r q. pool_malloc n p = Some (Inr (r, q)) \<and> (r \<noteq> null \<longrightarrow> r - hdr_size \<notin> L \<and> {r ..< r + nat n} \<subseteq> block q (r - hdr_size)))
    \<and> (\<forall>c \<in> L. \<exists>q. pool_free (c + hdr_size) p = Some q \<and> pool_free (c + hdr_size) q = Some q)"
proof (intro conjI)
  obtain ss cs where p: "pool_rep p ss cs L" using run_rep [OF assms] by blast
  then have ok: "slabs_ok p ss cs L" by (simp add: pool_rep_def)
  have in_slab: "\<exists>s \<in> set ss. c \<in> set (cs s)" if "c \<in> L" for c using ok that by (auto simp: slabs_ok_def)
  show "\<forall>c \<in> L. 8 dvd c + hdr_size" using in_slab chunks_in(8) [OF slabs_ok_in(4) [OF ok]] by (fastforce simp: hdr_size_def)
  show "\<forall>c \<in> L. \<forall>d \<in> L. c \<noteq> d \<longrightarrow> {c ..< cend (objs p) c} \<inter> {d ..< cend (objs p) d} = {}"
    using in_slab chunks_apart [OF ok] by blast
  show "\<exists>ss cs. pool_rep p ss cs L \<and> (\<forall>s \<in> set ss. \<forall>d \<in> set (cs s). \<forall>c \<in> L. {d ..< d + hdr_size} \<inter> block p c = {})"
    using p header_outside [OF ok] by blast
  show "\<forall>n > 0. \<exists>r q. pool_malloc n p = Some (Inr (r, q)) \<and> (r \<noteq> null \<longrightarrow> r - hdr_size \<notin> L \<and> {r ..< r + nat n} \<subseteq> block q (r - hdr_size))"
  proof (intro allI impI)
    fix n :: int assume "0 < n"
    from malloc_any [OF p this] show "\<exists>r q. pool_malloc n p = Some (Inr (r, q)) \<and> (r \<noteq> null \<longrightarrow> r - hdr_size \<notin> L \<and> {r ..< r + nat n} \<subseteq> block q (r - hdr_size))"
      by (auto simp: malloc_result_def block_def cend_def)
  qed
  show "\<forall>c \<in> L. \<exists>q. pool_free (c + hdr_size) p = Some q \<and> pool_free (c + hdr_size) q = Some q"
  proof
    fix c assume "c \<in> L"
    with p show "\<exists>q. pool_free (c + hdr_size) p = Some q \<and> pool_free (c + hdr_size) q = Some q"
      by (rule free_rep) (auto simp: pool_free_def INUSE_IDENTIRY_def)
  qed
qed

text \<open>C15: An allocation of at least one byte is served whenever the request fits into a slab, unless no slab
  has a known chunk for it and the pool may not grow: then it returns null and changes nothing.
  Otherwise the result is an aligned block of at least the requested size outside all live chunks,
  which keep their sizes. (A request for no bytes is not covered: see \<^verbatim>\<open>malloc_zero_faults\<close>.)\<close>

theorem pool_malloc_correct:
  assumes "pool_rep p ss cs L" "0 < n"
  shows "if n \<le> slab_size p \<and> ((\<exists>s \<in> set ss. malloc_roundup n \<le> smax p s) \<or> alloced_slabs p < max_slabs p)
    then \<exists>c q ts cs'. pool_malloc n p = Some (Inr (c + hdr_size, q)) \<and> pool_rep q ts cs' (insert c L) \<and> c \<notin> L
      \<and> n \<le> oh_size (objs q c) \<and> 8 dvd c + hdr_size \<and> (\<forall>d \<in> L. oh_size (objs q d) = oh_size (objs p d))
    else pool_malloc n p = Some (Inr (null, p))"
proof (cases "n \<le> slab_size p")
  case True
  then show ?thesis using malloc_rep [OF assms True] unfolding malloc_result_def by (auto split: if_splits)
qed (simp add: pool_malloc_def)

text \<open>The slab that serves a request is, of those with a known chunk that is large enough, one whose known
  chunk is smallest.\<close>

theorem find_usable_slab_best_fit:
  assumes "pool_rep p ss cs L"
  shows "if \<exists>s \<in> set ss. k \<le> smax p s
    then \<exists>s \<in> set ss. find_usable_slab k p = Some s \<and> k \<le> smax p s \<and> (\<forall>t \<in> set ss. k \<le> smax p t \<longrightarrow> smax p s \<le> smax p t)
    else find_usable_slab k p = Some null"
proof -
  have sl: "chain (snx p) (slabs_head p) ss null" and so: "sorted (map (smax p) ss)"
    using assms by (simp_all add: pool_rep_def slab_list_def dll_def)
  note f = find_slab_list [OF sl, of k, folded find_usable_slab_def]
  show ?thesis
  proof (cases "\<exists>s \<in> set ss. k \<le> smax p s")
    case True
    then show ?thesis using f first_is_least [OF so True] by auto
  qed (use f in auto)
qed

text \<open>C19: Releasing the live block \<open>c\<close>, which lies between the chunks \<open>xs\<close> and \<open>ys\<close> of its slab, returns. It
  merges the chunk with the one just before and with the one just behind, if these are marked as
  free: afterwards the chunks of the slab are exactly \<open>merge_around\<close> of the ones before, they tile
  the slab again (\<open>pool_rep\<close>), and the chunks of the other slabs are the same; live chunks keep their
  sizes, and releasing \<open>c\<close> a second time right away does nothing.\<close>

theorem pool_free_correct:
  assumes "pool_rep p ss cs L" "c \<in> L" "s \<in> set ss" "cs s = xs @ c # ys"
  shows "\<exists>q ts. pool_free (c + hdr_size) p = Some q \<and> pool_rep q ts (cs(s := merge_around (objs p) xs c ys)) (L - {c})
    \<and> mset ts = mset ss \<and> (\<forall>d \<in> L - {c}. oh_size (objs q d) = oh_size (objs p d)) \<and> pool_free (c + hdr_size) q = Some q"
proof -
  obtain q ts where q: "pool_free (c + hdr_size) p = Some q" "pool_rep q ts (cs(s := merge_around (objs p) xs c ys)) (L - {c})"
    "\<forall>d \<in> L - {c}. oh_size (objs q d) = oh_size (objs p d)" "oh_inuse (objs q c) = 0" "mset ts = mset ss"
    by (rule free_rep_at [OF assms])
  then have "pool_free (c + hdr_size) q = Some q" by (simp add: pool_free_def INUSE_IDENTIRY_def)
  then show ?thesis using q(1-3,5) by blast
qed

section \<open>Small pools\<close>

text \<open>Slabs of 64 bytes, the first one allocated at once; fresh memory reads as headers with \<open>g\<close> in the in-use
  field.\<close>

definition demo_pool :: "int \<Rightarrow> int \<Rightarrow> mem_pool" where
  "demo_pool g maxs = snd (pool_init 64 1 maxs
     (mem_pool_new (\<lambda>_. \<lparr>oh_inuse = g, oh_size = 0, oh_slab = 0, oh_prev = 0, oh_next = 0\<rparr>) (\<lambda>_. slab_header_new 0)))"

definition malloc_from :: "int \<Rightarrow> mem_pool \<Rightarrow> addr \<times> mem_pool" where
  "malloc_from n p = (case pool_malloc n p of Some (Inr rq) \<Rightarrow> rq | _ \<Rightarrow> (null, p))"

lemma demo_pool_ok: "\<exists>ss cs. pool_rep (demo_pool 0 2) ss cs {}" "pool_run (demo_pool 0 2) {}"
proof -
  let ?p0 = "mem_pool_new (\<lambda>_. \<lparr>oh_inuse = 0, oh_size = 0, oh_slab = 0, oh_prev = 0, oh_next = 0\<rparr>) (\<lambda>_. slab_header_new 0)"
  obtain v where i: "pool_init 64 1 2 ?p0 = (v, demo_pool 0 2)" by (cases "pool_init 64 1 2 ?p0") (simp add: demo_pool_def)
  show "\<exists>ss cs. pool_rep (demo_pool 0 2) ss cs {}" by (rule init_rep(2) [OF _ _ _ i]) (simp_all add: hdr_size_def)
  show "pool_run (demo_pool 0 2) {}" by (rule start [OF _ _ _ i]) (simp_all add: hdr_size_def)
qed

lemma demo_sizes: "alloced_slabs (demo_pool 0 2) = 1" "max_slabs (demo_pool 0 2) = 2" "slab_size (demo_pool 0 2) = 64"
  by code_simp+

lemma demo_block: "\<exists>c q ss cs. pool_malloc 8 (demo_pool 0 2) = Some (Inr (c + hdr_size, q)) \<and> pool_rep q ss cs {c}"
proof -
  obtain ss cs where "pool_rep (demo_pool 0 2) ss cs {}" using demo_pool_ok by blast
  from malloc_rep [OF this, of 8] show ?thesis by (auto simp: demo_sizes malloc_result_def)
qed

lemma demo_run: "\<exists>c q. pool_run q {c}"
proof -
  obtain c q where "pool_malloc 8 (demo_pool 0 2) = Some (Inr (c + hdr_size, q))" using demo_block by blast
  from malloc [OF demo_pool_ok(2) _ this] show ?thesis by (auto simp: hdr_size_def)
qed

theorem pool_runs_safe_witness:
  "\<exists>c p q. pool_run p {c} \<and> 8 dvd c + hdr_size \<and> pool_free (c + hdr_size) p = Some q \<and> pool_free (c + hdr_size) q = Some q"
  using demo_run pool_runs_safe by blast

theorem pool_malloc_correct_witness:
  "\<exists>c q ts cs. pool_malloc 8 (demo_pool 0 2) = Some (Inr (c + hdr_size, q)) \<and> pool_rep q ts cs {c} \<and> 8 \<le> oh_size (objs q c)"
proof -
  obtain ss cs where "pool_rep (demo_pool 0 2) ss cs {}" using demo_pool_ok by blast
  from pool_malloc_correct [OF this, of 8] show ?thesis by (auto simp: demo_sizes)
qed

theorem find_usable_slab_best_fit_witness:
  "\<exists>s. find_usable_slab 8 (demo_pool 0 2) = Some s"
proof -
  obtain ss cs where "pool_rep (demo_pool 0 2) ss cs {}" using demo_pool_ok by blast
  from find_usable_slab_best_fit [OF this, of 8] show ?thesis by (auto split: if_splits)
qed

text \<open>The block of 8 bytes is at the beginning of the slab, the rest of the slab is free behind it: its
  release makes one chunk of the slab again.\<close>

theorem pool_free_correct_witness:
  "\<exists>p q ts cs s. pool_rep q ts cs {} \<and> pool_free (8 + hdr_size) p = Some q \<and> pool_free (8 + hdr_size) q = Some q
     \<and> s \<in> set ts \<and> cs s = [8]"
proof -
  let ?q = "snd (malloc_from 8 (demo_pool 0 2))"
  obtain c q ss cs where a: "pool_malloc 8 (demo_pool 0 2) = Some (Inr (c + hdr_size, q))" and r: "pool_rep q ss cs {c}"
    using demo_block by blast
  have m: "malloc_from 8 (demo_pool 0 2) = (c + hdr_size, q)" using a by (simp add: malloc_from_def)
  have v: "fst (malloc_from 8 (demo_pool 0 2)) = 40" "slabs_head ?q = 1" "sl_next (slabs ?q 1) = 0" "sl_head (slabs ?q 1) = 8"
    "oh_next (objs ?q 8) = 48" "oh_next (objs ?q 48) = 0" "oh_inuse (objs ?q 48) = 0" by code_simp+
  have c: "c = 8" using v(1) m by (simp add: hdr_size_def)
  have ss: "ss = [1]"
    using r v(2,3) m chain_head [of "snx q" "slabs_head q" ss] by (cases ss; cases "tl ss") (auto simp: pool_rep_def slab_list_def dll_def)
  have ch: "chain (onx (objs q)) 8 (cs 1) null"
    using slabs_ok_in(4) [of q ss cs "{c}" 1] r ss v(4) m by (simp add: pool_rep_def chunks_def dll_def)
  then have cs: "cs 1 = [8, 48]"
    using v(5,6) m by (cases "cs 1"; cases "tl (cs 1)"; cases "tl (tl (cs 1))") auto
  have "merge_around (objs q) [] c [48] = [8]" using v(7) m c by (simp add: merge_around_def)
  moreover obtain q' ts where "pool_free (c + hdr_size) q = Some q'" "pool_free (c + hdr_size) q' = Some q'" "mset ts = mset ss"
    "pool_rep q' ts (cs(1 := merge_around (objs q) [] c [48])) {}"
    using pool_free_correct [OF r, of c 1 "[]" "[48]"] ss cs c by auto
  ultimately show ?thesis using c ss by (metis fun_upd_same in_set_conv_decomp append_Nil mset_single_iff mset.simps(2) mset.simps(1) list.set_intros(1))
qed

section \<open>Misbehaviour\<close>

text \<open>A request for no bytes is served by a slab that has nothing left, and follows a null pointer.\<close>

theorem malloc_zero_faults:
  "fst (malloc_from 64 (demo_pool 0 1)) = 40
    \<and> map_option (\<lambda>r. case r of Inl f \<Rightarrow> Some f | Inr _ \<Rightarrow> None) (pool_malloc 0 (snd (malloc_from 64 (demo_pool 0 1)))) = Some (Some NullDeref)"
  by code_simp

text \<open>The in-use field of a chunk that is cut off is never set. When the memory happens to hold something
  other than zero there, a released neighbour is not merged with it, and a pool with no live block
  refuses a request that it served at first.\<close>

theorem cut_off_chunk_not_merged:
  "map (\<lambda>g. let p = demo_pool g 1; (r, q) = malloc_from 8 p; q' = the (pool_free r q)
    in (fst (malloc_from 64 p), r, fst (malloc_from 64 q'))) [0, 1] = [(40, 40, 40), (40, 40, 0)]"
  by code_simp

end
