(* ===== verification/NetIO.thy ===== *)
theory NetIO
  imports TimeValue
begin

text \<open>
  \<^verbatim>\<open>ndk/ndk.cpp\<close>, \<^verbatim>\<open>ndk/ndk.h\<close>: sending and receiving over sockets and files. The system calls on the handle are a
  parameter, a record of functions on the kernel's state; a theorem that needs more than that names
  what it relies on (\<open>send_laws\<close>, \<open>recv_laws\<close>, \<open>willing\<close>). Loops are partial functions: that they end is
  proved, from a rank that bounds how often calls are interrupted or would block. On Linux \<^verbatim>\<open>EWOULDBLOCK\<close> is
  \<^verbatim>\<open>EAGAIN\<close>, and one call transfers at most \<^verbatim>\<open>0x7ffff000\<close> bytes, so that its result fits into \<^verbatim>\<open>int\<close>; the
  sums are \<^verbatim>\<open>size_t\<close> and converted to \<^verbatim>\<open>int\<close> when they are returned (\<open>to_int\<close>). Handles are below
  \<^verbatim>\<open>FD_SETSIZE\<close>.
\<close>

unbundle bit_operations_syntax

section \<open>The system calls\<close>

datatype sys_errno = EAGAIN | EINTR | ENOBUFS | EADDRINUSE | EOTHER

datatype 'a sys_res = Done 'a | Fail sys_errno

record ('b, 'k) kernel =
  k_send :: "int \<Rightarrow> 'b list \<Rightarrow> 'k \<Rightarrow> nat sys_res \<times> 'k"
  k_writev :: "'b list list \<Rightarrow> 'k \<Rightarrow> nat sys_res \<times> 'k"
  k_write :: "'b list \<Rightarrow> 'k \<Rightarrow> nat sys_res \<times> 'k"
  k_recv :: "int \<Rightarrow> nat \<Rightarrow> 'k \<Rightarrow> 'b list sys_res \<times> 'k"
  k_readv :: "nat list \<Rightarrow> 'k \<Rightarrow> 'b list sys_res \<times> 'k"
  k_read :: "nat \<Rightarrow> 'k \<Rightarrow> 'b list sys_res \<times> 'k"
  k_select :: "bool \<Rightarrow> bool \<Rightarrow> bool \<Rightarrow> time_value option \<Rightarrow> 'k \<Rightarrow> nat sys_res \<times> time_value option \<times> 'k"
  k_getfl :: "'k \<Rightarrow> 32 word"
  k_setfl :: "32 word \<Rightarrow> 'k \<Rightarrow> 'k"

definition O_NONBLOCK :: "32 word" where "O_NONBLOCK = 0x800"

definition set_non_block_mode :: "('b, 'k) kernel \<Rightarrow> 'k \<Rightarrow> 'k" where
  "set_non_block_mode K k =
     (let flag = k_getfl K k in if flag AND O_NONBLOCK \<noteq> 0 then k else k_setfl K (flag OR O_NONBLOCK) k)"

definition set_block_mode :: "('b, 'k) kernel \<Rightarrow> 'k \<Rightarrow> 'k" where
  "set_block_mode K k =
     (let flag = k_getfl K k in if flag AND O_NONBLOCK \<noteq> 0 then k_setfl K (flag AND NOT O_NONBLOCK) k else k)"

definition record_and_set_non_block_mode :: "('b, 'k) kernel \<Rightarrow> 'k \<Rightarrow> 32 word \<times> 'k" where
  "record_and_set_non_block_mode K k =
     (let flag = k_getfl K k in (flag, if flag AND O_NONBLOCK \<noteq> 0 then k else k_setfl K (flag OR O_NONBLOCK) k))"

definition restore_non_block_mode :: "('b, 'k) kernel \<Rightarrow> 32 word \<Rightarrow> 'k \<Rightarrow> 'k" where
  "restore_non_block_mode K flag k =
     (if flag AND O_NONBLOCK \<noteq> 0 then k else k_setfl K (flag AND NOT O_NONBLOCK) k)"

text \<open>Waiting with \<^verbatim>\<open>select\<close>, again after an interruption; the system updates the time left.\<close>

partial_function (option) handle_ready ::
    "('b, 'k) kernel \<Rightarrow> bool \<Rightarrow> bool \<Rightarrow> bool \<Rightarrow> time_value option \<Rightarrow> 'k \<Rightarrow> (int \<times> 'k) option" where
  "handle_ready K r_ready w_ready e_ready tv k =
     (case k_select K r_ready w_ready e_ready tv k of
        (Done n, _, k1) \<Rightarrow> Some (int n, k1)
      | (Fail e, tv1, k1) \<Rightarrow> if e = EINTR then handle_ready K r_ready w_ready e_ready tv1 k1 else Some (-1, k1))"

definition handle_read_ready :: "('b, 'k) kernel \<Rightarrow> time_value option \<Rightarrow> 'k \<Rightarrow> (int \<times> 'k) option" where
  "handle_read_ready K timeout k = handle_ready K True False False timeout k"

definition handle_write_ready :: "('b, 'k) kernel \<Rightarrow> time_value option \<Rightarrow> 'k \<Rightarrow> (int \<times> 'k) option" where
  "handle_write_ready K timeout k = handle_ready K False True False timeout k"

section \<open>One transfer\<close>

text \<open>The result of a function is what was transferred, or \<open>None\<close> for -1.\<close>

definition ret :: "'a sys_res \<Rightarrow> 'a option" where
  "ret r = (case r of Done x \<Rightarrow> Some x | Fail _ \<Rightarrow> None)"

text \<open>\<^verbatim>\<open>do ret = call; while (ret == -1 && errno == EINTR)\<close>\<close>

partial_function (option) retry :: "('k \<Rightarrow> 'a sys_res \<times> 'k) \<Rightarrow> 'k \<Rightarrow> ('a option \<times> 'k) option" where
  "retry call k = (case call k of (r, k1) \<Rightarrow> if r = Fail EINTR then retry call k1 else Some (ret r, k1))"

definition positive :: "time_value \<Rightarrow> bool" where
  "positive t \<longleftrightarrow> tv_greater t tv_zero"

text \<open>The common shape of \<^verbatim>\<open>recv\<close> and \<^verbatim>\<open>recvv\<close>, and of \<^verbatim>\<open>send\<close> and \<^verbatim>\<open>sendv\<close>, with a timeout.\<close>

definition timed_recv :: "('b, 'k) kernel \<Rightarrow> ('k \<Rightarrow> 'a sys_res \<times> 'k) \<Rightarrow> time_value \<Rightarrow> 'k \<Rightarrow> ('a option \<times> 'k) option" where
  "timed_recv K call timeout k =
     (let (flag, k0) = record_and_set_non_block_mode K k; (r, k1) = call k0
      in if r \<noteq> Fail EAGAIN then Some (ret r, k1)
         else if positive timeout then
           Option.bind (handle_read_ready K (Some timeout) k1) (\<lambda>(n, k2).
             let (v, k3) = (if n > 0 then map_prod ret id (call k2) else (None, k2))
             in Some (v, restore_non_block_mode K flag k3))
         else Some (None, restore_non_block_mode K flag k1))"

definition timed_send ::
    "('b, 'k) kernel \<Rightarrow> (time_value option \<Rightarrow> 'k \<Rightarrow> (int \<times> 'k) option) \<Rightarrow> ('k \<Rightarrow> 'a sys_res \<times> 'k) \<Rightarrow> time_value \<Rightarrow> 'k \<Rightarrow> ('a option \<times> 'k) option" where
  "timed_send K wait call timeout k =
     (let (flag, k0) = record_and_set_non_block_mode K k; (r, k1) = call k0
      in if (r = Fail EAGAIN \<or> r = Fail ENOBUFS) \<and> positive timeout then
           Option.bind (wait (Some timeout) k1) (\<lambda>(n, k2).
             let (v, k3) = (if n > 0 then map_prod ret id (call k2) else (None, k2))
             in Some (v, restore_non_block_mode K flag k3))
         else Some (ret r, restore_non_block_mode K flag k1))"

definition ndk_recv :: "('b, 'k) kernel \<Rightarrow> int \<Rightarrow> nat \<Rightarrow> time_value option \<Rightarrow> 'k \<Rightarrow> ('b list option \<times> 'k) option" where
  "ndk_recv K flags len timeout k =
     (case timeout of None \<Rightarrow> retry (k_recv K flags len) k | Some t \<Rightarrow> timed_recv K (k_recv K flags len) t k)"

definition ndk_recvv :: "('b, 'k) kernel \<Rightarrow> nat list \<Rightarrow> time_value option \<Rightarrow> 'k \<Rightarrow> ('b list option \<times> 'k) option" where
  "ndk_recvv K iov timeout k =
     (case timeout of None \<Rightarrow> retry (k_readv K iov) k | Some t \<Rightarrow> timed_recv K (k_readv K iov) t k)"

text \<open>\<^verbatim>\<open>send\<close> waits until the handle is readable, \<^verbatim>\<open>sendv\<close> until it is writable.\<close>

definition ndk_send :: "('b, 'k) kernel \<Rightarrow> int \<Rightarrow> 'b list \<Rightarrow> time_value option \<Rightarrow> 'k \<Rightarrow> (nat option \<times> 'k) option" where
  "ndk_send K flags buff timeout k =
     (case timeout of None \<Rightarrow> retry (k_send K flags buff) k
      | Some t \<Rightarrow> timed_send K (handle_read_ready K) (k_send K flags buff) t k)"

definition ndk_sendv :: "('b, 'k) kernel \<Rightarrow> 'b list list \<Rightarrow> time_value option \<Rightarrow> 'k \<Rightarrow> (nat option \<times> 'k) option" where
  "ndk_sendv K iov timeout k =
     (case timeout of None \<Rightarrow> retry (k_writev K iov) k
      | Some t \<Rightarrow> timed_send K (handle_write_ready K) (k_writev K iov) t k)"

text \<open>With an address: \<open>call\<close> is \<^verbatim>\<open>::recvfrom\<close> (\<^verbatim>\<open>::sendto\<close>) with its arguments. \<^verbatim>\<open>sendto\<close> waits as \<^verbatim>\<open>send\<close> does.\<close>

definition ndk_recvfrom :: "('b, 'k) kernel \<Rightarrow> ('k \<Rightarrow> 'a sys_res \<times> 'k) \<Rightarrow> time_value option \<Rightarrow> 'k \<Rightarrow> ('a option \<times> 'k) option" where
  "ndk_recvfrom K call timeout k = (case timeout of None \<Rightarrow> retry call k | Some t \<Rightarrow> timed_recv K call t k)"

definition ndk_sendto :: "('b, 'k) kernel \<Rightarrow> ('k \<Rightarrow> nat sys_res \<times> 'k) \<Rightarrow> time_value option \<Rightarrow> 'k \<Rightarrow> (nat option \<times> 'k) option" where
  "ndk_sendto K call timeout k = (case timeout of None \<Rightarrow> retry call k | Some t \<Rightarrow> timed_send K (handle_read_ready K) call t k)"

text \<open>\<^verbatim>\<open>read\<close> and \<^verbatim>\<open>write\<close> compare the result with \<^verbatim>\<open>EINTR\<close>, so they never try again.\<close>

definition ndk_read :: "('b, 'k) kernel \<Rightarrow> nat \<Rightarrow> 'k \<Rightarrow> 'b list option \<times> 'k" where
  "ndk_read K len k = map_prod ret id (k_read K len k)"

definition ndk_write :: "('b, 'k) kernel \<Rightarrow> 'b list \<Rightarrow> 'k \<Rightarrow> nat option \<times> 'k" where
  "ndk_write K buff k = map_prod ret id (k_write K buff k)"

section \<open>Transfers of a given length\<close>

text \<open>The loops give the number of bytes (the bytes) transferred and, after an error, the result of the
  call that failed: 0 or -1.\<close>

partial_function (option) send_n_loop ::
    "('b, 'k) kernel \<Rightarrow> int \<Rightarrow> 'b list \<Rightarrow> time_value option \<Rightarrow> nat \<Rightarrow> 'k \<Rightarrow> (nat \<times> int option \<times> 'k) option" where
  "send_n_loop K flags buff timeout send_bytes k =
     (if send_bytes < length buff then
        (case k_send K flags (drop send_bytes buff) k of
           (Done n, k1) \<Rightarrow> if n = 0 then Some (send_bytes, Some 0, k1) else send_n_loop K flags buff timeout (send_bytes + n) k1
         | (Fail e, k1) \<Rightarrow>
             if e = EAGAIN \<or> e = ENOBUFS then
               Option.bind (handle_write_ready K timeout k1) (\<lambda>(r, k2).
                 if r > 0 then send_n_loop K flags buff timeout send_bytes k2 else Some (send_bytes, None, k2))
             else if e = EINTR then send_n_loop K flags buff timeout send_bytes k1
             else Some (send_bytes, Some (-1), k1))
      else Some (send_bytes, None, k))"

definition begin_transfer :: "('b, 'k) kernel \<Rightarrow> time_value option \<Rightarrow> 'k \<Rightarrow> 32 word \<times> 'k" where
  "begin_transfer K timeout k = (if timeout \<noteq> None then record_and_set_non_block_mode K k else (0, k))"

definition end_transfer :: "('b, 'k) kernel \<Rightarrow> time_value option \<Rightarrow> 32 word \<Rightarrow> 'k \<Rightarrow> 'k" where
  "end_transfer K timeout flag k = (if timeout \<noteq> None then restore_non_block_mode K flag k else k)"

definition ndk_send_n :: "('b, 'k) kernel \<Rightarrow> int \<Rightarrow> 'b list \<Rightarrow> time_value option \<Rightarrow> 'k \<Rightarrow> (int \<times> 'k) option" where
  "ndk_send_n K flags buff timeout k =
     (let (flag, k0) = begin_transfer K timeout k
      in Option.bind (send_n_loop K flags buff timeout 0 k0) (\<lambda>(send_bytes, error, k1).
           Some (case error of Some result \<Rightarrow> result | None \<Rightarrow> to_int (int send_bytes), end_transfer K timeout flag k1)))"

partial_function (option) recv_n_loop ::
    "('b, 'k) kernel \<Rightarrow> int \<Rightarrow> nat \<Rightarrow> time_value option \<Rightarrow> 'b list \<Rightarrow> 'k \<Rightarrow> ('b list \<times> int option \<times> 'k) option" where
  "recv_n_loop K flags len timeout got k =
     (if length got < len then
        (case k_recv K flags (len - length got) k of
           (Done bs, k1) \<Rightarrow> if bs = [] then Some (got, Some 0, k1) else recv_n_loop K flags len timeout (got @ bs) k1
         | (Fail e, k1) \<Rightarrow>
             if e = EAGAIN then
               (if timeout = None \<or> positive (the timeout) then
                  Option.bind (handle_read_ready K timeout k1) (\<lambda>(r, k2).
                    if r > 0 then recv_n_loop K flags len timeout got k2 else Some (got, None, k2))
                else Some (got, None, k1))
             else if e = EINTR then recv_n_loop K flags len timeout got k1
             else Some (got, Some (-1), k1))
      else Some (got, None, k))"

text \<open>The result and the bytes written to the start of the buffer. After an error the mode of the handle is
  not restored.\<close>

definition ndk_recv_n :: "('b, 'k) kernel \<Rightarrow> int \<Rightarrow> nat \<Rightarrow> time_value option \<Rightarrow> 'k \<Rightarrow> (int \<times> 'b list \<times> 'k) option" where
  "ndk_recv_n K flags len timeout k =
     (let (flag, k0) = begin_transfer K timeout k
      in Option.bind (recv_n_loop K flags len timeout [] k0) (\<lambda>(got, error, k1).
           Some (case error of Some result \<Rightarrow> (result, got, k1)
                 | None \<Rightarrow> (to_int (int (length got)), got, end_transfer K timeout flag k1))))"

partial_function (option) read_n_loop :: "('b, 'k) kernel \<Rightarrow> nat \<Rightarrow> 'b list \<Rightarrow> 'k \<Rightarrow> (int \<times> 'b list \<times> 'k) option" where
  "read_n_loop K len got k =
     (if length got < len then
        (case k_read K (len - length got) k of
           (Done bs, k1) \<Rightarrow> if bs = [] then Some (0, got, k1) else read_n_loop K len (got @ bs) k1
         | (Fail _, k1) \<Rightarrow> Some (-1, got, k1))
      else Some (to_int (int (length got)), got, k))"

definition ndk_read_n :: "('b, 'k) kernel \<Rightarrow> nat \<Rightarrow> 'k \<Rightarrow> (int \<times> 'b list \<times> 'k) option" where
  "ndk_read_n K len k = read_n_loop K len [] k"

partial_function (option) write_n_loop :: "('b, 'k) kernel \<Rightarrow> 'b list \<Rightarrow> nat \<Rightarrow> 'k \<Rightarrow> (int \<times> 'k) option" where
  "write_n_loop K buff write_bytes k =
     (if write_bytes < length buff then
        (case k_write K (drop write_bytes buff) k of
           (Done n, k1) \<Rightarrow> if n = 0 then Some (0, k1) else write_n_loop K buff (write_bytes + n) k1
         | (Fail _, k1) \<Rightarrow> Some (-1, k1))
      else Some (to_int (int write_bytes), k))"

definition ndk_write_n :: "('b, 'k) kernel \<Rightarrow> bool \<Rightarrow> 'b list \<Rightarrow> 'k \<Rightarrow> (int \<times> 'k) option" where
  "ndk_write_n K valid buff k = (if \<not> valid then Some (-1, k) else write_n_loop K buff 0 k)"

section \<open>Vectors of buffers\<close>

text \<open>The inner loop: the buffers that a call has finished.\<close>

function skip_full :: "'b list list \<Rightarrow> nat \<Rightarrow> nat \<Rightarrow> nat \<times> nat" where
  "skip_full iov s n = (if s < length iov \<and> n \<ge> length (iov ! s) then skip_full iov (Suc s) (n - length (iov ! s)) else (s, n))"
  by pat_completeness auto
termination by (relation "measure (\<lambda>(iov, s, n). length iov - s)") auto

declare skip_full.simps [simp del]

text \<open>\<open>secure\<close> is the macro \<^verbatim>\<open>IOVEC_SECURITY_IO\<close>: only with it a buffer that was sent in part is advanced (and the
  vector put back in the end). No build file defines it.\<close>

partial_function (option) sendv_n_loop ::
    "('b, 'k) kernel \<Rightarrow> bool \<Rightarrow> time_value option \<Rightarrow> 'b list list \<Rightarrow> bool \<Rightarrow> nat \<Rightarrow> nat \<Rightarrow> 'k \<Rightarrow> (nat \<times> 'b list list \<times> bool \<times> 'k) option" where
  "sendv_n_loop K secure timeout iov bfull s send_bytes k =
     (if s < length iov then
        (case k_writev K (drop s iov) k of
           (Done n, k1) \<Rightarrow>
             if n = 0 then Some (send_bytes, iov, bfull, k1)
             else (let (s1, n1) = skip_full iov s n
                   in if secure \<and> n1 \<noteq> 0
                      then sendv_n_loop K secure timeout (iov[s1 := drop n1 (iov ! s1)]) False s1 (send_bytes + n) k1
                      else sendv_n_loop K secure timeout iov bfull s1 (send_bytes + n) k1)
         | (Fail e, k1) \<Rightarrow>
             if e = EAGAIN \<or> e = ENOBUFS then
               Option.bind (handle_write_ready K timeout k1) (\<lambda>(r, k2).
                 if r > 0 then sendv_n_loop K secure timeout iov bfull s send_bytes k2 else Some (send_bytes, iov, bfull, k2))
             else if e = EINTR then sendv_n_loop K secure timeout iov bfull s send_bytes k1
             else Some (send_bytes, iov, bfull, k1))
      else Some (send_bytes, iov, bfull, k))"

text \<open>The result, the vector afterwards and the kernel. An error is computed and not reported.\<close>

definition ndk_sendv_n :: "('b, 'k) kernel \<Rightarrow> bool \<Rightarrow> 'b list list \<Rightarrow> time_value option \<Rightarrow> 'k \<Rightarrow> (int \<times> 'b list list \<times> 'k) option" where
  "ndk_sendv_n K secure iov timeout k =
     (let (flag, k0) = begin_transfer K timeout k
      in Option.bind (sendv_n_loop K secure timeout iov True 0 0 k0) (\<lambda>(send_bytes, iov1, bfull, k1).
           Some (to_int (int send_bytes), if bfull then iov1 else iov, end_transfer K timeout flag k1)))"

text \<open>Receiving into a vector of buffers, each given by the addresses of its bytes.\<close>

definition store :: "addr list \<Rightarrow> 'b list \<Rightarrow> (addr \<Rightarrow> 'b) \<Rightarrow> addr \<Rightarrow> 'b" where
  "store as bs mem = fold (\<lambda>(a, b) m. m(a := b)) (zip as bs) mem"

partial_function (option) recvv_n_loop ::
    "('b, 'k) kernel \<Rightarrow> bool \<Rightarrow> time_value option \<Rightarrow> addr list list \<Rightarrow> bool \<Rightarrow> nat \<Rightarrow> nat \<Rightarrow> (addr \<Rightarrow> 'b) \<Rightarrow> 'k
      \<Rightarrow> (nat \<times> int option \<times> addr list list \<times> bool \<times> (addr \<Rightarrow> 'b) \<times> 'k) option" where
  "recvv_n_loop K secure timeout iov bfull s recv_bytes mem k =
     (if s < length iov then
        (case k_readv K (map length (drop s iov)) k of
           (Done bs, k1) \<Rightarrow>
             if bs = [] then Some (recv_bytes, Some 0, iov, bfull, mem, k1)
             else (let n = length bs; mem1 = store (take n (concat (drop s iov))) bs mem; (s1, n1) = skip_full iov s n
                   in if secure \<and> n1 \<noteq> 0
                      then recvv_n_loop K secure timeout (iov[s1 := drop n1 (iov ! s1)]) False s1 (recv_bytes + n) mem1 k1
                      else recvv_n_loop K secure timeout iov bfull s1 (recv_bytes + n) mem1 k1)
         | (Fail e, k1) \<Rightarrow>
             if e = EAGAIN then
               (if timeout = None \<or> positive (the timeout) then
                  Option.bind (handle_read_ready K timeout k1) (\<lambda>(r, k2).
                    if r > 0 then recvv_n_loop K secure timeout iov bfull s recv_bytes mem k2
                    else Some (recv_bytes, None, iov, bfull, mem, k2))
                else Some (recv_bytes, None, iov, bfull, mem, k1))
             else if e = EINTR then recvv_n_loop K secure timeout iov bfull s recv_bytes mem k1
             else Some (recv_bytes, Some (-1), iov, bfull, mem, k1))
      else Some (recv_bytes, None, iov, bfull, mem, k))"

definition ndk_recvv_n ::
    "('b, 'k) kernel \<Rightarrow> bool \<Rightarrow> addr list list \<Rightarrow> time_value option \<Rightarrow> (addr \<Rightarrow> 'b) \<Rightarrow> 'k \<Rightarrow> (int \<times> addr list list \<times> (addr \<Rightarrow> 'b) \<times> 'k) option" where
  "ndk_recvv_n K secure iov timeout mem k =
     (let (flag, k0) = begin_transfer K timeout k
      in Option.bind (recvv_n_loop K secure timeout iov True 0 0 mem k0) (\<lambda>(recv_bytes, error, iov1, bfull, mem1, k1).
           Some (case error of Some result \<Rightarrow> result | None \<Rightarrow> to_int (int recv_bytes),
             if bfull then iov1 else iov, mem1, end_transfer K timeout flag k1)))"

section \<open>A free port\<close>

text \<open>The ports are tried downwards from \<^verbatim>\<open>MAX_DEFAULT_PORT\<close>, as 16-bit numbers.\<close>

definition MAX_DEFAULT_PORT :: "16 word" where "MAX_DEFAULT_PORT = 65535"

partial_function (option) try_ports :: "(16 word \<Rightarrow> 'k \<Rightarrow> unit sys_res \<times> 'k) \<Rightarrow> 16 word \<Rightarrow> 'k \<Rightarrow> (int \<times> 'k) option" where
  "try_ports k_bind upper_limit k =
     (case k_bind upper_limit k of
        (Done _, k1) \<Rightarrow> Some (0, k1)
      | (Fail e, k1) \<Rightarrow> if e \<noteq> EADDRINUSE then Some (-1, k1) else try_ports k_bind (upper_limit - 1) k1)"

definition bind_port :: "(16 word \<Rightarrow> 'k \<Rightarrow> unit sys_res \<times> 'k) \<Rightarrow> 'k \<Rightarrow> (int \<times> 'k) option" where
  "bind_port k_bind k = try_ports k_bind MAX_DEFAULT_PORT k"

declare handle_ready.simps [code] retry.simps [code] send_n_loop.simps [code] recv_n_loop.simps [code]
  read_n_loop.simps [code] write_n_loop.simps [code] sendv_n_loop.simps [code] recvv_n_loop.simps [code] try_ports.simps [code]

section \<open>What is required of the system\<close>

text \<open>A call accepts a prefix of the data or fails; \<open>out\<close> is all the handle has accepted. The rank bounds how
  often calls can still fail or be interrupted.\<close>

definition accepted :: "('b, 'k) kernel \<Rightarrow> ('k \<Rightarrow> 'b list) \<Rightarrow> ('k \<Rightarrow> nat) \<Rightarrow> 'k \<Rightarrow> 'b list \<Rightarrow> nat sys_res \<times> 'k \<Rightarrow> bool" where
  "accepted K out rank k data rk \<longleftrightarrow> (case rk of
     (Done n, k') \<Rightarrow> n \<le> length data \<and> out k' = out k @ take n data \<and> rank k' \<le> rank k \<and> k_getfl K k' = k_getfl K k
   | (Fail _, k') \<Rightarrow> out k' = out k \<and> rank k' < rank k \<and> k_getfl K k' = k_getfl K k)"

definition waits :: "('b, 'k) kernel \<Rightarrow> ('k \<Rightarrow> 'b list) \<Rightarrow> ('k \<Rightarrow> nat) \<Rightarrow> bool" where
  "waits K obs rank \<longleftrightarrow> (\<forall>r w e tv k. case k_select K r w e tv k of (res, _, k') \<Rightarrow>
     obs k' = obs k \<and> k_getfl K k' = k_getfl K k \<and> rank k' \<le> rank k \<and> (res = Fail EINTR \<longrightarrow> rank k' < rank k))"

text \<open>\<^verbatim>\<open>fcntl (F_SETFL)\<close> on an open handle sets or clears \<^verbatim>\<open>O_NONBLOCK\<close> when the other flags it is given are those
  the handle has; nothing is required of other arguments.\<close>

definition flag_laws :: "('b, 'k) kernel \<Rightarrow> ('k \<Rightarrow> 'b list) \<Rightarrow> ('k \<Rightarrow> nat) \<Rightarrow> bool" where
  "flag_laws K obs rank \<longleftrightarrow> (\<forall>k. \<forall>f \<in> {k_getfl K k OR O_NONBLOCK, k_getfl K k AND NOT O_NONBLOCK}.
     obs (k_setfl K f k) = obs k \<and> rank (k_setfl K f k) = rank k \<and> k_getfl K (k_setfl K f k) = f)"

definition send_laws :: "('b, 'k) kernel \<Rightarrow> ('k \<Rightarrow> 'b list) \<Rightarrow> ('k \<Rightarrow> nat) \<Rightarrow> bool" where
  "send_laws K out rank \<longleftrightarrow> waits K out rank \<and> flag_laws K out rank
     \<and> (\<forall>flags data k. accepted K out rank k data (k_send K flags data k))
     \<and> (\<forall>iov k. accepted K out rank k (concat iov) (k_writev K iov k))
     \<and> (\<forall>data k. accepted K out rank k data (k_write K data k))"

text \<open>A peer that stays and takes everything in the end.\<close>

definition willing_call :: "nat sys_res \<Rightarrow> bool" where
  "willing_call r \<longleftrightarrow> (case r of Done n \<Rightarrow> 0 < n | Fail e \<Rightarrow> e \<in> {EAGAIN, EINTR, ENOBUFS})"

definition ready_soon :: "('b, 'k) kernel \<Rightarrow> bool" where
  "ready_soon K \<longleftrightarrow> (\<forall>r w e tv k. case fst (k_select K r w e tv k) of Done n \<Rightarrow> 0 < n | Fail e \<Rightarrow> e = EINTR)"

definition willing :: "('b, 'k) kernel \<Rightarrow> bool" where
  "willing K \<longleftrightarrow> (\<forall>flags data k. data \<noteq> [] \<longrightarrow> willing_call (fst (k_send K flags data k)))
     \<and> (\<forall>iov k. concat iov \<noteq> [] \<longrightarrow> willing_call (fst (k_writev K iov k))) \<and> ready_soon K"

lemma waitsD:
  assumes "waits K obs rank" "k_select K r w e tv k = (res, tv1, k1)"
  shows "obs k1 = obs k" "k_getfl K k1 = k_getfl K k" "rank k1 \<le> rank k" "res = Fail EINTR \<Longrightarrow> rank k1 < rank k"
proof -
  have "case k_select K r w e tv k of (res, _, k') \<Rightarrow>
     obs k' = obs k \<and> k_getfl K k' = k_getfl K k \<and> rank k' \<le> rank k \<and> (res = Fail EINTR \<longrightarrow> rank k' < rank k)"
    using assms(1) unfolding waits_def by (elim allE)
  then show "obs k1 = obs k" "k_getfl K k1 = k_getfl K k" "rank k1 \<le> rank k" "res = Fail EINTR \<Longrightarrow> rank k1 < rank k"
    by (simp_all add: assms(2))
qed

lemma ready_soonD: "ready_soon K \<Longrightarrow> k_select K r w e tv k = (res, tv1, k1) \<Longrightarrow> case res of Done n \<Rightarrow> 0 < n | Fail e \<Rightarrow> e = EINTR"
  unfolding ready_soon_def by (metis fst_conv)

lemma handle_ready_ok:
  assumes "waits K obs rank"
  shows "\<exists>n k'. handle_ready K r w e tv k = Some (n, k') \<and> obs k' = obs k \<and> rank k' \<le> rank k \<and> k_getfl K k' = k_getfl K k
    \<and> (ready_soon K \<longrightarrow> 0 < n)"
proof (induction "rank k" arbitrary: tv k rule: less_induct)
  case less
  obtain res tv1 k1 where s: "k_select K r w e tv k = (res, tv1, k1)" by (cases "k_select K r w e tv k") auto
  note w = waitsD [OF assms s] and p = ready_soonD [OF _ s]
  show ?case
  proof (cases res)
    case (Done m)
    then have "handle_ready K r w e tv k = Some (int m, k1)" using s by (subst handle_ready.simps) simp
    then show ?thesis using w(1-3) p Done by simp
  next
    case (Fail er)
    show ?thesis
    proof (cases "er = EINTR")
      case True
      then have "handle_ready K r w e tv k = handle_ready K r w e tv1 k1" using s Fail by (subst handle_ready.simps) simp
      then show ?thesis using less [of k1 tv1] w True Fail by fastforce
    next
      case False
      then have "handle_ready K r w e tv k = Some (-1, k1)" using s Fail by (subst handle_ready.simps) simp
      then show ?thesis using w(1-3) p Fail False by auto
    qed
  qed
qed

lemma and_not_id: "f AND m = 0 \<Longrightarrow> f AND NOT m = f" for f m :: "32 word"
  by (rule bit_word_eqI) (metis bit_and_iff bit_not_iff bit_0_eq bot_apply bot_bool_def possible_bit_word)

lemma or_and_not: "f AND m = 0 \<Longrightarrow> (f OR m) AND NOT m = f" for f m :: "32 word"
  by (rule bit_word_eqI) (metis bit_and_iff bit_not_iff bit_or_iff bit_0_eq bot_apply bot_bool_def possible_bit_word)

text \<open>The mode of the handle is put back.\<close>

lemma transfer_mode:
  assumes "flag_laws K obs rank" "begin_transfer K timeout k = (flag, k0)"
  shows "obs k0 = obs k" "rank k0 = rank k"
    "k_getfl K k1 = k_getfl K k0 \<Longrightarrow> k_getfl K (end_transfer K timeout flag k1) = k_getfl K k"
    "k_getfl K k1 = k_getfl K k0 \<Longrightarrow> obs (end_transfer K timeout flag k1) = obs k1"
proof -
  have s: "obs (k_setfl K (k_getfl K k OR O_NONBLOCK) k) = obs k" "rank (k_setfl K (k_getfl K k OR O_NONBLOCK) k) = rank k"
    "k_getfl K (k_setfl K (k_getfl K k OR O_NONBLOCK) k) = k_getfl K k OR O_NONBLOCK"
    "obs (k_setfl K (k_getfl K k AND NOT O_NONBLOCK) k) = obs k"
    "k_getfl K (k_setfl K (k_getfl K k AND NOT O_NONBLOCK) k) = k_getfl K k AND NOT O_NONBLOCK" for k
    using assms(1) by (simp_all add: flag_laws_def)
  show "obs k0 = obs k" "rank k0 = rank k"
    using assms(2) s by (auto simp: begin_transfer_def record_and_set_non_block_mode_def Let_def split: if_splits)
  assume k1: "k_getfl K k1 = k_getfl K k0"
  show "k_getfl K (end_transfer K timeout flag k1) = k_getfl K k" "obs (end_transfer K timeout flag k1) = obs k1"
    using assms(2) k1 s(3) [of k] s(4,5) [of k1] and_not_id or_and_not
    by (auto simp: begin_transfer_def end_transfer_def record_and_set_non_block_mode_def restore_non_block_mode_def Let_def split: if_splits)
qed

lemma accepted_Done: "accepted K out rank k data (Done n, k') \<Longrightarrow>
    n \<le> length data \<and> out k' = out k @ take n data \<and> rank k' \<le> rank k \<and> k_getfl K k' = k_getfl K k"
  and accepted_Fail: "accepted K out rank k data (Fail e, k') \<Longrightarrow> out k' = out k \<and> rank k' < rank k \<and> k_getfl K k' = k_getfl K k"
  by (simp_all add: accepted_def)

section \<open>Sending\<close>

text \<open>The state of a transfer: \<open>m\<close> bytes of \<open>data\<close> have been accepted.\<close>

definition moved :: "('b, 'k) kernel \<Rightarrow> ('k \<Rightarrow> 'b list) \<Rightarrow> 'b list \<Rightarrow> 'k \<Rightarrow> nat \<Rightarrow> 'k \<Rightarrow> bool" where
  "moved K out data k m k' \<longleftrightarrow> m \<le> length data \<and> out k' = out k @ take m data \<and> k_getfl K k' = k_getfl K k"

lemma moved_more:
  assumes "accepted K out rank k1 (drop m data) (Done n, k2)" "moved K out data k m k1"
  shows "moved K out data k (m + n) k2" "rank k2 \<le> rank k1"
  using accepted_Done [OF assms(1)] assms(2) by (auto simp: moved_def take_add)

lemma moved_same: "moved K out data k m k1 \<Longrightarrow> out k2 = out k1 \<Longrightarrow> k_getfl K k2 = k_getfl K k1 \<Longrightarrow> moved K out data k m k2"
  by (simp add: moved_def)

lemma send_laws_wait: "send_laws K out rank \<Longrightarrow> waits K out rank"
  by (simp add: send_laws_def)

lemma send_n_loop_ok:
  assumes "send_laws K out rank" "moved K out buff k m k1"
  shows "\<exists>m' e k'. send_n_loop K flags buff timeout m k1 = Some (m', e, k') \<and> moved K out buff k m' k'
    \<and> (case e of None \<Rightarrow> True | Some v \<Rightarrow> m' < length buff \<and> (v = 0 \<or> v = -1)) \<and> (willing K \<longrightarrow> m' = length buff \<and> e = None)"
  using assms(2)
proof (induction "length buff - m + rank k1" arbitrary: m k1 rule: less_induct)
  case less
  note step = send_n_loop.simps [of K flags buff timeout m k1]
  show ?case
  proof (cases "m < length buff")
    case False
    then show ?thesis using less.prems step by (auto simp: moved_def)
  next
    case True
    obtain r k2 where c: "k_send K flags (drop m buff) k1 = (r, k2)" by fastforce
    have acc: "accepted K out rank k1 (drop m buff) (r, k2)" using assms(1) unfolding send_laws_def c [symmetric] by blast
    have wl: "willing K \<Longrightarrow> willing_call r" using c True unfolding willing_def by (metis fst_conv drop_eq_Nil not_le)
    show ?thesis
    proof (cases r)
      case (Done n)
      note mv = moved_more [OF acc [unfolded Done] less.prems]
      show ?thesis
      proof (cases "n = 0")
        case True
        then have "\<not> willing K" using wl Done by (auto simp: willing_call_def)
        then show ?thesis using step c Done mv True \<open>m < length buff\<close> by simp
      next
        case False
        then have "send_n_loop K flags buff timeout m k1 = send_n_loop K flags buff timeout (m + n) k2" using step c Done True by simp
        moreover have "length buff - (m + n) + rank k2 < length buff - m + rank k1" using mv(2) True False by linarith
        ultimately show ?thesis using less.hyps [OF _ mv(1)] by simp
      qed
    next
      case (Fail e)
      note f = accepted_Fail [OF acc [unfolded Fail]]
      have mv: "moved K out buff k m k2" by (rule moved_same [OF less.prems]) (use f in auto)
      have IH: "\<exists>m' e k'. send_n_loop K flags buff timeout m k3 = Some (m', e, k') \<and> moved K out buff k m' k'
        \<and> (case e of None \<Rightarrow> True | Some v \<Rightarrow> m' < length buff \<and> (v = 0 \<or> v = -1)) \<and> (willing K \<longrightarrow> m' = length buff \<and> e = None)"
        if "rank k3 \<le> rank k2" "moved K out buff k m k3" for k3
        using less.hyps [of m k3] that f by simp
      show ?thesis
      proof (cases "e = EAGAIN \<or> e = ENOBUFS")
        case True
        obtain n k3 where h: "handle_write_ready K timeout k2 = Some (n, k3)" "out k3 = out k2" "rank k3 \<le> rank k2"
          "k_getfl K k3 = k_getfl K k2" "ready_soon K \<longrightarrow> 0 < n"
          using handle_ready_ok [OF send_laws_wait [OF assms(1)]] unfolding handle_write_ready_def by blast
        have mv3: "moved K out buff k m k3" by (rule moved_same [OF mv h(2,4)])
        have "send_n_loop K flags buff timeout m k1 = (if n > 0 then send_n_loop K flags buff timeout m k3 else Some (m, None, k3))"
          using step c Fail True h(1) \<open>m < length buff\<close> by simp
        then show ?thesis using IH [OF h(3) mv3] mv3 h(5) by (auto simp: willing_def)
      next
        case False
        then have "send_n_loop K flags buff timeout m k1 = (if e = EINTR then send_n_loop K flags buff timeout m k2 else Some (m, Some (-1), k2))"
          using step c Fail True by simp
        then show ?thesis using IH [OF _ mv] mv wl False Fail True by (auto simp: willing_call_def)
      qed
    qed
  qed
qed

text \<open>Sending a buffer returns, and the handle has accepted exactly its first \<open>m\<close> bytes, in order and none
  twice. The result is \<open>m\<close>, or the result of a call that failed; a peer that takes everything in the end
  gets the whole buffer. The mode of the handle is as before.\<close>

theorem send_n_correct:
  assumes "send_laws K out rank"
  shows "\<exists>m v k'. ndk_send_n K flags buff timeout k = Some (v, k') \<and> m \<le> length buff \<and> out k' = out k @ take m buff
    \<and> k_getfl K k' = k_getfl K k \<and> (v = to_int (int m) \<or> m < length buff \<and> (v = 0 \<or> v = -1)) \<and> (willing K \<longrightarrow> m = length buff \<and> v = to_int (int m))"
proof -
  obtain flag k0 where b: "begin_transfer K timeout k = (flag, k0)" by fastforce
  have "flag_laws K out rank" using assms by (simp add: send_laws_def)
  note t = transfer_mode [OF this b]
  have "moved K out buff k0 0 k0" by (simp add: moved_def)
  from send_n_loop_ok [OF assms this] obtain m e k1 where l: "send_n_loop K flags buff timeout 0 k0 = Some (m, e, k1)"
    "moved K out buff k0 m k1" "case e of None \<Rightarrow> True | Some v \<Rightarrow> m < length buff \<and> (v = 0 \<or> v = -1)"
    "willing K \<longrightarrow> m = length buff \<and> e = None" by blast
  then show ?thesis using b t by (cases e) (auto simp: ndk_send_n_def moved_def intro!: exI [of _ m])
qed

text \<open>Advancing over the buffers a call has finished: what is left of the vector is the data not yet sent.\<close>

lemma skip_full_ok:
  assumes "skip_full iov s n = (s1, n1)" "n \<le> length (concat (drop s iov))" "s \<le> length iov"
  shows "s \<le> s1" "s1 \<le> length iov" "n1 \<noteq> 0 \<Longrightarrow> s1 < length iov \<and> n1 < length (iov ! s1)"
    "concat (drop s1 (iov[s1 := drop n1 (iov ! s1)])) = drop n (concat (drop s iov))" "n1 = 0 \<Longrightarrow> concat (drop s1 iov) = drop n (concat (drop s iov))"
proof -
  have "s \<le> s1 \<and> s1 \<le> length iov \<and> (n1 \<noteq> 0 \<longrightarrow> s1 < length iov \<and> n1 < length (iov ! s1))
    \<and> concat (drop s1 (iov[s1 := drop n1 (iov ! s1)])) = drop n (concat (drop s iov)) \<and> (n1 = 0 \<longrightarrow> concat (drop s1 iov) = drop n (concat (drop s iov)))"
    using assms
  proof (induction iov s n rule: skip_full.induct)
    case (1 iov s n)
    show ?case
    proof (cases "s < length iov \<and> n \<ge> length (iov ! s)")
      case True
      then have d: "drop s iov = iov ! s # drop (Suc s) iov" by (simp add: Cons_nth_drop_Suc)
      have a: "skip_full iov (Suc s) (n - length (iov ! s)) = (s1, n1)" using 1(2) True by (simp add: skip_full.simps [of iov s n])
      have b: "drop n (concat (drop s iov)) = drop (n - length (iov ! s)) (concat (drop (Suc s) iov))" using True d by simp
      have c: "n - length (iov ! s) \<le> length (concat (drop (Suc s) iov))" using 1(3) d by simp
      have l: "Suc s \<le> length iov" using True by simp
      show ?thesis using 1(1) [OF True a c l] unfolding b by (elim conjE) (intro conjI; simp only: Suc_leD)
    next
      case False
      then have e: "s1 = s" "n1 = n" using 1(2) by (auto simp: skip_full.simps [of iov s n])
      show ?thesis
      proof (cases "s < length iov")
        case True
        then have d: "drop s iov = iov ! s # drop (Suc s) iov" "drop s (iov[s := x]) = x # drop (Suc s) iov" for x
          using Cons_nth_drop_Suc [of s "iov[s := x]"] by (simp_all add: Cons_nth_drop_Suc)
        then show ?thesis using True False e by auto
      qed (use 1(3,4) e in auto)
    qed
  qed
  then show "s \<le> s1" "s1 \<le> length iov" "n1 \<noteq> 0 \<Longrightarrow> s1 < length iov \<and> n1 < length (iov ! s1)"
    "concat (drop s1 (iov[s1 := drop n1 (iov ! s1)])) = drop n (concat (drop s iov))" "n1 = 0 \<Longrightarrow> concat (drop s1 iov) = drop n (concat (drop s iov))"
    by simp_all
qed

text \<open>Calls that end at the end of a buffer never leave a part of one.\<close>

lemma skip_full_whole:
  assumes "skip_full iov s n = (s1, n1)" "n = length (concat (take j (drop s iov)))" "s \<le> length iov"
  shows "n1 = 0"
  using assms
proof (induction iov s n arbitrary: j rule: skip_full.induct)
  case (1 iov s n)
  show ?case
  proof (cases "s < length iov \<and> n \<ge> length (iov ! s)")
    case True
    then have d: "drop s iov = iov ! s # drop (Suc s) iov" by (simp add: Cons_nth_drop_Suc)
    have a: "skip_full iov (Suc s) (n - length (iov ! s)) = (s1, n1)" using 1(2) True by (simp add: skip_full.simps [of iov s n])
    have "n - length (iov ! s) = length (concat (take (j - 1) (drop (Suc s) iov)))"
      using 1(3) True by (cases j) (simp_all add: d)
    then show ?thesis using 1(1) [OF True a] True by simp
  next
    case False
    then have e: "n1 = n" using 1(2) by (auto simp: skip_full.simps [of iov s n])
    show ?thesis
    proof (cases "s < length iov")
      case True
      then have d: "drop s iov = iov ! s # drop (Suc s) iov" by (simp add: Cons_nth_drop_Suc)
      have "j = 0" using 1(3) False True by (cases j) (simp_all add: d)
      then show ?thesis using 1(3) e by simp
    qed (use 1(3) e in simp)
  qed
qed

definition whole :: "('b, 'k) kernel \<Rightarrow> bool" where
  "whole K \<longleftrightarrow> (\<forall>iov k. case fst (k_writev K iov k) of Done n \<Rightarrow> \<exists>j. n = length (concat (take j iov)) | Fail _ \<Rightarrow> True)"

lemma wholeD: "whole K \<Longrightarrow> k_writev K iov k = (Done n, k1) \<Longrightarrow> \<exists>j. n = length (concat (take j iov))"
proof -
  assume w: "whole K" and c: "k_writev K iov k = (Done n, k1)"
  have "case fst (k_writev K iov k) of Done n \<Rightarrow> \<exists>j. n = length (concat (take j iov)) | Fail _ \<Rightarrow> True"
    using w unfolding whole_def by (elim allE)
  then show "\<exists>j. n = length (concat (take j iov))" by (simp add: c)
qed

text \<open>With \<^verbatim>\<open>IOVEC_SECURITY_IO\<close>, or when no call stops inside a buffer, the vector always holds the data that is left.\<close>

lemma sendv_n_loop_ok:
  assumes "secure \<or> whole K" "send_laws K out rank" "moved K out (concat iov0) k m k1" "s \<le> length iov" "concat (drop s iov) = drop m (concat iov0)"
    "bfull \<longrightarrow> iov = iov0"
  shows "\<exists>m' iov' b k'. sendv_n_loop K secure timeout iov bfull s m k1 = Some (m', iov', b, k') \<and> moved K out (concat iov0) k m' k'
    \<and> (b \<longrightarrow> iov' = iov0) \<and> (willing K \<longrightarrow> m' = length (concat iov0))"
  using assms(3-)
proof (induction "length (concat iov0) - m + rank k1" arbitrary: m k1 s iov bfull rule: less_induct)
  case less
  note step = sendv_n_loop.simps [of K secure timeout iov bfull s m k1]
  have len: "length (concat iov0) - m = length (concat (drop s iov))" using less.prems(3) by simp
  show ?case
  proof (cases "s < length iov")
    case False
    then show ?thesis using less.prems step len by (auto simp: moved_def)
  next
    case True
    obtain r k2 where c: "k_writev K (drop s iov) k1 = (r, k2)" by fastforce
    have acc: "accepted K out rank k1 (drop m (concat iov0)) (r, k2)"
      unfolding less.prems(3) [symmetric] c [symmetric] using assms(2) unfolding send_laws_def by blast
    have wl: "willing K \<Longrightarrow> m < length (concat iov0) \<Longrightarrow> willing_call r"
      using c len unfolding willing_def by (metis fst_conv length_0_conv zero_less_diff less_irrefl)
    have lem: "m \<le> length (concat iov0)" using less.prems(1) by (simp add: moved_def)
    show ?thesis
    proof (cases r)
      case (Done n)
      note mv = moved_more [OF acc [unfolded Done] less.prems(1)]
      show ?thesis
      proof (cases "n = 0")
        case True
        then have "willing K \<Longrightarrow> m = length (concat iov0)" using wl Done lem by (fastforce simp: willing_call_def)
        then show ?thesis using step c Done mv True \<open>s < length iov\<close> less.prems(4) by simp
      next
        case False
        obtain s1 n1 where sk: "skip_full iov s n = (s1, n1)" by fastforce
        have nl: "n \<le> length (concat (drop s iov))" using accepted_Done [OF acc [unfolded Done]] less.prems(3) by simp
        note k = skip_full_ok [OF sk nl less.prems(2)]
        have part: "secure \<or> n1 = 0" using assms(1) wholeD [OF _ c [unfolded Done]] skip_full_whole [OF sk _ less.prems(2)] by blast
        let ?iov = "if n1 \<noteq> 0 then iov[s1 := drop n1 (iov ! s1)] else iov" and ?b = "if n1 \<noteq> 0 then False else bfull"
        have "sendv_n_loop K secure timeout iov bfull s m k1 = sendv_n_loop K secure timeout ?iov ?b s1 (m + n) k2"
          using step c Done False sk True part by auto
        moreover have "concat (drop s1 ?iov) = drop (m + n) (concat iov0)" using k(4,5) less.prems(3) by (simp add: add.commute)
        moreover have "length (concat iov0) - (m + n) + rank k2 < length (concat iov0) - m + rank k1" using mv False nl len by linarith
        ultimately show ?thesis using less.hyps [of "m + n" k2 s1 ?iov ?b] mv(1) k(2) less.prems(4) by simp
      qed
    next
      case (Fail e)
      note f = accepted_Fail [OF acc [unfolded Fail]]
      have mv: "moved K out (concat iov0) k m k2" by (rule moved_same [OF less.prems(1)]) (use f in auto)
      have IH: "\<exists>m' iov' b k'. sendv_n_loop K secure timeout iov bfull s m k3 = Some (m', iov', b, k') \<and> moved K out (concat iov0) k m' k'
        \<and> (b \<longrightarrow> iov' = iov0) \<and> (willing K \<longrightarrow> m' = length (concat iov0))"
        if "rank k3 \<le> rank k2" "moved K out (concat iov0) k m k3" for k3
        using less.hyps [OF _ that(2) less.prems(2-4)] that(1) f by simp
      show ?thesis
      proof (cases "e = EAGAIN \<or> e = ENOBUFS")
        case True
        obtain n k3 where h: "handle_write_ready K timeout k2 = Some (n, k3)" "out k3 = out k2" "rank k3 \<le> rank k2"
          "k_getfl K k3 = k_getfl K k2" "ready_soon K \<longrightarrow> 0 < n"
          using handle_ready_ok [OF send_laws_wait [OF assms(2)]] unfolding handle_write_ready_def by blast
        have mv3: "moved K out (concat iov0) k m k3" by (rule moved_same [OF mv h(2,4)])
        have "sendv_n_loop K secure timeout iov bfull s m k1
          = (if n > 0 then sendv_n_loop K secure timeout iov bfull s m k3 else Some (m, iov, bfull, k3))"
          using step c Fail True h(1) \<open>s < length iov\<close> by simp
        then show ?thesis using IH [OF h(3) mv3] mv3 h(5) less.prems(4) by (auto simp: willing_def)
      next
        case False
        then have "sendv_n_loop K secure timeout iov bfull s m k1
          = (if e = EINTR then sendv_n_loop K secure timeout iov bfull s m k2 else Some (m, iov, bfull, k2))"
          using step c Fail True by simp
        moreover have "willing K \<Longrightarrow> e \<noteq> EINTR \<Longrightarrow> m = length (concat iov0)" using wl lem Fail False by (fastforce simp: willing_call_def)
        ultimately show ?thesis using IH [OF _ mv] mv less.prems(4) by auto
      qed
    qed
  qed
qed

text \<open>C16: Sending a vector of buffers, in the variant \<^verbatim>\<open>IOVEC_SECURITY_IO\<close> or, in the variant the build files
  produce (none of them defines that macro), when no call stops inside a buffer (\<open>whole\<close>), returns the number
  of bytes accepted, as an \<^verbatim>\<open>int\<close>: exactly the first ones of the concatenated buffers, and all of them when
  the peer stays and takes everything (\<open>willing\<close>). The vector and the mode of the handle are as before.
  Required of the system: calls accept a prefix or fail, fail or are interrupted finitely often, and
  \<^verbatim>\<open>fcntl\<close> sets the mode (\<open>send_laws\<close>).\<close>

theorem sendv_n_correct:
  assumes "send_laws K out rank" "secure \<or> whole K"
  shows "\<exists>m k'. ndk_sendv_n K secure iov timeout k = Some (to_int (int m), iov, k') \<and> m \<le> length (concat iov) \<and> out k' = out k @ take m (concat iov)
    \<and> k_getfl K k' = k_getfl K k \<and> (willing K \<longrightarrow> m = length (concat iov))"
proof -
  obtain flag k0 where b: "begin_transfer K timeout k = (flag, k0)" by fastforce
  have "flag_laws K out rank" using assms by (simp add: send_laws_def)
  note t = transfer_mode [OF this b]
  have "moved K out (concat iov) k0 0 k0" by (simp add: moved_def)
  from sendv_n_loop_ok [OF assms(2,1) this, of 0 iov True timeout] obtain m iov' bf k1 where
    l: "sendv_n_loop K secure timeout iov True 0 0 k0 = Some (m, iov', bf, k1)" "moved K out (concat iov) k0 m k1"
    "bf \<longrightarrow> iov' = iov" "willing K \<longrightarrow> m = length (concat iov)" by auto
  then show ?thesis using b t by (auto simp: ndk_sendv_n_def moved_def intro!: exI [of _ m])
qed

lemma write_n_loop_ok:
  assumes "send_laws K out rank" "moved K out buff k m k1"
  shows "\<exists>m' v k'. write_n_loop K buff m k1 = Some (v, k') \<and> moved K out buff k m' k'
    \<and> (v = to_int (int (length buff)) \<and> m' = length buff \<or> m' < length buff \<and> (v = 0 \<or> v = -1))"
  using assms(2)
proof (induction "length buff - m" arbitrary: m k1 rule: less_induct)
  case less
  note step = write_n_loop.simps [of K buff m k1]
  show ?case
  proof (cases "m < length buff")
    case False
    then show ?thesis using less.prems step by (auto simp: moved_def)
  next
    case True
    obtain r k2 where c: "k_write K (drop m buff) k1 = (r, k2)" by fastforce
    have acc: "accepted K out rank k1 (drop m buff) (r, k2)" using assms(1) unfolding send_laws_def c [symmetric] by blast
    show ?thesis
    proof (cases r)
      case (Done n)
      note mv = moved_more(1) [OF acc [unfolded Done] less.prems]
      show ?thesis
      proof (cases "n = 0")
        case True
        then show ?thesis using step c Done mv \<open>m < length buff\<close> by (intro exI [of _ m]) auto
      next
        case False
        then have "write_n_loop K buff m k1 = write_n_loop K buff (m + n) k2" using step c Done True by simp
        moreover have "length buff - (m + n) < length buff - m" using True False by simp
        ultimately show ?thesis using less.hyps [OF _ mv] by simp
      qed
    next
      case (Fail e)
      have "moved K out buff k m k2" by (rule moved_same [OF less.prems]) (use accepted_Fail [OF acc [unfolded Fail]] in auto)
      then show ?thesis using step c Fail True by (intro exI [of _ m]) auto
    qed
  qed
qed

text \<open>Writing a buffer returns its length after all of it has been written, or the result of the call that
  failed after a part has been written.\<close>

theorem write_n_correct:
  assumes "send_laws K out rank"
  shows "\<exists>m v k'. ndk_write_n K True buff k = Some (v, k') \<and> out k' = out k @ take m buff
    \<and> (v = to_int (int (length buff)) \<and> m = length buff \<or> m < length buff \<and> (v = 0 \<or> v = -1))"
proof -
  have "moved K out buff k 0 k" by (simp add: moved_def)
  from write_n_loop_ok [OF assms this] show ?thesis by (auto simp: ndk_write_n_def moved_def)
qed

section \<open>Receiving\<close>

text \<open>A call delivers at most as many bytes as asked for; \<open>taken\<close> is all the handle has delivered.\<close>

definition delivered :: "('b, 'k) kernel \<Rightarrow> ('k \<Rightarrow> 'b list) \<Rightarrow> ('k \<Rightarrow> nat) \<Rightarrow> 'k \<Rightarrow> nat \<Rightarrow> 'b list sys_res \<times> 'k \<Rightarrow> bool" where
  "delivered K taken rank k len rk \<longleftrightarrow> (case rk of
     (Done bs, k') \<Rightarrow> length bs \<le> len \<and> taken k' = taken k @ bs \<and> rank k' \<le> rank k \<and> k_getfl K k' = k_getfl K k
   | (Fail _, k') \<Rightarrow> taken k' = taken k \<and> rank k' < rank k \<and> k_getfl K k' = k_getfl K k)"

definition recv_laws :: "('b, 'k) kernel \<Rightarrow> ('k \<Rightarrow> 'b list) \<Rightarrow> ('k \<Rightarrow> nat) \<Rightarrow> bool" where
  "recv_laws K taken rank \<longleftrightarrow> waits K taken rank \<and> flag_laws K taken rank
     \<and> (\<forall>flags len k. delivered K taken rank k len (k_recv K flags len k))
     \<and> (\<forall>lens k. delivered K taken rank k (sum_list lens) (k_readv K lens k)) \<and> (\<forall>len k. delivered K taken rank k len (k_read K len k))"

lemma delivered_Done: "delivered K taken rank k len (Done bs, k') \<Longrightarrow>
    length bs \<le> len \<and> taken k' = taken k @ bs \<and> rank k' \<le> rank k \<and> k_getfl K k' = k_getfl K k"
  and delivered_Fail: "delivered K taken rank k len (Fail e, k') \<Longrightarrow> taken k' = taken k \<and> rank k' < rank k \<and> k_getfl K k' = k_getfl K k"
  by (simp_all add: delivered_def)

definition collected :: "('b, 'k) kernel \<Rightarrow> ('k \<Rightarrow> 'b list) \<Rightarrow> nat \<Rightarrow> 'k \<Rightarrow> 'b list \<Rightarrow> 'k \<Rightarrow> bool" where
  "collected K taken len k got k' \<longleftrightarrow> length got \<le> len \<and> taken k' = taken k @ got \<and> k_getfl K k' = k_getfl K k"

text \<open>A peer that stays and gives in the end what is asked for.\<close>

definition giving :: "('b, 'k) kernel \<Rightarrow> bool" where
  "giving K \<longleftrightarrow> (\<forall>flags len k. 0 < len \<longrightarrow>
     (case fst (k_recv K flags len k) of Done bs \<Rightarrow> bs \<noteq> [] | Fail e \<Rightarrow> e \<in> {EAGAIN, EINTR})) \<and> ready_soon K"

lemma givingD: "giving K \<Longrightarrow> k_recv K flags len k = (r, k1) \<Longrightarrow> 0 < len \<Longrightarrow>
    case r of Done bs \<Rightarrow> bs \<noteq> [] | Fail e \<Rightarrow> e \<in> {EAGAIN, EINTR}"
proof -
  assume g: "giving K" and c: "k_recv K flags len k = (r, k1)" and l: "0 < len"
  have "0 < len \<longrightarrow> (case fst (k_recv K flags len k) of Done bs \<Rightarrow> bs \<noteq> [] | Fail e \<Rightarrow> e \<in> {EAGAIN, EINTR})"
    using g unfolding giving_def by (elim conjE allE)
  then show "case r of Done bs \<Rightarrow> bs \<noteq> [] | Fail e \<Rightarrow> e \<in> {EAGAIN, EINTR}" using l by (simp add: c)
qed

definition patient :: "time_value option \<Rightarrow> bool" where
  "patient timeout \<longleftrightarrow> timeout = None \<or> positive (the timeout)"

lemma recv_n_loop_ok:
  assumes "recv_laws K taken rank" "collected K taken len k got k1"
  shows "\<exists>got' e k'. recv_n_loop K flags len timeout got k1 = Some (got', e, k') \<and> collected K taken len k got' k'
    \<and> (case e of None \<Rightarrow> True | Some v \<Rightarrow> length got' < len \<and> (v = 0 \<or> v = -1))
    \<and> (giving K \<and> patient timeout \<longrightarrow> length got' = len)"
  using assms(2)
proof (induction "len - length got + rank k1" arbitrary: got k1 rule: less_induct)
  case less
  note step = recv_n_loop.simps [of K flags len timeout got k1]
  show ?case
  proof (cases "length got < len")
    case False
    then show ?thesis using less.prems step by (auto simp: collected_def)
  next
    case True
    obtain r k2 where c: "k_recv K flags (len - length got) k1 = (r, k2)" by fastforce
    have del: "delivered K taken rank k1 (len - length got) (r, k2)" using assms(1) unfolding recv_laws_def c [symmetric] by blast
    have gv: "giving K \<Longrightarrow> case r of Done bs \<Rightarrow> bs \<noteq> [] | Fail e \<Rightarrow> e \<in> {EAGAIN, EINTR}" using givingD [OF _ c] True by simp
    show ?thesis
    proof (cases r)
      case (Done bs)
      note d = delivered_Done [OF del [unfolded Done]]
      have co: "collected K taken len k (got @ bs) k2" using d less.prems True by (auto simp: collected_def)
      show ?thesis
      proof (cases "bs = []")
        case False
        then have "recv_n_loop K flags len timeout got k1 = recv_n_loop K flags len timeout (got @ bs) k2" using step c Done True by simp
        moreover have "len - length (got @ bs) + rank k2 < len - length got + rank k1"
          using d True False length_greater_0_conv [of bs] unfolding length_append by linarith
        ultimately show ?thesis using less.hyps [OF _ co] by simp
      qed (use step c Done co True gv in auto)
    next
      case (Fail e)
      note f = delivered_Fail [OF del [unfolded Fail]]
      have co: "collected K taken len k got k3" if "taken k3 = taken k2" "k_getfl K k3 = k_getfl K k2" for k3
        using less.prems f that by (simp add: collected_def)
      have IH: "\<exists>got' e k'. recv_n_loop K flags len timeout got k3 = Some (got', e, k') \<and> collected K taken len k got' k'
        \<and> (case e of None \<Rightarrow> True | Some v \<Rightarrow> length got' < len \<and> (v = 0 \<or> v = -1)) \<and> (giving K \<and> patient timeout \<longrightarrow> length got' = len)"
        if "rank k3 \<le> rank k2" "collected K taken len k got k3" for k3
        using less.hyps [OF _ that(2)] that(1) f by simp
      have "waits K taken rank" using assms(1) by (simp add: recv_laws_def)
      from handle_ready_ok [OF this] obtain n k3 where h: "handle_read_ready K timeout k2 = Some (n, k3)" "taken k3 = taken k2"
        "rank k3 \<le> rank k2" "k_getfl K k3 = k_getfl K k2" "ready_soon K \<longrightarrow> 0 < n" unfolding handle_read_ready_def by blast
      have soon: "giving K \<Longrightarrow> 0 < n" using h(5) by (simp add: giving_def)
      show ?thesis
        using step gv soon c Fail True h(1) IH [OF h(3) co [OF h(2,4)]] IH [OF _ co, of k2] co [OF h(2,4)] co [of k2]
        by (cases "e = EAGAIN"; cases "e = EINTR"; cases "n > 0") (auto simp: patient_def)
    qed
  qed
qed

text \<open>C18: Receiving a given number of bytes returns, and the buffer holds exactly the bytes the handle has
  delivered meanwhile: as many as asked for when the peer stays and gives them (\<open>giving\<close>) and the time-out
  is not zero, otherwise possibly fewer. The result is their number, as an \<^verbatim>\<open>int\<close>, and the mode is put back;
  or a call has failed: fewer bytes, and 0 or -1. Required of the system: calls deliver at most what is
  asked for or fail, fail or are interrupted finitely often, and \<^verbatim>\<open>fcntl\<close> sets the mode (\<open>recv_laws\<close>).\<close>

theorem recv_n_correct:
  assumes "recv_laws K taken rank"
  shows "\<exists>v got k'. ndk_recv_n K flags len timeout k = Some (v, got, k') \<and> length got \<le> len \<and> taken k' = taken k @ got
    \<and> (v = to_int (int (length got)) \<and> k_getfl K k' = k_getfl K k \<or> length got < len \<and> (v = 0 \<or> v = -1))
    \<and> (giving K \<and> patient timeout \<longrightarrow> length got = len)"
proof -
  obtain flag k0 where b: "begin_transfer K timeout k = (flag, k0)" by fastforce
  have "flag_laws K taken rank" using assms by (simp add: recv_laws_def)
  note t = transfer_mode [OF this b]
  have "collected K taken len k0 [] k0" by (simp add: collected_def)
  from recv_n_loop_ok [OF assms this] obtain got e k1 where l: "recv_n_loop K flags len timeout [] k0 = Some (got, e, k1)"
    "collected K taken len k0 got k1" "case e of None \<Rightarrow> True | Some v \<Rightarrow> length got < len \<and> (v = 0 \<or> v = -1)"
    "giving K \<and> patient timeout \<longrightarrow> length got = len" by blast
  then show ?thesis using b t by (cases e) (auto simp: ndk_recv_n_def collected_def)
qed

lemma store_append: "length as = length bs \<Longrightarrow> store (as @ as') (bs @ bs') mem = store as' bs' (store as bs mem)"
  by (simp add: store_def)

lemma store_other: "a \<notin> set as \<Longrightarrow> store as bs mem a = mem a"
proof (induction as arbitrary: bs mem)
  case (Cons b as)
  then show ?case by (cases bs) (auto simp: store_def)
qed (simp add: store_def)

lemma store_read: "distinct as \<Longrightarrow> length as = length bs \<Longrightarrow> map (store as bs mem) as = bs"
proof (induction as arbitrary: bs mem)
  case (Cons a as)
  then obtain b bs' where b: "bs = b # bs'" by (cases bs) auto
  then have "store (a # as) bs mem = store as bs' (mem(a := b))" by (simp add: store_def)
  then show ?case using Cons b store_other [of a as bs' "mem(a := b)"] by simp
qed simp

text \<open>The bytes \<open>got\<close> lie at the first addresses of the vector.\<close>

definition stored :: "('b, 'k) kernel \<Rightarrow> ('k \<Rightarrow> 'b list) \<Rightarrow> addr list \<Rightarrow> (addr \<Rightarrow> 'b) \<Rightarrow> 'k \<Rightarrow> 'b list \<Rightarrow> (addr \<Rightarrow> 'b) \<Rightarrow> 'k \<Rightarrow> bool" where
  "stored K taken as mem0 k got mem k' \<longleftrightarrow> collected K taken (length as) k got k' \<and> mem = store (take (length got) as) got mem0"

lemma stored_more:
  assumes "stored K taken as mem0 k got mem k1" "delivered K taken rank k1 (length as - length got) (Done bs, k2)"
  shows "stored K taken as mem0 k (got @ bs) (store (take (length bs) (drop (length got) as)) bs mem) k2" "rank k2 \<le> rank k1"
    "length got + length bs \<le> length as"
proof -
  note d = delivered_Done [OF assms(2)]
  have "length (take (length got) as) = length got" using assms(1) by (simp add: stored_def collected_def)
  then have "store (take (length bs) (drop (length got) as)) bs mem = store (take (length (got @ bs)) as) (got @ bs) mem0"
    using assms(1) by (simp add: stored_def take_add store_append)
  then show "stored K taken as mem0 k (got @ bs) (store (take (length bs) (drop (length got) as)) bs mem) k2" "rank k2 \<le> rank k1"
    "length got + length bs \<le> length as"
    using assms(1) d by (auto simp: stored_def collected_def)
qed

definition whole_recv :: "('b, 'k) kernel \<Rightarrow> bool" where
  "whole_recv K \<longleftrightarrow> (\<forall>lens k. case fst (k_readv K lens k) of Done bs \<Rightarrow> \<exists>j. length bs = sum_list (take j lens) | Fail _ \<Rightarrow> True)"

lemma whole_recvD: "whole_recv K \<Longrightarrow> k_readv K (map length xs) k = (Done bs, k1) \<Longrightarrow> \<exists>j. length bs = length (concat (take j xs))"
proof -
  assume w: "whole_recv K" and c: "k_readv K (map length xs) k = (Done bs, k1)"
  have "case fst (k_readv K (map length xs) k) of Done bs \<Rightarrow> \<exists>j. length bs = sum_list (take j (map length xs)) | Fail _ \<Rightarrow> True"
    using w unfolding whole_recv_def by (elim allE)
  then show "\<exists>j. length bs = length (concat (take j xs))" by (simp add: c take_map length_concat)
qed

lemma recvv_n_loop_ok:
  assumes "secure \<or> whole_recv K" "recv_laws K taken rank" "stored K taken (concat iov0) mem0 k got mem k1" "s \<le> length iov"
    "concat (drop s iov) = drop (length got) (concat iov0)" "bfull \<longrightarrow> iov = iov0"
  shows "\<exists>got' e iov' b mem' k'. recvv_n_loop K secure timeout iov bfull s (length got) mem k1 = Some (length got', e, iov', b, mem', k')
    \<and> stored K taken (concat iov0) mem0 k got' mem' k' \<and> (b \<longrightarrow> iov' = iov0) \<and> (case e of None \<Rightarrow> True | Some v \<Rightarrow> v = 0 \<or> v = -1)"
  using assms(3-)
proof (induction "length (concat iov0) - length got + rank k1" arbitrary: got mem k1 s iov bfull rule: less_induct)
  case less
  note step = recvv_n_loop.simps [of K secure timeout iov bfull s "length got" mem k1]
  have len: "length (concat iov0) - length got = length (concat (drop s iov))" using less.prems(3) by simp
  show ?case
  proof (cases "s < length iov")
    case False
    then show ?thesis using less.prems step by auto
  next
    case True
    obtain r k2 where c: "k_readv K (map length (drop s iov)) k1 = (r, k2)" by fastforce
    have del: "delivered K taken rank k1 (length (concat iov0) - length got) (r, k2)"
    proof -
      have "delivered K taken rank k1 (sum_list (map length (drop s iov))) (k_readv K (map length (drop s iov)) k1)"
        using assms(2) unfolding recv_laws_def by blast
      then have "delivered K taken rank k1 (length (concat (drop s iov))) (r, k2)" by (simp only: length_concat c)
      then show ?thesis by (simp only: len)
    qed
    show ?thesis
    proof (cases r)
      case (Done bs)
      note sm = stored_more [OF less.prems(1) del [unfolded Done]]
      show ?thesis
      proof (cases "bs = []")
        case True
        then show ?thesis using step c Done sm(1) \<open>s < length iov\<close> less.prems(4)
          by (intro exI [of _ got] exI [of _ "Some 0"]) (simp add: store_def)
      next
        case False
        let ?n = "length bs" and ?mem = "store (take (length bs) (drop (length got) (concat iov0))) bs mem"
        obtain s1 n1 where sk: "skip_full iov s ?n = (s1, n1)" by fastforce
        have nl: "?n \<le> length (concat (drop s iov))" using sm(3) len by simp
        note k = skip_full_ok [OF sk nl less.prems(2)]
        have part: "secure \<or> n1 = 0"
          using assms(1) whole_recvD [OF _ c [unfolded Done]] skip_full_whole [OF sk _ less.prems(2)] by blast
        let ?iov = "if n1 \<noteq> 0 then iov[s1 := drop n1 (iov ! s1)] else iov" and ?b = "if n1 \<noteq> 0 then False else bfull"
        have "recvv_n_loop K secure timeout iov bfull s (length got) mem k1 = recvv_n_loop K secure timeout ?iov ?b s1 (length (got @ bs)) ?mem k2"
          using step c Done False sk True less.prems(3) part by (auto simp: Let_def)
        moreover have "concat (drop s1 ?iov) = drop (length (got @ bs)) (concat iov0)" using k(4,5) less.prems(3) by (simp add: add.commute)
        moreover have "length (concat iov0) - length (got @ bs) + rank k2 < length (concat iov0) - length got + rank k1"
          using sm(2,3) False length_greater_0_conv [of bs] unfolding length_append by linarith
        ultimately show ?thesis using less.hyps [of "got @ bs" k2 ?mem s1 ?iov ?b] sm(1) k(2) less.prems(4) by simp
      qed
    next
      case (Fail e)
      note f = delivered_Fail [OF del [unfolded Fail]]
      have st: "stored K taken (concat iov0) mem0 k got mem k3" if "taken k3 = taken k2" "k_getfl K k3 = k_getfl K k2" for k3
        using less.prems(1) f that by (simp add: stored_def collected_def)
      define P where "P res \<longleftrightarrow> (\<exists>got' e iov' b mem' k'. res = Some (length got', e, iov', b, mem', k')
        \<and> stored K taken (concat iov0) mem0 k got' mem' k' \<and> (b \<longrightarrow> iov' = iov0)
        \<and> (case e of None \<Rightarrow> True | Some v \<Rightarrow> v = (0 :: int) \<or> v = -1))" for res
      have IH: "P (recvv_n_loop K secure timeout iov bfull s (length got) mem k3)"
        if "rank k3 \<le> rank k2" "stored K taken (concat iov0) mem0 k got mem k3" for k3
        unfolding P_def using less.hyps [OF _ that(2) less.prems(2-4)] that(1) f by simp
      have stop: "P (Some (length got, x, iov, bfull, mem, k3))"
        if "stored K taken (concat iov0) mem0 k got mem k3" "x = None \<or> x = Some (-1)" for k3 x
        unfolding P_def using that less.prems(4) by auto
      have "waits K taken rank" using assms(2) by (simp add: recv_laws_def)
      from handle_ready_ok [OF this] obtain n k3 where h: "handle_read_ready K timeout k2 = Some (n, k3)" "taken k3 = taken k2"
        "rank k3 \<le> rank k2" "k_getfl K k3 = k_getfl K k2" unfolding handle_read_ready_def by blast
      note st3 = st [OF h(2,4)] and st2 = st [OF refl refl]
      have "recvv_n_loop K secure timeout iov bfull s (length got) mem k1 =
        (if e = EAGAIN then (if timeout = None \<or> positive (the timeout) then
           (if n > 0 then recvv_n_loop K secure timeout iov bfull s (length got) mem k3 else Some (length got, None, iov, bfull, mem, k3))
         else Some (length got, None, iov, bfull, mem, k2))
         else if e = EINTR then recvv_n_loop K secure timeout iov bfull s (length got) mem k2
         else Some (length got, Some (-1), iov, bfull, mem, k2))"
        using step c Fail True h(1) by simp
      then have "P (recvv_n_loop K secure timeout iov bfull s (length got) mem k1)"
        using IH [OF h(3) st3] IH [OF order_refl st2] stop [OF st3] stop [OF st2] by auto
      then show ?thesis unfolding P_def .
    qed
  qed
qed

text \<open>C17: Receiving into a vector of disjoint buffers, in the variant \<^verbatim>\<open>IOVEC_SECURITY_IO\<close> or, in the variant
  the build files produce (none of them defines that macro), when no call stops inside a buffer
  (\<open>whole_recv\<close>): the bytes delivered meanwhile lie, in order, at the first addresses of the buffers, and
  nothing else has changed. The result is their number, as an \<^verbatim>\<open>int\<close>, or that of a call that failed; the
  vector and the mode of the handle are as before. Required of the system: \<open>recv_laws\<close>, that calls deliver at most what is asked
  for or fail, fail or are interrupted finitely often, and that \<^verbatim>\<open>fcntl\<close> sets the mode.\<close>

theorem recvv_n_correct:
  assumes "recv_laws K taken rank" "secure \<or> whole_recv K" "distinct (concat iov)"
  shows "\<exists>v got mem' k'. ndk_recvv_n K secure iov timeout mem k = Some (v, iov, mem', k') \<and> length got \<le> length (concat iov)
    \<and> taken k' = taken k @ got \<and> map mem' (take (length got) (concat iov)) = got
    \<and> (\<forall>a. a \<notin> set (take (length got) (concat iov)) \<longrightarrow> mem' a = mem a) \<and> k_getfl K k' = k_getfl K k \<and> (v = to_int (int (length got)) \<or> v = 0 \<or> v = -1)"
proof -
  obtain flag k0 where b: "begin_transfer K timeout k = (flag, k0)" by fastforce
  have "flag_laws K taken rank" using assms by (simp add: recv_laws_def)
  note t = transfer_mode [OF this b]
  have "stored K taken (concat iov) mem k0 [] mem k0" by (simp add: stored_def collected_def store_def)
  from recvv_n_loop_ok [OF assms(2,1) this, of 0 iov True timeout] obtain got e iov' bf mem' k1 where
    l: "recvv_n_loop K secure timeout iov True 0 0 mem k0 = Some (length got, e, iov', bf, mem', k1)"
    "stored K taken (concat iov) mem k0 got mem' k1" "bf \<longrightarrow> iov' = iov" "case e of None \<Rightarrow> True | Some v \<Rightarrow> v = 0 \<or> v = -1" by auto
  note st = l(2) [unfolded stored_def collected_def]
  have r: "map mem' (take (length got) (concat iov)) = got" "\<And>a. a \<notin> set (take (length got) (concat iov)) \<Longrightarrow> mem' a = mem a"
    using st assms(3) by (auto simp: store_read store_other distinct_take)
  show ?thesis
    by (rule exI [of _ "case e of Some result \<Rightarrow> result | None \<Rightarrow> to_int (int (length got))"], rule exI [of _ got], rule exI [of _ mem'],
        rule exI [of _ "end_transfer K timeout flag k1"]) (use b t l st r in \<open>auto simp: ndk_recvv_n_def split: option.splits\<close>)
qed

section \<open>Ports\<close>

text \<open>When the ports in \<open>used\<close> are taken, the highest other port is bound.\<close>

definition ports :: "(16 word \<Rightarrow> 'k \<Rightarrow> unit sys_res \<times> 'k) \<Rightarrow> 'k \<Rightarrow> 16 word set \<Rightarrow> (16 word \<Rightarrow> 'k) \<Rightarrow> bool" where
  "ports k_bind k used bound \<longleftrightarrow> (\<forall>p. k_bind p k = (if p \<in> used then (Fail EADDRINUSE, k) else (Done (), bound p)))"

lemma le_minus_one: "l \<noteq> 0 \<Longrightarrow> p \<le> l - 1 \<longleftrightarrow> p \<le> l \<and> p \<noteq> l" for p l :: "16 word"
proof -
  assume l: "l \<noteq> 0"
  then have "unat l \<noteq> 0" by (simp add: unat_eq_0)
  moreover have "p = l \<longleftrightarrow> unat p = unat l" by (rule word_unat_eq_iff)
  ultimately show "p \<le> l - 1 \<longleftrightarrow> p \<le> l \<and> p \<noteq> l" unfolding word_le_nat_alt unat_minus_one [OF l] by linarith
qed

lemma try_ports_ok:
  assumes "ports k_bind k used bound" "q \<notin> used" "q \<le> limit"
  shows "\<exists>p. p \<notin> used \<and> p \<le> limit \<and> (\<forall>p' \<le> limit. p' \<notin> used \<longrightarrow> p' \<le> p) \<and> try_ports k_bind limit k = Some (0, bound p)"
  using assms(3)
proof (induction "unat limit" arbitrary: limit)
  case 0
  then have "limit = 0" by (simp add: unat_eq_0)
  then have "limit \<notin> used" using 0(2) assms(2) by simp
  then show ?case using assms(1) by (intro exI [of _ limit]) (simp add: try_ports.simps [of k_bind limit k] ports_def)
next
  case (Suc n)
  then have nz: "limit \<noteq> 0" by auto
  show ?case
  proof (cases "limit \<in> used")
    case False
    then show ?thesis using assms(1) by (intro exI [of _ limit]) (simp add: try_ports.simps [of k_bind limit k] ports_def)
  next
    case True
    have le: "p' \<notin> used \<Longrightarrow> p' \<le> limit - 1 \<longleftrightarrow> p' \<le> limit" for p' using True le_minus_one [OF nz, of p'] by auto
    have "n = unat (limit - 1)" using Suc.hyps(2) nz by (simp add: unat_minus_one)
    moreover have "q \<le> limit - 1" using Suc.prems le [OF assms(2)] by simp
    ultimately obtain p where p: "p \<notin> used" "p \<le> limit - 1" "\<forall>p' \<le> limit - 1. p' \<notin> used \<longrightarrow> p' \<le> p" "try_ports k_bind (limit - 1) k = Some (0, bound p)"
      using Suc.hyps(1) by blast
    moreover have "try_ports k_bind limit k = try_ports k_bind (limit - 1) k" using assms(1) True by (simp add: try_ports.simps [of k_bind limit k] ports_def)
    ultimately show ?thesis using le by (intro exI [of _ p]) auto
  qed
qed

theorem bind_port_highest:
  assumes "ports k_bind k used bound" "q \<notin> used"
  shows "\<exists>p. p \<notin> used \<and> (\<forall>p'. p' \<notin> used \<longrightarrow> p' \<le> p) \<and> bind_port k_bind k = Some (0, bound p)"
proof -
  have "p \<le> MAX_DEFAULT_PORT" for p
  proof -
    have "unat p < 2 ^ 16" using unsigned_less [of p] by simp
    then show ?thesis by (simp add: MAX_DEFAULT_PORT_def word_le_nat_alt)
  qed
  then show ?thesis using try_ports_ok [OF assms, of MAX_DEFAULT_PORT] by (simp add: bind_port_def)
qed

section \<open>A scripted kernel\<close>

text \<open>The next answers: at most \<open>n + 1\<close> bytes, or not now; after the script everything succeeds. The peer has
  \<open>sk_in\<close> to give.\<close>

record script =
  sk_script :: "nat option list"
  sk_out :: "nat list"
  sk_in :: "nat list"
  sk_taken :: "nat list"
  sk_flags :: "32 word"

definition script_send :: "nat list \<Rightarrow> script \<Rightarrow> nat sys_res \<times> script" where
  "script_send data k = (case sk_script k of
     [] \<Rightarrow> (Done (length data), k\<lparr>sk_out := sk_out k @ data\<rparr>)
   | None # as \<Rightarrow> (Fail EAGAIN, k\<lparr>sk_script := as\<rparr>)
   | Some n # as \<Rightarrow> (let l = min (Suc n) (length data) in (Done l, k\<lparr>sk_script := as, sk_out := sk_out k @ take l data\<rparr>)))"

definition script_recv :: "nat \<Rightarrow> script \<Rightarrow> nat list sys_res \<times> script" where
  "script_recv len k = (case sk_script k of
     [] \<Rightarrow> (Done (take len (sk_in k)), k\<lparr>sk_in := drop len (sk_in k), sk_taken := sk_taken k @ take len (sk_in k)\<rparr>)
   | None # as \<Rightarrow> (Fail EAGAIN, k\<lparr>sk_script := as\<rparr>)
   | Some n # as \<Rightarrow> (let l = min (Suc n) len
       in (Done (take l (sk_in k)), k\<lparr>sk_script := as, sk_in := drop l (sk_in k), sk_taken := sk_taken k @ take l (sk_in k)\<rparr>)))"

definition demo_kernel :: "(nat, script) kernel" where
  "demo_kernel = \<lparr>k_send = \<lambda>_. script_send, k_writev = \<lambda>iov. script_send (concat iov), k_write = script_send,
     k_recv = \<lambda>_. script_recv, k_readv = \<lambda>iov. script_recv (sum_list iov), k_read = script_recv,
     k_select = \<lambda>_ _ _ tv k. (Done 1, tv, k), k_getfl = sk_flags, k_setfl = \<lambda>f k. k\<lparr>sk_flags := f\<rparr>\<rparr>"

definition demo_script :: "nat option list \<Rightarrow> script" where
  "demo_script as = \<lparr>sk_script = as, sk_out = [], sk_in = [1, 2, 3, 4, 5], sk_taken = [], sk_flags = 2\<rparr>"

lemma demo_send_laws: "send_laws demo_kernel sk_out (\<lambda>k. length (sk_script k))"
  by (auto simp: send_laws_def waits_def flag_laws_def accepted_def demo_kernel_def script_send_def Let_def split: list.split option.split)

lemma demo_recv_laws: "recv_laws demo_kernel sk_taken (\<lambda>k. length (sk_script k))"
  by (auto simp: recv_laws_def waits_def flag_laws_def delivered_def demo_kernel_def script_recv_def Let_def split: list.split option.split)

lemma demo_willing: "willing demo_kernel"
  by (auto simp: willing_def willing_call_def ready_soon_def demo_kernel_def script_send_def Let_def split: list.split option.split)

theorem send_n_correct_witness:
  "\<exists>k'. ndk_send_n demo_kernel 0 [1, 2, 3] None (demo_script [Some 0, None]) = Some (3, k') \<and> sk_out k' = [1, 2, 3]"
proof -
  let ?data = "[1, 2, 3 :: nat]"
  have "length ?data = 3" by simp
  then show ?thesis
    using send_n_correct [OF demo_send_laws, of 0 ?data None "demo_script [Some 0, None]"] demo_willing
    by (auto simp: demo_script_def to_int_def)
qed

text \<open>The variant with the macro, with a call that stops inside a buffer; and the variant that is built, with
  a peer that takes one buffer at a time.\<close>

definition script_sendv :: "nat list list \<Rightarrow> script \<Rightarrow> nat sys_res \<times> script" where
  "script_sendv iov k = (let b = concat (take (Suc (length (takeWhile ((=) []) iov))) iov) in case sk_script k of
     None # as \<Rightarrow> (Fail EAGAIN, k\<lparr>sk_script := as\<rparr>)
   | as \<Rightarrow> (Done (length b), k\<lparr>sk_script := tl as, sk_out := sk_out k @ b\<rparr>))"

definition whole_kernel :: "(nat, script) kernel" where
  "whole_kernel = demo_kernel\<lparr>k_writev := script_sendv\<rparr>"

lemma take_concat: "take (length (concat (take j xs))) (concat xs) = concat (take j xs)" "length (concat (take j xs)) \<le> length (concat xs)"
proof -
  have "concat xs = concat (take j xs) @ concat (drop j xs)" by (metis append_take_drop_id concat_append)
  then show "take (length (concat (take j xs))) (concat xs) = concat (take j xs)" "length (concat (take j xs)) \<le> length (concat xs)"
    by (metis append_eq_conv_conj, metis le_add1 length_append)
qed

lemma first_buffer: "concat iov \<noteq> [] \<Longrightarrow> concat (take (Suc (length (takeWhile ((=) []) iov))) iov) \<noteq> []"
  by (induction iov) auto

lemma script_sendv_cases:
  obtains as where "script_sendv iov k = (Fail EAGAIN, k\<lparr>sk_script := as\<rparr>)" "sk_script k = None # as"
  | j as where "script_sendv iov k = (Done (length (concat (take j iov))), k\<lparr>sk_script := as, sk_out := sk_out k @ concat (take j iov)\<rparr>)"
    "length as \<le> length (sk_script k)" "concat iov \<noteq> [] \<longrightarrow> concat (take j iov) \<noteq> []"
proof (cases "sk_script k")
  case Nil
  then show ?thesis using that(2) [of "Suc (length (takeWhile ((=) []) iov))" "[]"] first_buffer [of iov] unfolding script_sendv_def Let_def by simp
next
  case (Cons a as)
  then show ?thesis using that(1) [of as] that(2) [of "Suc (length (takeWhile ((=) []) iov))" as] first_buffer [of iov]
    unfolding script_sendv_def Let_def by (cases a) simp_all
qed

lemma whole_accepted: "accepted whole_kernel sk_out (\<lambda>k. length (sk_script k)) k (concat iov) (script_sendv iov k)"
proof (cases rule: script_sendv_cases [of iov k])
  case (1 as)
  then show ?thesis by (simp add: accepted_def whole_kernel_def demo_kernel_def)
next
  case (2 j as)
  then show ?thesis by (simp add: accepted_def whole_kernel_def demo_kernel_def take_concat)
qed

lemma whole_send_laws: "send_laws whole_kernel sk_out (\<lambda>k. length (sk_script k))"
proof -
  have "accepted whole_kernel sk_out (\<lambda>k. length (sk_script k)) k (concat iov) (k_writev whole_kernel iov k)" for iov k
    using whole_accepted by (simp add: whole_kernel_def)
  moreover have "waits whole_kernel sk_out (\<lambda>k. length (sk_script k))" "flag_laws whole_kernel sk_out (\<lambda>k. length (sk_script k))"
    by (simp_all add: waits_def flag_laws_def whole_kernel_def demo_kernel_def)
  moreover have "accepted whole_kernel sk_out (\<lambda>k. length (sk_script k)) k data (script_send data k)" for data k
    by (auto simp: accepted_def whole_kernel_def demo_kernel_def script_send_def Let_def split: list.split option.split)
  ultimately show ?thesis by (simp add: send_laws_def whole_kernel_def demo_kernel_def)
qed

lemma whole_whole: "whole whole_kernel"
  unfolding whole_def
proof (intro allI)
  fix iov k
  have "case fst (script_sendv iov k) of Done n \<Rightarrow> \<exists>j. n = length (concat (take j iov)) | Fail _ \<Rightarrow> True"
    by (cases rule: script_sendv_cases [of iov k]) auto
  then show "case fst (k_writev whole_kernel iov k) of Done n \<Rightarrow> \<exists>j. n = length (concat (take j iov)) | Fail _ \<Rightarrow> True"
    by (simp add: whole_kernel_def)
qed

lemma whole_willing: "willing whole_kernel"
proof -
  have "willing_call (fst (script_sendv iov k))" if "concat iov \<noteq> []" for iov k
    using that by (cases rule: script_sendv_cases [of iov k]) (auto simp: willing_call_def)
  then show ?thesis using demo_willing by (simp add: willing_def ready_soon_def whole_kernel_def demo_kernel_def)
qed

theorem sendv_n_correct_witness:
  "(\<exists>k'. ndk_sendv_n demo_kernel True [[1, 2], [3, 4, 5]] (Some (tv_set 1 0)) (demo_script [Some 2, None]) = Some (5, [[1, 2], [3, 4, 5]], k')
      \<and> sk_out k' = [1, 2, 3, 4, 5] \<and> sk_flags k' = 2)
    \<and> (\<exists>k'. ndk_sendv_n whole_kernel False [[1, 2], [3, 4, 5]] None (demo_script [Some 0, None]) = Some (5, [[1, 2], [3, 4, 5]], k')
      \<and> sk_out k' = [1, 2, 3, 4, 5])"
proof -
  have "k_getfl demo_kernel = sk_flags" by (simp add: demo_kernel_def)
  then show ?thesis
    using sendv_n_correct [OF demo_send_laws, of True "[[1, 2], [3, 4, 5]]" "Some (tv_set 1 0)" "demo_script [Some 2, None]"] demo_willing
      sendv_n_correct [OF whole_send_laws, of False "[[1, 2], [3, 4, 5]]" None "demo_script [Some 0, None]"] whole_whole whole_willing
    by (auto simp: demo_script_def to_int_def)
qed

theorem write_n_correct_witness:
  "\<exists>m v k'. ndk_write_n demo_kernel True [1, 2, 3] (demo_script [Some 0]) = Some (v, k') \<and> sk_out k' = take m [1, 2, 3]"
proof -
  obtain m v k' where "ndk_write_n demo_kernel True [1, 2, 3] (demo_script [Some 0]) = Some (v, k')"
    "sk_out k' = sk_out (demo_script [Some 0]) @ take m [1, 2, 3]"
    using write_n_correct [OF demo_send_laws, of "[1, 2, 3]" "demo_script [Some 0]"] by blast
  then show ?thesis by (auto simp: demo_script_def)
qed

text \<open>A peer that always has something to give.\<close>

definition giving_kernel :: "(nat, script) kernel" where
  "giving_kernel = demo_kernel\<lparr>k_recv := \<lambda>_ len k. script_recv len (k\<lparr>sk_in := sk_in k @ replicate (Suc len) 0\<rparr>)\<rparr>"

lemma giving_recv_laws: "recv_laws giving_kernel sk_taken (\<lambda>k. length (sk_script k))"
  by (auto simp: recv_laws_def waits_def flag_laws_def delivered_def giving_kernel_def demo_kernel_def script_recv_def Let_def split: list.split option.split)

lemma giving_gives: "giving giving_kernel"
  by (auto simp: giving_def ready_soon_def giving_kernel_def demo_kernel_def script_recv_def Let_def split: list.split option.split)

theorem recv_n_correct_witness:
  "\<exists>got k'. ndk_recv_n giving_kernel 0 4 (Some (tv_set 1 0)) (demo_script [Some 0, None]) = Some (4, got, k')
    \<and> length got = 4 \<and> sk_taken k' = got \<and> sk_flags k' = 2"
proof -
  have "k_getfl giving_kernel = sk_flags" by (simp add: giving_kernel_def demo_kernel_def)
  moreover have "patient (Some (tv_set 1 0))" by code_simp
  ultimately show ?thesis using recv_n_correct [OF giving_recv_laws, of 0 4 "Some (tv_set 1 0)" "demo_script [Some 0, None]"] giving_gives
    by (auto simp: demo_script_def to_int_def)
qed

text \<open>A peer that gives one buffer at a time.\<close>

definition script_readv :: "nat list \<Rightarrow> script \<Rightarrow> nat list sys_res \<times> script" where
  "script_readv lens k = (let bs = replicate (sum_list (take 1 lens)) 7 in case sk_script k of
     None # as \<Rightarrow> (Fail EAGAIN, k\<lparr>sk_script := as\<rparr>)
   | as \<Rightarrow> (Done bs, k\<lparr>sk_script := tl as, sk_taken := sk_taken k @ bs\<rparr>))"

definition whole_recv_kernel :: "(nat, script) kernel" where
  "whole_recv_kernel = demo_kernel\<lparr>k_readv := script_readv\<rparr>"

lemma sum_take_le: "sum_list (take j xs) \<le> sum_list (xs :: nat list)"
  by (metis append_take_drop_id le_add1 sum_list.append)

lemma whole_recv_laws: "recv_laws whole_recv_kernel sk_taken (\<lambda>k. length (sk_script k))"
proof -
  have "waits whole_recv_kernel sk_taken (\<lambda>k. length (sk_script k))" "flag_laws whole_recv_kernel sk_taken (\<lambda>k. length (sk_script k))"
    by (simp_all add: waits_def flag_laws_def whole_recv_kernel_def demo_kernel_def)
  moreover have "delivered whole_recv_kernel sk_taken (\<lambda>k. length (sk_script k)) k len (script_recv len k)" for len k
    by (auto simp: delivered_def whole_recv_kernel_def demo_kernel_def script_recv_def Let_def split: list.split option.split)
  moreover have "delivered whole_recv_kernel sk_taken (\<lambda>k. length (sk_script k)) k (sum_list lens) (script_readv lens k)" for lens k
    using sum_take_le [of 1 lens]
    by (auto simp: delivered_def whole_recv_kernel_def demo_kernel_def script_readv_def Let_def split: list.split option.split)
  ultimately show ?thesis by (simp add: recv_laws_def whole_recv_kernel_def demo_kernel_def)
qed

lemma whole_recv_whole: "whole_recv whole_recv_kernel"
  by (auto simp: whole_recv_def whole_recv_kernel_def script_readv_def Let_def split: list.split option.split)

theorem recvv_n_correct_witness:
  "(\<exists>v got mem k'. ndk_recvv_n demo_kernel True [[10, 11], [20, 21, 22]] None (\<lambda>_. 0) (demo_script [Some 2, None]) = Some (v, [[10, 11], [20, 21, 22]], mem, k')
      \<and> sk_taken k' = got \<and> map mem (take (length got) [10, 11, 20, 21, 22]) = got)
    \<and> (\<exists>v got mem k'. ndk_recvv_n whole_recv_kernel False [[10, 11], [20, 21, 22]] None (\<lambda>_. 0) (demo_script [None]) = Some (v, [[10, 11], [20, 21, 22]], mem, k')
      \<and> sk_taken k' = got \<and> map mem (take (length got) [10, 11, 20, 21, 22]) = got)"
proof (rule conjI)
  obtain v got mem k' where "ndk_recvv_n demo_kernel True [[10, 11], [20, 21, 22]] None (\<lambda>_. 0) (demo_script [Some 2, None]) = Some (v, [[10, 11], [20, 21, 22]], mem, k')"
    "sk_taken k' = sk_taken (demo_script [Some 2, None]) @ got" "map mem (take (length got) (concat [[10, 11], [20, 21, 22]])) = got"
    using recvv_n_correct [OF demo_recv_laws, of True "[[10, 11], [20, 21, 22]]" None "\<lambda>_. 0" "demo_script [Some 2, None]"] by auto
  then show "\<exists>v got mem k'. ndk_recvv_n demo_kernel True [[10, 11], [20, 21, 22]] None (\<lambda>_. 0) (demo_script [Some 2, None]) = Some (v, [[10, 11], [20, 21, 22]], mem, k')
      \<and> sk_taken k' = got \<and> map mem (take (length got) [10, 11, 20, 21, 22]) = got" by (auto simp: demo_script_def)
next
  obtain v got mem k' where "ndk_recvv_n whole_recv_kernel False [[10, 11], [20, 21, 22]] None (\<lambda>_. 0) (demo_script [None]) = Some (v, [[10, 11], [20, 21, 22]], mem, k')"
    "sk_taken k' = sk_taken (demo_script [None]) @ got" "map mem (take (length got) (concat [[10, 11], [20, 21, 22]])) = got"
    using recvv_n_correct [OF whole_recv_laws, of False "[[10, 11], [20, 21, 22]]" None "\<lambda>_. 0" "demo_script [None]"] whole_recv_whole by auto
  then show "\<exists>v got mem k'. ndk_recvv_n whole_recv_kernel False [[10, 11], [20, 21, 22]] None (\<lambda>_. 0) (demo_script [None]) = Some (v, [[10, 11], [20, 21, 22]], mem, k')
      \<and> sk_taken k' = got \<and> map mem (take (length got) [10, 11, 20, 21, 22]) = got" by (auto simp: demo_script_def)
qed

theorem bind_port_highest_witness:
  "\<exists>p. p \<noteq> 65535 \<and> (\<forall>p'. p' \<noteq> 65535 \<longrightarrow> p' \<le> p)
    \<and> bind_port (\<lambda>p k. if p = 65535 then (Fail EADDRINUSE, k) else (Done (), p)) 0 = Some (0, p)"
  using bind_port_highest [of "\<lambda>p k. if p = 65535 then (Fail EADDRINUSE, k) else (Done (), p)" 0 "{65535}" "\<lambda>p. p" 1] by (auto simp: ports_def)

section \<open>Misbehaviour\<close>

text \<open>Without \<^verbatim>\<open>IOVEC_SECURITY_IO\<close> a buffer that was sent in part is sent again from its beginning: the peer
  gets a byte twice, and the result is more than there was.\<close>

theorem sendv_n_resends:
  "map_option (\<lambda>(v, _, k). (v, sk_out k)) (ndk_sendv_n demo_kernel False [[1, 2], [3, 4, 5]] None (demo_script [Some 2])) = Some (6, [1, 2, 3, 3, 4, 5])"
  by code_simp

text \<open>A receive with a timeout that succeeds at once leaves the handle in non-blocking mode, a send does not.\<close>

theorem recv_leaves_non_blocking:
  "map_option (\<lambda>(v, k). (v, k_getfl demo_kernel k)) (ndk_recv demo_kernel 0 2 (Some (tv_set 1 0)) (demo_script [])) = Some (Some [1, 2], 0x802)
    \<and> map_option (\<lambda>(v, k). (v, k_getfl demo_kernel k)) (ndk_send demo_kernel 0 [7] (Some (tv_set 1 0)) (demo_script [])) = Some (Some 1, 2)"
  by code_simp

end
