(* ===== verification/Token.thy ===== *)
theory Token
  imports Prelude
begin

text \<open>
  \<^verbatim>\<open>ndk/token.h\<close>, \<^verbatim>\<open>ndk/token.cpp\<close> and the guard of \<^verbatim>\<open>ndk/reactor_token.h\<close>: a recursive lock with two
  queues of waiting threads, writers before readers. The internal mutex makes each stretch of
  code between two waits one step: entering \<^verbatim>\<open>shared_acquire\<close> up to its first wait, what a thread
  does when a wait returns, and \<^verbatim>\<open>release\<close>. A queue entry lives on the stack of its waiting
  thread; entries are stored by address. The condition variable of an entry has one waiter, the thread
  of the entry; \<open>woken\<close> says that it was signalled and that the wait has not yet returned. Thread 0
  is \<^verbatim>\<open>NULL_thread\<close>.
\<close>

section \<open>State\<close>

definition FIFO_order :: int where "FIFO_order = 1"
definition LIFO_order :: int where "LIFO_order = 2"
definition read_token :: int where "read_token = 10"
definition write_token :: int where "write_token = 11"

record token_queue_entry =
  runable :: int
  te_next :: addr
  thread_id :: nat
  woken :: bool

record token_queue =
  tkq_head :: addr
  tkq_tail :: addr

record token =
  waiters :: int
  in_use :: int
  nesting_level :: int
  queueing_strategy :: int
  tk_owner :: nat
  writers :: token_queue
  readers :: token_queue
  entries :: "addr \<Rightarrow> token_queue_entry"
  hook_calls :: "nat list"

definition token_new :: "(addr \<Rightarrow> token_queue_entry) \<Rightarrow> int \<Rightarrow> token" where
  "token_new es q_strategy = \<lparr>waiters = 0, in_use = 0, nesting_level = 0, queueing_strategy = q_strategy, tk_owner = 0,
     writers = \<lparr>tkq_head = null, tkq_tail = null\<rparr>, readers = \<lparr>tkq_head = null, tkq_tail = null\<rparr>,
     entries = es, hook_calls = []\<rparr>"

type_synonym entry_store = "addr \<Rightarrow> token_queue_entry"

definition entry_next :: "addr \<Rightarrow> addr \<Rightarrow> entry_store \<Rightarrow> entry_store" where
  "entry_next a b es = es(a := (es a)\<lparr>te_next := b\<rparr>)"

section \<open>Queues of waiting threads\<close>

definition insert_entry :: "addr \<Rightarrow> int \<Rightarrow> token_queue \<Rightarrow> entry_store \<Rightarrow> token_queue \<times> entry_store" where
  "insert_entry entry strategy q es =
     (if tkq_head q = null then (\<lparr>tkq_head = entry, tkq_tail = entry\<rparr>, es)
      else if strategy = LIFO_order then (q\<lparr>tkq_head := entry\<rparr>, entry_next entry (tkq_head q) es)
      else (q\<lparr>tkq_tail := entry\<rparr>, entry_next (tkq_tail q) entry es))"

partial_function (option) find_entry :: "addr \<Rightarrow> addr \<Rightarrow> addr \<Rightarrow> entry_store \<Rightarrow> (addr \<times> addr) option" where
  "find_entry entry cur prev es =
     (if cur \<noteq> null \<and> cur \<noteq> entry then find_entry entry (te_next (es cur)) cur es else Some (cur, prev))"

definition remove_entry :: "addr \<Rightarrow> token_queue \<Rightarrow> entry_store \<Rightarrow> (token_queue \<times> entry_store) option" where
  "remove_entry entry q es =
     (if tkq_head q = null then Some (q, es)
      else (case find_entry entry (tkq_head q) null es of
              None \<Rightarrow> None
            | Some (cur, prev) \<Rightarrow>
                if cur = null then Some (q, es)
                else (let (q1, es1) = (if prev = null then (q\<lparr>tkq_head := te_next (es (tkq_head q))\<rparr>, es)
                                       else (q, entry_next prev (te_next (es cur)) es))
                      in Some (if te_next (es1 cur) = null then (q1\<lparr>tkq_tail := prev\<rparr>, es1) else (q1, es1)))))"

section \<open>Acquisition and release\<close>

text \<open>\<^verbatim>\<open>signal\<close> of an entry: the wait of its thread may return.\<close>

definition entry_signal :: "addr \<Rightarrow> token \<Rightarrow> token" where
  "entry_signal a tk = tk\<lparr>entries := (entries tk)(a := (entries tk a)\<lparr>woken := True\<rparr>)\<rparr>"

definition wakeup_next_waiter :: "token \<Rightarrow> token" where
  "wakeup_next_waiter tk0 =
     (let tk = tk0\<lparr>in_use := 0, tk_owner := 0\<rparr> in
      if tkq_head (writers tk) = null \<and> tkq_head (readers tk) = null then tk
      else (let (use, h) = (if tkq_head (writers tk) \<noteq> null then (write_token, tkq_head (writers tk))
                            else (read_token, tkq_head (readers tk)))
            in entry_signal h (tk\<lparr>in_use := use, tk_owner := thread_id (entries tk h),
                  entries := (entries tk)(h := (entries tk h)\<lparr>runable := 1\<rparr>)\<rparr>)))"

definition queue_of :: "int \<Rightarrow> token \<Rightarrow> token_queue" where
  "queue_of opt tk = (if opt = read_token then readers tk else writers tk)"

definition set_queue :: "int \<Rightarrow> token_queue \<Rightarrow> token \<Rightarrow> token" where
  "set_queue opt q tk = (if opt = read_token then tk\<lparr>readers := q\<rparr> else tk\<lparr>writers := q\<rparr>)"

datatype acquire_result = Acquired | Waits | Failed | RunableAssert

text \<open>\<^verbatim>\<open>shared_acquire\<close> up to the wait; \<open>entry\<close> is the address of the entry on the caller's stack. The
  sleep hook runs with the mutex held and does not touch the token; its calls are recorded.\<close>

definition acquire_enter :: "nat \<Rightarrow> int \<Rightarrow> addr \<Rightarrow> token \<Rightarrow> acquire_result \<times> token" where
  "acquire_enter thr opt entry tk =
     (if in_use tk = 0 then (Acquired, tk\<lparr>in_use := opt, tk_owner := thr\<rparr>)
      else if thr = tk_owner tk then (Acquired, tk\<lparr>nesting_level := nesting_level tk + 1\<rparr>)
      else (let es = (entries tk)(entry := \<lparr>runable = 0, te_next = null, thread_id = thr, woken = False\<rparr>);
                (q, es1) = insert_entry entry (queueing_strategy tk) (queue_of opt tk) es;
                tk1 = set_queue opt q (tk\<lparr>entries := es1\<rparr>)
            in (Waits, tk1\<lparr>waiters := waiters tk1 + 1, hook_calls := hook_calls tk1 @ [thr]\<rparr>)))"

datatype wait_result = Signalled | Interrupted | TimedOut | WaitError

text \<open>\<^verbatim>\<open>wait\<close> of an entry, as \<^verbatim>\<open>pthread_cond_wait\<close> and \<^verbatim>\<open>pthread_cond_timedwait\<close> behave: it returns 0 when
  the entry was signalled, and uses the signal up; without one it does not return that way (None).
  An interruption (also a spurious wake-up), a timeout or an error may end it at any time.\<close>

definition cond_wait :: "addr \<Rightarrow> wait_result \<Rightarrow> token \<Rightarrow> token option" where
  "cond_wait entry res tk =
     (if res = Signalled
      then if woken (entries tk entry) then Some (tk\<lparr>entries := (entries tk)(entry := (entries tk entry)\<lparr>woken := False\<rparr>)\<rparr>)
           else None
      else Some tk)"

text \<open>What follows a return of the wait. A signal or an interruption leads to another wait unless
  the thread now owns the token.\<close>

definition acquire_resume :: "nat \<Rightarrow> int \<Rightarrow> addr \<Rightarrow> wait_result \<Rightarrow> token \<Rightarrow> (acquire_result \<times> token) option" where
  "acquire_resume thr opt entry res tk =
     (if (res = Signalled \<or> res = Interrupted) \<and> thr \<noteq> tk_owner tk then Some (Waits, tk)
      else (let tk1 = (if res = TimedOut \<or> res = WaitError then wakeup_next_waiter tk else tk);
                tk2 = tk1\<lparr>waiters := waiters tk1 - 1\<rparr>
            in case remove_entry entry (queue_of opt tk2) (entries tk2) of
                 None \<Rightarrow> None
               | Some (q, es) \<Rightarrow>
                   (let tk3 = set_queue opt q (tk2\<lparr>entries := es\<rparr>); run = runable (entries tk3 entry) \<noteq> 0
                    in if res = TimedOut then Some (Failed, if run then wakeup_next_waiter tk3 else tk3)
                       else if res = WaitError then Some (Failed, tk3)
                       else if run then Some (Acquired, tk3)
                       else Some (RunableAssert, tk3))))"

definition token_release :: "token \<Rightarrow> token" where
  "token_release tk =
     (if 0 < nesting_level tk then tk\<lparr>nesting_level := nesting_level tk - 1\<rparr> else wakeup_next_waiter tk)"

text \<open>The public methods of the token: \<^verbatim>\<open>acquire\<close>, \<^verbatim>\<open>acquire_read\<close>, and \<^verbatim>\<open>try_acquire\<close>, whose wait has the
  timeout zero and so expires at once.\<close>

definition token_acquire :: "nat \<Rightarrow> addr \<Rightarrow> token \<Rightarrow> acquire_result \<times> token" where
  "token_acquire thr entry tk = acquire_enter thr write_token entry tk"

definition token_acquire_read :: "nat \<Rightarrow> addr \<Rightarrow> token \<Rightarrow> acquire_result \<times> token" where
  "token_acquire_read thr entry tk = acquire_enter thr read_token entry tk"

definition token_try_acquire :: "nat \<Rightarrow> addr \<Rightarrow> token \<Rightarrow> (acquire_result \<times> token) option" where
  "token_try_acquire thr entry tk =
     (case acquire_enter thr write_token entry tk of
        (Waits, tk1) \<Rightarrow> acquire_resume thr write_token entry TimedOut tk1
      | (r, tk1) \<Rightarrow> Some (r, tk1))"

text \<open>\<^verbatim>\<open>token_guard\<close>: it remembers whether its thread took the token and gives it back once.\<close>

record token_guard =
  tg_owner :: int

definition guard_new :: token_guard where
  "guard_new = \<lparr>tg_owner = 0\<rparr>"

definition guard_acquired :: "acquire_result \<Rightarrow> token_guard \<Rightarrow> token_guard" where
  "guard_acquired r g = (if r = Acquired then g\<lparr>tg_owner := 1\<rparr> else g)"

definition guard_acquire_quietly :: "nat \<Rightarrow> addr \<Rightarrow> token_guard \<Rightarrow> token \<Rightarrow> acquire_result \<times> token_guard \<times> token" where
  "guard_acquire_quietly thr entry g tk =
     (let (r, tk1) = token_acquire_read thr entry tk in (r, guard_acquired r g, tk1))"

definition guard_acquire :: "nat \<Rightarrow> addr \<Rightarrow> token_guard \<Rightarrow> token \<Rightarrow> acquire_result \<times> token_guard \<times> token" where
  "guard_acquire thr entry g tk =
     (let (r, tk1) = token_acquire thr entry tk in (r, guard_acquired r g, tk1))"

definition release_token :: "token_guard \<Rightarrow> token \<Rightarrow> token_guard \<times> token" where
  "release_token g tk = (if tg_owner g = 1 then (g\<lparr>tg_owner := 0\<rparr>, token_release tk) else (g, tk))"

section \<open>Queues as lists\<close>

definition tnx :: "entry_store \<Rightarrow> addr \<Rightarrow> addr" where
  "tnx es = (\<lambda>a. te_next (es a))"

definition tq_rep :: "token_queue \<Rightarrow> entry_store \<Rightarrow> addr list \<Rightarrow> bool" where
  "tq_rep q es xs \<longleftrightarrow> chain (tnx es) (tkq_head q) xs null \<and> (xs \<noteq> [] \<longrightarrow> tkq_tail q = last xs)"

lemma tnx_next [simp]: "tnx (entry_next a b es) = (tnx es)(a := b)"
  by (auto simp: tnx_def entry_next_def)

lemma te_next_tnx: "te_next (es a) = tnx es a"
  by (simp add: tnx_def)

lemma entry_next_sel [simp]:
  "thread_id (entry_next a b es x) = thread_id (es x)" "runable (entry_next a b es x) = runable (es x)"
  "woken (entry_next a b es x) = woken (es x)"
  by (simp_all add: entry_next_def)

lemma tq_rep_cong: "tq_rep q es xs \<Longrightarrow> (\<And>a. a \<in> set xs \<Longrightarrow> tnx es' a = tnx es a) \<Longrightarrow> tq_rep q es' xs"
  using chain_cong [of xs "tnx es" "tnx es'"] by (auto simp: tq_rep_def)

lemma tq_rep_head: "tq_rep q es xs \<Longrightarrow> tkq_head q = (if xs = [] then null else hd xs)"
  using chain_head [of "tnx es" "tkq_head q" xs] by (auto simp: tq_rep_def)

lemma tq_rep_empty: "tq_rep q es xs \<Longrightarrow> tkq_head q = null \<longleftrightarrow> xs = []"
  using chain_nonempty [of "tnx es" "tkq_head q" xs] by (auto simp: tq_rep_def)

lemma tq_rep_distinct: "tq_rep q es xs \<Longrightarrow> distinct xs \<and> null \<notin> set xs"
  using chain_distinct chain_not_null by (auto simp: tq_rep_def)

lemma insert_entry_rep:
  assumes "tq_rep q es xs" "e \<noteq> null" "e \<notin> set xs" "tnx es e = null" "insert_entry e strategy q es = (q', es')"
  shows "tq_rep q' es' (if strategy = LIFO_order then e # xs else xs @ [e])"
    and "x \<notin> set (e # xs) \<Longrightarrow> tnx es' x = tnx es x"
    and "thread_id (es' x) = thread_id (es x)" "runable (es' x) = runable (es x)" "woken (es' x) = woken (es x)"
proof -
  have "tq_rep q' es' (if strategy = LIFO_order then e # xs else xs @ [e]) \<and> (x \<notin> set (e # xs) \<longrightarrow> tnx es' x = tnx es x)
    \<and> thread_id (es' x) = thread_id (es x) \<and> runable (es' x) = runable (es x) \<and> woken (es' x) = woken (es x)"
  proof (cases xs rule: rev_cases)
    case Nil
    then show ?thesis using assms by (auto simp: insert_entry_def tq_rep_def)
  next
    case (snoc ys b)
    have h: "tkq_head q \<noteq> null" "tkq_tail q = b" "b \<notin> set ys" using assms(1) snoc tq_rep_empty [OF assms(1)] tq_rep_distinct [OF assms(1)]
      by (auto simp: tq_rep_def)
    have "chain ((tnx es)(b := e)) (tkq_head q) (ys @ [b]) e"
      using assms(1) snoc h(3) chain_relink_last by (auto simp: tq_rep_def)
    then have "chain ((tnx es)(b := e)) (tkq_head q) ((ys @ [b]) @ [e]) null"
      using assms(2,3,4) snoc by (auto simp: chain_append)
    then show ?thesis using assms h snoc by (auto simp: insert_entry_def tq_rep_def Let_def)
  qed
  then show "tq_rep q' es' (if strategy = LIFO_order then e # xs else xs @ [e])"
    "x \<notin> set (e # xs) \<Longrightarrow> tnx es' x = tnx es x" "thread_id (es' x) = thread_id (es x)" "runable (es' x) = runable (es x)" "woken (es' x) = woken (es x)" by blast+
qed

lemma find_entry_rep:
  "chain (tnx es) p (xs @ e # ys) null \<Longrightarrow> e \<notin> set xs \<Longrightarrow>
     find_entry e p prev es = Some (e, if xs = [] then prev else last xs)"
proof (induction xs arbitrary: p prev)
  case Nil
  then show ?case by (subst find_entry.simps) simp
next
  case (Cons a xs)
  then show ?case by (subst find_entry.simps) (simp add: te_next_tnx)
qed

lemma remove_entry_rep:
  assumes "tq_rep q es (xs @ e # ys)"
  obtains q' es' where "remove_entry e q es = Some (q', es')" "tq_rep q' es' (xs @ ys)"
    "\<And>x. x \<notin> set xs \<Longrightarrow> tnx es' x = tnx es x" "\<And>x. thread_id (es' x) = thread_id (es x)" "\<And>x. runable (es' x) = runable (es x)"
proof -
  have d: "distinct (xs @ e # ys)" "null \<notin> set (xs @ e # ys)" using tq_rep_distinct [OF assms] by auto
  have c: "chain (tnx es) (tkq_head q) (xs @ e # ys) null" and t: "tkq_tail q = last (xs @ e # ys)" using assms by (auto simp: tq_rep_def)
  have f: "find_entry e (tkq_head q) null es = Some (e, if xs = [] then null else last xs)"
    using find_entry_rep [OF c] d by simp
  have h: "tkq_head q \<noteq> null" using tq_rep_empty [OF assms] by simp
  have en: "tnx es e = (if ys = [] then null else hd ys)" using c by (cases ys) (auto simp: chain_append)
  show ?thesis
  proof (cases xs rule: rev_cases)
    case Nil
    let ?q = "q\<lparr>tkq_head := tnx es e\<rparr>"
    have "remove_entry e q es = Some (if ys = [] then (?q\<lparr>tkq_tail := null\<rparr>, es) else (?q, es))"
      using f h Nil en d tq_rep_head [OF assms] by (cases ys) (auto simp: remove_entry_def te_next_tnx)
    then show ?thesis
      using that [of "if ys = [] then ?q\<lparr>tkq_tail := null\<rparr> else ?q" es] c t Nil en by (auto simp: tq_rep_def split: if_splits)
  next
    case (snoc zs p)
    let ?es = "entry_next p (tnx es e) es"
    have ep: "e \<noteq> p" "p \<noteq> null" "p \<notin> set zs" "p \<notin> set ys" using d snoc by auto
    have "remove_entry e q es = Some (if ys = [] then (q\<lparr>tkq_tail := p\<rparr>, ?es) else (q, ?es))"
      using f h snoc en d ep by (cases ys) (auto simp: remove_entry_def te_next_tnx)
    moreover have "chain ((tnx es)(p := tnx es e)) (tkq_head q) (zs @ p # ys) null"
      using c snoc ep by (auto simp: chain_append)
    then have "tq_rep (if ys = [] then q\<lparr>tkq_tail := p\<rparr> else q) ?es (xs @ ys)"
      using t snoc by (auto simp: tq_rep_def)
    ultimately show ?thesis
      using that [of "if ys = [] then q\<lparr>tkq_tail := p\<rparr> else q" ?es] snoc by (auto split: if_splits)
  qed
qed

section \<open>Threads\<close>

text \<open>What a thread is doing with the token; the number of a holder is its depth of nested
  acquisitions. The entry of a thread is at the address of the thread.\<close>

datatype thread_state = Idle | Waiting int | Holding nat

definition after_enter :: "acquire_result \<Rightarrow> int \<Rightarrow> thread_state \<Rightarrow> thread_state" where
  "after_enter r opt st = (case r of Waits \<Rightarrow> Waiting opt | _ \<Rightarrow> (case st of Holding d \<Rightarrow> Holding (Suc d) | _ \<Rightarrow> Holding 0))"

definition after_resume :: "acquire_result \<Rightarrow> int \<Rightarrow> thread_state" where
  "after_resume r opt = (case r of Waits \<Rightarrow> Waiting opt | Acquired \<Rightarrow> Holding 0 | _ \<Rightarrow> Idle)"

definition after_release :: "nat \<Rightarrow> thread_state" where
  "after_release d = (case d of 0 \<Rightarrow> Idle | Suc d' \<Rightarrow> Holding d')"

inductive tk_step :: "wait_result set \<Rightarrow> token \<times> (nat \<Rightarrow> thread_state) \<Rightarrow> token \<times> (nat \<Rightarrow> thread_state) \<Rightarrow> bool"
  for R where
  step_enter: "thr \<noteq> 0 \<Longrightarrow> opt \<in> {read_token, write_token} \<Longrightarrow> \<forall>o1. loc thr \<noteq> Waiting o1 \<Longrightarrow>
     acquire_enter thr opt thr tk = (r, tk') \<Longrightarrow> tk_step R (tk, loc) (tk', loc(thr := after_enter r opt (loc thr)))"
| step_resume: "loc thr = Waiting opt \<Longrightarrow> res \<in> R \<Longrightarrow> cond_wait thr res tk = Some tk1 \<Longrightarrow>
     acquire_resume thr opt thr res tk1 = Some (r, tk') \<Longrightarrow> tk_step R (tk, loc) (tk', loc(thr := after_resume r opt))"
| step_release: "loc thr = Holding d \<Longrightarrow> tk_step R (tk, loc) (token_release tk, loc(thr := after_release d))"

inductive_cases tk_stepE: "tk_step R (tk, loc) s'"

definition tk_queues :: "token \<Rightarrow> (nat \<Rightarrow> thread_state) \<Rightarrow> nat list \<Rightarrow> nat list \<Rightarrow> bool" where
  "tk_queues tk loc ws rs \<longleftrightarrow> tq_rep (writers tk) (entries tk) ws \<and> tq_rep (readers tk) (entries tk) rs
     \<and> set ws = {t. loc t = Waiting write_token} \<and> set rs = {t. loc t = Waiting read_token}
     \<and> (\<forall>t \<in> set ws \<union> set rs. thread_id (entries tk t) = t) \<and> waiters tk = int (length ws) + int (length rs)"

definition tk_held :: "token \<Rightarrow> (nat \<Rightarrow> thread_state) \<Rightarrow> nat list \<Rightarrow> nat list \<Rightarrow> bool" where
  "tk_held tk loc ws rs \<longleftrightarrow>
     (if in_use tk = 0 then tk_owner tk = 0 \<and> ws = [] \<and> rs = [] \<and> nesting_level tk = 0
      else tk_owner tk \<noteq> 0 \<and> ((\<exists>d. loc (tk_owner tk) = Holding d \<and> nesting_level tk = int d)
             \<or> (tk_owner tk \<in> set ws \<union> set rs \<and> runable (entries tk (tk_owner tk)) = 1
                 \<and> woken (entries tk (tk_owner tk)) \<and> nesting_level tk = 0)))"

definition tk_inv :: "token \<times> (nat \<Rightarrow> thread_state) \<Rightarrow> bool" where
  "tk_inv s \<longleftrightarrow> (\<exists>ws rs. tk_queues (fst s) (snd s) ws rs \<and> tk_held (fst s) (snd s) ws rs)
     \<and> snd s 0 = Idle \<and> (\<forall>t d. snd s t = Holding d \<longrightarrow> t = tk_owner (fst s))
     \<and> (\<forall>t opt. snd s t = Waiting opt \<longrightarrow> opt \<in> {read_token, write_token})"

lemma tk_invI:
  "tk_queues tk loc ws rs \<Longrightarrow> tk_held tk loc ws rs \<Longrightarrow> loc 0 = Idle \<Longrightarrow> (\<And>t d. loc t = Holding d \<Longrightarrow> t = tk_owner tk) \<Longrightarrow>
   (\<And>t opt. loc t = Waiting opt \<Longrightarrow> opt \<in> {read_token, write_token}) \<Longrightarrow> tk_inv (tk, loc)"
  unfolding tk_inv_def by auto

lemma token_codes [simp]: "read_token \<noteq> write_token" "write_token \<noteq> read_token" "read_token \<noteq> 0" "write_token \<noteq> 0"
  by (simp_all add: read_token_def write_token_def)

lemma queues_disjoint: "tk_queues tk loc ws rs \<Longrightarrow> set ws \<inter> set rs = {}"
  by (auto simp: tk_queues_def)

lemma tk_queues_cong:
  assumes "tk_queues tk loc ws rs" "writers tk' = writers tk" "readers tk' = readers tk" "waiters tk' = waiters tk"
    "tnx (entries tk') = tnx (entries tk)" "\<And>a. thread_id (entries tk' a) = thread_id (entries tk a)"
    "\<And>t o1. loc' t = Waiting o1 \<longleftrightarrow> loc t = Waiting o1"
  shows "tk_queues tk' loc' ws rs"
proof -
  have "tq_rep p (entries tk') xs = tq_rep p (entries tk) xs" for p xs by (simp add: tq_rep_def assms(5))
  then show ?thesis using assms(1) unfolding tk_queues_def assms(2-4,6,7) by blast
qed

lemma wakeup_ok:
  assumes q: "tk_queues tk loc ws rs" and n: "nesting_level tk = 0" "loc 0 = Idle"
  shows "tk_queues (wakeup_next_waiter tk) loc ws rs" "tk_held (wakeup_next_waiter tk) loc ws rs"
    "tk_owner (wakeup_next_waiter tk) = (if ws \<noteq> [] then hd ws else if rs \<noteq> [] then hd rs else 0)"
    "tk_owner (wakeup_next_waiter tk) \<noteq> 0 \<longrightarrow> woken (entries (wakeup_next_waiter tk) (tk_owner (wakeup_next_waiter tk)))"
proof -
  have reps: "tq_rep (writers tk) (entries tk) ws" "tq_rep (readers tk) (entries tk) rs" using q by (auto simp: tk_queues_def)
  have h: "tkq_head (writers tk) = (if ws = [] then null else hd ws)" "tkq_head (readers tk) = (if rs = [] then null else hd rs)"
    and nn: "null \<notin> set ws" "null \<notin> set rs"
    using reps [THEN tq_rep_head] reps [THEN tq_rep_distinct] by blast+
  have hd0: "ws \<noteq> [] \<Longrightarrow> hd ws \<noteq> 0 \<and> hd ws \<in> set ws" "rs \<noteq> [] \<Longrightarrow> hd rs \<noteq> 0 \<and> hd rs \<in> set rs" using nn by (metis hd_in_set)+
  let ?h = "if ws \<noteq> [] then hd ws else hd rs"
  have w: "wakeup_next_waiter tk = (if ws = [] \<and> rs = [] then tk\<lparr>in_use := 0, tk_owner := 0\<rparr>
      else tk\<lparr>in_use := if ws \<noteq> [] then write_token else read_token, tk_owner := thread_id (entries tk ?h),
              entries := (entries tk)(?h := (entries tk ?h)\<lparr>runable := 1, woken := True\<rparr>)\<rparr>)"
    using h hd0 by (auto simp: wakeup_next_waiter_def entry_signal_def Let_def)
  have e: "tnx ((entries tk)(a := (entries tk a)\<lparr>runable := v, woken := w\<rparr>)) = tnx (entries tk)" for a v w by (auto simp: tnx_def)
  have id: "thread_id (entries tk ?h) = ?h" if "\<not> (ws = [] \<and> rs = [])" using q that hd0 by (auto simp: tk_queues_def)
  show "tk_queues (wakeup_next_waiter tk) loc ws rs"
    by (rule tk_queues_cong [OF q]) (unfold w, simp_all add: e)
  show "tk_owner (wakeup_next_waiter tk) = (if ws \<noteq> [] then hd ws else if rs \<noteq> [] then hd rs else 0)"
    unfolding w using id by (cases "ws = []"; cases "rs = []") simp_all
  show "tk_owner (wakeup_next_waiter tk) \<noteq> 0 \<longrightarrow> woken (entries (wakeup_next_waiter tk) (tk_owner (wakeup_next_waiter tk)))"
    unfolding w using id by (cases "ws = []"; cases "rs = []") simp_all
  show "tk_held (wakeup_next_waiter tk) loc ws rs" unfolding w tk_held_def using id hd0 n by auto
qed

lemma enter_waits:
  assumes q: "tk_queues tk loc ws rs" and t: "thr \<noteq> 0" "opt \<in> {read_token, write_token}" "loc thr = Idle"
    and b: "in_use tk \<noteq> 0" "thr \<noteq> tk_owner tk" and e: "acquire_enter thr opt thr tk = (r, tk')"
  obtains ws' rs' where "r = Waits" "tk_queues tk' (loc(thr := Waiting opt)) ws' rs'" "set ws \<union> set rs \<subseteq> set ws' \<union> set rs'"
    "in_use tk' = in_use tk" "tk_owner tk' = tk_owner tk" "nesting_level tk' = nesting_level tk"
    "\<And>x. x \<noteq> thr \<Longrightarrow> runable (entries tk' x) = runable (entries tk x)" "\<And>x. x \<noteq> thr \<Longrightarrow> woken (entries tk' x) = woken (entries tk x)"
proof -
  let ?es = "(entries tk)(thr := \<lparr>runable = 0, te_next = null, thread_id = thr, woken = False\<rparr>)"
  obtain p es where ins: "insert_entry thr (queueing_strategy tk) (queue_of opt tk) ?es = (p, es)" by fastforce
  have tk': "tk' = (set_queue opt p (tk\<lparr>entries := es\<rparr>))\<lparr>waiters := waiters tk + 1, hook_calls := hook_calls tk @ [thr]\<rparr>"
    "r = Waits" using b e ins by (auto simp: acquire_enter_def Let_def set_queue_def)
  have out: "thr \<notin> set ws" "thr \<notin> set rs" "set ws \<inter> set rs = {}" using q t(3) by (auto simp: tk_queues_def)
  have nx: "tnx ?es a = tnx (entries tk) a" if "a \<noteq> thr" for a using that by (simp add: tnx_def)
  have reps: "tq_rep (writers tk) (entries tk) ws" "tq_rep (readers tk) (entries tk) rs" using q by (auto simp: tk_queues_def)
  have "tq_rep (writers tk) ?es ws" by (rule tq_rep_cong [OF reps(1)], rule nx) (use out in blast)
  moreover have "tq_rep (readers tk) ?es rs" by (rule tq_rep_cong [OF reps(2)], rule nx) (use out in blast)
  ultimately have rep: "tq_rep (writers tk) ?es ws" "tq_rep (readers tk) ?es rs" by auto
  have e0: "tnx ?es thr = null" by (simp add: tnx_def)
  have locs: "{x. (loc(thr := Waiting opt)) x = Waiting o1} = (if o1 = opt then insert thr {x. loc x = Waiting o1} else {x. loc x = Waiting o1})" for o1
    using t(3) by auto
  have setq: "set ws = {x. loc x = Waiting write_token}" "set rs = {x. loc x = Waiting read_token}"
    "\<forall>x \<in> set ws \<union> set rs. thread_id (entries tk x) = x" "waiters tk = int (length ws) + int (length rs)" using q by (auto simp: tk_queues_def)
  have fields: "in_use tk' = in_use tk" "tk_owner tk' = tk_owner tk" "nesting_level tk' = nesting_level tk" "entries tk' = es"
    unfolding tk' set_queue_def by simp_all
  show ?thesis
  proof (cases "opt = read_token")
    case True
    note ie = insert_entry_rep [OF rep(2) t(1) out(2) e0 ins [unfolded True queue_of_def, simplified]]
    let ?ys = "if queueing_strategy tk = LIFO_order then thr # rs else rs @ [thr]"
    have ys: "set ?ys = insert thr (set rs)" "length ?ys = Suc (length rs)" by auto
    have "tq_rep (writers tk) es ws" by (rule tq_rep_cong [OF rep(1)], rule ie(2)) (use out in auto)
    moreover have "\<forall>x \<in> set ws \<union> set ?ys. thread_id (es x) = x" using setq(3) ie(3) ys(1) by auto
    moreover have "set ws = {x. (loc(thr := Waiting opt)) x = Waiting write_token}" "set ?ys = {x. (loc(thr := Waiting opt)) x = Waiting read_token}"
      using locs [of write_token] locs [of read_token] setq(1,2) ys(1) True by auto
    ultimately have "tk_queues tk' (loc(thr := Waiting opt)) ws ?ys"
      using ie(1) setq(4) ys(2) True unfolding tk' set_queue_def tk_queues_def by simp
    then show ?thesis using that [of ws ?ys] tk'(2) fields ys(1) ie(4,5) by auto
  next
    case False
    then have opt: "opt = write_token" using t(2) by simp
    note ie = insert_entry_rep [OF rep(1) t(1) out(1) e0 ins [unfolded opt queue_of_def, simplified]]
    let ?ys = "if queueing_strategy tk = LIFO_order then thr # ws else ws @ [thr]"
    have ys: "set ?ys = insert thr (set ws)" "length ?ys = Suc (length ws)" by auto
    have "tq_rep (readers tk) es rs" by (rule tq_rep_cong [OF rep(2)], rule ie(2)) (use out in auto)
    moreover have "\<forall>x \<in> set ?ys \<union> set rs. thread_id (es x) = x" using setq(3) ie(3) ys(1) by auto
    moreover have "set rs = {x. (loc(thr := Waiting opt)) x = Waiting read_token}" "set ?ys = {x. (loc(thr := Waiting opt)) x = Waiting write_token}"
      using locs [of write_token] locs [of read_token] setq(1,2) ys(1) opt by auto
    ultimately have "tk_queues tk' (loc(thr := Waiting opt)) ?ys rs"
      using ie(1) setq(4) ys(2) False unfolding tk' set_queue_def tk_queues_def by simp
    then show ?thesis using that [of ?ys rs] tk'(2) fields ys(1) ie(4,5) by auto
  qed
qed

lemma inv_enter:
  assumes inv: "tk_inv (tk, loc)" and t: "thr \<noteq> 0" "opt \<in> {read_token, write_token}" "\<forall>o1. loc thr \<noteq> Waiting o1"
    and e: "acquire_enter thr opt thr tk = (r, tk')"
  shows "tk_inv (tk', loc(thr := after_enter r opt (loc thr)))"
proof -
  obtain ws rs where q: "tk_queues tk loc ws rs" "tk_held tk loc ws rs" using inv by (auto simp: tk_inv_def)
  have h: "t = tk_owner tk" if "loc t = Holding d" for t d using inv that by (auto simp: tk_inv_def)
  have out: "thr \<notin> set ws" "thr \<notin> set rs" using q(1) t(3) by (auto simp: tk_queues_def)
  consider "in_use tk = 0" | "in_use tk \<noteq> 0" "thr = tk_owner tk" | "in_use tk \<noteq> 0" "thr \<noteq> tk_owner tk" by blast
  then show ?thesis
  proof cases
    case 1
    then have nh: "loc t \<noteq> Holding d" for t d using q(2) h [of t d] inv by (auto simp: tk_held_def tk_inv_def)
    then have idle: "loc thr = Idle" using t(3) by (cases "loc thr") auto
    have r: "r = Acquired" "tk' = tk\<lparr>in_use := opt, tk_owner := thr\<rparr>" using 1 e by (auto simp: acquire_enter_def)
    have "opt \<noteq> 0" using t(2) by auto
    then have "tk_held tk' (loc(thr := Holding 0)) ws rs"
      using 1 q(2) t(1) unfolding r(2) by (simp add: tk_held_def)
    moreover have "tk_queues tk' (loc(thr := Holding 0)) ws rs"
      by (rule tk_queues_cong [OF q(1)]) (use idle r(2) in auto)
    moreover have "after_enter r opt (loc thr) = Holding 0" using r(1) idle by (simp add: after_enter_def)
    ultimately show ?thesis using inv nh t(1) r(2) by (auto simp: tk_inv_def)
  next
    case 2
    then obtain d where d: "loc thr = Holding d" "nesting_level tk = int d" using q(2) out by (auto simp: tk_held_def)
    have r: "r = Acquired" "tk' = tk\<lparr>nesting_level := nesting_level tk + 1\<rparr>" using 2 e by (auto simp: acquire_enter_def)
    have "tk_queues tk' (loc(thr := Holding (Suc d))) ws rs"
      by (rule tk_queues_cong [OF q(1)]) (use d r(2) in auto)
    moreover have "tk_held tk' (loc(thr := Holding (Suc d))) ws rs"
      using 2 d t(1) unfolding r(2) by (simp add: tk_held_def)
    moreover have "after_enter r opt (loc thr) = Holding (Suc d)" using r(1) d by (simp add: after_enter_def)
    ultimately show ?thesis using inv h t(1) r(2) 2 by (auto simp: tk_inv_def)
  next
    case 3
    have idle: "loc thr = Idle" using h [of thr] t(3) 3(2) by (cases "loc thr") auto
    obtain ws' rs' where w: "r = Waits" "tk_queues tk' (loc(thr := Waiting opt)) ws' rs'" "set ws \<union> set rs \<subseteq> set ws' \<union> set rs'"
      "in_use tk' = in_use tk" "tk_owner tk' = tk_owner tk" "nesting_level tk' = nesting_level tk"
      "\<And>x. x \<noteq> thr \<Longrightarrow> runable (entries tk' x) = runable (entries tk x)" "\<And>x. x \<noteq> thr \<Longrightarrow> woken (entries tk' x) = woken (entries tk x)"
      using enter_waits [OF q(1) t(1,2) idle 3 e] by blast
    have "tk_held tk' (loc(thr := Waiting opt)) ws' rs'"
      using q(2) 3 w(3-8) out unfolding tk_held_def by (simp split: if_splits) blast
    then show ?thesis using inv t w(1,2,5) by (auto simp: tk_inv_def after_enter_def)
  qed
qed

text \<open>A thread that leaves its queue.\<close>

lemma leave_queue:
  assumes q: "tk_queues tk loc ws rs" and t: "loc thr = Waiting opt" "opt \<in> {read_token, write_token}"
    and st: "\<And>o1. st \<noteq> Waiting o1"
  obtains p es ws' rs' where "remove_entry thr (queue_of opt tk) (entries tk) = Some (p, es)"
    "tk_queues ((set_queue opt p (tk\<lparr>entries := es\<rparr>))\<lparr>waiters := waiters tk - 1\<rparr>) (loc(thr := st)) ws' rs'"
    "set ws' \<union> set rs' = set ws \<union> set rs - {thr}" "\<And>x. runable (es x) = runable (entries tk x)"
proof -
  have setq: "set ws = {x. loc x = Waiting write_token}" "set rs = {x. loc x = Waiting read_token}"
    "\<forall>x \<in> set ws \<union> set rs. thread_id (entries tk x) = x" "waiters tk = int (length ws) + int (length rs)"
    and rep: "tq_rep (writers tk) (entries tk) ws" "tq_rep (readers tk) (entries tk) rs" using q by (auto simp: tk_queues_def)
  have dis: "set ws \<inter> set rs = {}" by (rule queues_disjoint [OF q])
  have locs: "{x. (loc(thr := st)) x = Waiting o1} = {x. loc x = Waiting o1} - {thr}" for o1 using st by auto
  show ?thesis
  proof (cases "opt = read_token")
    case True
    then obtain as bs where rs: "rs = as @ thr # bs" using t(1) setq(2) by (metis mem_Collect_eq split_list)
    have d: "thr \<notin> set (as @ bs)" "thr \<notin> set ws" using tq_rep_distinct [OF rep(2)] rs dis by auto
    obtain p es where r: "remove_entry thr (readers tk) (entries tk) = Some (p, es)" "tq_rep p es (as @ bs)"
      "\<And>x. x \<notin> set as \<Longrightarrow> tnx es x = tnx (entries tk) x" "\<And>x. thread_id (es x) = thread_id (entries tk x)"
      "\<And>x. runable (es x) = runable (entries tk x)"
      using remove_entry_rep [OF rep(2) [unfolded rs]] by blast
    have "tq_rep (writers tk) es ws" by (rule tq_rep_cong [OF rep(1)], rule r(3)) (use dis rs in auto)
    moreover have "set ws = {x. (loc(thr := st)) x = Waiting write_token}" "set (as @ bs) = {x. (loc(thr := st)) x = Waiting read_token}"
      unfolding locs setq(1,2) [symmetric] using d rs by auto
    moreover have "\<forall>x \<in> set ws \<union> set (as @ bs). thread_id (es x) = x" using setq(3) r(4) rs by auto
    ultimately have "tk_queues ((set_queue opt p (tk\<lparr>entries := es\<rparr>))\<lparr>waiters := waiters tk - 1\<rparr>) (loc(thr := st)) ws (as @ bs)"
      using r(2) setq(4) rs True unfolding set_queue_def tk_queues_def by simp
    then show ?thesis using that [of p es ws "as @ bs"] r(1,5) d rs True by (auto simp: queue_of_def)
  next
    case False
    then have opt: "opt = write_token" using t(2) by simp
    then obtain as bs where ws: "ws = as @ thr # bs" using t(1) setq(1) by (metis mem_Collect_eq split_list)
    have d: "thr \<notin> set (as @ bs)" "thr \<notin> set rs" using tq_rep_distinct [OF rep(1)] ws dis by auto
    obtain p es where r: "remove_entry thr (writers tk) (entries tk) = Some (p, es)" "tq_rep p es (as @ bs)"
      "\<And>x. x \<notin> set as \<Longrightarrow> tnx es x = tnx (entries tk) x" "\<And>x. thread_id (es x) = thread_id (entries tk x)"
      "\<And>x. runable (es x) = runable (entries tk x)"
      using remove_entry_rep [OF rep(1) [unfolded ws]] by blast
    have "tq_rep (readers tk) es rs" by (rule tq_rep_cong [OF rep(2)], rule r(3)) (use dis ws in auto)
    moreover have "set rs = {x. (loc(thr := st)) x = Waiting read_token}" "set (as @ bs) = {x. (loc(thr := st)) x = Waiting write_token}"
      unfolding locs setq(1,2) [symmetric] using d ws by auto
    moreover have "\<forall>x \<in> set (as @ bs) \<union> set rs. thread_id (es x) = x" using setq(3) r(4) ws by auto
    ultimately have "tk_queues ((set_queue opt p (tk\<lparr>entries := es\<rparr>))\<lparr>waiters := waiters tk - 1\<rparr>) (loc(thr := st)) (as @ bs) rs"
      using r(2) setq(4) ws False unfolding set_queue_def tk_queues_def by simp
    then show ?thesis using that [of p es "as @ bs" rs] r(1,5) d ws False by (auto simp: queue_of_def)
  qed
qed

text \<open>Without timeouts and errors a thread that wakes up either owns the token or waits again.\<close>

lemma wait_keeps:
  assumes "cond_wait thr res tk = Some tk1"
  shows "writers tk1 = writers tk" "readers tk1 = readers tk" "waiters tk1 = waiters tk" "in_use tk1 = in_use tk"
    "tk_owner tk1 = tk_owner tk" "nesting_level tk1 = nesting_level tk" "tnx (entries tk1) = tnx (entries tk)"
    "thread_id (entries tk1 a) = thread_id (entries tk a)" "runable (entries tk1 a) = runable (entries tk a)"
    "a \<noteq> thr \<Longrightarrow> woken (entries tk1 a) = woken (entries tk a)"
  using assms by (auto simp: cond_wait_def tnx_def split: if_splits)

lemma wait_queues:
  assumes "cond_wait thr res tk = Some tk1" "tk_queues tk loc ws rs"
  shows "tk_queues tk1 loc ws rs"
  by (rule tk_queues_cong [OF assms(2)]) (use wait_keeps [OF assms(1)] in auto)

lemma resume_ok:
  assumes inv: "tk_inv (tk, loc)" and t: "loc thr = Waiting opt" and res: "res \<in> {Signalled, Interrupted}"
    and w: "cond_wait thr res tk = Some tk1"
  obtains r tk' where "acquire_resume thr opt thr res tk1 = Some (r, tk')" "r = (if thr = tk_owner tk then Acquired else Waits)"
    "tk_inv (tk', loc(thr := after_resume r opt))"
proof -
  obtain ws rs where q: "tk_queues tk loc ws rs" "tk_held tk loc ws rs" using inv by (auto simp: tk_inv_def)
  note k = wait_keeps [OF w] and q1 = wait_queues [OF w q(1)]
  have opt: "opt \<in> {read_token, write_token}" and z: "loc 0 = Idle" using inv t by (auto simp: tk_inv_def)
  show ?thesis
  proof (cases "thr = tk_owner tk")
    case False
    have "loc(thr := Waiting opt) = loc" using t by auto
    moreover have "acquire_resume thr opt thr res tk1 = Some (Waits, tk1)" using False res k(5) by (auto simp: acquire_resume_def)
    moreover have "tk_held tk1 loc ws rs" using q(2) k(9,10) False unfolding tk_held_def k(4-6) by metis
    then have "tk_inv (tk1, loc)" using q1 inv unfolding tk_inv_def by (auto simp: k(5))
    ultimately show ?thesis using that False by (simp add: after_resume_def)
  next
    case True
    have h: "in_use tk \<noteq> 0" "runable (entries tk thr) = 1" "nesting_level tk = 0" "thr \<noteq> 0"
      using q(2) t True z by (auto simp: tk_held_def split: if_splits)
    have "Holding 0 \<noteq> Waiting o1" for o1 by simp
    then obtain p es ws' rs' where l: "remove_entry thr (queue_of opt tk1) (entries tk1) = Some (p, es)"
      "tk_queues ((set_queue opt p (tk1\<lparr>entries := es\<rparr>))\<lparr>waiters := waiters tk1 - 1\<rparr>) (loc(thr := Holding 0)) ws' rs'"
      "set ws' \<union> set rs' = set ws \<union> set rs - {thr}" "\<And>x. runable (es x) = runable (entries tk1 x)"
      using leave_queue [OF q1 t opt, of "Holding 0"] by blast
    let ?tk = "(set_queue opt p (tk1\<lparr>entries := es\<rparr>))\<lparr>waiters := waiters tk1 - 1\<rparr>"
    have e: "acquire_resume thr opt thr res tk1 = Some (Acquired, ?tk)"
      using True res l(1,4) h(2) k(5,9) by (auto simp: acquire_resume_def Let_def queue_of_def set_queue_def)
    have f: "tk_owner ?tk = thr" "in_use ?tk = in_use tk" "nesting_level ?tk = 0" using True h k by (simp_all add: set_queue_def)
    then have "tk_held ?tk (loc(thr := Holding 0)) ws' rs'" using h by (simp add: tk_held_def)
    then have "tk_inv (?tk, loc(thr := Holding 0))" using l(2) f(1) inv True h(4) unfolding tk_inv_def by auto
    then show ?thesis using that [OF e] True by (simp add: after_resume_def)
  qed
qed

lemma inv_release:
  assumes inv: "tk_inv (tk, loc)" and t: "loc thr = Holding d"
  shows "tk_inv (token_release tk, loc(thr := after_release d))"
proof -
  obtain ws rs where q: "tk_queues tk loc ws rs" "tk_held tk loc ws rs" using inv by (auto simp: tk_inv_def)
  have o1: "thr = tk_owner tk" "loc 0 = Idle" using inv t by (auto simp: tk_inv_def)
  have "thr \<notin> set ws \<union> set rs" using q(1) t by (auto simp: tk_queues_def)
  then have n: "nesting_level tk = int d" "in_use tk \<noteq> 0" "thr \<noteq> 0"
    using q(2) t o1 by (auto simp: tk_held_def split: if_splits)
  show ?thesis
  proof (cases d)
    case 0
    have q': "tk_queues tk (loc(thr := Idle)) ws rs" by (rule tk_queues_cong [OF q(1)]) (use t in auto)
    have r: "token_release tk = wakeup_next_waiter tk" using n 0 by (simp add: token_release_def)
    have "nesting_level tk = 0" "(loc(thr := Idle)) 0 = Idle" using n 0 o1 by auto
    note w = wakeup_ok [OF q' this]
    have "loc x = Holding d' \<Longrightarrow> x = thr" for x d' using inv o1 by (auto simp: tk_inv_def)
    then have "tk_inv (wakeup_next_waiter tk, loc(thr := Idle))"
      by (intro tk_invI [OF w(1,2)]) (use inv o1 in \<open>auto simp: tk_inv_def split: if_splits\<close>)
    then show ?thesis using 0 r by (simp add: after_release_def)
  next
    case (Suc d')
    have r: "token_release tk = tk\<lparr>nesting_level := nesting_level tk - 1\<rparr>" using n Suc by (simp add: token_release_def)
    have "tk_queues (token_release tk) (loc(thr := Holding d')) ws rs"
      by (rule tk_queues_cong [OF q(1)]) (use t r in auto)
    moreover have "tk_held (token_release tk) (loc(thr := Holding d')) ws rs"
      using n Suc o1 unfolding r tk_held_def by simp
    ultimately show ?thesis using inv Suc r o1 n(3) unfolding tk_inv_def after_release_def by auto
  qed
qed

lemma tk_step_inv: "tk_step {Signalled, Interrupted} s s' \<Longrightarrow> tk_inv s \<Longrightarrow> tk_inv s'"
proof (induction rule: tk_step.induct)
  case (step_enter thr opt loc tk r tk')
  then show ?case using inv_enter by blast
next
  case (step_resume loc thr opt res tk tk1 r tk')
  then show ?case using resume_ok [OF step_resume(5,1,2,3)] by (metis option.inject prod.inject)
next
  case (step_release loc thr d tk)
  then show ?case using inv_release by blast
qed

lemma token_new_inv: "tk_inv (token_new es strategy, \<lambda>_. Idle)"
  by (auto simp: tk_inv_def tk_queues_def tk_held_def token_new_def tq_rep_def)

section \<open>Properties\<close>

lemma run_inv: "(tk_step {Signalled, Interrupted})\<^sup>*\<^sup>* (token_new es strategy, \<lambda>_. Idle) s \<Longrightarrow> tk_inv s"
  by (induction rule: rtranclp_induct) (auto simp: token_new_inv intro: tk_step_inv)

lemma inv_waiting:
  assumes "tk_inv (tk, loc)" "tk_queues tk loc ws rs"
  shows "{t. \<exists>opt. loc t = Waiting opt} = set ws \<union> set rs"
proof -
  have "opt \<in> {read_token, write_token}" if "loc t = Waiting opt" for t opt using assms(1) that by (auto simp: tk_inv_def)
  then show ?thesis using assms(2) by (auto simp: tk_queues_def)
qed

lemma inv_waiters:
  assumes "tk_inv (tk, loc)"
  shows "waiters tk = int (card {t. \<exists>opt. loc t = Waiting opt})"
proof -
  obtain ws rs where q: "tk_queues tk loc ws rs" using assms by (auto simp: tk_inv_def)
  then have "tq_rep (writers tk) (entries tk) ws" "tq_rep (readers tk) (entries tk) rs" by (simp_all add: tk_queues_def)
  then have "distinct ws" "distinct rs" using tq_rep_distinct by blast+
  then have "card (set ws \<union> set rs) = length ws + length rs"
    using queues_disjoint [OF q] by (simp add: card_Un_disjoint distinct_card)
  then show ?thesis using q inv_waiting [OF assms q] by (simp add: tk_queues_def)
qed

lemma inv_owned:
  assumes "tk_inv (tk, loc)" "loc t = Waiting opt"
  shows "(\<exists>d. loc (tk_owner tk) = Holding d) \<or> (\<exists>opt'. loc (tk_owner tk) = Waiting opt')"
proof -
  obtain ws rs where q: "tk_queues tk loc ws rs" "tk_held tk loc ws rs" using assms(1) by (auto simp: tk_inv_def)
  note w = inv_waiting [OF assms(1) q(1)]
  have "t \<in> set ws \<union> set rs" using w assms(2) by blast
  then have "\<not> (ws = [] \<and> rs = [])" by auto
  then have "(\<exists>d. loc (tk_owner tk) = Holding d) \<or> tk_owner tk \<in> set ws \<union> set rs"
    using q(2) by (auto simp: tk_held_def split: if_splits)
  then show ?thesis using w by blast
qed

lemma inv_signalled:
  assumes "tk_inv (tk, loc)" "loc (tk_owner tk) = Waiting opt"
  shows "woken (entries tk (tk_owner tk))"
  using assms by (auto simp: tk_inv_def tk_held_def tk_queues_def split: if_splits)

text \<open>C27: Mutual exclusion and no lost wake-up. In every interleaving of threads that acquire, wait,
  return from the wait (signalled, or interrupted at any time) and release, as long as no wait times
  out or fails (then exclusion breaks: \<^verbatim>\<open>token_timeout_breaks_exclusion\<close>): at most one thread holds the
  token and it is the recorded owner; the counter of waiters is their number; whenever somebody
  waits, the token has an owner, who holds it, or who waits, has been signalled, so that its wait
  returns, and acquires the token when it does; and the assertion after the wait never fails.\<close>

theorem token_mutual_exclusion:
  assumes "(tk_step {Signalled, Interrupted})\<^sup>*\<^sup>* (token_new es strategy, \<lambda>_. Idle) (tk, loc)"
  shows "(\<forall>t u d d'. loc t = Holding d \<and> loc u = Holding d' \<longrightarrow> t = u \<and> tk_owner tk = t)
    \<and> waiters tk = int (card {t. \<exists>opt. loc t = Waiting opt})
    \<and> (\<forall>t opt. loc t = Waiting opt \<longrightarrow>
         (\<exists>d. loc (tk_owner tk) = Holding d)
         \<or> (\<exists>opt' tk1 tk'. loc (tk_owner tk) = Waiting opt'
              \<and> cond_wait (tk_owner tk) Signalled tk = Some tk1
              \<and> acquire_resume (tk_owner tk) opt' (tk_owner tk) Signalled tk1 = Some (Acquired, tk')))
    \<and> (\<forall>t opt res tk1. loc t = Waiting opt \<and> res \<in> {Signalled, Interrupted} \<and> cond_wait t res tk = Some tk1 \<longrightarrow>
         (\<exists>r tk'. acquire_resume t opt t res tk1 = Some (r, tk') \<and> r \<noteq> RunableAssert))"
proof -
  have inv: "tk_inv (tk, loc)" using run_inv [OF assms] .
  have res: "\<exists>r tk'. acquire_resume t opt t res tk1 = Some (r, tk') \<and> r = (if t = tk_owner tk then Acquired else Waits)"
    if "loc t = Waiting opt" "res \<in> {Signalled, Interrupted}" "cond_wait t res tk = Some tk1" for t opt res tk1
    using resume_ok [OF inv that] by blast
  have excl: "t = tk_owner tk" if "loc t = Holding d" for t d using inv that by (auto simp: tk_inv_def)
  show ?thesis
  proof (intro conjI allI impI inv_waiters [OF inv])
    fix t u d d'
    assume a: "loc t = Holding d \<and> loc u = Holding d'"
    then show "t = u" "tk_owner tk = t" using excl [of t d] excl [of u d'] by simp_all
  next
    fix t opt
    assume a: "loc t = Waiting opt"
    have "\<exists>tk1 tk'. cond_wait (tk_owner tk) Signalled tk = Some tk1
        \<and> acquire_resume (tk_owner tk) opt' (tk_owner tk) Signalled tk1 = Some (Acquired, tk')"
      if w: "loc (tk_owner tk) = Waiting opt'" for opt'
      using res [OF w, of Signalled] inv_signalled [OF inv w] by (simp add: cond_wait_def)
    then show "(\<exists>d. loc (tk_owner tk) = Holding d) \<or> (\<exists>opt' tk1 tk'. loc (tk_owner tk) = Waiting opt'
        \<and> cond_wait (tk_owner tk) Signalled tk = Some tk1
        \<and> acquire_resume (tk_owner tk) opt' (tk_owner tk) Signalled tk1 = Some (Acquired, tk'))"
      using inv_owned [OF inv a] by blast
  next
    fix t opt r tk1
    assume a: "loc t = Waiting opt \<and> r \<in> {Signalled, Interrupted} \<and> cond_wait t r tk = Some tk1"
    show "\<exists>r' tk'. acquire_resume t opt t r tk1 = Some (r', tk') \<and> r' \<noteq> RunableAssert"
      using res [of t opt r tk1] a by auto
  qed
qed

text \<open>Two threads: the second one waits.\<close>

lemma tk_demo_run:
  assumes "tk1 = snd (acquire_enter 1 write_token 1 (token_new (\<lambda>_. \<lparr>runable = 0, te_next = null, thread_id = 0, woken = False\<rparr>) FIFO_order))"
    "tk2 = snd (acquire_enter 2 write_token 2 tk1)"
  shows "(tk_step R)\<^sup>*\<^sup>* (token_new (\<lambda>_. \<lparr>runable = 0, te_next = null, thread_id = 0, woken = False\<rparr>) FIFO_order, \<lambda>_. Idle)
    (tk2, (\<lambda>_. Idle)(1 := Holding 0, 2 := Waiting write_token))"
proof -
  let ?t = "token_new (\<lambda>_. \<lparr>runable = 0, te_next = null, thread_id = 0, woken = False\<rparr>) FIFO_order"
  have e: "acquire_enter 1 write_token 1 ?t = (Acquired, tk1)" "acquire_enter 2 write_token 2 tk1 = (Waits, tk2)"
    using assms by (simp_all add: acquire_enter_def token_new_def insert_entry_def queue_of_def Let_def)
  have "tk_step R (?t, \<lambda>_. Idle) (tk1, (\<lambda>_. Idle)(1 := Holding 0))"
    using step_enter [of 1 write_token "\<lambda>_. Idle" ?t Acquired tk1 R] e by (simp add: after_enter_def)
  moreover have "tk_step R (tk1, (\<lambda>_. Idle)(1 := Holding 0)) (tk2, (\<lambda>_. Idle)(1 := Holding 0, 2 := Waiting write_token))"
    using step_enter [of 2 write_token "(\<lambda>_. Idle)(1 := Holding 0)" tk1 Waits tk2 R] e by (simp add: after_enter_def)
  ultimately show ?thesis by (meson converse_rtranclp_into_rtranclp r_into_rtranclp)
qed

theorem token_mutual_exclusion_witness:
  "waiters (snd (acquire_enter 2 write_token 2
     (snd (acquire_enter 1 write_token 1 (token_new (\<lambda>_. \<lparr>runable = 0, te_next = null, thread_id = 0, woken = False\<rparr>) FIFO_order))))) = 1"
proof -
  have "{t. \<exists>opt. ((\<lambda>_. Idle)(1 := Holding 0, 2 := Waiting write_token)) t = Waiting opt} = {2 :: nat}" by auto
  then show ?thesis using token_mutual_exclusion [OF tk_demo_run [OF refl refl]] by simp
qed

text \<open>C36: Handing over. When the last nested acquisition is released, the next owner is the first
  waiting writer, or the first waiting reader if no writer waits, or nobody; that thread has been
  signalled, and both queues stay as they are until it leaves its own.\<close>

theorem token_handover:
  assumes "tk_inv (tk, loc)" "loc thr = Holding 0" "tk_queues tk loc ws rs"
  shows "tk_owner (token_release tk) = (if ws \<noteq> [] then hd ws else if rs \<noteq> [] then hd rs else 0)
    \<and> in_use (token_release tk) = (if ws \<noteq> [] then write_token else if rs \<noteq> [] then read_token else 0)
    \<and> tk_queues (token_release tk) loc ws rs
    \<and> (tk_owner (token_release tk) \<noteq> 0 \<longrightarrow> woken (entries (token_release tk) (tk_owner (token_release tk))))"
proof -
  have o1: "thr = tk_owner tk" "loc 0 = Idle" using assms(1,2) by (auto simp: tk_inv_def)
  obtain ws' rs' where "tk_held tk loc ws' rs'" "tk_queues tk loc ws' rs'" using assms(1) by (auto simp: tk_inv_def)
  then have n: "nesting_level tk = 0" using assms(2) o1 by (auto simp: tk_held_def tk_queues_def split: if_splits)
  then have r: "token_release tk = wakeup_next_waiter tk" by (simp add: token_release_def)
  have "tkq_head (writers tk) = null \<longleftrightarrow> ws = []" "tkq_head (readers tk) = null \<longleftrightarrow> rs = []"
    using assms(3) tq_rep_empty by (auto simp: tk_queues_def)
  then have "in_use (wakeup_next_waiter tk) = (if ws \<noteq> [] then write_token else if rs \<noteq> [] then read_token else 0)"
    by (simp add: wakeup_next_waiter_def entry_signal_def Let_def)
  then show ?thesis using wakeup_ok [OF assms(3) n o1(2)] r by simp
qed

theorem token_handover_witness:
  "tk_owner (token_release (snd (acquire_enter 2 write_token 2
     (snd (acquire_enter 1 write_token 1 (token_new (\<lambda>_. \<lparr>runable = 0, te_next = null, thread_id = 0, woken = False\<rparr>) FIFO_order)))))) = 2"
proof -
  let ?tk = "snd (acquire_enter 2 write_token 2
     (snd (acquire_enter 1 write_token 1 (token_new (\<lambda>_. \<lparr>runable = 0, te_next = null, thread_id = 0, woken = False\<rparr>) FIFO_order))))"
  let ?l = "(\<lambda>_. Idle)(1 := Holding 0, 2 := Waiting write_token)"
  have "tk_queues ?tk ?l [2] []"
    by (auto simp: tk_queues_def acquire_enter_def token_new_def insert_entry_def queue_of_def set_queue_def Let_def
        tq_rep_def tnx_def split: if_splits)
  then show ?thesis using token_handover [OF run_inv [OF tk_demo_run [OF refl refl]], of 1] by simp
qed

text \<open>Finding. A wait that times out calls \<^verbatim>\<open>wakeup_next_waiter\<close> although the token is held: the
  owner is forgotten, and the next thread acquires a token that is still held. The same happens
  when \<^verbatim>\<open>try_acquire\<close> finds the token taken.\<close>

theorem token_timeout_breaks_exclusion:
  "\<exists>tk loc. (tk_step {TimedOut})\<^sup>*\<^sup>*
      (token_new (\<lambda>_. \<lparr>runable = 0, te_next = null, thread_id = 0, woken = False\<rparr>) FIFO_order, \<lambda>_. Idle) (tk, loc)
    \<and> loc 1 = Holding 0 \<and> loc 3 = Holding 0
    \<and> (\<exists>tk'. token_try_acquire 2 2 (snd (token_acquire 1 1
           (token_new (\<lambda>_. \<lparr>runable = 0, te_next = null, thread_id = 0, woken = False\<rparr>) FIFO_order))) = Some (Failed, tk')
         \<and> in_use tk' = 0 \<and> tk_owner tk' = 0)"
proof -
  let ?t = "token_new (\<lambda>_. \<lparr>runable = 0, te_next = null, thread_id = 0, woken = False\<rparr>) FIFO_order"
  define tk1 where "tk1 = snd (acquire_enter 1 write_token 1 ?t)"
  define tk2 where "tk2 = snd (acquire_enter 2 write_token 2 tk1)"
  let ?l = "(\<lambda>_. Idle)(1 := Holding 0, 2 := Waiting write_token)"
  have run: "(tk_step {TimedOut})\<^sup>*\<^sup>* (?t, \<lambda>_. Idle) (tk2, ?l)" by (rule tk_demo_run [OF tk1_def tk2_def])
  have "\<exists>tk3. acquire_resume 2 write_token 2 TimedOut tk2 = Some (Failed, tk3) \<and> in_use tk3 = 0 \<and> tk_owner tk3 = 0"
    unfolding tk2_def tk1_def
    by (simp add: acquire_resume_def acquire_enter_def token_new_def insert_entry_def queue_of_def set_queue_def
        wakeup_next_waiter_def entry_signal_def remove_entry_def find_entry.simps [of 2 2] Let_def)
  then obtain tk3 where t3: "acquire_resume 2 write_token 2 TimedOut tk2 = Some (Failed, tk3)" "in_use tk3 = 0" "tk_owner tk3 = 0" by blast
  have "acquire_enter 2 write_token 2 tk1 = (Waits, tk2)"
    unfolding tk2_def tk1_def by (simp add: acquire_enter_def token_new_def insert_entry_def queue_of_def Let_def)
  then have tried: "token_try_acquire 2 2 (snd (token_acquire 1 1 ?t)) = Some (Failed, tk3)"
    using t3(1) by (simp add: token_try_acquire_def token_acquire_def tk1_def)
  have "tk_step {TimedOut} (tk2, ?l) (tk3, ?l(2 := Idle))"
    using step_resume [of ?l 2 write_token TimedOut "{TimedOut}" tk2 tk2 Failed tk3] t3(1) by (simp add: after_resume_def cond_wait_def)
  moreover have "acquire_enter 3 write_token 3 tk3 = (Acquired, tk3\<lparr>in_use := write_token, tk_owner := 3\<rparr>)"
    using t3(2) by (simp add: acquire_enter_def)
  then have "tk_step {TimedOut} (tk3, ?l(2 := Idle)) (tk3\<lparr>in_use := write_token, tk_owner := 3\<rparr>, ?l(2 := Idle, 3 := Holding 0))"
    using step_enter [of 3 write_token "?l(2 := Idle)" tk3 Acquired _ "{TimedOut}"] by (simp add: after_enter_def)
  ultimately have "(tk_step {TimedOut})\<^sup>*\<^sup>* (?t, \<lambda>_. Idle) (tk3\<lparr>in_use := write_token, tk_owner := 3\<rparr>, ?l(2 := Idle, 3 := Holding 0))"
    using run by (meson rtranclp.rtrancl_into_rtrancl)
  moreover have "(?l(2 := Idle, 3 := Holding 0)) (1 :: nat) = Holding 0" "(?l(2 := Idle, 3 := Holding 0)) (3 :: nat) = Holding 0" by simp_all
  ultimately show ?thesis using tried t3(2,3) by blast
qed

end
