(* ===== verification/Reactor.thy ===== *)
theory Reactor
  imports TimerDispatch Token "HOL-Library.Word"
begin

unbundle bit_operations_syntax

text \<open>
  The reactor: \<^verbatim>\<open>unix_reactor_handler_repository\<close> and \<^verbatim>\<open>unix_reactor\<close> (\<^verbatim>\<open>ndk/unix_reactor.h\<close>, \<^verbatim>\<open>.inl\<close>, \<^verbatim>\<open>.cpp\<close>) and
  \<^verbatim>\<open>epoll_reactor\<close> (\<^verbatim>\<open>ndk/epoll_reactor.h\<close>, \<^verbatim>\<open>.inl\<close>, \<^verbatim>\<open>.cpp\<close>).

  \<^item> The kernel's epoll instance has a state of its own type; \<open>epoll_ctl\<close> and \<open>epoll_wait\<close> are parameters
    on it. What is relied on about them is stated in \<open>epoll_laws\<close>.
    The methods of \<^verbatim>\<open>unix_reactor\<close> are the same for all its derived classes and take the virtual ones
    as parameters; \<open>kern\<close> is what lies below them.
  \<^item> Event handlers are user code: a callback is a program (\<open>prog\<close>) that calls operations of the
    reactor, each call depending on the results of the earlier ones, and returns an int. Which
    program runs may depend on all the upcalls made so far. A callback that calls back for ever
    has no result (\<open>None\<close>).
  \<^item> Handles and sizes are integers, masks and epoll events 32-bit words. Timer callbacks act on the
    timer queue only.
\<close>

section \<open>Masks\<close>

type_synonym mask = "32 word"

definition null_mask :: mask where "null_mask = 0"
definition read_mask :: mask where "read_mask = 2"
definition write_mask :: mask where "write_mask = 4"
definition except_mask :: mask where "except_mask = 8"
definition accept_mask :: mask where "accept_mask = 16"
definition connect_mask :: mask where "connect_mask = 32"
definition timer_mask :: mask where "timer_mask = 64"
definition epoll_edge :: mask where "epoll_edge = 128"
definition dont_call :: mask where "dont_call = 0x80000000"

definition all_events_mask :: mask where
  "all_events_mask = read_mask OR write_mask OR except_mask OR accept_mask OR connect_mask OR timer_mask OR epoll_edge"

definition EPOLLIN :: mask where "EPOLLIN = 1"
definition EPOLLPRI :: mask where "EPOLLPRI = 2"
definition EPOLLOUT :: mask where "EPOLLOUT = 4"
definition EPOLLERR :: mask where "EPOLLERR = 8"
definition EPOLLHUP :: mask where "EPOLLHUP = 16"
definition EPOLLET :: mask where "EPOLLET = 0x80000000"

lemmas mask_defs = null_mask_def read_mask_def write_mask_def except_mask_def accept_mask_def connect_mask_def
  timer_mask_def epoll_edge_def dont_call_def all_events_mask_def
lemmas epoll_defs = EPOLLIN_def EPOLLPRI_def EPOLLOUT_def EPOLLERR_def EPOLLHUP_def EPOLLET_def

definition bit_enabled :: "mask \<Rightarrow> mask \<Rightarrow> bool" where
  "bit_enabled word bits \<longleftrightarrow> word AND bits \<noteq> 0"

definition bit_disabled :: "mask \<Rightarrow> mask \<Rightarrow> bool" where
  "bit_disabled word bits \<longleftrightarrow> word AND bits = 0"

definition set_bits_of :: "mask \<Rightarrow> mask \<Rightarrow> mask" where
  "set_bits_of word bits = word OR bits"

definition clr_bits_of :: "mask \<Rightarrow> mask \<Rightarrow> mask" where
  "clr_bits_of word bits = word AND NOT bits"

definition reactor_mask_to_epoll_event :: "mask \<Rightarrow> mask" where
  "reactor_mask_to_epoll_event m =
     (let e1 = (if bit_enabled m read_mask then set_bits_of 0 EPOLLIN else 0);
          e2 = (if bit_enabled m epoll_edge then set_bits_of e1 EPOLLET else e1);
          e3 = (if bit_enabled m accept_mask then set_bits_of e2 EPOLLIN else e2);
          e4 = (if bit_enabled m connect_mask then set_bits_of e3 (EPOLLIN OR EPOLLOUT) else e3);
          e5 = (if bit_enabled m write_mask then set_bits_of e4 EPOLLOUT else e4)
      in if bit_enabled m except_mask then set_bits_of e5 EPOLLPRI else e5)"

section \<open>The handler repository\<close>

record reactor_event_tuple =
  rt_suspended :: bool
  rt_event_handler :: addr
  rt_mask :: mask

definition tuple_new :: reactor_event_tuple where
  "tuple_new = \<lparr>rt_suspended = False, rt_event_handler = null, rt_mask = 0\<rparr>"

text \<open>The array of tuples, empty when \<^verbatim>\<open>handlers_\<close> is null; it has \<^verbatim>\<open>max_size_\<close> elements.\<close>

record repository =
  rep_max_size :: int
  rep_handlers :: "reactor_event_tuple list"

definition rep_new :: repository where
  "rep_new = \<lparr>rep_max_size = 0, rep_handlers = []\<rparr>"

definition handle_in_range :: "int \<Rightarrow> repository \<Rightarrow> bool" where
  "handle_in_range h p \<longleftrightarrow> 0 \<le> h \<and> h < rep_max_size p"

definition is_invalid_handle :: "int \<Rightarrow> repository \<Rightarrow> bool" where
  "is_invalid_handle h p \<longleftrightarrow> h < 0 \<or> rep_max_size p \<le> h"

definition upd_tuple :: "int \<Rightarrow> (reactor_event_tuple \<Rightarrow> reactor_event_tuple) \<Rightarrow> repository \<Rightarrow> repository" where
  "upd_tuple h f p = p\<lparr>rep_handlers := (rep_handlers p)[nat h := f (rep_handlers p ! nat h)]\<rparr>"

definition rep_find :: "int \<Rightarrow> repository \<Rightarrow> addr" where
  "rep_find h p = (if handle_in_range h p then rt_event_handler (rep_handlers p ! nat h) else null)"

definition rep_bind :: "int \<Rightarrow> addr \<Rightarrow> mask \<Rightarrow> repository \<Rightarrow> int \<times> repository" where
  "rep_bind h eh m p =
     (if eh = null \<or> rep_handlers p = [] then (-1, p)
      else if is_invalid_handle h p then (-1, p)
      else (0, upd_tuple h (\<lambda>t. t\<lparr>rt_event_handler := eh, rt_mask := m\<rparr>) p))"

definition rep_unbind :: "int \<Rightarrow> repository \<Rightarrow> int \<times> repository" where
  "rep_unbind h p =
     (if rep_find h p = null then (-1, p)
      else (0, upd_tuple h (\<lambda>t. t\<lparr>rt_event_handler := null, rt_mask := null_mask\<rparr>) p))"

definition rep_mask :: "int \<Rightarrow> repository \<Rightarrow> mask" where
  "rep_mask h p = (if handle_in_range h p then rt_mask (rep_handlers p ! nat h) else null_mask)"

definition rep_set_mask :: "int \<Rightarrow> mask \<Rightarrow> repository \<Rightarrow> repository" where
  "rep_set_mask h m p = (if handle_in_range h p then upd_tuple h (\<lambda>t. t\<lparr>rt_mask := m\<rparr>) p else p)"

definition rep_suspend :: "int \<Rightarrow> repository \<Rightarrow> repository" where
  "rep_suspend h p = (if handle_in_range h p then upd_tuple h (\<lambda>t. t\<lparr>rt_suspended := True\<rparr>) p else p)"

definition rep_resume :: "int \<Rightarrow> repository \<Rightarrow> repository" where
  "rep_resume h p = (if handle_in_range h p then upd_tuple h (\<lambda>t. t\<lparr>rt_suspended := False\<rparr>) p else p)"

definition rep_suspended :: "int \<Rightarrow> repository \<Rightarrow> bool" where
  "rep_suspended h p \<longleftrightarrow> handle_in_range h p \<and> rt_suspended (rep_handlers p ! nat h)"

definition rep_open :: "int \<Rightarrow> repository \<Rightarrow> int \<times> repository" where
  "rep_open sz p =
     (if sz \<le> 0 then (-1, p)
      else (0, p\<lparr>rep_handlers := replicate (nat sz) tuple_new, rep_max_size := sz\<rparr>))"

definition rep_unbind_all :: "repository \<Rightarrow> repository" where
  "rep_unbind_all p = fold (\<lambda>h p. snd (rep_unbind h p)) [0..rep_max_size p - 1] p"

definition rep_close :: "repository \<Rightarrow> repository" where
  "rep_close p =
     (if rep_handlers p \<noteq> [] then (rep_unbind_all p)\<lparr>rep_handlers := [], rep_max_size := 0\<rparr> else p)"

section \<open>State\<close>

datatype errno = EEXIST | ENOENT | EINTR | OtherErrno int

datatype ctl_op = EPOLL_CTL_ADD | EPOLL_CTL_MOD | EPOLL_CTL_DEL

datatype upcall = HandleInput addr int | HandleOutput addr int | HandleException addr int | HandleClose addr int mask

record 'k reactor =
  r_size :: int
  active_fds :: int
  delete_timer_queue :: int
  timer_queue_p :: addr
  notify_handler :: addr
  handler_rep :: repository
  initialized :: bool
  epoll_fd :: int
  r_events :: "(int \<times> mask) list"
  start_pevents :: nat
  end_pevents :: nat
  r_errno :: "errno option"
  kern :: 'k
  r_timers :: timer_queue
  upcalls :: "upcall list"
  deleted :: "addr list"
  r_fault :: "fault option"

abbreviation bound :: "int \<Rightarrow> 'k reactor \<Rightarrow> addr" where
  "bound h r \<equiv> rep_find h (handler_rep r)"

definition with_rep :: "(repository \<Rightarrow> repository) \<Rightarrow> 'k reactor \<Rightarrow> 'k reactor" where
  "with_rep f r = r\<lparr>handler_rep := f (handler_rep r)\<rparr>"

type_synonym 'k ctl = "ctl_op \<Rightarrow> int \<Rightarrow> mask \<Rightarrow> 'k \<Rightarrow> errno option \<times> 'k"

section \<open>The interest set of the kernel\<close>

definition add_mask :: int where "add_mask = 0x11"
definition set_mask :: int where "set_mask = 0x12"
definition clr_mask :: int where "clr_mask = 0x13"

lemma mask_opts [simp]:
  "set_mask \<noteq> add_mask" "clr_mask \<noteq> add_mask" "clr_mask \<noteq> set_mask"
  "add_mask \<noteq> set_mask" "add_mask \<noteq> clr_mask" "set_mask \<noteq> clr_mask"
  by (simp_all add: add_mask_def set_mask_def clr_mask_def)

definition call_ctl :: "'k ctl \<Rightarrow> ctl_op \<Rightarrow> int \<Rightarrow> mask \<Rightarrow> 'k reactor \<Rightarrow> errno option \<times> 'k reactor" where
  "call_ctl ctl op h ev r = (let (e, k) = ctl op h ev (kern r) in (e, r\<lparr>kern := k\<rparr>))"

definition handle_opt_i :: "'k ctl \<Rightarrow> int \<Rightarrow> mask \<Rightarrow> int \<Rightarrow> 'k reactor \<Rightarrow> int \<times> 'k reactor" where
  "handle_opt_i ctl h m opt r =
     (if opt = add_mask then
        (let (e, r1) = call_ctl ctl EPOLL_CTL_ADD h (reactor_mask_to_epoll_event m) r
         in if e \<noteq> None \<and> e \<noteq> Some EEXIST then (-1, r1) else (0, r1))
      else if opt = set_mask then
        (let (e, r1) = call_ctl ctl EPOLL_CTL_MOD h (reactor_mask_to_epoll_event m) r
         in if e = Some ENOENT
            then (let (e2, r2) = call_ctl ctl EPOLL_CTL_ADD h (reactor_mask_to_epoll_event m) r1
                  in (if e2 = None then 0 else -1, r2))
            else (0, r1))
      else if opt = clr_mask then
        (let (e, r1) = call_ctl ctl EPOLL_CTL_DEL h 0 r
         in if e \<noteq> None \<and> e \<noteq> Some ENOENT then (-1, r1) else (0, r1))
      else (-1, r))"

section \<open>Registration\<close>

text \<open>\<^verbatim>\<open>unix_reactor\<close> leaves \<^verbatim>\<open>handle_opt_i\<close>, \<^verbatim>\<open>poll_events\<close> and \<^verbatim>\<open>dispatch_io_events\<close> to the derived class, so its
  methods take them as parameters.\<close>

type_synonym 'k opt = "int \<Rightarrow> mask \<Rightarrow> int \<Rightarrow> 'k reactor \<Rightarrow> int \<times> 'k reactor"

definition register_handler_i :: "'k opt \<Rightarrow> int \<Rightarrow> addr \<Rightarrow> mask \<Rightarrow> 'k reactor \<Rightarrow> int \<times> 'k reactor" where
  "register_handler_i opt h eh m r =
     (if bound h r = null then
        (let (b, p) = rep_bind h eh m (handler_rep r) in
         if b \<noteq> 0 then (-1, r)
         else
          (let (v, r1) = opt h m add_mask (r\<lparr>handler_rep := p\<rparr>)
           in if v \<noteq> 0 then (-1, with_rep (\<lambda>p. snd (rep_unbind h p)) r1) else (0, r1)))
      else
       (let new_mask = set_bits_of (rep_mask h (handler_rep r)) m
        in opt h new_mask set_mask (with_rep (rep_set_mask h new_mask) r)))"

text \<open>The part of \<^verbatim>\<open>remove_handler_i\<close> after the call of \<^verbatim>\<open>handle_close\<close>.\<close>

definition remove_mask :: "'k opt \<Rightarrow> int \<Rightarrow> mask \<Rightarrow> 'k reactor \<Rightarrow> int \<times> 'k reactor" where
  "remove_mask opt h m r =
     (let new_mask = clr_bits_of (rep_mask h (handler_rep r)) m;
          r1 = with_rep (rep_set_mask h new_mask) r;
          t = (if new_mask \<noteq> null_mask then set_mask else clr_mask);
          (v, r2) = opt h new_mask t r1
      in if v = -1 then (-1, r2)
         else (0, if new_mask = null_mask then with_rep (\<lambda>p. snd (rep_unbind h p)) r2 else r2))"

type_synonym 'k upcall_fun = "upcall \<Rightarrow> 'k reactor \<Rightarrow> (int \<times> 'k reactor) option"

definition remove_handler_i :: "'k opt \<Rightarrow> 'k upcall_fun \<Rightarrow> int \<Rightarrow> mask \<Rightarrow> 'k reactor \<Rightarrow> (int \<times> 'k reactor) option" where
  "remove_handler_i opt up h m r =
     (let eh = bound h r in
      if eh = null then Some (-1, r)
      else if bit_disabled m dont_call then
        Option.bind (up (HandleClose eh h m) r) (\<lambda>(_, r1).
          if bound h r1 = null then Some (0, r1) else Some (remove_mask opt h m r1))
      else Some (remove_mask opt h m r))"

definition suspend_handler_i :: "'k opt \<Rightarrow> int \<Rightarrow> 'k reactor \<Rightarrow> int \<times> 'k reactor" where
  "suspend_handler_i opt h r =
     (if bound h r = null then (-1, r)
      else if rep_suspended h (handler_rep r) then (0, r)
      else (let (v, r1) = opt h null_mask clr_mask r
            in if v = -1 then (-1, r1) else (0, with_rep (rep_suspend h) r1)))"

definition resume_handler_i :: "'k opt \<Rightarrow> int \<Rightarrow> 'k reactor \<Rightarrow> int \<times> 'k reactor" where
  "resume_handler_i opt h r =
     (if bound h r = null \<or> \<not> rep_suspended h (handler_rep r) then (-1, r)
      else if rep_mask h (handler_rep r) = null_mask then (-1, r)
      else (let (v, r1) = opt h (rep_mask h (handler_rep r)) add_mask r
            in if v = -1 then (-1, r1) else (0, with_rep (rep_resume h) r1)))"

text \<open>The public operations of \<^verbatim>\<open>epoll_reactor<reactor_null_token>\<close>; \<open>get_handle\<close> is the virtual method of the
  handlers.\<close>

definition invalid_handle :: int where "invalid_handle = -1"

definition register_handler :: "'k opt \<Rightarrow> int \<Rightarrow> addr \<Rightarrow> mask \<Rightarrow> 'k reactor \<Rightarrow> int \<times> 'k reactor" where
  "register_handler opt h eh m r =
     (if h = invalid_handle \<or> eh = null \<or> m = null_mask then (-1, r) else register_handler_i opt h eh m r)"

definition register_handler_eh :: "(addr \<Rightarrow> int) \<Rightarrow> 'k opt \<Rightarrow> addr \<Rightarrow> mask \<Rightarrow> 'k reactor \<Rightarrow> int \<times> 'k reactor" where
  "register_handler_eh get_handle opt eh m r =
     (if eh = null \<or> get_handle eh = invalid_handle \<or> m = null_mask then (-1, r)
      else register_handler_i opt (get_handle eh) eh m r)"

definition remove_handler :: "'k opt \<Rightarrow> 'k upcall_fun \<Rightarrow> int \<Rightarrow> mask \<Rightarrow> 'k reactor \<Rightarrow> (int \<times> 'k reactor) option" where
  "remove_handler opt up h m r =
     (if h = invalid_handle \<or> m = null_mask then Some (-1, r) else remove_handler_i opt up h m r)"

definition remove_handler_eh ::
  "(addr \<Rightarrow> int) \<Rightarrow> 'k opt \<Rightarrow> 'k upcall_fun \<Rightarrow> addr \<Rightarrow> mask \<Rightarrow> 'k reactor \<Rightarrow> (int \<times> 'k reactor) option" where
  "remove_handler_eh get_handle opt up eh m r =
     (if eh = null \<or> get_handle eh = invalid_handle \<or> m = null_mask then Some (-1, r)
      else remove_handler_i opt up (get_handle eh) m r)"

definition suspend_handler :: "'k opt \<Rightarrow> int \<Rightarrow> 'k reactor \<Rightarrow> int \<times> 'k reactor" where
  "suspend_handler opt h r = (if h = invalid_handle then (-1, r) else suspend_handler_i opt h r)"

definition suspend_handler_eh :: "(addr \<Rightarrow> int) \<Rightarrow> 'k opt \<Rightarrow> addr \<Rightarrow> 'k reactor \<Rightarrow> int \<times> 'k reactor" where
  "suspend_handler_eh get_handle opt eh r = (if eh = null then (-1, r) else suspend_handler_i opt (get_handle eh) r)"

definition resume_handler :: "'k opt \<Rightarrow> int \<Rightarrow> 'k reactor \<Rightarrow> int \<times> 'k reactor" where
  "resume_handler opt h r = (if h = invalid_handle then (-1, r) else resume_handler_i opt h r)"

definition resume_handler_eh :: "(addr \<Rightarrow> int) \<Rightarrow> 'k opt \<Rightarrow> addr \<Rightarrow> 'k reactor \<Rightarrow> int \<times> 'k reactor" where
  "resume_handler_eh get_handle opt eh r = (if eh = null then (-1, r) else resume_handler_i opt (get_handle eh) r)"

section \<open>Callbacks\<close>

datatype call = Register int addr mask | Remove int mask | Suspend int | Resume int

datatype prog = Return int | Call call "int \<Rightarrow> prog"

type_synonym handlers = "upcall list \<Rightarrow> prog"

definition perform :: "'k opt \<Rightarrow> 'k upcall_fun \<Rightarrow> call \<Rightarrow> 'k reactor \<Rightarrow> (int \<times> 'k reactor) option" where
  "perform opt up c r =
     (case c of
        Register h eh m \<Rightarrow> Some (register_handler opt h eh m r)
      | Remove h m \<Rightarrow> remove_handler opt up h m r
      | Suspend h \<Rightarrow> Some (suspend_handler opt h r)
      | Resume h \<Rightarrow> Some (resume_handler opt h r))"

lemma remove_handler_mono [partial_function_mono]:
  assumes "\<And>u s. mono_option (\<lambda>f. up f u s)"
  shows "mono_option (\<lambda>f. remove_handler opt (up f) h m r)"
  unfolding remove_handler_def remove_handler_i_def Let_def
  by (intro partial_function_mono assms allI)

lemma perform_mono [partial_function_mono]:
  assumes "\<And>u s. mono_option (\<lambda>f. up f u s)"
  shows "mono_option (\<lambda>f. perform opt (up f) c r)"
  unfolding perform_def by (cases c) (auto intro!: partial_function_mono assms)

partial_function (option) run_prog :: "'k opt \<Rightarrow> handlers \<Rightarrow> prog \<Rightarrow> 'k reactor \<Rightarrow> (int \<times> 'k reactor) option" where
  "run_prog opt hs p r =
     (case p of
        Return v \<Rightarrow> Some (v, r)
      | Call c k \<Rightarrow>
          Option.bind (perform opt (\<lambda>u s. run_prog opt hs (hs (u # upcalls s)) (s\<lparr>upcalls := u # upcalls s\<rparr>)) c r)
            (\<lambda>vr. run_prog opt hs (k (fst vr)) (snd vr)))"

text \<open>An upcall: the callback's program runs, the upcall is recorded.\<close>

definition r_upcall :: "'k opt \<Rightarrow> handlers \<Rightarrow> 'k upcall_fun" where
  "r_upcall opt hs u r = run_prog opt hs (hs (u # upcalls r)) (r\<lparr>upcalls := u # upcalls r\<rparr>)"

lemma run_prog_Return [simp]: "run_prog opt hs (Return v) r = Some (v, r)"
  by (subst run_prog.simps) simp

lemma run_prog_Call:
  "run_prog opt hs (Call c k) r =
     Option.bind (perform opt (r_upcall opt hs) c r) (\<lambda>(v, r'). run_prog opt hs (k v) r')"
  by (subst run_prog.simps) (simp add: r_upcall_def [abs_def] case_prod_beta')

section \<open>Polling and dispatching\<close>

type_synonym 'k wait = "int \<Rightarrow> 'k \<Rightarrow> (errno + (int \<times> mask) list) \<times> 'k"

text \<open>\<^verbatim>\<open>poll_events\<close>: events left over from the last call come first. The kernel writes the ready events to
  the front of the array.\<close>

definition poll_events :: "'k wait \<Rightarrow> time_value option \<Rightarrow> 'k reactor \<Rightarrow> int \<times> 'k reactor" where
  "poll_events wait timeout r =
     (if start_pevents r \<noteq> end_pevents r then (1, r)
      else
       (let ms = (case timeout of None \<Rightarrow> -1 | Some t \<Rightarrow> sint (ucast (tv_msec t) :: 32 word));
            (res, k) = wait ms (kern r)
        in case res of
             Inl e \<Rightarrow> (-1, r\<lparr>kern := k, r_errno := Some e\<rparr>)
           | Inr evs \<Rightarrow>
               (let r1 = r\<lparr>kern := k, r_events := evs @ drop (length evs) (r_events r)\<rparr>;
                    nfds = int (length evs)
                in (nfds, if 0 < nfds then r1\<lparr>start_pevents := 0, end_pevents := length evs\<rparr> else r1))))"

definition process_limit :: nat where "process_limit = 32"

text \<open>The body of the loop of \<^verbatim>\<open>dispatch_io_events\<close> for one kind of event: clear its bit, make the upcall,
  remove the registration after a negative result, and go to the next event if no bit is left.\<close>

definition advance_event :: "'k reactor \<Rightarrow> 'k reactor" where
  "advance_event r = r\<lparr>start_pevents := Suc (start_pevents r)\<rparr>"

definition dispatch_bit :: "'k ctl \<Rightarrow> handlers \<Rightarrow> int \<Rightarrow> mask \<Rightarrow> mask \<Rightarrow> upcall \<Rightarrow> mask \<Rightarrow> 'k reactor \<Rightarrow> 'k reactor option" where
  "dispatch_bit ctl hs fd ev b u m r =
     (let i = start_pevents r;
          r1 = r\<lparr>r_events := (r_events r)[i := (fd, clr_bits_of ev b)]\<rparr>
      in Option.bind (r_upcall (handle_opt_i ctl) hs u r1) (\<lambda>(v, r2).
         Option.bind (if v < 0 then map_option snd (remove_handler_i (handle_opt_i ctl) (r_upcall (handle_opt_i ctl) hs) fd m r2) else Some r2) (\<lambda>r3.
           Some (if snd (r_events r3 ! start_pevents r3) = 0 then advance_event r3 else r3))))"

definition dispatch_event :: "'k ctl \<Rightarrow> handlers \<Rightarrow> addr \<Rightarrow> int \<Rightarrow> mask \<Rightarrow> 'k reactor \<Rightarrow> 'k reactor option" where
  "dispatch_event ctl hs eh fd ev r =
     (if bit_enabled ev EPOLLIN then dispatch_bit ctl hs fd ev EPOLLIN (HandleInput eh fd) read_mask r
      else if bit_enabled ev EPOLLOUT then dispatch_bit ctl hs fd ev EPOLLOUT (HandleOutput eh fd) write_mask r
      else if bit_enabled ev EPOLLPRI then dispatch_bit ctl hs fd ev EPOLLPRI (HandleException eh fd) except_mask r
      else if bit_enabled ev (EPOLLHUP OR EPOLLERR) then
        map_option (\<lambda>(_, r1). advance_event r1) (remove_handler_i (handle_opt_i ctl) (r_upcall (handle_opt_i ctl) hs) fd all_events_mask r)
      else Some (advance_event r))"

text \<open>The loop; an event behind the end of the array, which only a stale pointer into a deleted array
  can name, is a fault.\<close>

partial_function (option) dispatch_loop :: "'k ctl \<Rightarrow> handlers \<Rightarrow> nat \<Rightarrow> 'k reactor \<Rightarrow> 'k reactor option" where
  "dispatch_loop ctl hs n r =
     (if start_pevents r < end_pevents r \<and> n < process_limit then
        (if length (r_events r) \<le> start_pevents r then Some (r\<lparr>r_fault := Some OutOfBounds\<rparr>)
         else
          (let (fd, ev) = r_events r ! start_pevents r; eh = bound fd r
           in if eh = null then dispatch_loop ctl hs n (advance_event r)
              else Option.bind (dispatch_event ctl hs eh fd ev r) (dispatch_loop ctl hs (Suc n))))
      else Some r)"

definition dispatch_io_events :: "'k ctl \<Rightarrow> handlers \<Rightarrow> 'k reactor \<Rightarrow> (int \<times> 'k reactor) option" where
  "dispatch_io_events ctl hs r = map_option (\<lambda>r'. (0, r')) (dispatch_loop ctl hs 0 r)"

section \<open>The event loop\<close>

type_synonym 'k poll = "time_value option \<Rightarrow> 'k reactor \<Rightarrow> int \<times> 'k reactor"
type_synonym 'k dispatch = "'k reactor \<Rightarrow> (int \<times> 'k reactor) option"

definition poll_events_i :: "'k poll \<Rightarrow> time_value \<Rightarrow> time_value option \<Rightarrow> 'k reactor \<Rightarrow> int \<times> 'k reactor" where
  "poll_events_i poll now max_wait_time r =
     (let this_timeout = calculate_timeout_into now max_wait_time (Some tv_zero) (r_timers r);
          timers_pending = (this_timeout \<noteq> None \<and> max_wait_time = None)
            \<or> (this_timeout \<noteq> None \<and> max_wait_time \<noteq> None \<and> this_timeout \<noteq> max_wait_time);
          (nfds, r1) = poll this_timeout r;
          r2 = r1\<lparr>active_fds := nfds\<rparr>
      in (if nfds = 0 \<and> timers_pending then 1 else nfds, r2))"

definition dispatch_timer_handler ::
  "timeout_hook \<Rightarrow> close_hook \<Rightarrow> time_value \<Rightarrow> 'k reactor \<Rightarrow> (int \<times> 'k reactor) option" where
  "dispatch_timer_handler timeout close now r =
     map_option (\<lambda>(v, q). (v, r\<lparr>r_timers := q\<rparr>)) (expire timeout close now (r_timers r))"

definition dispatch_events ::
  "'k dispatch \<Rightarrow> timeout_hook \<Rightarrow> close_hook \<Rightarrow> time_value \<Rightarrow> 'k reactor \<Rightarrow> (int \<times> 'k reactor) option" where
  "dispatch_events io timeout close now r =
     Option.bind (dispatch_timer_handler timeout close now r) (\<lambda>(_, r1).
     Option.bind (io r1) (\<lambda>(_, r2). Some (0, r2)))"

text \<open>The loop of \<^verbatim>\<open>handle_events_i\<close> polls again after an interruption; \<open>clock\<close> gives the time of each
  successive reading of the clock.\<close>

partial_function (option) poll_loop ::
  "'k poll \<Rightarrow> (nat \<Rightarrow> time_value) \<Rightarrow> nat \<Rightarrow> time_value option \<Rightarrow> 'k reactor \<Rightarrow> (int \<times> nat \<times> 'k reactor) option" where
  "poll_loop poll clock i max_wait_time r =
     (let (v, r1) = poll_events_i poll (clock i) max_wait_time r
      in if v = -1 \<and> r_errno r1 = Some EINTR then poll_loop poll clock (Suc i) max_wait_time r1
         else Some (v, Suc i, r1))"

definition handle_events_i :: "'k poll \<Rightarrow> 'k dispatch \<Rightarrow> timeout_hook \<Rightarrow> close_hook \<Rightarrow> (nat \<Rightarrow> time_value)
    \<Rightarrow> time_value option \<Rightarrow> 'k reactor \<Rightarrow> (int \<times> 'k reactor) option" where
  "handle_events_i poll io timeout close clock max_wait_time r =
     Option.bind (poll_loop poll clock 0 max_wait_time r) (\<lambda>(v, i, r1).
       if 0 < v then dispatch_events io timeout close (clock i) r1 else Some (v, r1))"

section \<open>Opening and closing\<close>

definition reactor_new :: "'k \<Rightarrow> timer_queue \<Rightarrow> 'k reactor" where
  "reactor_new k q = \<lparr>r_size = 0, active_fds = 0, delete_timer_queue = 0, timer_queue_p = null, notify_handler = null,
     handler_rep = rep_new, initialized = False, epoll_fd = invalid_handle, r_events = [], start_pevents = 0,
     end_pevents = 0, r_errno = None, kern = k, r_timers = q, upcalls = [], deleted = [], r_fault = None\<rparr>"

definition delete_obj :: "addr \<Rightarrow> 'k reactor \<Rightarrow> 'k reactor" where
  "delete_obj a r = (if a = null then r else r\<lparr>deleted := a # deleted r\<rparr>)"

definition close_ii :: "'k reactor \<Rightarrow> int \<times> 'k reactor" where
  "close_ii r =
     (let r1 = (delete_obj (timer_queue_p r) r)\<lparr>timer_queue_p := null\<rparr>;
          r2 = (delete_obj (notify_handler r1) r1)\<lparr>notify_handler := null\<rparr>
      in (0, with_rep rep_close r2))"

text \<open>\<open>nh\<close> and \<open>ntq\<close> are the addresses of the notifier and of the timer queue created here,
  \<open>pipe\<close> the read end of the notifier's pipe if it could be opened.\<close>

definition open_ii :: "'k opt \<Rightarrow> addr \<Rightarrow> addr \<Rightarrow> int option \<Rightarrow> int \<Rightarrow> addr \<Rightarrow> 'k reactor \<Rightarrow> int \<times> 'k reactor" where
  "open_ii opt nh ntq pipe sz tq r =
     (let r1 = r\<lparr>timer_queue_p := tq, r_size := sz, notify_handler := nh\<rparr>;
          (v, p) = rep_open sz (handler_rep r1)
      in if v \<noteq> 0 then (-1, snd (close_ii r1))
         else
          (let r2 = r1\<lparr>handler_rep := p\<rparr>;
               r3 = (if timer_queue_p r2 = null then r2\<lparr>timer_queue_p := ntq, delete_timer_queue := 1\<rparr> else r2)
           in case pipe of
                None \<Rightarrow> (-1, snd (close_ii r3))
              | Some fd \<Rightarrow>
                  (let (v, r4) = register_handler_i opt fd nh read_mask r3
                   in if v = -1 then (-1, snd (close_ii r4)) else (0, r4))))"

definition close_i :: "'k reactor \<Rightarrow> int \<times> 'k reactor" where
  "close_i r = close_ii (r\<lparr>epoll_fd := invalid_handle, r_events := [], initialized := False\<rparr>)"

text \<open>\<open>max_handles\<close> is the limit of the process, \<open>create\<close> the result of \<^verbatim>\<open>epoll_create\<close> and \<open>k\<close> the new
  epoll instance, \<open>arr\<close> the uninitialised array of events.\<close>

definition open_i :: "'k ctl \<Rightarrow> int \<Rightarrow> (int \<times> mask) list \<Rightarrow> int \<Rightarrow> 'k \<Rightarrow> addr \<Rightarrow> addr \<Rightarrow> int option \<Rightarrow> addr
    \<Rightarrow> 'k reactor \<Rightarrow> int \<times> 'k reactor" where
  "open_i ctl max_handles arr create k nh ntq pipe tq r =
     (if initialized r then (-1, r)
      else if max_handles \<le> 0 then (-1, r)
      else
       (let r1 = r\<lparr>r_events := arr, epoll_fd := create\<rparr>
        in if create = invalid_handle then (-1, snd (close_i r1))
           else
            (let (v, r2) = open_ii (handle_opt_i ctl) nh ntq pipe max_handles tq (r1\<lparr>kern := k\<rparr>)
             in if v \<noteq> 0 then (-1, snd (close_i r2)) else (0, r2\<lparr>initialized := True\<rparr>))))"

end
