(* ===== verification/EpollReactor.thy ===== *)
theory EpollReactor
  imports Reactor Cron
begin

text \<open>
  The rest of the front end of \<^verbatim>\<open>epoll_reactor\<close> (\<^verbatim>\<open>ndk/epoll_reactor.inl\<close>): the timer operations. The
  thread-safe specialisation makes the same checks and calls under a guard of the reactor's token; it is not
  modelled (the token is, in \<open>Token\<close>).
\<close>

section \<open>Timers of the reactor\<close>

text \<open>Each operation refuses bad arguments and a reactor without a timer queue, and otherwise is the
  operation of the queue.\<close>

definition on_timers :: "(timer_queue \<Rightarrow> int \<times> timer_queue) \<Rightarrow> 'k reactor \<Rightarrow> int \<times> 'k reactor" where
  "on_timers f r = (let (v, q) = f (r_timers r) in (v, r\<lparr>r_timers := q\<rparr>))"

definition schedule_timer :: "time_value \<Rightarrow> addr \<Rightarrow> addr \<Rightarrow> time_value \<Rightarrow> time_value \<Rightarrow> 'k reactor \<Rightarrow> int \<times> 'k reactor" where
  "schedule_timer now eh arg delay interval r =
     (if timer_queue_p r = null \<or> eh = null then (-1, r) else on_timers (schedule now eh arg delay interval) r)"

definition crontab_timer :: "(time_value \<Rightarrow> time_value \<Rightarrow> timer_queue \<Rightarrow> int \<times> timer_queue) \<Rightarrow> int \<Rightarrow> time_value
    \<Rightarrow> addr \<Rightarrow> addr \<Rightarrow> string option \<Rightarrow> 'k reactor \<Rightarrow> (int \<times> 'k reactor) faulty_result" where
  "crontab_timer sched sec now eh arg entry r =
     (if timer_queue_p r = null \<or> eh = null \<or> entry = None then Inr (-1, r)
      else (case crontab sched sec now eh arg entry (r_timers r) of
              Inl f \<Rightarrow> Inl f | Inr (v, q) \<Rightarrow> Inr (v, r\<lparr>r_timers := q\<rparr>)))"

definition reset_crontab_timer :: "int \<Rightarrow> string option \<Rightarrow> 'k reactor \<Rightarrow> (int \<times> 'k reactor) faulty_result option" where
  "reset_crontab_timer timer_id entry r =
     (if timer_queue_p r = null \<or> timer_id = -1 \<or> entry = None then Some (Inr (-1, r))
      else (case reset_crontab timer_id (the entry) (r_timers r) of
              None \<Rightarrow> None | Some (Inl f) \<Rightarrow> Some (Inl f) | Some (Inr (v, q)) \<Rightarrow> Some (Inr (v, r\<lparr>r_timers := q\<rparr>))))"

definition reset_timer_interval :: "int \<Rightarrow> time_value \<Rightarrow> 'k reactor \<Rightarrow> int \<times> 'k reactor" where
  "reset_timer_interval timer_id interval r =
     (if timer_queue_p r = null \<or> timer_id < 0 then (-1, r) else on_timers (reset_interval timer_id interval) r)"

definition cancel_timer :: "close_hook \<Rightarrow> int \<Rightarrow> bool \<Rightarrow> 'k reactor \<Rightarrow> (int \<times> addr option \<times> 'k reactor) option" where
  "cancel_timer close timer_id dont_call_handle_close r =
     (if timer_queue_p r = null \<or> timer_id < 0 then Some (-1, None, r)
      else map_option (\<lambda>(v, arg, q). (v, arg, r\<lparr>r_timers := q\<rparr>)) (cancel close timer_id dont_call_handle_close (r_timers r)))"

definition cancel_timer_eh :: "close_hook \<Rightarrow> addr \<Rightarrow> bool \<Rightarrow> 'k reactor \<Rightarrow> (int \<times> 'k reactor) option" where
  "cancel_timer_eh close eh dont_call_handle_close r =
     (if timer_queue_p r = null \<or> eh = null then Some (-1, r)
      else map_option (\<lambda>(n, q). (int n, r\<lparr>r_timers := q\<rparr>)) (cancel_handler close eh dont_call_handle_close (r_timers r)))"

end
