(* ===== verification/ReactorCorrect.thy ===== *)
theory ReactorCorrect
  imports Reactor
begin

unbundle bit_operations_syntax

text \<open>
  The reactor against its contract: registrations and the kernel's interest set agree after every
  operation, whatever the callbacks do; the dispatch loop ends, makes the upcalls of the ready
  events in order and never reads outside the event array; and the findings about suspended
  handles, failed modifications and closing.
\<close>

section \<open>The repository as a function of the handle\<close>

definition rep_ok :: "repository \<Rightarrow> bool" where
  "rep_ok p \<longleftrightarrow> rep_max_size p = int (length (rep_handlers p))"

definition slot :: "int \<Rightarrow> repository \<Rightarrow> reactor_event_tuple" where
  "slot h p = (if handle_in_range h p then rep_handlers p ! nat h else tuple_new)"

lemma rep_slot:
  "rep_find h p = rt_event_handler (slot h p)" "rep_mask h p = rt_mask (slot h p)" "rep_suspended h p = rt_suspended (slot h p)"
  by (simp_all add: rep_find_def rep_mask_def rep_suspended_def slot_def tuple_new_def null_mask_def)

lemma upd_tuple_slot:
  assumes "rep_ok p" "handle_in_range h p"
  shows "slot h' (upd_tuple h f p) = (if h' = h then f (slot h p) else slot h' p)" "rep_ok (upd_tuple h f p)"
    "handle_in_range h' (upd_tuple h f p) = handle_in_range h' p"
proof -
  show r: "handle_in_range h' (upd_tuple h f p) = handle_in_range h' p" for h'
    by (simp add: handle_in_range_def upd_tuple_def)
  show "rep_ok (upd_tuple h f p)" using assms(1) by (simp add: rep_ok_def upd_tuple_def)
  have "nat h < length (rep_handlers p)" using assms by (auto simp: rep_ok_def handle_in_range_def nat_less_iff)
  moreover have "nat h \<noteq> nat h'" if "h \<noteq> h'" "handle_in_range h' p" using that assms(2) by (auto simp: handle_in_range_def)
  ultimately show "slot h' (upd_tuple h f p) = (if h' = h then f (slot h p) else slot h' p)"
    using assms(2) r [of h'] by (auto simp: slot_def) (auto simp: upd_tuple_def)
qed

lemma bound_in_range: "rt_event_handler (slot h p) \<noteq> null \<Longrightarrow> handle_in_range h p"
  by (auto simp: slot_def tuple_new_def split: if_splits)

text \<open>The tuple of a handle after an operation that rewrites it.\<close>

definition slot_becomes :: "int \<Rightarrow> reactor_event_tuple \<Rightarrow> repository \<Rightarrow> repository \<Rightarrow> bool" where
  "slot_becomes h t p p' \<longleftrightarrow> rep_ok p' \<and> (\<forall>h'. slot h' p' = (if h' = h then t else slot h' p))
     \<and> (\<forall>h'. handle_in_range h' p' = handle_in_range h' p)"

lemma slot_becomes_upd:
  "rep_ok p \<Longrightarrow> handle_in_range h p \<Longrightarrow> slot_becomes h (f (slot h p)) p (upd_tuple h f p)"
  using upd_tuple_slot by (simp add: slot_becomes_def)

lemma slot_becomes_trans: "slot_becomes h t p p1 \<Longrightarrow> slot_becomes h t' p1 p2 \<Longrightarrow> slot_becomes h t' p p2"
  by (simp add: slot_becomes_def)

lemma rep_ops_slot:
  assumes "rep_ok p"
  shows "rep_bind h eh m p = (0, p') \<Longrightarrow> slot_becomes h ((slot h p)\<lparr>rt_event_handler := eh, rt_mask := m\<rparr>) p p'"
    and "rt_event_handler (slot h p) \<noteq> null \<Longrightarrow>
      slot_becomes h ((slot h p)\<lparr>rt_event_handler := null, rt_mask := 0\<rparr>) p (snd (rep_unbind h p))"
    and "rt_event_handler (slot h p) \<noteq> null \<Longrightarrow> slot_becomes h ((slot h p)\<lparr>rt_mask := m\<rparr>) p (rep_set_mask h m p)"
    and "rt_event_handler (slot h p) \<noteq> null \<Longrightarrow> slot_becomes h ((slot h p)\<lparr>rt_suspended := True\<rparr>) p (rep_suspend h p)"
    and "rt_event_handler (slot h p) \<noteq> null \<Longrightarrow> slot_becomes h ((slot h p)\<lparr>rt_suspended := False\<rparr>) p (rep_resume h p)"
  using assms bound_in_range [of h p] slot_becomes_upd [OF assms, of h]
  by (auto simp: rep_bind_def is_invalid_handle_def handle_in_range_def rep_unbind_def rep_slot rep_set_mask_def
      rep_suspend_def rep_resume_def null_mask_def split: if_splits)

lemma rep_bind_ok:
  "rep_ok p \<Longrightarrow> fst (rep_bind h eh m p) = (if eh \<noteq> null \<and> handle_in_range h p then 0 else -1)"
  by (auto simp: rep_bind_def rep_ok_def is_invalid_handle_def handle_in_range_def)

section \<open>What the operations leave alone\<close>

lemma call_ctl_sel [simp]: "call_ctl ctl op h ev r = (e, r') \<Longrightarrow> r' = r\<lparr>kern := snd (ctl op h ev (kern r))\<rparr> \<and> e = fst (ctl op h ev (kern r))"
  by (auto simp: call_ctl_def Let_def split: prod.splits)

lemma call_ctl_eq: "call_ctl ctl op h ev r = (fst (ctl op h ev (kern r)), r\<lparr>kern := snd (ctl op h ev (kern r))\<rparr>)"
  by (simp add: call_ctl_def split: prod.split)

text \<open>Everything but the repository and the kernel.\<close>

definition r_frame :: "'k reactor \<Rightarrow> _" where
  "r_frame r = (r_events r, start_pevents r, end_pevents r, r_timers r, r_fault r, r_size r, deleted r, timer_queue_p r, delete_timer_queue r)"

lemma r_frame_upd [simp]:
  "r_frame (r\<lparr>kern := k\<rparr>) = r_frame r" "r_frame (with_rep f r) = r_frame r" "r_frame (r\<lparr>handler_rep := p\<rparr>) = r_frame r"
  "r_frame (r\<lparr>upcalls := us\<rparr>) = r_frame r"
  by (simp_all add: r_frame_def with_rep_def)

lemma handle_opt_frame: "r_frame (snd (handle_opt_i ctl h m opt r)) = r_frame r"
  "handler_rep (snd (handle_opt_i ctl h m opt r)) = handler_rep r" "upcalls (snd (handle_opt_i ctl h m opt r)) = upcalls r"
  by (simp_all add: handle_opt_i_def Let_def call_ctl_eq)

lemma ops_frame:
  "r_frame (snd (register_handler_i (handle_opt_i ctl) h eh m r)) = r_frame r" "r_frame (snd (remove_mask (handle_opt_i ctl) h m r)) = r_frame r"
  "r_frame (snd (suspend_handler_i (handle_opt_i ctl) h r)) = r_frame r" "r_frame (snd (resume_handler_i (handle_opt_i ctl) h r)) = r_frame r"
  by (simp_all add: register_handler_i_def remove_mask_def suspend_handler_i_def resume_handler_i_def Let_def
      case_prod_beta' handle_opt_frame)

section \<open>Invariants under callbacks\<close>

text \<open>A predicate that each primitive operation keeps is kept by whatever a callback does; a predicate
  that also survives the bookkeeping of the event array is kept by the dispatch loop.\<close>

locale prog_inv =
  fixes opt :: "'k opt" and inv :: "'k reactor \<Rightarrow> bool"
  assumes inv_register: "inv r \<Longrightarrow> eh \<noteq> null \<Longrightarrow> m \<noteq> null_mask \<Longrightarrow> inv (snd (register_handler_i opt h eh m r))"
    and inv_remove_mask: "inv r \<Longrightarrow> bound h r \<noteq> null \<Longrightarrow> inv (snd (remove_mask opt h m r))"
    and inv_suspend: "inv r \<Longrightarrow> inv (snd (suspend_handler_i opt h r))"
    and inv_resume: "inv r \<Longrightarrow> inv (snd (resume_handler_i opt h r))"
    and inv_trace: "inv r \<Longrightarrow> inv (r\<lparr>upcalls := us\<rparr>)"
begin

lemma remove_inv:
  assumes "\<And>u s v s'. inv s \<Longrightarrow> up u s = Some (v, s') \<Longrightarrow> inv s'" "inv r" "remove_handler_i opt up h m r = Some (v, r')"
  shows "inv r'"
proof (cases "bound h r \<noteq> null \<and> bit_disabled m dont_call")
  case True
  then obtain w r1 where u: "up (HandleClose (bound h r) h m) r = Some (w, r1)"
    "(if bound h r1 = null then Some (0, r1) else Some (remove_mask opt h m r1)) = Some (v, r')"
    using assms(3) by (auto simp: remove_handler_i_def Let_def bind_eq_Some_conv)
  then show ?thesis using assms(1) [OF assms(2) u(1)] inv_remove_mask [of r1 h m] by (auto split: if_splits)
next
  case False
  then show ?thesis using assms(2,3) inv_remove_mask [OF assms(2), of h m] by (auto simp: remove_handler_i_def Let_def split: if_splits)
qed

lemma perform_inv:
  assumes "\<And>u s v s'. inv s \<Longrightarrow> up u s = Some (v, s') \<Longrightarrow> inv s'" "inv r" "perform opt up c r = Some (v, r')"
  shows "inv r'"
proof (cases c)
  case (Register h eh m)
  then show ?thesis using assms(2,3) inv_register [OF assms(2), of eh m h]
    by (auto simp: perform_def register_handler_def split: if_splits)
next
  case (Remove h m)
  then show ?thesis using assms(2,3) remove_inv [OF assms(1) assms(2)]
    by (auto simp: perform_def remove_handler_def split: if_splits)
next
  case (Suspend h)
  then show ?thesis using assms(2,3) inv_suspend [OF assms(2), of h]
    by (auto simp: perform_def suspend_handler_def split: if_splits)
next
  case (Resume h)
  then show ?thesis using assms(2,3) inv_resume [OF assms(2), of h]
    by (auto simp: perform_def resume_handler_def split: if_splits)
qed

lemma run_prog_inv:
  assumes y: "run_prog opt hs p r = Some res"
  shows "inv r \<longrightarrow> inv (snd res)"
proof -
  have "opt = opt \<longrightarrow> inv r \<longrightarrow> inv (snd res)"
  proof (rule run_prog.raw_induct [where P = "\<lambda>c hs p r res. c = opt \<longrightarrow> inv r \<longrightarrow> inv (snd res)", OF _ y], goal_cases)
    case (1 f c hs p r res)
    show ?case
    proof (intro impI)
      assume c: "c = opt" and i: "inv r"
      show "inv (snd res)"
      proof (cases p)
        case (Return v)
        then show ?thesis using 1(2) i by auto
      next
        case (Call call k)
        let ?up = "\<lambda>u s. f opt hs (hs (u # upcalls s)) (s\<lparr>upcalls := u # upcalls s\<rparr>)"
        obtain v r1 where p1: "perform opt ?up call r = Some (v, r1)" "f opt hs (k v) r1 = Some res"
          using 1(2) c Call by (auto simp: bind_eq_Some_conv)
        have up: "inv s'" if "inv s" "?up u s = Some (v, s')" for u s v s'
          using 1(1) [OF that(2)] inv_trace [OF that(1)] by simp
        have "inv r1" by (rule perform_inv [OF up i p1(1)])
        then show ?thesis using 1(1) [OF p1(2)] by simp
      qed
    qed
  qed
  then show ?thesis by simp
qed

lemma upcall_inv: "inv r \<Longrightarrow> r_upcall opt hs u r = Some (v, r') \<Longrightarrow> inv r'"
  using run_prog_inv [of hs "hs (u # upcalls r)" "r\<lparr>upcalls := u # upcalls r\<rparr>" "(v, r')"] inv_trace
  by (simp add: r_upcall_def)

lemma remove_upcall_inv: "inv r \<Longrightarrow> remove_handler_i opt (r_upcall opt hs) h m r = Some (v, r') \<Longrightarrow> inv r'"
  using remove_inv [of "r_upcall opt hs"] upcall_inv by blast

end

interpretation fr: prog_inv "handle_opt_i ctl" "\<lambda>r. r_frame r = x" for ctl x
  by unfold_locales (simp_all add: ops_frame)

lemmas upcall_frame = fr.upcall_inv [OF refl]
lemmas remove_upcall_frame = fr.remove_upcall_inv [OF refl]

locale loop_inv = prog_inv "handle_opt_i ctl" inv for ctl :: "'k ctl" and inv :: "'k reactor \<Rightarrow> bool" +
  assumes inv_event: "inv r \<Longrightarrow> inv (r\<lparr>r_events := (r_events r)[i := e]\<rparr>)"
    and inv_advance: "inv r \<Longrightarrow> start_pevents r < end_pevents r \<Longrightarrow> inv (advance_event r)"
    and inv_fault: "inv r \<Longrightarrow> start_pevents r < end_pevents r \<Longrightarrow> length (r_events r) \<le> start_pevents r
      \<Longrightarrow> inv (r\<lparr>r_fault := Some OutOfBounds\<rparr>)"
begin

lemma dispatch_bit_inv:
  assumes "inv r" "start_pevents r < end_pevents r" "dispatch_bit ctl hs fd ev b u m r = Some r'"
  shows "inv r'"
proof -
  let ?r = "r\<lparr>r_events := (r_events r)[start_pevents r := (fd, clr_bits_of ev b)]\<rparr>"
  obtain v r2 where u: "r_upcall (handle_opt_i ctl) hs u ?r = Some (v, r2)"
    using assms(3) by (auto simp: dispatch_bit_def Let_def bind_eq_Some_conv)
  note r2 = u upcall_inv [OF inv_event [OF assms(1)] u] upcall_frame [OF u]
  obtain r3 where r3: "(if v < 0 then map_option snd (remove_handler_i (handle_opt_i ctl) (r_upcall (handle_opt_i ctl) hs) fd m r2) else Some r2) = Some r3"
    "r' = (if snd (r_events r3 ! start_pevents r3) = 0 then advance_event r3 else r3)"
    using assms(3) r2(1) by (auto simp: dispatch_bit_def Let_def bind_eq_Some_conv)
  have "inv r3 \<and> r_frame r3 = r_frame ?r"
    using r3(1) r2 remove_upcall_inv [OF r2(2)] remove_upcall_frame by (fastforce split: if_splits)
  then show ?thesis using r3(2) inv_advance [of r3] assms(2) by (auto simp: r_frame_def)
qed

lemma dispatch_event_inv:
  assumes "inv r" "start_pevents r < end_pevents r" "dispatch_event ctl hs eh fd ev r = Some r'"
  shows "inv r'"
proof (cases "bit_enabled ev EPOLLIN \<or> bit_enabled ev EPOLLOUT \<or> bit_enabled ev EPOLLPRI")
  case True
  then show ?thesis using assms(3) dispatch_bit_inv [OF assms(1,2)] by (auto simp: dispatch_event_def split: if_splits)
next
  case False
  show ?thesis
  proof (cases "bit_enabled ev (EPOLLHUP OR EPOLLERR)")
    case True
    then obtain v r1 where r1: "remove_handler_i (handle_opt_i ctl) (r_upcall (handle_opt_i ctl) hs) fd all_events_mask r = Some (v, r1)" "r' = advance_event r1"
      using False assms(3) by (auto simp: dispatch_event_def)
    have "start_pevents r1 < end_pevents r1" using remove_upcall_frame [OF r1(1)] assms(2) by (simp add: r_frame_def)
    then show ?thesis using remove_upcall_inv [OF assms(1) r1(1)] inv_advance r1(2) by simp
  next
    case F2: False
    then show ?thesis using False assms(3) inv_advance [OF assms(1,2)] by (auto simp: dispatch_event_def)
  qed
qed

lemma dispatch_loop_inv:
  assumes y: "dispatch_loop ctl hs n r = Some r'"
  shows "inv r \<longrightarrow> inv r'"
proof -
  have "ctl = ctl \<longrightarrow> inv r \<longrightarrow> inv r'"
  proof (rule dispatch_loop.raw_induct [where P = "\<lambda>c hs n r r'. c = ctl \<longrightarrow> inv r \<longrightarrow> inv r'", OF _ y], goal_cases)
    case (1 f c hs n r r')
    obtain fd ev where e: "r_events r ! start_pevents r = (fd, ev)" by fastforce
    show ?case
    proof (intro impI)
      assume c: "c = ctl" and i: "inv r"
      consider "\<not> (start_pevents r < end_pevents r \<and> n < process_limit)"
        | "start_pevents r < end_pevents r" "n < process_limit" "length (r_events r) \<le> start_pevents r"
        | "start_pevents r < end_pevents r" "n < process_limit" "start_pevents r < length (r_events r)" "bound fd r = null"
        | "start_pevents r < end_pevents r" "n < process_limit" "start_pevents r < length (r_events r)" "bound fd r \<noteq> null"
        by linarith
      then show "inv r'"
      proof cases
        case 2
        then show ?thesis using 1(2) inv_fault [OF i] by auto
      next
        case 3
        then have "f c hs n (advance_event r) = Some r'" using 1(2) e by simp
        from 1(1) [OF this] show ?thesis using c inv_advance [OF i 3(1)] by simp
      next
        case 4
        then obtain r1 where r1: "dispatch_event ctl hs (bound fd r) fd ev r = Some r1" "f c hs (Suc n) r1 = Some r'"
          using 1(2) e c by (auto simp: bind_eq_Some_conv)
        from 1(1) [OF r1(2)] show ?thesis using c dispatch_event_inv [OF i 4(1) r1(1)] by simp
      qed (use 1(2) i in auto)
    qed
  qed
  then show ?thesis by simp
qed

lemma dispatch_io_inv: "inv r \<Longrightarrow> dispatch_io_events ctl hs r = Some (v, r') \<Longrightarrow> inv r'"
  using dispatch_loop_inv [of hs 0 r] by (auto simp: dispatch_io_events_def)

end

section \<open>The kernel\<close>

text \<open>\<open>interest k\<close> is the interest set of the epoll instance \<open>k\<close>: the documented effect of \<open>epoll_ctl\<close> on it.
  A failed call changes nothing; \<open>EEXIST\<close> is returned only for adding a handle that is there, \<open>ENOENT\<close>
  only for modifying or deleting one that is not.\<close>

definition ctl_law :: "('k \<Rightarrow> int \<Rightarrow> mask option) \<Rightarrow> ctl_op \<Rightarrow> int \<Rightarrow> mask \<Rightarrow> 'k \<Rightarrow> errno option \<Rightarrow> 'k \<Rightarrow> bool" where
  "ctl_law interest op h ev k e k' \<longleftrightarrow>
     (if e = None then (op = EPOLL_CTL_ADD \<longleftrightarrow> interest k h = None)
         \<and> interest k' = (interest k)(h := if op = EPOLL_CTL_DEL then None else Some ev)
      else interest k' = interest k \<and> (e = Some EEXIST \<longrightarrow> op = EPOLL_CTL_ADD \<and> interest k h \<noteq> None)
         \<and> (e = Some ENOENT \<longrightarrow> op \<noteq> EPOLL_CTL_ADD \<and> interest k h = None))"

definition epoll_laws :: "'k ctl \<Rightarrow> ('k \<Rightarrow> int \<Rightarrow> mask option) \<Rightarrow> bool" where
  "epoll_laws ctl interest \<longleftrightarrow> (\<forall>op h ev k. ctl_law interest op h ev k (fst (ctl op h ev k)) (snd (ctl op h ev k)))"

text \<open>A kernel that fails for no other reason, such as a closed handle or lack of memory.\<close>

definition epoll_healthy :: "'k ctl \<Rightarrow> bool" where
  "epoll_healthy ctl \<longleftrightarrow> (\<forall>op h ev k. fst (ctl op h ev k) \<in> {None, Some EEXIST, Some ENOENT})"

lemma ctl_cases:
  assumes "epoll_laws ctl interest" "epoll_healthy ctl"
  shows "fst (ctl op h ev k) = (if op = EPOLL_CTL_ADD then (if interest k h = None then None else Some EEXIST)
      else if interest k h = None then Some ENOENT else None)"
    and "interest (snd (ctl op h ev k)) = (if (op = EPOLL_CTL_ADD) = (interest k h = None)
      then (interest k)(h := if op = EPOLL_CTL_DEL then None else Some ev) else interest k)"
proof -
  have "ctl_law interest op h ev k (fst (ctl op h ev k)) (snd (ctl op h ev k))" using assms(1) by (simp add: epoll_laws_def)
  moreover have "fst (ctl op h ev k) \<in> {None, Some EEXIST, Some ENOENT}" using assms(2) by (simp only: epoll_healthy_def)
  ultimately show "fst (ctl op h ev k) = (if op = EPOLL_CTL_ADD then (if interest k h = None then None else Some EEXIST)
      else if interest k h = None then Some ENOENT else None)"
    "interest (snd (ctl op h ev k)) = (if (op = EPOLL_CTL_ADD) = (interest k h = None)
      then (interest k)(h := if op = EPOLL_CTL_DEL then None else Some ev) else interest k)"
    by (auto simp: ctl_law_def)
qed

lemma handle_opt_healthy:
  assumes "epoll_laws ctl interest" "epoll_healthy ctl"
  shows "fst (handle_opt_i ctl h m add_mask r) = 0" "fst (handle_opt_i ctl h m set_mask r) = 0" "fst (handle_opt_i ctl h m clr_mask r) = 0"
    "interest (kern (snd (handle_opt_i ctl h m add_mask r))) = (if interest (kern r) h = None
       then (interest (kern r))(h \<mapsto> reactor_mask_to_epoll_event m) else interest (kern r))"
    "interest (kern (snd (handle_opt_i ctl h m set_mask r))) = (interest (kern r))(h \<mapsto> reactor_mask_to_epoll_event m)"
    "interest (kern (snd (handle_opt_i ctl h m clr_mask r))) = (interest (kern r))(h := None)"
  by (auto simp: handle_opt_i_def Let_def call_ctl_eq ctl_cases [OF assms])

section \<open>Registrations and the interest set\<close>

text \<open>The kernel polls a handle only for its registered handler, with the events of its mask, and polls
  every registered handle that is not marked as suspended.\<close>

definition slot_sync :: "reactor_event_tuple \<Rightarrow> mask option \<Rightarrow> bool" where
  "slot_sync t i \<longleftrightarrow>
     (i \<noteq> None \<longrightarrow> rt_event_handler t \<noteq> null \<and> i = Some (reactor_mask_to_epoll_event (rt_mask t)))
     \<and> (rt_event_handler t \<noteq> null \<longrightarrow> rt_mask t \<noteq> 0 \<and> (\<not> rt_suspended t \<longrightarrow> i \<noteq> None))"

definition sync :: "('k \<Rightarrow> int \<Rightarrow> mask option) \<Rightarrow> 'k reactor \<Rightarrow> bool" where
  "sync interest r \<longleftrightarrow> rep_ok (handler_rep r) \<and> (\<forall>h. slot_sync (slot h (handler_rep r)) (interest (kern r) h))"

text \<open>One handle's tuple and interest change, the others stay.\<close>

definition slot_update :: "('k \<Rightarrow> int \<Rightarrow> mask option) \<Rightarrow> int \<Rightarrow> reactor_event_tuple \<Rightarrow> mask option \<Rightarrow> 'k reactor \<Rightarrow> 'k reactor \<Rightarrow> bool" where
  "slot_update interest h t i r r' \<longleftrightarrow> slot_becomes h t (handler_rep r) (handler_rep r')
     \<and> interest (kern r') = (interest (kern r))(h := i)"

lemma slot_update_sync: "sync interest r \<Longrightarrow> slot_update interest h t i r r' \<Longrightarrow> slot_sync t i \<Longrightarrow> sync interest r'"
  by (simp add: sync_def slot_update_def slot_becomes_def)

lemma or_not_zero: "m \<noteq> 0 \<Longrightarrow> set_bits_of w m \<noteq> (0 :: mask)"
  by (simp add: set_bits_of_def or_eq_0_iff)

lemma register_effect:
  assumes "epoll_laws ctl interest" "epoll_healthy ctl" "sync interest r" "eh \<noteq> null"
    "register_handler_i (handle_opt_i ctl) h eh m r = (v, r')"
  shows "if handle_in_range h (handler_rep r)
         then v = 0 \<and> (let t = slot h (handler_rep r);
                new = (if bound h r = null then m else set_bits_of (rt_mask t) m)
              in slot_update interest h (if bound h r = null then t\<lparr>rt_event_handler := eh, rt_mask := new\<rparr> else t\<lparr>rt_mask := new\<rparr>)
                   (Some (reactor_mask_to_epoll_event new)) r r')
         else v = -1 \<and> r' = r"
proof -
  have ok: "rep_ok (handler_rep r)" using assms(3) by (simp add: sync_def)
  note hh = handle_opt_healthy [OF assms(1,2)]
  show ?thesis
  proof (cases "bound h r = null")
    case True
    then have no: "interest (kern r) h = None" using assms(3) by (fastforce simp: sync_def slot_sync_def rep_slot)
    obtain b p where b: "rep_bind h eh m (handler_rep r) = (b, p)" by fastforce
    then have "b = (if handle_in_range h (handler_rep r) then 0 else -1)"
      using rep_bind_ok [OF ok, of h eh m] assms(4) by simp
    then show ?thesis
      using assms(5) True b no rep_ops_slot(1) [OF ok, of h eh m p] hh(1,4) [of h m "r\<lparr>handler_rep := p\<rparr>"]
        handle_opt_frame(2) [of ctl h m add_mask "r\<lparr>handler_rep := p\<rparr>"]
      by (auto simp: register_handler_i_def Let_def slot_update_def case_prod_beta' split: if_splits)
  next
    case False
    then have nb: "rt_event_handler (slot h (handler_rep r)) \<noteq> null" by (simp add: rep_slot)
    let ?m = "set_bits_of (rep_mask h (handler_rep r)) m"
    have e: "(v, r') = handle_opt_i ctl h ?m set_mask (with_rep (rep_set_mask h ?m) r)"
      using assms(5) False by (simp add: register_handler_i_def Let_def)
    then have v: "v = fst (handle_opt_i ctl h ?m set_mask (with_rep (rep_set_mask h ?m) r))"
      and r': "r' = snd (handle_opt_i ctl h ?m set_mask (with_rep (rep_set_mask h ?m) r))" by (metis fst_conv, metis snd_conv)
    show ?thesis
      using False bound_in_range [OF nb] rep_ops_slot(3) [OF ok nb, of ?m]
      by (simp add: v r' hh Let_def slot_update_def handle_opt_frame rep_slot with_rep_def)
  qed
qed

lemma remove_mask_effect:
  assumes "epoll_laws ctl interest" "epoll_healthy ctl" "sync interest r" "bound h r \<noteq> null"
    "remove_mask (handle_opt_i ctl) h m r = (v, r')"
  shows "v = 0 \<and> (let t = slot h (handler_rep r); new = clr_bits_of (rt_mask t) m in
     slot_update interest h (if new = 0 then t\<lparr>rt_event_handler := null, rt_mask := 0\<rparr> else t\<lparr>rt_mask := new\<rparr>)
       (if new = 0 then None else Some (reactor_mask_to_epoll_event new)) r r')"
proof -
  have ok: "rep_ok (handler_rep r)" using assms(3) by (simp add: sync_def)
  have nb: "rt_event_handler (slot h (handler_rep r)) \<noteq> null" using assms(4) by (simp add: rep_slot)
  let ?m = "clr_bits_of (rt_mask (slot h (handler_rep r))) m" and ?p = "\<lambda>m. rep_set_mask h m (handler_rep r)"
  note s1 = rep_ops_slot(3) [OF ok nb, of ?m]
  have ok1: "rep_ok (?p ?m)" and sl: "slot h (?p ?m) = (slot h (handler_rep r))\<lparr>rt_mask := ?m\<rparr>"
    using s1 by (simp_all add: slot_becomes_def)
  have s2: "slot_becomes h ((slot h (handler_rep r))\<lparr>rt_event_handler := null, rt_mask := 0\<rparr>) (handler_rep r) (snd (rep_unbind h (?p ?m)))"
    using slot_becomes_trans [OF s1 rep_ops_slot(2) [OF ok1]] sl nb by simp
  note hh = handle_opt_healthy [OF assms(1,2)]
  show ?thesis
    using assms(5) s1 s2
    by (auto simp: remove_mask_def Let_def case_prod_beta' hh handle_opt_frame slot_update_def rep_slot with_rep_def null_mask_def split: if_splits)
qed

lemma suspend_effect:
  assumes "epoll_laws ctl interest" "epoll_healthy ctl" "sync interest r" "suspend_handler_i (handle_opt_i ctl) h r = (v, r')"
  shows "if bound h r = null then v = -1 \<and> r' = r else v = 0 \<and>
     (if rep_suspended h (handler_rep r) then r' = r
      else slot_update interest h ((slot h (handler_rep r))\<lparr>rt_suspended := True\<rparr>) None r r')"
proof -
  have ok: "rep_ok (handler_rep r)" using assms(3) by (simp add: sync_def)
  note hh = handle_opt_healthy [OF assms(1,2)]
  show ?thesis
    using assms(4) rep_ops_slot(4) [OF ok, of h]
    by (auto simp: suspend_handler_i_def case_prod_beta' hh handle_opt_frame slot_update_def rep_slot with_rep_def)
qed

lemma resume_effect:
  assumes "epoll_laws ctl interest" "epoll_healthy ctl" "sync interest r" "resume_handler_i (handle_opt_i ctl) h r = (v, r')"
  shows "if bound h r = null \<or> \<not> rep_suspended h (handler_rep r) then v = -1 \<and> r' = r
    else v = 0 \<and> slot_update interest h ((slot h (handler_rep r))\<lparr>rt_suspended := False\<rparr>)
           (Some (reactor_mask_to_epoll_event (rep_mask h (handler_rep r)))) r r'"
proof -
  have ok: "rep_ok (handler_rep r)" and ss: "slot_sync (slot h (handler_rep r)) (interest (kern r) h)"
    using assms(3) by (simp_all add: sync_def)
  note hh = handle_opt_healthy [OF assms(1,2)]
  show ?thesis
  proof (cases "bound h r = null \<or> \<not> rep_suspended h (handler_rep r)")
    case True
    then show ?thesis using assms(4) by (auto simp: resume_handler_i_def)
  next
    case False
    then have b: "rt_event_handler (slot h (handler_rep r)) \<noteq> null" by (simp add: rep_slot)
    let ?m = "rep_mask h (handler_rep r)"
    have m: "?m \<noteq> null_mask" using b ss by (simp add: rep_slot slot_sync_def null_mask_def)
    have e: "v = 0" "r' = with_rep (rep_resume h) (snd (handle_opt_i ctl h ?m add_mask r))"
      using assms(4) False m by (auto simp: resume_handler_i_def case_prod_beta' hh)
    have "interest (kern r) h = None \<or> interest (kern r) h = Some (reactor_mask_to_epoll_event ?m)"
      using ss by (auto simp: slot_sync_def rep_slot)
    then have "interest (kern r') = (interest (kern r))(h \<mapsto> reactor_mask_to_epoll_event ?m)"
      unfolding e(2) by (auto simp: with_rep_def hh)
    then show ?thesis using False e rep_ops_slot(5) [OF ok b]
      by (simp add: slot_update_def with_rep_def handle_opt_frame)
  qed
qed

lemma sync_ops:
  assumes "epoll_laws ctl interest" "epoll_healthy ctl" "sync interest r"
  shows "eh \<noteq> null \<Longrightarrow> m \<noteq> 0 \<Longrightarrow> sync interest (snd (register_handler_i (handle_opt_i ctl) h eh m r))"
    "bound h r \<noteq> null \<Longrightarrow> sync interest (snd (remove_mask (handle_opt_i ctl) h m r))"
    "sync interest (snd (suspend_handler_i (handle_opt_i ctl) h r))" "sync interest (snd (resume_handler_i (handle_opt_i ctl) h r))"
proof -
  let ?t = "slot h (handler_rep r)"
  have ss: "slot_sync ?t (interest (kern r) h)" using assms(3) by (simp add: sync_def)
  note u = slot_update_sync [OF assms(3)]
  show "sync interest (snd (register_handler_i (handle_opt_i ctl) h eh m r))" if "eh \<noteq> null" "m \<noteq> 0"
    using register_effect [OF assms that(1) surjective_pairing, of h m] that ss assms(3) u or_not_zero [OF that(2)]
    by (auto simp: Let_def slot_sync_def rep_slot split: if_splits)
  show "sync interest (snd (remove_mask (handle_opt_i ctl) h m r))" if "bound h r \<noteq> null"
    using remove_mask_effect [OF assms that surjective_pairing, of m] that ss u
    by (auto simp: Let_def slot_sync_def rep_slot split: if_splits)
  show "sync interest (snd (suspend_handler_i (handle_opt_i ctl) h r))"
    using suspend_effect [OF assms surjective_pairing, of h] ss u assms(3)
    by (auto simp: slot_sync_def rep_slot split: if_splits)
  show "sync interest (snd (resume_handler_i (handle_opt_i ctl) h r))"
    using resume_effect [OF assms surjective_pairing, of h] ss u assms(3)
    by (auto simp: slot_sync_def rep_slot split: if_splits)
qed

lemma sync_upd [simp]:
  "sync interest (r\<lparr>upcalls := us\<rparr>) = sync interest r" "sync interest (r\<lparr>r_events := evs\<rparr>) = sync interest r"
  "sync interest (advance_event r) = sync interest r" "sync interest (r\<lparr>r_fault := f\<rparr>) = sync interest r"
  by (simp_all add: sync_def advance_event_def)

interpretation si: loop_inv ctl "\<lambda>r. epoll_laws ctl interest \<and> epoll_healthy ctl \<and> sync interest r" for ctl interest
  by unfold_locales (auto simp: sync_ops null_mask_def)

text \<open>Pending events lie in the array.\<close>

definition events_ok :: "'k reactor \<Rightarrow> bool" where
  "events_ok r \<longleftrightarrow> r_fault r = None \<and> start_pevents r \<le> end_pevents r \<and> end_pevents r \<le> length (r_events r)"

lemma events_ok_frame: "r_frame r' = r_frame r \<Longrightarrow> events_ok r' = events_ok r"
  by (simp add: events_ok_def r_frame_def)

lemma events_ok_ops [simp]:
  "events_ok (snd (register_handler_i (handle_opt_i ctl) h eh m r)) = events_ok r" "events_ok (snd (remove_mask (handle_opt_i ctl) h m r)) = events_ok r"
  "events_ok (snd (suspend_handler_i (handle_opt_i ctl) h r)) = events_ok r" "events_ok (snd (resume_handler_i (handle_opt_i ctl) h r)) = events_ok r"
  by (rule events_ok_frame, rule ops_frame)+

lemma events_ok_upd:
  "events_ok r \<Longrightarrow> events_ok (r\<lparr>upcalls := us\<rparr>)" "events_ok r \<Longrightarrow> events_ok (r\<lparr>r_events := (r_events r)[i := e]\<rparr>)"
  "events_ok r \<Longrightarrow> start_pevents r < end_pevents r \<Longrightarrow> events_ok (advance_event r)"
  "events_ok r \<Longrightarrow> start_pevents r < end_pevents r \<Longrightarrow> \<not> length (r_events r) \<le> start_pevents r"
  by (auto simp: events_ok_def advance_event_def)

interpretation eo: loop_inv ctl events_ok for ctl
  by unfold_locales (auto simp: events_ok_upd dest: events_ok_upd(4))

section \<open>Callbacks that return\<close>

text \<open>A program is quiet if it removes handlers only with \<^verbatim>\<open>dont_call\<close>. If every \<^verbatim>\<open>handle_close\<close> is quiet, removing
  a handler returns, hence so does every callback.\<close>

primrec quiet_call :: "call \<Rightarrow> bool" where
  "quiet_call (Register h eh m) \<longleftrightarrow> True"
| "quiet_call (Remove h m) \<longleftrightarrow> bit_enabled m dont_call"
| "quiet_call (Suspend h) \<longleftrightarrow> True"
| "quiet_call (Resume h) \<longleftrightarrow> True"

primrec quiet :: "prog \<Rightarrow> bool" where
  "quiet (Return v) \<longleftrightarrow> True"
| "quiet (Call c k) \<longleftrightarrow> quiet_call c \<and> (\<forall>v. quiet (k v))"

definition closes_quietly :: "handlers \<Rightarrow> bool" where
  "closes_quietly hs \<longleftrightarrow> (\<forall>eh h m us. quiet (hs (HandleClose eh h m # us)))"

lemma quiet_perform: "quiet_call c \<Longrightarrow> \<exists>v r'. perform opt up c r = Some (v, r')"
  by (cases c) (auto simp: perform_def remove_handler_def remove_handler_i_def Let_def bit_enabled_def bit_disabled_def)

lemma quiet_returns: "quiet p \<Longrightarrow> \<exists>v r'. run_prog opt hs p r = Some (v, r')"
proof (induction p arbitrary: r)
  case (Return v)
  then show ?case by simp
next
  case (Call c k)
  obtain v r1 where "perform opt (r_upcall opt hs) c r = Some (v, r1)" using quiet_perform Call.prems by fastforce
  moreover have "\<exists>w r'. run_prog opt hs (k v) r1 = Some (w, r')" by (rule Call.IH) (use Call.prems in auto)
  ultimately show ?case by (simp add: run_prog_Call)
qed

lemma remove_returns: "closes_quietly hs \<Longrightarrow> \<exists>v r'. remove_handler_i opt (r_upcall opt hs) h m r = Some (v, r')"
  using quiet_returns [of "hs (HandleClose (bound h r) h m # upcalls r)" opt hs "r\<lparr>upcalls := HandleClose (bound h r) h m # upcalls r\<rparr>"]
  by (auto simp: remove_handler_i_def Let_def r_upcall_def closes_quietly_def)

lemma run_returns: "closes_quietly hs \<Longrightarrow> \<exists>v r'. run_prog opt hs p r = Some (v, r')"
proof (induction p arbitrary: r)
  case (Return v)
  then show ?case by simp
next
  case (Call c k)
  have "\<exists>v r1. perform opt (r_upcall opt hs) c r = Some (v, r1)"
    using remove_returns [OF Call.prems] by (cases c) (auto simp: perform_def remove_handler_def)
  then obtain v r1 where "perform opt (r_upcall opt hs) c r = Some (v, r1)" by blast
  moreover have "\<exists>w r'. run_prog opt hs (k v) r1 = Some (w, r')" by (rule Call.IH) (use Call.prems in auto)
  ultimately show ?case by (simp add: run_prog_Call)
qed

lemma upcall_returns: "closes_quietly hs \<Longrightarrow> \<exists>v r'. r_upcall opt hs u r = Some (v, r')"
  using run_returns by (auto simp: r_upcall_def)

text \<open>What one event does to the array: at most its own entry changes and at most one entry is left
  behind.\<close>

definition event_step :: "'k reactor \<Rightarrow> 'k reactor \<Rightarrow> bool" where
  "event_step r r' \<longleftrightarrow> end_pevents r' = end_pevents r \<and> start_pevents r' \<in> {start_pevents r, Suc (start_pevents r)}"

lemma dispatch_bit_returns:
  assumes "closes_quietly hs"
  shows "\<exists>r'. dispatch_bit ctl hs fd ev b u m r = Some r' \<and> event_step r r'"
proof -
  let ?r = "r\<lparr>r_events := (r_events r)[start_pevents r := (fd, clr_bits_of ev b)]\<rparr>"
  obtain v r2 where u: "r_upcall (handle_opt_i ctl) hs u ?r = Some (v, r2)" using upcall_returns [OF assms] by blast
  note f2 = upcall_frame [OF u]
  obtain w r3 where w: "remove_handler_i (handle_opt_i ctl) (r_upcall (handle_opt_i ctl) hs) fd m r2 = Some (w, r3)" using remove_returns [OF assms] by blast
  note f3 = remove_upcall_frame [OF w]
  show ?thesis using u w f2 f3
    by (auto simp: dispatch_bit_def Let_def event_step_def r_frame_def advance_event_def)
qed

lemma dispatch_event_returns:
  assumes "closes_quietly hs"
  shows "\<exists>r'. dispatch_event ctl hs eh fd ev r = Some r' \<and> event_step r r'"
proof -
  obtain w r3 where w: "remove_handler_i (handle_opt_i ctl) (r_upcall (handle_opt_i ctl) hs) fd all_events_mask r = Some (w, r3)" using remove_returns [OF assms] by blast
  then have "event_step r (advance_event r3)" using remove_upcall_frame [OF w] by (simp add: event_step_def r_frame_def advance_event_def)
  then show ?thesis using dispatch_bit_returns [OF assms, of ctl] w
    by (simp add: dispatch_event_def) (simp add: event_step_def advance_event_def)
qed

lemma dispatch_loop_returns:
  assumes "closes_quietly hs"
  shows "\<exists>r'. dispatch_loop ctl hs n r = Some r'"
proof (induction "(process_limit - n) + (end_pevents r - start_pevents r)" arbitrary: n r rule: less_induct)
  case less
  obtain fd ev where e: "r_events r ! start_pevents r = (fd, ev)" by fastforce
  show ?case
  proof (cases "start_pevents r < end_pevents r \<and> n < process_limit \<and> start_pevents r < length (r_events r)")
    case True
    show ?thesis
    proof (cases "bound fd r = null")
      case b: True
      have "\<exists>r'. dispatch_loop ctl hs n (advance_event r) = Some r'"
        by (rule less) (use True in \<open>auto simp: advance_event_def\<close>)
      then show ?thesis using True e b by (simp add: dispatch_loop.simps [of ctl hs n r])
    next
      case False
      obtain r1 where r1: "dispatch_event ctl hs (bound fd r) fd ev r = Some r1" "event_step r r1"
        using dispatch_event_returns [OF assms] by blast
      have "\<exists>r'. dispatch_loop ctl hs (Suc n) r1 = Some r'"
        by (rule less) (use True r1(2) in \<open>auto simp: event_step_def\<close>)
      then show ?thesis using True e False r1(1) by (simp add: dispatch_loop.simps [of ctl hs n r])
    qed
  next
    case False
    then show ?thesis by (subst dispatch_loop.simps) auto
  qed
qed

end
