(* ===== verification/ReactorKernel.thy ===== *)
theory ReactorKernel
  imports ReactorCorrect
begin

unbundle bit_operations_syntax

text \<open>
  Registrations and the interest set under a kernel that may refuse calls and drop closed handles: what
  its documentation promises (\<open>kernel_laws\<close>), and that every operation keeps the agreement of
  registration and interest at each handle the kernel has not lost (\<open>sync_kept\<close>).
\<close>

text \<open>A kernel as the documentation of epoll has it. \<open>lost k\<close> are the handles whose entry has gone its own way
  since the instance was created: a call for it failed for another reason than \<^verbatim>\<open>EEXIST\<close> or \<^verbatim>\<open>ENOENT\<close> (\<^verbatim>\<open>EBADF\<close>,
  \<^verbatim>\<open>ENOMEM\<close>, \<^verbatim>\<open>ENOSPC\<close>, \<^verbatim>\<open>EPERM\<close>), or the kernel removed it because the handle was closed while it was registered. For
  every other handle \<open>epoll_ctl\<close> has its documented effect, and nothing else changes its entry.\<close>

definition kernel_laws :: "'k ctl \<Rightarrow> 'k wait \<Rightarrow> ('k \<Rightarrow> int \<Rightarrow> mask option) \<Rightarrow> ('k \<Rightarrow> int set) \<Rightarrow> bool" where
  "kernel_laws ctl wait interest lost \<longleftrightarrow>
     (\<forall>op h ev k. case ctl op h ev k of (e, k') \<Rightarrow> lost k \<subseteq> lost k'
        \<and> (\<forall>h'. h' \<noteq> h \<and> h' \<notin> lost k' \<longrightarrow> interest k' h' = interest k h')
        \<and> (h \<notin> lost k' \<longrightarrow>
             e = (if op = EPOLL_CTL_ADD then (if interest k h = None then None else Some EEXIST)
                  else if interest k h = None then Some ENOENT else None)
             \<and> interest k' h = (if e \<noteq> None then interest k h else if op = EPOLL_CTL_DEL then None else Some ev)))
     \<and> (\<forall>ms k. case wait ms k of (_, k') \<Rightarrow> lost k \<subseteq> lost k' \<and> (\<forall>h. h \<notin> lost k' \<longrightarrow> interest k' h = interest k h))"

definition only_at :: "('k \<Rightarrow> int \<Rightarrow> mask option) \<Rightarrow> ('k \<Rightarrow> int set) \<Rightarrow> int \<Rightarrow> 'k \<Rightarrow> 'k \<Rightarrow> bool" where
  "only_at interest lost h k k' \<longleftrightarrow> lost k \<subseteq> lost k' \<and> (\<forall>h'. h' \<noteq> h \<and> h' \<notin> lost k' \<longrightarrow> interest k' h' = interest k h')"

lemma only_at_refl [simp]: "only_at interest lost h k k"
  by (simp add: only_at_def)

lemma only_at_trans: "only_at interest lost h k k1 \<Longrightarrow> only_at interest lost h k1 k2 \<Longrightarrow> only_at interest lost h k k2"
  unfolding only_at_def by (metis subsetD subset_trans)

lemma ctl_only_at:
  assumes "kernel_laws ctl wait interest lost"
  shows "only_at interest lost h k (snd (ctl op h ev k))"
    "h \<notin> lost (snd (ctl op h ev k)) \<Longrightarrow> fst (ctl op h ev k) = (if op = EPOLL_CTL_ADD then (if interest k h = None then None else Some EEXIST)
      else if interest k h = None then Some ENOENT else None)"
    "h \<notin> lost (snd (ctl op h ev k)) \<Longrightarrow> interest (snd (ctl op h ev k)) h = (if fst (ctl op h ev k) \<noteq> None then interest k h
      else if op = EPOLL_CTL_DEL then None else Some ev)"
proof -
  obtain e k' where c: "ctl op h ev k = (e, k')" by fastforce
  have "case ctl op h ev k of (e, k') \<Rightarrow> lost k \<subseteq> lost k'
        \<and> (\<forall>h'. h' \<noteq> h \<and> h' \<notin> lost k' \<longrightarrow> interest k' h' = interest k h')
        \<and> (h \<notin> lost k' \<longrightarrow>
             e = (if op = EPOLL_CTL_ADD then (if interest k h = None then None else Some EEXIST)
                  else if interest k h = None then Some ENOENT else None)
             \<and> interest k' h = (if e \<noteq> None then interest k h else if op = EPOLL_CTL_DEL then None else Some ev))"
    using assms unfolding kernel_laws_def by (elim conjE allE)
  then show "only_at interest lost h k (snd (ctl op h ev k))"
    "h \<notin> lost (snd (ctl op h ev k)) \<Longrightarrow> fst (ctl op h ev k) = (if op = EPOLL_CTL_ADD then (if interest k h = None then None else Some EEXIST)
      else if interest k h = None then Some ENOENT else None)"
    "h \<notin> lost (snd (ctl op h ev k)) \<Longrightarrow> interest (snd (ctl op h ev k)) h = (if fst (ctl op h ev k) \<noteq> None then interest k h
      else if op = EPOLL_CTL_DEL then None else Some ev)"
    unfolding c only_at_def by simp_all
qed

lemma ctl_lost:
  "kernel_laws ctl wait interest lost \<Longrightarrow> h' \<notin> lost (snd (ctl op h ev k)) \<Longrightarrow> h' \<notin> lost k"
  using ctl_only_at(1) [of ctl wait interest lost h k op ev] by (auto simp: only_at_def)

text \<open>One change of the interest set, whatever the kernel answers; and its effect if the handle is not lost.\<close>

lemma handle_opt_only_at:
  assumes "kernel_laws ctl wait interest lost"
  shows "only_at interest lost h (kern r) (kern (snd (handle_opt_i ctl h m opt r)))"
proof -
  note o = ctl_only_at(1) [OF assms, where h = h]
  show ?thesis
    using o [where k = "kern r"] only_at_trans [OF o [where k = "kern r" and op = EPOLL_CTL_MOD and ev = "reactor_mask_to_epoll_event m"] o]
    by (simp add: handle_opt_i_def Let_def call_ctl_eq)
qed

lemma handle_opt_kept:
  assumes "kernel_laws ctl wait interest lost" "handle_opt_i ctl h m opt r = (v, r')" "h \<notin> lost (kern r')"
  shows "opt = add_mask \<Longrightarrow> v = 0 \<and> interest (kern r') h = (if interest (kern r) h = None then Some (reactor_mask_to_epoll_event m) else interest (kern r) h)"
    "opt = set_mask \<Longrightarrow> v = 0 \<and> interest (kern r') h = Some (reactor_mask_to_epoll_event m)"
    "opt = clr_mask \<Longrightarrow> v = 0 \<and> interest (kern r') h = None"
proof -
  note k = ctl_only_at(2,3) [OF assms(1)]
  show "v = 0 \<and> interest (kern r') h = (if interest (kern r) h = None then Some (reactor_mask_to_epoll_event m) else interest (kern r) h)"
    if "opt = add_mask"
    using assms(2,3) that k [where h = h and k = "kern r" and op = EPOLL_CTL_ADD] by (auto simp: handle_opt_i_def Let_def call_ctl_eq split: if_splits)
  show "v = 0 \<and> interest (kern r') h = None" if "opt = clr_mask"
    using assms(2,3) that k [where h = h and k = "kern r" and op = EPOLL_CTL_DEL] by (auto simp: handle_opt_i_def Let_def call_ctl_eq split: if_splits)
  show "v = 0 \<and> interest (kern r') h = Some (reactor_mask_to_epoll_event m)" if o: "opt = set_mask"
  proof -
    let ?ev = "reactor_mask_to_epoll_event m"
    let ?c = "ctl EPOLL_CTL_MOD h ?ev (kern r)"
    show ?thesis
    proof (cases "fst ?c = Some ENOENT")
      case True
      then have r': "v = (if fst (ctl EPOLL_CTL_ADD h ?ev (snd ?c)) = None then 0 else -1)" "kern r' = snd (ctl EPOLL_CTL_ADD h ?ev (snd ?c))"
        using assms(2) o by (auto simp: handle_opt_i_def Let_def call_ctl_eq)
      have "h \<notin> lost (snd ?c)" using assms(3) ctl_lost [OF assms(1)] unfolding r'(2) by blast
      then have "interest (snd ?c) h = None" using k [where h = h and k = "kern r" and op = EPOLL_CTL_MOD and ev = ?ev] True by (auto split: if_splits)
      then show ?thesis using r' k [where h = h and k = "snd ?c" and op = EPOLL_CTL_ADD and ev = ?ev] assms(3) by simp
    next
      case False
      then have "v = 0" "kern r' = snd ?c" using assms(2) o by (auto simp: handle_opt_i_def Let_def call_ctl_eq)
      then show ?thesis using k [where h = h and k = "kern r" and op = EPOLL_CTL_MOD and ev = ?ev] assms(3) False by (auto split: if_splits)
    qed
  qed
qed

text \<open>Registrations and interest set agree at every handle that is not lost.\<close>

definition sync_kept :: "('k \<Rightarrow> int \<Rightarrow> mask option) \<Rightarrow> ('k \<Rightarrow> int set) \<Rightarrow> 'k reactor \<Rightarrow> bool" where
  "sync_kept interest lost r \<longleftrightarrow> rep_ok (handler_rep r)
     \<and> (\<forall>h. h \<notin> lost (kern r) \<longrightarrow> slot_sync (slot h (handler_rep r)) (interest (kern r) h))"

lemma sync_kept_step:
  assumes "sync_kept interest lost r" "only_at interest lost h (kern r) (kern r')" "slot_becomes h t (handler_rep r) (handler_rep r')"
    "h \<notin> lost (kern r') \<Longrightarrow> slot_sync t (interest (kern r') h)"
  shows "sync_kept interest lost r'"
  using assms by (auto simp: sync_kept_def only_at_def slot_becomes_def)

lemma slot_becomes_same: "rep_ok p \<Longrightarrow> slot_becomes h (slot h p) p p"
  by (simp add: slot_becomes_def)

lemma kept_register:
  assumes "kernel_laws ctl wait interest lost" "sync_kept interest lost r" "eh \<noteq> null" "m \<noteq> 0"
  shows "sync_kept interest lost (snd (register_handler_i (handle_opt_i ctl) h eh m r))"
proof -
  let ?t = "slot h (handler_rep r)"
  have ok: "rep_ok (handler_rep r)" using assms(2) by (simp add: sync_kept_def)
  have ss: "h \<notin> lost (kern r) \<Longrightarrow> slot_sync ?t (interest (kern r) h)" using assms(2) by (simp add: sync_kept_def)
  show ?thesis
  proof (cases "bound h r = null")
    case True
    then have nb: "rt_event_handler ?t = null" by (simp add: rep_slot)
    obtain b p where b: "rep_bind h eh m (handler_rep r) = (b, p)" by fastforce
    show ?thesis
    proof (cases "b = 0")
      case False
      then show ?thesis using True b assms(2) by (simp add: register_handler_i_def)
    next
      case b0: True
      note s1 = rep_ops_slot(1) [OF ok, of h eh m p]
      have s1: "slot_becomes h (?t\<lparr>rt_event_handler := eh, rt_mask := m\<rparr>) (handler_rep r) p" using s1 b b0 by simp
      have okp: "rep_ok p" and sp: "slot h p = ?t\<lparr>rt_event_handler := eh, rt_mask := m\<rparr>" using s1 by (simp_all add: slot_becomes_def)
      have s2: "slot_becomes h ((slot h p)\<lparr>rt_event_handler := null, rt_mask := 0\<rparr>) (handler_rep r) (snd (rep_unbind h p))"
        by (rule slot_becomes_trans [OF s1 rep_ops_slot(2) [OF okp]]) (use sp assms(3) in simp)
      obtain v r1 where o: "handle_opt_i ctl h m add_mask (r\<lparr>handler_rep := p\<rparr>) = (v, r1)" by fastforce
      have f: "handler_rep r1 = p" using handle_opt_frame(2) [of ctl h m add_mask "r\<lparr>handler_rep := p\<rparr>"] o by simp
      have oa: "only_at interest lost h (kern r) (kern r1)" using handle_opt_only_at [OF assms(1), of h "r\<lparr>handler_rep := p\<rparr>" m add_mask] o by simp
      have lost: "h \<notin> lost (kern r1) \<Longrightarrow> h \<notin> lost (kern r)" using oa by (auto simp: only_at_def)
      note kk = handle_opt_kept(1) [OF assms(1) o _ refl]
      show ?thesis
      proof (cases "v = 0")
        case True
        have e: "snd (register_handler_i (handle_opt_i ctl) h eh m r) = r1"
          using \<open>bound h r = null\<close> b b0 o True by (simp add: register_handler_i_def)
        show ?thesis unfolding e
        proof (rule sync_kept_step [OF assms(2) oa, of "?t\<lparr>rt_event_handler := eh, rt_mask := m\<rparr>"])
          show "slot_becomes h (?t\<lparr>rt_event_handler := eh, rt_mask := m\<rparr>) (handler_rep r) (handler_rep r1)" using s1 f by simp
        next
          assume l: "h \<notin> lost (kern r1)"
          have "interest (kern r) h = None" using ss [OF lost [OF l]] nb by (auto simp: slot_sync_def)
          then show "slot_sync (?t\<lparr>rt_event_handler := eh, rt_mask := m\<rparr>) (interest (kern r1) h)"
            using kk [OF l] assms(3,4) by (simp add: slot_sync_def)
        qed
      next
        case False
        have e: "snd (register_handler_i (handle_opt_i ctl) h eh m r) = with_rep (\<lambda>p. snd (rep_unbind h p)) r1"
          using \<open>bound h r = null\<close> b b0 o False by (simp add: register_handler_i_def)
        show ?thesis unfolding e
        proof (rule sync_kept_step [OF assms(2), of h])
          show "only_at interest lost h (kern r) (kern (with_rep (\<lambda>p. snd (rep_unbind h p)) r1))" using oa by (simp add: with_rep_def)
          show "slot_becomes h ((slot h p)\<lparr>rt_event_handler := null, rt_mask := 0\<rparr>) (handler_rep r) (handler_rep (with_rep (\<lambda>p. snd (rep_unbind h p)) r1))"
            using s2 f by (simp add: with_rep_def)
        qed (use kk False in \<open>simp add: with_rep_def\<close>)
      qed
    qed
  next
    case False
    then have nb: "rt_event_handler ?t \<noteq> null" by (simp add: rep_slot)
    let ?m = "set_bits_of (rep_mask h (handler_rep r)) m"
    obtain v r1 where o: "handle_opt_i ctl h ?m set_mask (with_rep (rep_set_mask h ?m) r) = (v, r1)" by fastforce
    have e: "snd (register_handler_i (handle_opt_i ctl) h eh m r) = r1" using False o by (simp add: register_handler_i_def Let_def)
    have f: "handler_rep r1 = rep_set_mask h ?m (handler_rep r)"
      using handle_opt_frame(2) [of ctl h ?m set_mask "with_rep (rep_set_mask h ?m) r"] o by (simp add: with_rep_def)
    show ?thesis unfolding e
    proof (rule sync_kept_step [OF assms(2)])
      show "only_at interest lost h (kern r) (kern r1)"
        using handle_opt_only_at [OF assms(1), of h "with_rep (rep_set_mask h ?m) r" ?m set_mask] o by (simp add: with_rep_def)
      show "slot_becomes h (?t\<lparr>rt_mask := ?m\<rparr>) (handler_rep r) (handler_rep r1)" unfolding f by (rule rep_ops_slot(3) [OF ok nb])
      show "h \<notin> lost (kern r1) \<Longrightarrow> slot_sync (?t\<lparr>rt_mask := ?m\<rparr>) (interest (kern r1) h)"
        using handle_opt_kept(2) [OF assms(1) o _ refl] nb or_not_zero [OF assms(4)] by (simp add: slot_sync_def)
    qed
  qed
qed

lemma kept_remove_mask:
  assumes "kernel_laws ctl wait interest lost" "sync_kept interest lost r" "bound h r \<noteq> null"
  shows "sync_kept interest lost (snd (remove_mask (handle_opt_i ctl) h m r))"
proof -
  let ?t = "slot h (handler_rep r)"
  have ok: "rep_ok (handler_rep r)" using assms(2) by (simp add: sync_kept_def)
  have nb: "rt_event_handler ?t \<noteq> null" using assms(3) by (simp add: rep_slot)
  define n where "n = clr_bits_of (rep_mask h (handler_rep r)) m"
  let ?p = "rep_set_mask h n (handler_rep r)" and ?o = "if n \<noteq> null_mask then set_mask else clr_mask"
  note s1 = rep_ops_slot(3) [OF ok nb, of n]
  have okp: "rep_ok ?p" and sp: "slot h ?p = ?t\<lparr>rt_mask := n\<rparr>" using s1 by (simp_all add: slot_becomes_def)
  have s2: "slot_becomes h ((slot h ?p)\<lparr>rt_event_handler := null, rt_mask := 0\<rparr>) (handler_rep r) (snd (rep_unbind h ?p))"
    by (rule slot_becomes_trans [OF s1 rep_ops_slot(2) [OF okp]]) (use sp nb in simp)
  obtain v r1 where o: "handle_opt_i ctl h n ?o (with_rep (rep_set_mask h n) r) = (v, r1)" by fastforce
  have f: "handler_rep r1 = ?p" using handle_opt_frame(2) [of ctl h n ?o "with_rep (rep_set_mask h n) r"] o by (simp add: with_rep_def)
  have oa: "only_at interest lost h (kern r) (kern r1)"
    using handle_opt_only_at [OF assms(1), of h "with_rep (rep_set_mask h n) r" n ?o] o by (simp add: with_rep_def)
  have e: "snd (remove_mask (handle_opt_i ctl) h m r) = (if v \<noteq> -1 \<and> n = null_mask then with_rep (\<lambda>p. snd (rep_unbind h p)) r1 else r1)"
    using o by (simp add: remove_mask_def n_def Let_def)
  show ?thesis
  proof (cases "n = null_mask")
    case True
    note kk = handle_opt_kept(3) [OF assms(1) o]
    show ?thesis
    proof (cases "v = -1")
      case F: True
      then have "snd (remove_mask (handle_opt_i ctl) h m r) = r1" using e by simp
      then show ?thesis using sync_kept_step [OF assms(2) oa, of "?t\<lparr>rt_mask := n\<rparr>"] s1 f kk F True by auto
    next
      case False
      then have g: "snd (remove_mask (handle_opt_i ctl) h m r) = with_rep (\<lambda>p. snd (rep_unbind h p)) r1" using e True by simp
      show ?thesis unfolding g
        by (rule sync_kept_step [OF assms(2), of h _ "(slot h ?p)\<lparr>rt_event_handler := null, rt_mask := 0\<rparr>"])
          (use oa s2 f kk True in \<open>auto simp: with_rep_def slot_sync_def\<close>)
    qed
  next
    case False
    then have "snd (remove_mask (handle_opt_i ctl) h m r) = r1" using e by simp
    then show ?thesis
      using sync_kept_step [OF assms(2) oa, of "?t\<lparr>rt_mask := n\<rparr>"] s1 f handle_opt_kept(2) [OF assms(1) o] False nb
      by (simp add: slot_sync_def null_mask_def)
  qed
qed

lemma kept_suspend:
  assumes "kernel_laws ctl wait interest lost" "sync_kept interest lost r"
  shows "sync_kept interest lost (snd (suspend_handler_i (handle_opt_i ctl) h r))"
proof (cases "bound h r = null \<or> rep_suspended h (handler_rep r)")
  case True
  then show ?thesis using assms(2) by (auto simp: suspend_handler_i_def)
next
  case False
  let ?t = "slot h (handler_rep r)"
  have ok: "rep_ok (handler_rep r)" using assms(2) by (simp add: sync_kept_def)
  have nb: "rt_event_handler ?t \<noteq> null" using False by (simp add: rep_slot)
  obtain v r1 where o: "handle_opt_i ctl h null_mask clr_mask r = (v, r1)" by fastforce
  have f: "handler_rep r1 = handler_rep r" using handle_opt_frame(2) [of ctl h null_mask clr_mask r] o by simp
  have oa: "only_at interest lost h (kern r) (kern r1)" using handle_opt_only_at [OF assms(1), of h r null_mask clr_mask] o by simp
  have e: "snd (suspend_handler_i (handle_opt_i ctl) h r) = (if v = -1 then r1 else with_rep (rep_suspend h) r1)"
    using False o by (simp add: suspend_handler_i_def)
  note kk = handle_opt_kept(3) [OF assms(1) o _ refl]
  have m: "h \<notin> lost (kern r1) \<Longrightarrow> rt_mask ?t \<noteq> 0"
    using assms(2) nb oa by (auto simp: sync_kept_def slot_sync_def only_at_def)
  show ?thesis
  proof (cases "v = -1")
    case True
    then show ?thesis unfolding e using sync_kept_step [OF assms(2) oa, of ?t] slot_becomes_same [OF ok] f kk by auto
  next
    case F: False
    have "sync_kept interest lost (with_rep (rep_suspend h) r1)"
      by (rule sync_kept_step [OF assms(2), of h _ "?t\<lparr>rt_suspended := True\<rparr>"])
        (use oa rep_ops_slot(4) [OF ok nb] f kk m in \<open>auto simp: with_rep_def slot_sync_def\<close>)
    then show ?thesis using F unfolding e by simp
  qed
qed

lemma kept_resume:
  assumes "kernel_laws ctl wait interest lost" "sync_kept interest lost r"
  shows "sync_kept interest lost (snd (resume_handler_i (handle_opt_i ctl) h r))"
proof (cases "bound h r = null \<or> \<not> rep_suspended h (handler_rep r) \<or> rep_mask h (handler_rep r) = null_mask")
  case True
  then show ?thesis using assms(2) by (auto simp: resume_handler_i_def)
next
  case False
  let ?t = "slot h (handler_rep r)" and ?m = "rep_mask h (handler_rep r)"
  have ok: "rep_ok (handler_rep r)" using assms(2) by (simp add: sync_kept_def)
  have nb: "rt_event_handler ?t \<noteq> null" using False by (simp add: rep_slot)
  obtain v r1 where o: "handle_opt_i ctl h ?m add_mask r = (v, r1)" by fastforce
  have f: "handler_rep r1 = handler_rep r" using handle_opt_frame(2) [of ctl h ?m add_mask r] o by simp
  have oa: "only_at interest lost h (kern r) (kern r1)" using handle_opt_only_at [OF assms(1), of h r ?m add_mask] o by simp
  have e: "snd (resume_handler_i (handle_opt_i ctl) h r) = (if v = -1 then r1 else with_rep (rep_resume h) r1)"
    using False o by (simp add: resume_handler_i_def)
  note kk = handle_opt_kept(1) [OF assms(1) o _ refl]
  have ss: "h \<notin> lost (kern r1) \<Longrightarrow> slot_sync ?t (interest (kern r) h)"
    using assms(2) oa by (auto simp: sync_kept_def only_at_def)
  have i: "h \<notin> lost (kern r1) \<Longrightarrow> interest (kern r1) h = Some (reactor_mask_to_epoll_event (rt_mask ?t))"
    using kk ss by (auto simp: slot_sync_def rep_slot)
  show ?thesis
  proof (cases "v = -1")
    case True
    then show ?thesis unfolding e using sync_kept_step [OF assms(2) oa, of ?t] slot_becomes_same [OF ok] f kk by auto
  next
    case F: False
    have "sync_kept interest lost (with_rep (rep_resume h) r1)"
      by (rule sync_kept_step [OF assms(2), of h _ "?t\<lparr>rt_suspended := False\<rparr>"])
        (use oa rep_ops_slot(5) [OF ok nb] f i ss nb in \<open>auto simp: with_rep_def slot_sync_def\<close>)
    then show ?thesis using F unfolding e by simp
  qed
qed

lemma sync_kept_upd [simp]:
  "sync_kept interest lost (r\<lparr>upcalls := us\<rparr>) = sync_kept interest lost r"
  "sync_kept interest lost (r\<lparr>r_events := evs\<rparr>) = sync_kept interest lost r"
  "sync_kept interest lost (advance_event r) = sync_kept interest lost r"
  "sync_kept interest lost (r\<lparr>r_fault := f\<rparr>) = sync_kept interest lost r"
  by (simp_all add: sync_kept_def advance_event_def)

interpretation sk: loop_inv ctl "\<lambda>r. kernel_laws ctl wait interest lost \<and> sync_kept interest lost r" for ctl wait interest lost
  by unfold_locales (auto simp: kept_register kept_remove_mask kept_suspend kept_resume null_mask_def)

lemma kept_client:
  assumes "kernel_laws ctl wait interest lost" "sync_kept interest lost r"
  shows "sync_kept interest lost (snd (register_handler (handle_opt_i ctl) h eh m r))" "sync_kept interest lost (snd (suspend_handler (handle_opt_i ctl) h r))"
    "sync_kept interest lost (snd (resume_handler (handle_opt_i ctl) h r))"
    "remove_handler (handle_opt_i ctl) (r_upcall (handle_opt_i ctl) hs) h m r = Some (v, r') \<Longrightarrow> sync_kept interest lost r'"
  using assms(2) kept_register [OF assms] kept_suspend [OF assms] kept_resume [OF assms]
    sk.remove_upcall_inv [of ctl wait interest lost r hs h m v r'] assms
  by (auto simp: register_handler_def suspend_handler_def resume_handler_def remove_handler_def null_mask_def split: if_splits)

lemma kept_poll:
  assumes "kernel_laws ctl wait interest lost" "sync_kept interest lost r"
  shows "sync_kept interest lost (snd (poll_events wait t r))"
proof (cases "start_pevents r = end_pevents r")
  case True
  let ?ms = "case t of None \<Rightarrow> -1 | Some t \<Rightarrow> sint (ucast (tv_msec t) :: 32 word)"
  obtain res k where w: "wait ?ms (kern r) = (res, k)" by fastforce
  have "case wait ?ms (kern r) of (_, k') \<Rightarrow> lost (kern r) \<subseteq> lost k' \<and> (\<forall>h. h \<notin> lost k' \<longrightarrow> interest k' h = interest (kern r) h)"
    using assms(1) unfolding kernel_laws_def by (elim conjE allE)
  then have l: "lost (kern r) \<subseteq> lost k" "\<And>h. h \<notin> lost k \<Longrightarrow> interest k h = interest (kern r) h" unfolding w by simp_all
  have e: "kern (snd (poll_events wait t r)) = k" "handler_rep (snd (poll_events wait t r)) = handler_rep r"
    using True w by (simp_all add: poll_events_def Let_def split: sum.split)
  show ?thesis using assms(2) l unfolding sync_kept_def e by auto
qed (use assms(2) in \<open>simp add: poll_events_def\<close>)

end
