(* ===== verification/ReactorNotify.thy ===== *)
theory ReactorNotify
  imports Prelude
begin

text \<open>
  \<^verbatim>\<open>unix_reactor_notify\<close> of \<^verbatim>\<open>ndk/unix_reactor.h\<close>, \<^verbatim>\<open>.inl\<close> and \<^verbatim>\<open>.cpp\<close>: messages for the event loop. Each
  accepted message is a tuple of an intrusive queue and one byte in a pipe whose read end wakes
  the loop; spent tuples go to a free list. The pipe belongs to the operating system: it is the
  number of bytes it holds, and whether it takes or gives a byte is asked of two parameters,
  \<open>accepts\<close> and \<open>yields\<close>, functions of that number. The message handlers are a parameter too.
\<close>

section \<open>State\<close>

record notify_tuple =
  nt_msg :: addr
  nt_handler :: addr
  nt_next :: addr

record reactor_notify =
  notify_msg_queue :: addr
  notify_msg_queue_tail :: addr
  free_notify_msg_queue :: addr
  nt_tuples :: "addr \<Rightarrow> notify_tuple"
  nt_fresh :: addr
  pipe_bytes :: nat
  nt_calls :: "(addr \<times> addr) list"
  nt_closes :: "addr list"

definition notify_new :: "(addr \<Rightarrow> notify_tuple) \<Rightarrow> reactor_notify" where
  "notify_new ts = \<lparr>notify_msg_queue = null, notify_msg_queue_tail = null, free_notify_msg_queue = null,
     nt_tuples = ts, nt_fresh = 1, pipe_bytes = 0, nt_calls = [], nt_closes = []\<rparr>"

definition nt_set_next :: "addr \<Rightarrow> addr \<Rightarrow> reactor_notify \<Rightarrow> reactor_notify" where
  "nt_set_next a b n = n\<lparr>nt_tuples := (nt_tuples n)(a := (nt_tuples n a)\<lparr>nt_next := b\<rparr>)\<rparr>"

definition nt_set :: "addr \<Rightarrow> addr \<Rightarrow> addr \<Rightarrow> reactor_notify \<Rightarrow> reactor_notify" where
  "nt_set a eh msg n = n\<lparr>nt_tuples := (nt_tuples n)(a := (nt_tuples n a)\<lparr>nt_msg := msg, nt_handler := eh\<rparr>)\<rparr>"

section \<open>Operations\<close>

definition alloc_notify_tuple :: "addr \<Rightarrow> addr \<Rightarrow> reactor_notify \<Rightarrow> addr \<times> reactor_notify" where
  "alloc_notify_tuple eh msg n =
     (let n1 = (if free_notify_msg_queue n = null
                then n\<lparr>nt_tuples := (nt_tuples n)(nt_fresh n := \<lparr>nt_msg = msg, nt_handler = eh, nt_next = null\<rparr>),
                       nt_fresh := Suc (nt_fresh n), free_notify_msg_queue := nt_fresh n\<rparr>
                else nt_set (free_notify_msg_queue n) eh msg n);
          tuple = free_notify_msg_queue n1;
          n2 = n1\<lparr>free_notify_msg_queue := nt_next (nt_tuples n1 (free_notify_msg_queue n1))\<rparr>
      in (tuple, nt_set_next tuple null n2))"

definition release_notify_tuple :: "addr \<Rightarrow> reactor_notify \<Rightarrow> reactor_notify" where
  "release_notify_tuple tuple n =
     (if tuple = null then n
      else (nt_set_next tuple (free_notify_msg_queue n) n)\<lparr>free_notify_msg_queue := tuple\<rparr>)"

definition push_notify_tuple :: "addr \<Rightarrow> reactor_notify \<Rightarrow> reactor_notify" where
  "push_notify_tuple tuple n =
     (let n1 = (if notify_msg_queue_tail n = null then n\<lparr>notify_msg_queue := tuple\<rparr>
                else nt_set_next (notify_msg_queue_tail n) tuple n)
      in n1\<lparr>notify_msg_queue_tail := tuple\<rparr>)"

definition pop_notify_tuple :: "reactor_notify \<Rightarrow> addr \<times> reactor_notify" where
  "pop_notify_tuple n =
     (if notify_msg_queue n \<noteq> null
      then (let tuple = notify_msg_queue n;
                n1 = n\<lparr>notify_msg_queue := nt_next (nt_tuples n tuple)\<rparr>
            in (tuple, if notify_msg_queue n1 = null then n1\<lparr>notify_msg_queue_tail := null\<rparr> else n1))
      else (null, n))"

text \<open>\<^verbatim>\<open>notify\<close>: the byte first, the tuple only if the pipe took it.\<close>

definition notify :: "(nat \<Rightarrow> bool) \<Rightarrow> addr \<Rightarrow> addr \<Rightarrow> reactor_notify \<Rightarrow> int \<times> reactor_notify" where
  "notify accepts eh msg n =
     (let (tuple, n1) = alloc_notify_tuple eh msg n in
      if accepts (pipe_bytes n1)
      then (0, push_notify_tuple tuple (n1\<lparr>pipe_bytes := Suc (pipe_bytes n1)\<rparr>))
      else (-1, release_notify_tuple tuple n1))"

text \<open>\<^verbatim>\<open>read_notify_msg\<close> returns -1 without a message, and 0 with the tuple; its \<^verbatim>\<open>assert\<close> is the fault.\<close>

definition read_notify_msg :: "(nat \<Rightarrow> bool) \<Rightarrow> addr \<Rightarrow> reactor_notify \<Rightarrow> fault + (int \<times> addr \<times> reactor_notify)" where
  "read_notify_msg yields free_tuple n =
     (let n1 = release_notify_tuple free_tuple n in
      if yields (pipe_bytes n1)
      then (let (tuple, n2) = pop_notify_tuple (n1\<lparr>pipe_bytes := pipe_bytes n1 - 1\<rparr>)
            in if tuple = null then Inl AssertFailed else Inr (0, tuple, n2))
      else Inr (-1, null, n1))"

text \<open>A message handler, given the messages handled so far (the newest first), returns a result and
  the notifications it posts itself. \<open>post\<close> is the sequence of these calls.\<close>

type_synonym msg_handler = "(addr \<times> addr) list \<Rightarrow> int \<times> (addr \<times> addr) list"

fun post :: "(nat \<Rightarrow> bool) \<Rightarrow> (addr \<times> addr) list \<Rightarrow> reactor_notify \<Rightarrow> reactor_notify" where
  "post accepts [] n = n"
| "post accepts ((eh, msg) # ms) n = post accepts ms (snd (notify accepts eh msg n))"

text \<open>One tuple's message: \<^verbatim>\<open>handle_msg\<close> of its handler if it has one, and \<^verbatim>\<open>handle_close\<close> after a negative
  result.\<close>

definition handle_tuple :: "(nat \<Rightarrow> bool) \<Rightarrow> msg_handler \<Rightarrow> addr \<Rightarrow> reactor_notify \<Rightarrow> reactor_notify" where
  "handle_tuple accepts hm tuple n =
     (let eh = nt_handler (nt_tuples n tuple) in
      if eh = null then n
      else (let calls = (eh, nt_msg (nt_tuples n tuple)) # nt_calls n;
                (r, ms) = hm calls;
                n1 = post accepts ms (n\<lparr>nt_calls := calls\<rparr>)
            in if r < 0 then n1\<lparr>nt_closes := eh # nt_closes n1\<rparr> else n1))"

partial_function (option) notify_loop ::
  "(nat \<Rightarrow> bool) \<Rightarrow> (nat \<Rightarrow> bool) \<Rightarrow> msg_handler \<Rightarrow> addr \<Rightarrow> reactor_notify \<Rightarrow> (fault + reactor_notify) option" where
  "notify_loop accepts yields hm free_tuple n =
     (case read_notify_msg yields free_tuple n of
        Inl f \<Rightarrow> Some (Inl f)
      | Inr (r, tuple, n1) \<Rightarrow>
          if r = -1 then Some (Inr n1)
          else notify_loop accepts yields hm tuple (handle_tuple accepts hm tuple n1))"

definition notify_handle_input ::
  "(nat \<Rightarrow> bool) \<Rightarrow> (nat \<Rightarrow> bool) \<Rightarrow> msg_handler \<Rightarrow> reactor_notify \<Rightarrow> (fault + (int \<times> reactor_notify)) option" where
  "notify_handle_input accepts yields hm n =
     (case notify_loop accepts yields hm null n of
        None \<Rightarrow> None | Some (Inl f) \<Rightarrow> Some (Inl f) | Some (Inr n1) \<Rightarrow> Some (Inr (0, n1)))"

section \<open>The invariant\<close>

definition ntx :: "reactor_notify \<Rightarrow> addr \<Rightarrow> addr" where
  "ntx n = (\<lambda>a. nt_next (nt_tuples n a))"

definition nt_data :: "reactor_notify \<Rightarrow> addr \<Rightarrow> addr \<times> addr" where
  "nt_data n = (\<lambda>a. (nt_handler (nt_tuples n a), nt_msg (nt_tuples n a)))"

text \<open>The queue holds \<open>xs\<close>, the free list \<open>fs\<close>, and \<open>used\<close> is in the hands of a running operation.\<close>

definition nt_rep :: "reactor_notify \<Rightarrow> addr list \<Rightarrow> addr list \<Rightarrow> addr set \<Rightarrow> bool" where
  "nt_rep n xs fs used \<longleftrightarrow> chain (ntx n) (notify_msg_queue n) xs null
     \<and> notify_msg_queue_tail n = (if xs = [] then null else last xs)
     \<and> chain (ntx n) (free_notify_msg_queue n) fs null
     \<and> set xs \<inter> set fs = {} \<and> used \<inter> (set xs \<union> set fs) = {} \<and> null \<notin> used
     \<and> (\<forall>a \<in> set xs \<union> set fs \<union> used. a < nt_fresh n) \<and> 0 < nt_fresh n"

definition nt_queue :: "reactor_notify \<Rightarrow> addr list" where
  "nt_queue n = walk (pipe_bytes n) (ntx n) (notify_msg_queue n)"

definition nt_ok :: "reactor_notify \<Rightarrow> addr \<Rightarrow> bool" where
  "nt_ok n free_tuple \<longleftrightarrow> (\<exists>fs. nt_rep n (nt_queue n) fs (if free_tuple = null then {} else {free_tuple}))
     \<and> length (nt_queue n) = pipe_bytes n"

definition nt_messages :: "reactor_notify \<Rightarrow> (addr \<times> addr) list" where
  "nt_messages n = map (nt_data n) (nt_queue n)"

section \<open>Every operation on the lists\<close>

lemma nt_set_next_sel [simp]:
  "ntx (nt_set_next a b n) = (ntx n)(a := b)" "nt_data (nt_set_next a b n) = nt_data n"
  "notify_msg_queue (nt_set_next a b n) = notify_msg_queue n"
  "notify_msg_queue_tail (nt_set_next a b n) = notify_msg_queue_tail n"
  "free_notify_msg_queue (nt_set_next a b n) = free_notify_msg_queue n"
  "nt_fresh (nt_set_next a b n) = nt_fresh n" "pipe_bytes (nt_set_next a b n) = pipe_bytes n"
  "nt_calls (nt_set_next a b n) = nt_calls n" "nt_closes (nt_set_next a b n) = nt_closes n"
  by (auto simp: nt_set_next_def ntx_def nt_data_def)

lemma nt_upd_sel [simp]:
  "ntx (n\<lparr>notify_msg_queue := p\<rparr>) = ntx n" "ntx (n\<lparr>notify_msg_queue_tail := p\<rparr>) = ntx n"
  "ntx (n\<lparr>free_notify_msg_queue := p\<rparr>) = ntx n" "ntx (n\<lparr>pipe_bytes := k\<rparr>) = ntx n"
  "ntx (n\<lparr>nt_calls := cs\<rparr>) = ntx n" "ntx (n\<lparr>nt_closes := es\<rparr>) = ntx n"
  "nt_data (n\<lparr>notify_msg_queue := p\<rparr>) = nt_data n" "nt_data (n\<lparr>notify_msg_queue_tail := p\<rparr>) = nt_data n"
  "nt_data (n\<lparr>free_notify_msg_queue := p\<rparr>) = nt_data n" "nt_data (n\<lparr>pipe_bytes := k\<rparr>) = nt_data n"
  "nt_data (n\<lparr>nt_calls := cs\<rparr>) = nt_data n" "nt_data (n\<lparr>nt_closes := es\<rparr>) = nt_data n"
  by (simp_all add: ntx_def nt_data_def)

lemma nt_rep_upd [simp]:
  "nt_rep (n\<lparr>pipe_bytes := k\<rparr>) xs fs used = nt_rep n xs fs used"
  "nt_rep (n\<lparr>nt_calls := cs\<rparr>) xs fs used = nt_rep n xs fs used"
  "nt_rep (n\<lparr>nt_closes := es\<rparr>) xs fs used = nt_rep n xs fs used"
  by (simp_all add: nt_rep_def)

lemma alloc_rep:
  assumes "nt_rep n xs fs used" "alloc_notify_tuple eh msg n = (t, n')"
  obtains fs' where "nt_rep n' xs fs' (insert t used)" "t \<notin> used" "t \<notin> set xs" "t \<noteq> null" "ntx n' t = null"
    "nt_data n' = (nt_data n)(t := (eh, msg))" "pipe_bytes n' = pipe_bytes n" "nt_calls n' = nt_calls n"
    "nt_closes n' = nt_closes n"
proof (cases fs)
  case Nil
  then have f: "free_notify_msg_queue n = null" using assms(1) by (simp add: nt_rep_def)
  have t: "t = nt_fresh n" "n' = nt_set_next t null (n\<lparr>nt_tuples := (nt_tuples n)(t := \<lparr>nt_msg = msg, nt_handler = eh, nt_next = null\<rparr>),
      nt_fresh := Suc t, free_notify_msg_queue := null\<rparr>)"
    using assms(2) f by (auto simp: alloc_notify_tuple_def Let_def)
  have fr: "t \<notin> used" "t \<notin> set xs" "t \<noteq> null" using assms(1) t(1) by (auto simp: nt_rep_def)
  have nx: "ntx n' = (ntx n)(t := null)" "nt_data n' = (nt_data n)(t := (eh, msg))"
    by (auto simp: t(2) ntx_def nt_data_def nt_set_next_def)
  have "nt_rep n' xs [] (insert t used)"
    using assms(1) fr t(1) nx(1) unfolding nt_rep_def by (auto simp: t(2) less_Suc_eq)
  then show ?thesis using that fr nx by (simp add: t(2))
next
  case (Cons g gs)
  then have f: "free_notify_msg_queue n = g" "g \<noteq> null" "chain (ntx n) (ntx n g) gs null"
    using assms(1) by (auto simp: nt_rep_def)
  have t: "t = g" "n' = nt_set_next t null ((nt_set t eh msg n)\<lparr>free_notify_msg_queue := ntx n g\<rparr>)"
    using assms(2) f by (auto simp: alloc_notify_tuple_def Let_def nt_set_def ntx_def)
  have fr: "t \<notin> used" "t \<notin> set xs" "t \<noteq> null" "t \<notin> set gs"
    using assms(1) t(1) Cons chain_distinct [of "ntx n" "free_notify_msg_queue n" fs] by (auto simp: nt_rep_def)
  have nx: "ntx n' = (ntx n)(t := null)" "nt_data n' = (nt_data n)(t := (eh, msg))"
    by (auto simp: t(2) ntx_def nt_data_def nt_set_next_def nt_set_def)
  have "nt_rep n' xs gs (insert t used)"
    using assms(1) fr f t(1) Cons nx(1) unfolding nt_rep_def by (auto simp: t(2) nt_set_def)
  then show ?thesis using that fr nx by (simp add: t(2) nt_set_def)
qed

lemma push_rep:
  assumes "nt_rep n xs fs (insert t used)" "t \<notin> used" "ntx n t = null"
  shows "nt_rep (push_notify_tuple t n) (xs @ [t]) fs used"
proof (cases xs rule: rev_cases)
  case Nil
  then show ?thesis using assms by (auto simp: nt_rep_def push_notify_tuple_def Let_def)
next
  case (snoc ys b)
  have b: "b \<noteq> null" "b \<notin> set ys" "b \<noteq> t" "b \<notin> set fs"
    using assms(1) snoc chain_distinct [of "ntx n" "notify_msg_queue n" xs] chain_not_null [of "ntx n" "notify_msg_queue n" xs]
    by (auto simp: nt_rep_def)
  have "chain ((ntx n)(b := t)) (notify_msg_queue n) (ys @ [b]) t"
    using assms(1) snoc b(2) chain_relink_last by (auto simp: nt_rep_def)
  then have "chain ((ntx n)(b := t)) (notify_msg_queue n) ((ys @ [b]) @ [t]) null"
    using assms(1,3) b(3) by (auto simp: chain_append nt_rep_def)
  then show ?thesis using assms snoc b by (auto simp: nt_rep_def push_notify_tuple_def Let_def)
qed

lemma push_sel [simp]:
  "nt_data (push_notify_tuple t n) = nt_data n" "pipe_bytes (push_notify_tuple t n) = pipe_bytes n"
  "nt_calls (push_notify_tuple t n) = nt_calls n" "nt_closes (push_notify_tuple t n) = nt_closes n"
  by (simp_all add: push_notify_tuple_def Let_def)

lemma release_rep:
  assumes "nt_rep n xs fs (insert t used)" "t \<notin> used" "t \<noteq> null"
  shows "nt_rep (release_notify_tuple t n) xs (t # fs) used"
  using assms by (auto simp: nt_rep_def release_notify_tuple_def)

lemma release_sel [simp]:
  "nt_data (release_notify_tuple t n) = nt_data n" "pipe_bytes (release_notify_tuple t n) = pipe_bytes n"
  "nt_calls (release_notify_tuple t n) = nt_calls n" "nt_closes (release_notify_tuple t n) = nt_closes n"
  by (simp_all add: release_notify_tuple_def)

lemma pop_rep:
  assumes "nt_rep n (x # xs) fs used" "pop_notify_tuple n = (t, n')"
  shows "t = x" "nt_rep n' xs fs (insert x used)" "x \<notin> used" "x \<noteq> null" "nt_data n' = nt_data n" "pipe_bytes n' = pipe_bytes n"
    "nt_calls n' = nt_calls n" "nt_closes n' = nt_closes n"
proof -
  have x: "notify_msg_queue n = x" "x \<noteq> null" "chain (ntx n) (ntx n x) xs null" "x \<notin> set xs"
    using assms(1) chain_distinct [of "ntx n" "notify_msg_queue n" "x # xs"] by (auto simp: nt_rep_def)
  let ?n = "n\<lparr>notify_msg_queue := ntx n x\<rparr>"
  have e: "t = x" "n' = (if ntx n x = null then ?n\<lparr>notify_msg_queue_tail := null\<rparr> else ?n)"
    using assms(2) x by (auto simp: pop_notify_tuple_def Let_def ntx_def)
  have "ntx n x = null \<longleftrightarrow> xs = []" using x(3) chain_nonempty by metis
  then have "nt_rep n' xs fs (insert x used)"
    using assms(1) x unfolding nt_rep_def by (auto simp: e(2))
  then show "t = x" "nt_rep n' xs fs (insert x used)" "x \<notin> used" "x \<noteq> null" "nt_data n' = nt_data n" "pipe_bytes n' = pipe_bytes n"
    "nt_calls n' = nt_calls n" "nt_closes n' = nt_closes n"
    using e x assms(1) by (auto simp: nt_rep_def)
qed

section \<open>The queue as a list of messages\<close>

lemma nt_okI:
  assumes "nt_rep n xs fs (if t = null then {} else {t})" "length xs = pipe_bytes n"
  shows "nt_ok n t" "nt_messages n = map (nt_data n) xs"
proof -
  have "nt_queue n = xs" using assms walk_chain [of "ntx n" "notify_msg_queue n" xs] by (simp add: nt_queue_def nt_rep_def)
  then show "nt_ok n t" "nt_messages n = map (nt_data n) xs" using assms by (auto simp: nt_ok_def nt_messages_def)
qed

lemma nt_okE:
  assumes "nt_ok n t"
  obtains xs fs where "nt_rep n xs fs (if t = null then {} else {t})" "length xs = pipe_bytes n"
    "nt_messages n = map (nt_data n) xs"
  using assms by (auto simp: nt_ok_def nt_messages_def)

lemma notify_new_ok: "nt_ok (notify_new ts) null" "nt_messages (notify_new ts) = []"
  by (simp_all add: nt_ok_def nt_queue_def nt_messages_def notify_new_def nt_rep_def)

lemma map_data_upd: "t \<notin> set xs \<Longrightarrow> map (f(t := v)) xs = map f xs"
  by (rule map_cong) auto

lemma notify_ok:
  assumes "nt_ok n t" "notify accepts eh msg n = (r, n')"
  shows "nt_ok n' t" "r = (if accepts (pipe_bytes n) then 0 else -1)"
    "nt_messages n' = nt_messages n @ (if r = 0 then [(eh, msg)] else [])"
    "nt_calls n' = nt_calls n" "nt_closes n' = nt_closes n"
    "t \<noteq> null \<Longrightarrow> nt_data n' t = nt_data n t"
proof -
  let ?u = "if t = null then {} else {t}"
  obtain xs fs where x: "nt_rep n xs fs ?u" "length xs = pipe_bytes n" "nt_messages n = map (nt_data n) xs"
    using nt_okE [OF assms(1)] by metis
  obtain a n1 where a: "alloc_notify_tuple eh msg n = (a, n1)" by fastforce
  obtain gs where g: "nt_rep n1 xs gs (insert a ?u)" "a \<notin> ?u" "a \<notin> set xs" "a \<noteq> null" "ntx n1 a = null"
    "nt_data n1 = (nt_data n)(a := (eh, msg))" "pipe_bytes n1 = pipe_bytes n" "nt_calls n1 = nt_calls n"
    "nt_closes n1 = nt_closes n" by (rule alloc_rep [OF x(1) a])
  have at: "t \<noteq> null \<Longrightarrow> t \<noteq> a" using g(2) by (auto split: if_splits)
  have "nt_ok n' t \<and> r = (if accepts (pipe_bytes n) then 0 else -1)
    \<and> nt_messages n' = nt_messages n @ (if r = 0 then [(eh, msg)] else [])
    \<and> nt_calls n' = nt_calls n \<and> nt_closes n' = nt_closes n \<and> (t \<noteq> null \<longrightarrow> nt_data n' t = nt_data n t)"
  proof (cases "accepts (pipe_bytes n)")
    case True
    let ?n = "n1\<lparr>pipe_bytes := Suc (pipe_bytes n1)\<rparr>"
    have e: "r = 0" "n' = push_notify_tuple a ?n" using assms(2) a True g(7) by (auto simp: notify_def)
    have "nt_rep n' (xs @ [a]) gs ?u" unfolding e by (rule push_rep) (use g in auto)
    from nt_okI [OF this] show ?thesis
      using e True x g at by (simp add: map_data_upd)
  next
    case False
    then have e: "r = -1" "n' = release_notify_tuple a n1" using assms(2) a g(7) by (auto simp: notify_def)
    have "nt_rep n' xs (a # gs) ?u" unfolding e using release_rep [OF g(1,2,4)] .
    from nt_okI [OF this] show ?thesis
      using e False x g at by (simp add: map_data_upd)
  qed
  then show "nt_ok n' t" "r = (if accepts (pipe_bytes n) then 0 else -1)"
    "nt_messages n' = nt_messages n @ (if r = 0 then [(eh, msg)] else [])"
    "nt_calls n' = nt_calls n" "nt_closes n' = nt_closes n" "t \<noteq> null \<Longrightarrow> nt_data n' t = nt_data n t" by blast+
qed

lemma read_ok:
  assumes "nt_ok n t" "\<not> yields 0"
  shows "if yields (pipe_bytes n)
         then \<exists>x n'. read_notify_msg yields t n = Inr (0, x, n') \<and> x \<noteq> null \<and> nt_ok n' x
                \<and> nt_messages n = nt_data n' x # nt_messages n' \<and> nt_calls n' = nt_calls n \<and> nt_closes n' = nt_closes n
         else \<exists>n'. read_notify_msg yields t n = Inr (-1, null, n') \<and> nt_ok n' null
                \<and> nt_messages n' = nt_messages n \<and> nt_calls n' = nt_calls n \<and> nt_closes n' = nt_closes n"
proof -
  let ?n = "release_notify_tuple t n"
  obtain xs fs where x: "nt_rep n xs fs (if t = null then {} else {t})" "length xs = pipe_bytes n" "nt_messages n = map (nt_data n) xs"
    using nt_okE [OF assms(1)] by metis
  obtain gs where g: "nt_rep ?n xs gs {}"
    using x(1) release_rep [of n xs fs t "{}"] by (cases "t = null") (auto simp: release_notify_tuple_def)
  show ?thesis
  proof (cases "yields (pipe_bytes n)")
    case True
    then obtain y ys where ys: "xs = y # ys" using assms(2) x(2) by (cases xs) auto
    let ?m = "?n\<lparr>pipe_bytes := pipe_bytes ?n - 1\<rparr>"
    obtain a n' where a: "pop_notify_tuple ?m = (a, n')" by fastforce
    have "nt_rep ?m (y # ys) gs {}" using g ys by simp
    note p = pop_rep [OF this a]
    have "nt_rep n' ys gs (if y = null then {} else {y})" "length ys = pipe_bytes n'" using p x(2) ys by simp_all
    note o = nt_okI [OF this]
    have "read_notify_msg yields t n = Inr (0, y, n')" using True a p(1,4) by (simp add: read_notify_msg_def)
    then show ?thesis using True o p x(3) ys by simp
  next
    case False
    then have "read_notify_msg yields t n = Inr (-1, null, ?n)" by (simp add: read_notify_msg_def)
    moreover have "nt_ok ?n null" "nt_messages ?n = map (nt_data ?n) xs" by (rule nt_okI [where t = null]; use g x(2) in simp)+
    ultimately show ?thesis using False x(3) by simp
  qed
qed

section \<open>The specification on lists\<close>

text \<open>Queued messages as a list: posting appends as long as the pipe takes bytes, and the loop hands
  out the messages until none is left.\<close>

fun list_post :: "(nat \<Rightarrow> bool) \<Rightarrow> (addr \<times> addr) list \<Rightarrow> (addr \<times> addr) list \<Rightarrow> (addr \<times> addr) list" where
  "list_post accepts [] q = q"
| "list_post accepts (m # ms) q = list_post accepts ms (if accepts (length q) then q @ [m] else q)"

partial_function (option) list_loop :: "(nat \<Rightarrow> bool) \<Rightarrow> msg_handler \<Rightarrow> (addr \<times> addr) list \<Rightarrow> (addr \<times> addr) list
    \<Rightarrow> addr list \<Rightarrow> ((addr \<times> addr) list \<times> addr list) option" where
  "list_loop accepts hm q calls closes =
     (case q of
        [] \<Rightarrow> Some (calls, closes)
      | m # q1 \<Rightarrow>
          if fst m = null then list_loop accepts hm q1 calls closes
          else list_loop accepts hm (list_post accepts (snd (hm (m # calls))) q1) (m # calls)
                 (if fst (hm (m # calls)) < 0 then fst m # closes else closes))"

lemma nt_ok_length: "nt_ok n t \<Longrightarrow> length (nt_messages n) = pipe_bytes n"
  by (simp add: nt_ok_def nt_messages_def)

lemma post_ok:
  "nt_ok n t \<Longrightarrow> nt_ok (post accepts ms n) t \<and> nt_messages (post accepts ms n) = list_post accepts ms (nt_messages n)
     \<and> nt_calls (post accepts ms n) = nt_calls n \<and> nt_closes (post accepts ms n) = nt_closes n"
proof (induction ms arbitrary: n)
  case Nil
  then show ?case by simp
next
  case (Cons m ms)
  obtain eh msg r n' where m: "m = (eh, msg)" "notify accepts eh msg n = (r, n')" by (metis prod.exhaust)
  note k = notify_ok [OF Cons.prems m(2)]
  have "nt_messages n' = (if accepts (length (nt_messages n)) then nt_messages n @ [m] else nt_messages n)"
    using k(2,3) m(1) nt_ok_length [OF Cons.prems] by simp
  then show ?case using Cons.IH [OF k(1)] k(4,5) m by simp
qed

lemma nt_ok_upd [simp]:
  "nt_ok (n\<lparr>nt_calls := cs\<rparr>) t = nt_ok n t" "nt_ok (n\<lparr>nt_closes := es\<rparr>) t = nt_ok n t"
  "nt_messages (n\<lparr>nt_calls := cs\<rparr>) = nt_messages n" "nt_messages (n\<lparr>nt_closes := es\<rparr>) = nt_messages n"
  by (simp_all add: nt_ok_def nt_messages_def nt_queue_def)

lemma handle_tuple_ok:
  assumes "nt_ok n t" "nt_data n t = m"
  shows "nt_ok (handle_tuple accepts hm t n) t"
    and "nt_messages (handle_tuple accepts hm t n) =
           (if fst m = null then nt_messages n else list_post accepts (snd (hm (m # nt_calls n))) (nt_messages n))"
    and "nt_calls (handle_tuple accepts hm t n) = (if fst m = null then nt_calls n else m # nt_calls n)"
    and "nt_closes (handle_tuple accepts hm t n) =
           (if fst m \<noteq> null \<and> fst (hm (m # nt_calls n)) < 0 then fst m # nt_closes n else nt_closes n)"
  using assms post_ok [of "n\<lparr>nt_calls := m # nt_calls n\<rparr>" t accepts]
  by (auto simp: handle_tuple_def Let_def nt_data_def split: prod.split)

definition pipe_yields :: "(nat \<Rightarrow> bool) \<Rightarrow> bool" where
  "pipe_yields yields \<longleftrightarrow> (\<forall>k. yields k \<longleftrightarrow> 0 < k)"

lemma loop_step:
  assumes "nt_ok n t" "pipe_yields yields"
  shows "case nt_messages n of
      [] \<Rightarrow> \<exists>n'. notify_loop accepts yields hm t n = Some (Inr n') \<and> nt_ok n' null \<and> nt_messages n' = []
             \<and> nt_calls n' = nt_calls n \<and> nt_closes n' = nt_closes n
    | m # q \<Rightarrow> \<exists>x n'. notify_loop accepts yields hm t n = notify_loop accepts yields hm x n' \<and> nt_ok n' x
             \<and> nt_messages n' = (if fst m = null then q else list_post accepts (snd (hm (m # nt_calls n))) q)
             \<and> nt_calls n' = (if fst m = null then nt_calls n else m # nt_calls n)
             \<and> nt_closes n' = (if fst m \<noteq> null \<and> fst (hm (m # nt_calls n)) < 0 then fst m # nt_closes n else nt_closes n)"
proof (cases "nt_messages n")
  case Nil
  then have "pipe_bytes n = 0" using nt_ok_length [OF assms(1)] by simp
  then show ?thesis using read_ok [OF assms(1), of yields] assms(2) Nil
    by (auto simp: pipe_yields_def notify_loop.simps [of accepts yields hm t n])
next
  case (Cons m q)
  then have "0 < pipe_bytes n" using nt_ok_length [OF assms(1)] by (cases "pipe_bytes n") auto
  then obtain x n1 where x: "read_notify_msg yields t n = Inr (0, x, n1)" "x \<noteq> null" "nt_ok n1 x"
    "nt_messages n = nt_data n1 x # nt_messages n1" "nt_calls n1 = nt_calls n" "nt_closes n1 = nt_closes n"
    using read_ok [OF assms(1), of yields] assms(2) by (auto simp: pipe_yields_def)
  have m: "nt_data n1 x = m" "nt_messages n1 = q" using x(4) Cons by auto
  have "notify_loop accepts yields hm t n = notify_loop accepts yields hm x (handle_tuple accepts hm x n1)"
    by (subst notify_loop.simps) (simp add: x(1))
  then show ?thesis
    unfolding Cons list.case by (intro exI [of _ x] exI [of _ "handle_tuple accepts hm x n1"])
      (simp add: handle_tuple_ok [OF x(3) m(1)] m(2) x(5,6))
qed

lemma list_loop_Cons:
  "list_loop accepts hm (m # q) calls closes =
     list_loop accepts hm (if fst m = null then q else list_post accepts (snd (hm (m # calls))) q)
       (if fst m = null then calls else m # calls) (if fst m \<noteq> null \<and> fst (hm (m # calls)) < 0 then fst m # closes else closes)"
  by (subst list_loop.simps) simp

lemma list_loop_Nil [simp]: "list_loop accepts hm [] calls closes = Some (calls, closes)"
  by (subst list_loop.simps) simp

definition loop_delivers :: "(nat \<Rightarrow> bool) \<Rightarrow> (nat \<Rightarrow> bool) \<Rightarrow> msg_handler \<Rightarrow> addr \<Rightarrow> reactor_notify
    \<Rightarrow> (addr \<times> addr) list \<times> addr list \<Rightarrow> bool" where
  "loop_delivers accepts yields hm t n res \<longleftrightarrow>
     (\<exists>n'. notify_loop accepts yields hm t n = Some (Inr n') \<and> nt_ok n' null \<and> nt_messages n' = []
        \<and> (nt_calls n', nt_closes n') = res)"

lemma loop_complete:
  assumes y: "list_loop accepts hm q calls closes = Some res" and py: "pipe_yields yields"
  shows "\<forall>n t. nt_ok n t \<longrightarrow> nt_messages n = q \<longrightarrow> nt_calls n = calls \<longrightarrow> nt_closes n = closes
    \<longrightarrow> loop_delivers accepts yields hm t n res"
proof (rule list_loop.raw_induct [where P = "\<lambda>accepts hm q calls closes res. \<forall>n t. nt_ok n t \<longrightarrow> nt_messages n = q
      \<longrightarrow> nt_calls n = calls \<longrightarrow> nt_closes n = closes \<longrightarrow> loop_delivers accepts yields hm t n res", OF _ y], goal_cases)
  case (1 f accepts hm q calls closes res)
  show ?case
  proof (intro allI impI)
    fix n t assume n: "nt_ok n t" "nt_messages n = q" "nt_calls n = calls" "nt_closes n = closes"
    show "loop_delivers accepts yields hm t n res"
    proof (cases q)
      case Nil
      then show ?thesis using 1(2) n loop_step [OF n(1) py, of accepts hm] by (auto simp: loop_delivers_def)
    next
      case (Cons m q1)
      let ?q = "if fst m = null then q1 else list_post accepts (snd (hm (m # calls))) q1"
      and ?cs = "if fst m = null then calls else m # calls"
      and ?es = "if fst m \<noteq> null \<and> fst (hm (m # calls)) < 0 then fst m # closes else closes"
      obtain x n' where x: "notify_loop accepts yields hm t n = notify_loop accepts yields hm x n'" "nt_ok n' x"
        "nt_messages n' = ?q" "nt_calls n' = ?cs" "nt_closes n' = ?es"
        using loop_step [OF n(1) py, of accepts hm] n(2-4) Cons by auto
      have "f accepts hm ?q ?cs ?es = Some res" using 1(2) Cons by (auto split: if_splits)
      from 1(1) [OF this] x(2-5) show ?thesis by (auto simp: loop_delivers_def x(1))
    qed
  qed
qed

lemma loop_sound:
  assumes y: "notify_loop accepts yields hm t n = Some res"
  shows "pipe_yields yields \<longrightarrow> nt_ok n t \<longrightarrow>
    (\<exists>z. list_loop accepts hm (nt_messages n) (nt_calls n) (nt_closes n) = Some z)"
proof (rule notify_loop.raw_induct [where P = "\<lambda>accepts yields hm t n res. pipe_yields yields \<longrightarrow> nt_ok n t \<longrightarrow>
      (\<exists>z. list_loop accepts hm (nt_messages n) (nt_calls n) (nt_closes n) = Some z)", OF _ y], goal_cases)
  case (1 f accepts yields hm t n res)
  show ?case
  proof (intro impI)
    assume py: "pipe_yields yields" and n: "nt_ok n t"
    show "\<exists>z. list_loop accepts hm (nt_messages n) (nt_calls n) (nt_closes n) = Some z"
    proof (cases "nt_messages n")
      case (Cons m q)
      then have "yields (pipe_bytes n)" using nt_ok_length [OF n] py by (cases "pipe_bytes n") (auto simp: pipe_yields_def)
      then obtain x n1 where x: "read_notify_msg yields t n = Inr (0, x, n1)" "nt_ok n1 x"
        "nt_messages n = nt_data n1 x # nt_messages n1" "nt_calls n1 = nt_calls n" "nt_closes n1 = nt_closes n"
        using read_ok [OF n, of yields] py by (auto simp: pipe_yields_def)
      have m: "nt_data n1 x = m" "nt_messages n1 = q" using x(3) Cons by auto
      note h = handle_tuple_ok [OF x(2) m(1), of accepts hm]
      have "f accepts yields hm x (handle_tuple accepts hm x n1) = Some res" using 1(2) x(1) by simp
      from 1(1) [OF this] py h(1) show ?thesis unfolding Cons list_loop_Cons h(2-4) m(2) x(4,5) by blast
    qed simp
  qed
qed

section \<open>Interleavings\<close>

text \<open>The steps that run under the mutex of the notifier: a thread's \<^verbatim>\<open>notify\<close>, and one \<^verbatim>\<open>read_notify_msg\<close> of the event
  loop, which gives back the tuple of the message before and keeps the new one (\<open>t\<close>) until the next
  call. A run gives the results of the notifications, the messages read, and the state.\<close>

datatype notify_event = Notify addr addr | ReadNext

fun notify_run :: "(nat \<Rightarrow> bool) \<Rightarrow> (nat \<Rightarrow> bool) \<Rightarrow> notify_event list \<Rightarrow> addr \<Rightarrow> reactor_notify
    \<Rightarrow> fault + (int list \<times> (addr \<times> addr) list \<times> addr \<times> reactor_notify)" where
  "notify_run accepts yields [] t n = Inr ([], [], t, n)"
| "notify_run accepts yields (Notify eh msg # es) t n =
     (let (r, n1) = notify accepts eh msg n
      in map_sum id (\<lambda>(rs, ms, s). (r # rs, ms, s)) (notify_run accepts yields es t n1))"
| "notify_run accepts yields (ReadNext # es) t n =
     (case read_notify_msg yields t n of
        Inl f \<Rightarrow> Inl f
      | Inr (r, tuple, n1) \<Rightarrow>
          if r = -1 then notify_run accepts yields es null n1
          else map_sum id (\<lambda>(rs, ms, s). (rs, nt_data n1 tuple # ms, s)) (notify_run accepts yields es tuple n1))"

text \<open>The messages of the notifications that returned 0.\<close>

fun accepted_msgs :: "notify_event list \<Rightarrow> int list \<Rightarrow> (addr \<times> addr) list" where
  "accepted_msgs (Notify eh msg # es) (r # rs) = (if r = 0 then [(eh, msg)] else []) @ accepted_msgs es rs"
| "accepted_msgs (ReadNext # es) rs = accepted_msgs es rs"
| "accepted_msgs _ _ = []"

text \<open>A run on the list of queued messages, as the specification.\<close>

fun list_run :: "(nat \<Rightarrow> bool) \<Rightarrow> notify_event list \<Rightarrow> (addr \<times> addr) list
    \<Rightarrow> int list \<times> (addr \<times> addr) list \<times> (addr \<times> addr) list" where
  "list_run accepts [] q = ([], [], q)"
| "list_run accepts (Notify eh msg # es) q =
     (if accepts (length q) then apfst ((#) 0) (list_run accepts es (q @ [(eh, msg)])) else apfst ((#) (-1)) (list_run accepts es q))"
| "list_run accepts (ReadNext # es) q =
     (case q of [] \<Rightarrow> list_run accepts es [] | m # q1 \<Rightarrow> apsnd (apfst ((#) m)) (list_run accepts es q1))"

lemma list_run_in_order: "list_run accepts es q = (rs, ms, q') \<Longrightarrow> q @ accepted_msgs es rs = ms @ q'"
proof (induction accepts es q arbitrary: rs ms rule: list_run.induct)
  case (2 accepts eh msg es q)
  then show ?case by (cases "accepts (length q)") (fastforce simp: apfst_def map_prod_def split: prod.splits)+
next
  case (3 accepts es q)
  then show ?case by (cases q) (fastforce simp: apsnd_def apfst_def map_prod_def split: prod.splits)+
qed simp

lemma notify_run_refines:
  assumes "pipe_yields yields"
  shows "nt_ok n t \<Longrightarrow> list_run accepts es (nt_messages n) = (rs, ms, q) \<Longrightarrow>
    \<exists>t' n'. notify_run accepts yields es t n = Inr (rs, ms, t', n') \<and> nt_ok n' t' \<and> nt_messages n' = q"
proof (induction es arbitrary: n t rs ms)
  case Nil
  then show ?case by auto
next
  case (Cons e es)
  show ?case
  proof (cases e)
    case (Notify eh msg)
    obtain r n1 where r: "notify accepts eh msg n = (r, n1)" by fastforce
    note k = notify_ok [OF Cons.prems(1) r] and l = nt_ok_length [OF Cons.prems(1)]
    obtain rs1 where l1: "list_run accepts es (nt_messages n1) = (rs1, ms, q)" "rs = r # rs1"
      using Cons.prems(2) k(2,3) l unfolding Notify
      by (cases "accepts (length (nt_messages n))") (auto simp: apfst_def map_prod_def split: prod.splits)
    show ?thesis using Cons.IH [OF k(1) l1(1)] l1(2) r Notify by auto
  next
    case ReadNext
    have y: "\<not> yields 0" using assms by (simp add: pipe_yields_def)
    note k = read_ok [where yields = yields, OF Cons.prems(1) y] and l = nt_ok_length [OF Cons.prems(1)]
    show ?thesis
    proof (cases "nt_messages n")
      case Nil
      then obtain n1 where n1: "read_notify_msg yields t n = Inr (-1, null, n1)" "nt_ok n1 null" "nt_messages n1 = []"
        using k l y by auto
      show ?thesis using Cons.IH [OF n1(2), of rs ms] Cons.prems(2) n1 Nil ReadNext by simp
    next
      case (Cons m q1)
      then have "yields (pipe_bytes n)" using l assms by (auto simp: pipe_yields_def)
      then obtain x n1 where x: "read_notify_msg yields t n = Inr (0, x, n1)" "nt_ok n1 x" "nt_messages n = nt_data n1 x # nt_messages n1"
        using k by auto
      obtain ms1 where l1: "list_run accepts es (nt_messages n1) = (rs, ms1, q)" "ms = nt_data n1 x # ms1"
        using Cons.prems(2) x(3) unfolding ReadNext by (auto simp: apsnd_def apfst_def map_prod_def split: prod.splits)
      show ?thesis using Cons.IH [OF x(2) l1(1)] l1(2) x(1) ReadNext by auto
    qed
  qed
qed

section \<open>Properties\<close>

text \<open>C5: Whatever the interleaving of \<^verbatim>\<open>notify\<close> calls, accepted or refused by the pipe, with the reads of the event
  loop, no read asserts, and the run is that of a list: the messages of the notifications that returned 0
  come out in the order they were posted, none lost and none twice, and a refused one leaves the queue as
  it was. The pipe gives a byte if and only if it holds one.\<close>

theorem notify_interleaving_fifo:
  assumes "nt_ok n t" "pipe_yields yields"
  shows "\<exists>rs ms t' n'. notify_run accepts yields es t n = Inr (rs, ms, t', n') \<and> nt_ok n' t'
    \<and> list_run accepts es (nt_messages n) = (rs, ms, nt_messages n') \<and> nt_messages n @ accepted_msgs es rs = ms @ nt_messages n'"
proof -
  obtain rs ms q where l: "list_run accepts es (nt_messages n) = (rs, ms, q)" by (cases "list_run accepts es (nt_messages n)") auto
  then show ?thesis using notify_run_refines [OF assms(2,1) l] list_run_in_order [OF l] by auto
qed

theorem notify_interleaving_fifo_witness:
  "\<exists>t n'. notify_run (\<lambda>k. k < 2) (\<lambda>k. 0 < k) [Notify 5 6, Notify 5 7, Notify 8 8, ReadNext, Notify 8 9, ReadNext] null
     (notify_new (\<lambda>_. \<lparr>nt_msg = 0, nt_handler = 0, nt_next = 0\<rparr>)) = Inr ([0, 0, -1, 0], [(5, 6), (5, 7)], t, n') \<and> nt_messages n' = [(8, 9)]"
  using notify_interleaving_fifo [OF notify_new_ok(1), of "\<lambda>k. 0 < k" "\<lambda>k. k < 2" "[Notify 5 6, Notify 5 7, Notify 8 8, ReadNext, Notify 8 9, ReadNext]"
      "\<lambda>_. \<lparr>nt_msg = 0, nt_handler = 0, nt_next = 0\<rparr>"]
  by (auto simp: pipe_yields_def notify_new_ok(2))

text \<open>C6: \<^verbatim>\<open>handle_input\<close> of the notifier refines the loop on a list of messages: it returns exactly when that
  loop ends, with the same calls of \<^verbatim>\<open>handle_msg\<close> and \<^verbatim>\<open>handle_close\<close> in the same order and the queue
  empty. In particular the assertion that a byte read from the pipe has its message never fails.
  The pipe gives a byte if and only if it holds one.\<close>

theorem notify_loop_refines:
  assumes "nt_ok n null" "pipe_yields yields"
  shows "case list_loop accepts hm (nt_messages n) (nt_calls n) (nt_closes n) of
      None \<Rightarrow> notify_handle_input accepts yields hm n = None
    | Some (calls, closes) \<Rightarrow> \<exists>n'. notify_handle_input accepts yields hm n = Some (Inr (0, n')) \<and> nt_ok n' null
        \<and> nt_messages n' = [] \<and> nt_calls n' = calls \<and> nt_closes n' = closes"
proof (cases "list_loop accepts hm (nt_messages n) (nt_calls n) (nt_closes n)")
  case None
  then have "notify_loop accepts yields hm null n = None"
    using loop_sound [of accepts yields hm null n] assms by (cases "notify_loop accepts yields hm null n") auto
  then show ?thesis using None by (simp add: notify_handle_input_def)
next
  case (Some res)
  from loop_complete [OF this assms(2)] assms(1) have "loop_delivers accepts yields hm null n res" by blast
  then show ?thesis using Some by (auto simp: loop_delivers_def notify_handle_input_def)
qed

definition notify_demo :: reactor_notify where
  "notify_demo = snd (notify (\<lambda>k. k < 4) 5 6 (notify_new (\<lambda>_. \<lparr>nt_msg = 0, nt_handler = 0, nt_next = 0\<rparr>)))"

lemma notify_demo_ok: "nt_ok notify_demo null" "nt_messages notify_demo = [(5, 6)]" "nt_calls notify_demo = []" "nt_closes notify_demo = []"
proof -
  let ?n = "notify_new (\<lambda>_. \<lparr>nt_msg = 0, nt_handler = 0, nt_next = 0\<rparr>)"
  have e: "notify (\<lambda>k. k < 4) 5 6 ?n = (fst (notify (\<lambda>k. k < 4) 5 6 ?n), notify_demo)" by (simp add: notify_demo_def)
  note k = notify_ok [OF notify_new_ok(1) e]
  have "pipe_bytes ?n = 0" "nt_calls ?n = []" "nt_closes ?n = []" by (simp_all add: notify_new_def)
  then show "nt_ok notify_demo null" "nt_messages notify_demo = [(5, 6)]" "nt_calls notify_demo = []" "nt_closes notify_demo = []"
    using k notify_new_ok(2) by simp_all
qed

text \<open>A handler that fails on its first message and posts another one to handler 8.\<close>

definition demo_handler :: msg_handler where
  "demo_handler calls = (if length calls = 1 then (-1, [(8, 9)]) else (0, []))"

theorem notify_loop_refines_witness:
  "\<exists>n'. notify_handle_input (\<lambda>k. k < 4) (\<lambda>k. 0 < k) demo_handler notify_demo = Some (Inr (0, n'))
     \<and> nt_calls n' = [(8, 9), (5, 6)] \<and> nt_closes n' = [5]"
  using notify_loop_refines [OF notify_demo_ok(1), of "\<lambda>k. 0 < k" "\<lambda>k. k < 4" demo_handler]
  by (simp add: notify_demo_ok list_loop_Cons pipe_yields_def demo_handler_def) blast

end
