(* ===== verification/ReactorDispatch.thy ===== *)
theory ReactorDispatch
  imports ReactorKernel ReactorNotify
begin

unbundle bit_operations_syntax

text \<open>
  The properties of the reactor: what the dispatch loop delivers, the agreement of registrations
  and interest set over every operation and every batch of events, the thread-safe front end, the
  event loop with its timers, and the findings.
\<close>

section \<open>Handlers that only listen\<close>

text \<open>The upcalls an event asks for, in the order the loop makes them, and those of all pending events.\<close>

definition event_upcalls :: "addr \<Rightarrow> int \<Rightarrow> mask \<Rightarrow> upcall list" where
  "event_upcalls eh fd ev =
     (if bit_enabled ev EPOLLIN then [HandleInput eh fd] else []) @
     (if bit_enabled ev EPOLLOUT then [HandleOutput eh fd] else []) @
     (if bit_enabled ev EPOLLPRI then [HandleException eh fd] else [])"

definition pending_events :: "'k reactor \<Rightarrow> (int \<times> mask) list" where
  "pending_events r = drop (start_pevents r) (take (end_pevents r) (r_events r))"

definition pending_upcalls :: "'k reactor \<Rightarrow> upcall list" where
  "pending_upcalls r =
     concat (map (\<lambda>(fd, ev). if bound fd r = null then [] else event_upcalls (bound fd r) fd ev) (pending_events r))"

definition plain_event :: "mask \<Rightarrow> bool" where
  "plain_event ev \<longleftrightarrow> ev \<noteq> 0 \<and> ev AND NOT (EPOLLIN OR EPOLLOUT OR EPOLLPRI) = 0"

lemma split_bits: "(ev :: mask) AND NOT 7 = 0 \<Longrightarrow> ev = (ev AND 1) OR (ev AND 4) OR (ev AND 2)"
proof -
  assume "ev AND NOT 7 = 0"
  moreover have "ev = (ev AND NOT 7) OR (ev AND 7)" by (simp add: bit.conj_disj_distrib [symmetric])
  moreover have "(7 :: mask) = 1 OR 4 OR 2" by simp
  ultimately show ?thesis by (metis bit.conj_disj_distrib or.left_neutral)
qed

lemma clear_bits:
  "clr_bits_of ev EPOLLIN AND EPOLLIN = 0" "clr_bits_of ev EPOLLIN AND EPOLLOUT = ev AND EPOLLOUT"
  "clr_bits_of ev EPOLLIN AND EPOLLPRI = ev AND EPOLLPRI" "clr_bits_of ev EPOLLOUT AND EPOLLOUT = 0"
  "clr_bits_of ev EPOLLOUT AND EPOLLIN = ev AND EPOLLIN" "clr_bits_of ev EPOLLOUT AND EPOLLPRI = ev AND EPOLLPRI"
  "clr_bits_of ev EPOLLPRI AND EPOLLPRI = 0" "clr_bits_of ev EPOLLPRI AND EPOLLIN = ev AND EPOLLIN"
  "clr_bits_of ev EPOLLPRI AND EPOLLOUT = ev AND EPOLLOUT"
  by (simp_all add: clr_bits_of_def epoll_defs and.assoc)

lemma clear_rest: "ev AND NOT x = (0 :: mask) \<Longrightarrow> clr_bits_of ev b AND NOT x = 0"
  by (simp add: clr_bits_of_def and.assoc and.commute [of "NOT b"]) (simp add: and.assoc [symmetric])

lemma plain_upcalls: "ev AND NOT (EPOLLIN OR EPOLLOUT OR EPOLLPRI) = 0 \<Longrightarrow> event_upcalls eh fd ev = [] \<longleftrightarrow> ev = 0"
  using split_bits [of ev] by (auto simp: event_upcalls_def bit_enabled_def epoll_defs)

definition listens :: "handlers \<Rightarrow> bool" where
  "listens hs \<longleftrightarrow> (\<forall>us. \<exists>v. 0 \<le> v \<and> hs us = Return v)"

lemma listens_upcall: "listens hs \<Longrightarrow> \<exists>v. 0 \<le> v \<and> r_upcall (handle_opt_i ctl) hs u r = Some (v, r\<lparr>upcalls := u # upcalls r\<rparr>)"
  by (metis listens_def r_upcall_def run_prog_Return)

text \<open>One step of the loop on a plain event of a registered handle.\<close>

lemma listens_bit:
  assumes "listens hs" "start_pevents r < length (r_events r)"
  shows "dispatch_bit ctl hs fd ev b u m r =
    (let r1 = r\<lparr>r_events := (r_events r)[start_pevents r := (fd, clr_bits_of ev b)], upcalls := u # upcalls r\<rparr>
     in Some (if clr_bits_of ev b = 0 then advance_event r1 else r1))"
  using listens_upcall [OF assms(1), of ctl u "r\<lparr>r_events := (r_events r)[start_pevents r := (fd, clr_bits_of ev b)]\<rparr>"] assms(2)
  by (auto simp: dispatch_bit_def Let_def)

lemma plain_step:
  assumes "listens hs" "start_pevents r < length (r_events r)" "plain_event ev"
  obtains b u us where "event_upcalls eh fd ev = u # us" "event_upcalls eh fd (clr_bits_of ev b) = us"
    "dispatch_event ctl hs eh fd ev r =
      (let r1 = r\<lparr>r_events := (r_events r)[start_pevents r := (fd, clr_bits_of ev b)], upcalls := u # upcalls r\<rparr>
       in Some (if clr_bits_of ev b = 0 then advance_event r1 else r1))"
proof -
  have ne: "event_upcalls eh fd ev \<noteq> []" using assms(3) plain_upcalls by (auto simp: plain_event_def)
  consider "bit_enabled ev EPOLLIN" | "\<not> bit_enabled ev EPOLLIN" "bit_enabled ev EPOLLOUT"
    | "\<not> bit_enabled ev EPOLLIN" "\<not> bit_enabled ev EPOLLOUT" "bit_enabled ev EPOLLPRI"
    using ne by (auto simp: event_upcalls_def split: if_splits)
  then show ?thesis
  proof cases
    case 1
    show ?thesis by (rule that [of "HandleInput eh fd" _ EPOLLIN])
      (use 1 in \<open>simp_all add: event_upcalls_def bit_enabled_def clear_bits dispatch_event_def listens_bit [OF assms(1,2)]\<close>)
  next
    case 2
    show ?thesis by (rule that [of "HandleOutput eh fd" _ EPOLLOUT])
      (use 2 in \<open>simp_all add: event_upcalls_def bit_enabled_def clear_bits dispatch_event_def listens_bit [OF assms(1,2)]\<close>)
  next
    case 3
    show ?thesis by (rule that [of "HandleException eh fd" _ EPOLLPRI])
      (use 3 in \<open>simp_all add: event_upcalls_def bit_enabled_def clear_bits dispatch_event_def listens_bit [OF assms(1,2)]\<close>)
  qed
qed

lemma pending_Cons:
  "start_pevents r < end_pevents r \<Longrightarrow> end_pevents r \<le> length (r_events r) \<Longrightarrow>
     pending_events r = r_events r ! start_pevents r # pending_events (advance_event r)"
  by (simp add: pending_events_def advance_event_def Cons_nth_drop_Suc [symmetric])

lemma pending_update:
  assumes "start_pevents r < end_pevents r" "end_pevents r \<le> length (r_events r)"
  shows "pending_events (r\<lparr>r_events := (r_events r)[start_pevents r := e], upcalls := us\<rparr>) = e # pending_events (advance_event r)"
    "pending_events (advance_event (r\<lparr>r_events := (r_events r)[start_pevents r := e], upcalls := us\<rparr>)) = pending_events (advance_event r)"
proof -
  have t: "take (end_pevents r) ((r_events r)[start_pevents r := e]) = (take (end_pevents r) (r_events r))[start_pevents r := e]"
    by (simp add: take_update_swap)
  show "pending_events (r\<lparr>r_events := (r_events r)[start_pevents r := e], upcalls := us\<rparr>) = e # pending_events (advance_event r)"
    "pending_events (advance_event (r\<lparr>r_events := (r_events r)[start_pevents r := e], upcalls := us\<rparr>)) = pending_events (advance_event r)"
    using assms by (simp_all add: pending_events_def advance_event_def t Cons_nth_drop_Suc [symmetric])
qed

definition delivers :: "nat \<Rightarrow> 'k reactor \<Rightarrow> 'k reactor \<Rightarrow> bool" where
  "delivers k r r' \<longleftrightarrow> upcalls r' = rev (take k (pending_upcalls r)) @ upcalls r \<and> pending_upcalls r' = drop k (pending_upcalls r)
     \<and> handler_rep r' = handler_rep r \<and> kern r' = kern r"

lemma listen_loop:
  assumes "listens hs"
  shows "events_ok r \<Longrightarrow> \<forall>e \<in> set (pending_events r). plain_event (snd e) \<Longrightarrow>
    \<exists>r'. dispatch_loop ctl hs n r = Some r' \<and> delivers (process_limit - n) r r'"
proof (induction "(process_limit - n) + (end_pevents r - start_pevents r)" arbitrary: n r rule: less_induct)
  case less
  let ?a = "advance_event r"
  obtain fd ev where e: "r_events r ! start_pevents r = (fd, ev)" by fastforce
  have ok: "end_pevents r \<le> length (r_events r)" using less.prems by (simp add: events_ok_def)
  consider "\<not> start_pevents r < end_pevents r" | "process_limit \<le> n" | "start_pevents r < end_pevents r" "n < process_limit" by linarith
  then show ?case
  proof cases
    case 1
    then show ?thesis by (subst dispatch_loop.simps) (simp add: delivers_def pending_upcalls_def pending_events_def)
  next
    case 2
    then show ?thesis by (subst dispatch_loop.simps) (simp add: delivers_def)
  next
    case 3
    note pc = pending_Cons [OF 3(1) ok]
    have oka: "events_ok ?a" and pla: "\<forall>e \<in> set (pending_events ?a). plain_event (snd e)" and pl: "plain_event ev"
      using less.prems 3(1) pc e by (auto simp: events_ok_upd)
    have hr: "handler_rep ?a = handler_rep r" by (simp add: advance_event_def)
    show ?thesis
    proof (cases "bound fd r = null")
      case True
      have "pending_upcalls ?a = pending_upcalls r" unfolding pending_upcalls_def pc e hr by (simp add: True)
      moreover have "\<exists>r'. dispatch_loop ctl hs n ?a = Some r' \<and> delivers (process_limit - n) ?a r'"
        by (rule less.hyps [OF _ oka pla]) (use 3 in \<open>auto simp: advance_event_def\<close>)
      ultimately show ?thesis using 3 ok e True
        by (simp add: dispatch_loop.simps [of ctl hs n r]) (simp add: delivers_def advance_event_def)
    next
      case False
      have lt: "start_pevents r < length (r_events r)" using 3 ok by simp
      obtain b u us where s: "event_upcalls (bound fd r) fd ev = u # us" "event_upcalls (bound fd r) fd (clr_bits_of ev b) = us"
        "dispatch_event ctl hs (bound fd r) fd ev r =
          (let r1 = r\<lparr>r_events := (r_events r)[start_pevents r := (fd, clr_bits_of ev b)], upcalls := u # upcalls r\<rparr>
           in Some (if clr_bits_of ev b = 0 then advance_event r1 else r1))"
        by (rule plain_step [OF assms lt pl])
      let ?r1 = "r\<lparr>r_events := (r_events r)[start_pevents r := (fd, clr_bits_of ev b)], upcalls := u # upcalls r\<rparr>"
      let ?r2 = "if clr_bits_of ev b = 0 then advance_event ?r1 else ?r1"
      note pu = pending_update [OF 3(1) ok, where e = "(fd, clr_bits_of ev b)" and us = "u # upcalls r"]
      have z: "ev AND NOT (EPOLLIN OR EPOLLOUT OR EPOLLPRI) = 0" using pl by (simp add: plain_event_def)
      have us: "clr_bits_of ev b = 0 \<longleftrightarrow> us = []" using plain_upcalls [OF clear_rest [OF z], of _ _ b] s(2) by metis
      have same: "bound h ?r2 = bound h r" "handler_rep ?r2 = handler_rep r" "kern ?r2 = kern r" "upcalls ?r2 = u # upcalls r" for h
        by (simp_all add: advance_event_def)
      have p2: "pending_events ?r2 = (if us = [] then [] else [(fd, clr_bits_of ev b)]) @ pending_events ?a" using pu us by simp
      have P: "pending_upcalls r = u # pending_upcalls ?r2"
        unfolding pending_upcalls_def p2 pc e same(2) using s(1,2) False by simp
      have "\<exists>r'. dispatch_loop ctl hs (Suc n) ?r2 = Some r' \<and> delivers (process_limit - Suc n) ?r2 r'"
      proof (rule less.hyps)
        show "events_ok ?r2" using less.prems(1) 3(1) by (auto simp: events_ok_def advance_event_def)
        show "\<forall>e \<in> set (pending_events ?r2). plain_event (snd e)"
          using pla us clear_rest [OF z] unfolding p2 by (auto simp: plain_event_def)
      qed (use 3 in \<open>auto simp: advance_event_def\<close>)
      then obtain r' where r': "dispatch_loop ctl hs (Suc n) ?r2 = Some r'" "delivers (process_limit - Suc n) ?r2 r'" by blast
      have "dispatch_loop ctl hs n r = Some r'"
        using 3 lt e False s(3) r'(1) by (subst dispatch_loop.simps) (simp add: Let_def)
      moreover have "process_limit - n = Suc (process_limit - Suc n)" using 3(2) by simp
      ultimately show ?thesis using r'(2) P unfolding delivers_def same by simp
    qed
  qed
qed

section \<open>Runs\<close>

text \<open>The steps of a running reactor: a client's calls, a poll, a batch of events.\<close>

inductive r_step :: "'k ctl \<Rightarrow> 'k wait \<Rightarrow> handlers \<Rightarrow> 'k reactor \<Rightarrow> 'k reactor \<Rightarrow> bool" for ctl wait hs where
  st_register: "register_handler (handle_opt_i ctl) h eh m r = (v, r') \<Longrightarrow> r_step ctl wait hs r r'"
| st_remove: "remove_handler (handle_opt_i ctl) (r_upcall (handle_opt_i ctl) hs) h m r = Some (v, r') \<Longrightarrow> r_step ctl wait hs r r'"
| st_suspend: "suspend_handler (handle_opt_i ctl) h r = (v, r') \<Longrightarrow> r_step ctl wait hs r r'"
| st_resume: "resume_handler (handle_opt_i ctl) h r = (v, r') \<Longrightarrow> r_step ctl wait hs r r'"
| st_poll: "poll_events wait timeout r = (v, r') \<Longrightarrow> r_step ctl wait hs r r'"
| st_dispatch: "dispatch_io_events ctl hs r = Some (v, r') \<Longrightarrow> r_step ctl wait hs r r'"

lemma poll_events_ok: "events_ok r \<Longrightarrow> events_ok (snd (poll_events wait t r))"
  by (auto simp: poll_events_def events_ok_def Let_def split: prod.split sum.split)

lemma client_events_ok:
  assumes "events_ok r"
  shows "events_ok (snd (register_handler (handle_opt_i ctl) h eh m r))" "events_ok (snd (suspend_handler (handle_opt_i ctl) h r))"
    "events_ok (snd (resume_handler (handle_opt_i ctl) h r))" "remove_handler (handle_opt_i ctl) (r_upcall (handle_opt_i ctl) hs) h m r = Some (v, r') \<Longrightarrow> events_ok r'"
  using assms eo.remove_upcall_inv [OF assms, of ctl hs h m v r']
  by (auto simp: register_handler_def suspend_handler_def resume_handler_def remove_handler_def split: if_splits)

lemma client_sync:
  assumes "epoll_laws ctl interest" "epoll_healthy ctl" "sync interest r"
  shows "sync interest (snd (register_handler (handle_opt_i ctl) h eh m r))" "sync interest (snd (suspend_handler (handle_opt_i ctl) h r))"
    "sync interest (snd (resume_handler (handle_opt_i ctl) h r))" "remove_handler (handle_opt_i ctl) (r_upcall (handle_opt_i ctl) hs) h m r = Some (v, r') \<Longrightarrow> sync interest r'"
  using assms sync_ops [OF assms] si.remove_upcall_inv [of ctl interest r hs h m v r']
  by (auto simp: register_handler_def suspend_handler_def resume_handler_def remove_handler_def null_mask_def split: if_splits)

lemma r_step_ok:
  assumes "kernel_laws ctl wait interest lost"
  shows "r_step ctl wait hs r r' \<Longrightarrow> sync_kept interest lost r \<and> events_ok r \<Longrightarrow> sync_kept interest lost r' \<and> events_ok r'"
proof (induction rule: r_step.induct)
  case (st_register h eh m r v r')
  then show ?case using client_events_ok(1) [of r ctl h eh m] kept_client(1) [OF assms, of r h eh m] by auto
next
  case (st_remove h m r v r')
  then show ?case using client_events_ok(4) [OF _ st_remove(1)] kept_client(4) [OF assms _ st_remove(1)] by blast
next
  case (st_suspend h r v r')
  then show ?case using client_events_ok(2) [of r ctl h] kept_client(2) [OF assms, of r h] by auto
next
  case (st_resume h r v r')
  then show ?case using client_events_ok(3) [of r ctl h] kept_client(3) [OF assms, of r h] by auto
next
  case (st_poll timeout r v r')
  then show ?case using poll_events_ok [of r wait timeout] kept_poll [OF assms, of r timeout] by auto
next
  case (st_dispatch r v r')
  then show ?case using eo.dispatch_io_inv [of r ctl hs] sk.dispatch_io_inv [of ctl wait interest lost r hs] assms by blast
qed

text \<open>Opening ends with the registration of the notifier in a reactor without registrations.\<close>

lemma open_i_registers:
  assumes "open_i ctl max_handles arr create k nh ntq pipe tq (reactor_new k0 q) = (0, r)"
  obtains r1 r2 fd v where "register_handler_i (handle_opt_i ctl) fd nh read_mask r1 = (v, r2)" "r = r2\<lparr>initialized := True\<rparr>"
    "kern r1 = k" "rep_ok (handler_rep r1)" "\<And>h. slot h (handler_rep r1) = tuple_new" "events_ok r1" "r_timers r1 = q"
proof -
  let ?p = "\<lparr>rep_max_size = max_handles, rep_handlers = replicate (nat max_handles) tuple_new\<rparr>"
  let ?r = "\<lambda>t d. (reactor_new k0 q)\<lparr>r_events := arr, epoll_fd := create, kern := k, timer_queue_p := t, r_size := max_handles,
      notify_handler := nh, handler_rep := ?p, delete_timer_queue := d\<rparr>"
  obtain t d fd v r1 where e: "register_handler_i (handle_opt_i ctl) fd nh read_mask (?r t d) = (v, r1)" "r = r1\<lparr>initialized := True\<rparr>"
    using assms by (cases "tq = null")
      (auto simp: open_i_def open_ii_def Let_def rep_open_def reactor_new_def rep_new_def split: if_splits option.splits prod.splits)
  have "handle_in_range h ?p \<Longrightarrow> replicate (nat max_handles) tuple_new ! nat h = tuple_new" for h
    by (simp add: handle_in_range_def nat_less_iff)
  then have s: "slot h ?p = tuple_new" for h by (simp add: slot_def)
  have "max_handles \<ge> 0" using assms by (auto simp: open_i_def split: if_splits)
  then show ?thesis using that [OF e] s by (simp add: rep_ok_def events_ok_def reactor_new_def)
qed

lemma open_i_ok:
  assumes "epoll_laws ctl interest" "epoll_healthy ctl" "interest k = Map.empty" "nh \<noteq> null"
    "open_i ctl max_handles arr create k nh ntq pipe tq (reactor_new k0 q) = (0, r)"
  shows "sync interest r \<and> events_ok r \<and> r_timers r = q"
proof (rule open_i_registers [OF assms(5)])
  fix r1 r2 fd v
  assume e: "register_handler_i (handle_opt_i ctl) fd nh read_mask r1 = (v, r2)" "r = r2\<lparr>initialized := True\<rparr>"
    and r1: "kern r1 = k" "rep_ok (handler_rep r1)" "\<And>h. slot h (handler_rep r1) = tuple_new" "events_ok r1" "r_timers r1 = q"
  have s: "sync interest r1" using assms(3) r1 by (simp add: sync_def slot_sync_def tuple_new_def)
  have "sync interest r2" using sync_ops(1) [OF assms(1,2) s assms(4), of read_mask fd] e(1) by (simp add: read_mask_def)
  moreover have "r_frame r2 = r_frame r1" using ops_frame(1) [of ctl fd nh read_mask r1] e(1) by simp
  ultimately show ?thesis using e(2) r1 by (simp add: sync_def events_ok_def r_frame_def)
qed

lemma open_i_kept:
  assumes "kernel_laws ctl wait interest lost" "interest k = Map.empty" "nh \<noteq> null"
    "open_i ctl max_handles arr create k nh ntq pipe tq (reactor_new k0 q) = (0, r)"
  shows "sync_kept interest lost r \<and> events_ok r"
proof (rule open_i_registers [OF assms(4)])
  fix r1 r2 fd v
  assume e: "register_handler_i (handle_opt_i ctl) fd nh read_mask r1 = (v, r2)" "r = r2\<lparr>initialized := True\<rparr>"
    and r1: "kern r1 = k" "rep_ok (handler_rep r1)" "\<And>h. slot h (handler_rep r1) = tuple_new" "events_ok r1" "r_timers r1 = q"
  have s: "sync_kept interest lost r1" using assms(2) r1 by (simp add: sync_kept_def slot_sync_def tuple_new_def)
  have "sync_kept interest lost r2" using kept_register [OF assms(1) s assms(3), of read_mask fd] e(1) by (simp add: read_mask_def)
  moreover have "r_frame r2 = r_frame r1" using ops_frame(1) [of ctl fd nh read_mask r1] e(1) by simp
  ultimately show ?thesis using e(2) r1 by (simp add: sync_kept_def events_ok_def r_frame_def)
qed

section \<open>A kernel and a reactor to run\<close>

definition demo_ctl :: "(int \<Rightarrow> mask option) ctl" where
  "demo_ctl op h ev k =
     (if op = EPOLL_CTL_ADD then (if k h = None then (None, k(h \<mapsto> ev)) else (Some EEXIST, k))
      else if k h = None then (Some ENOENT, k)
      else (None, k(h := if op = EPOLL_CTL_DEL then None else Some ev)))"

lemma demo_laws: "epoll_laws demo_ctl (\<lambda>k. k)" "epoll_healthy demo_ctl"
  by (auto simp: epoll_laws_def ctl_law_def epoll_healthy_def demo_ctl_def)

definition demo_wait :: "(int \<Rightarrow> mask option) wait" where
  "demo_wait ms k = (Inr [(1, EPOLLIN)], k)"

definition demo_reactor :: "(int \<Rightarrow> mask option) reactor" where
  "demo_reactor = snd (open_i demo_ctl 4 (replicate 4 (0, 0)) 9 Map.empty 20 21 (Some 3) null (reactor_new Map.empty (tq_new 10 3)))"

lemma demo_open:
  "open_i demo_ctl 4 (replicate 4 (0, 0)) 9 Map.empty 20 21 (Some 3) null (reactor_new Map.empty (tq_new 10 3)) = (0, demo_reactor)"
proof -
  have "fst (open_i demo_ctl 4 (replicate 4 (0, 0)) 9 Map.empty 20 21 (Some 3) null (reactor_new Map.empty (tq_new 10 3))) = 0"
    by (simp add: open_i_def open_ii_def Let_def reactor_new_def rep_open_def rep_new_def register_handler_i_def rep_find_def
        rep_bind_def handle_in_range_def is_invalid_handle_def tuple_new_def handle_opt_i_def call_ctl_def demo_ctl_def
        upd_tuple_def invalid_handle_def)
  then show ?thesis by (simp add: demo_reactor_def prod_eq_iff)
qed

lemma demo_ok: "sync (\<lambda>k. k) demo_reactor" "events_ok demo_reactor"
  using open_i_ok [OF demo_laws _ _ demo_open] by auto

definition demo_handlers :: handlers where
  "demo_handlers us = Return 0"

text \<open>Handler 30 registered for reading on handle 1.\<close>

definition demo_reading :: "(int \<Rightarrow> mask option) reactor" where
  "demo_reading = snd (register_handler (handle_opt_i demo_ctl) 1 30 read_mask demo_reactor)"

lemmas reactor_eval = demo_reactor_def demo_reading_def open_i_def open_ii_def Let_def reactor_new_def rep_open_def rep_new_def
  register_handler_def register_handler_i_def rep_find_def rep_bind_def handle_in_range_def is_invalid_handle_def tuple_new_def
  handle_opt_i_def call_ctl_def demo_ctl_def upd_tuple_def invalid_handle_def null_mask_def rep_mask_def rep_suspended_def

lemma demo_reading_eval:
  "bound 1 demo_reading = 30" "rep_mask 1 (handler_rep demo_reading) = read_mask" "\<not> rep_suspended 1 (handler_rep demo_reading)"
  "handle_in_range 1 (handler_rep demo_reading)" "upcalls demo_reading = []" "bound 2 demo_reading = null"
  "handle_in_range 2 (handler_rep demo_reading)"
  by (simp_all add: reactor_eval read_mask_def)

lemma demo_reading_ok: "sync (\<lambda>k. k) demo_reading" "events_ok demo_reading"
  using client_sync(1) [OF demo_laws demo_ok(1), of 1 30 read_mask] client_events_ok(1) [OF demo_ok(2), of demo_ctl 1 30 read_mask]
  by (simp_all add: demo_reading_def)

section \<open>Properties\<close>

text \<open>C1: From a newly opened reactor until it is closed, whatever the clients call, whatever the callbacks
  of the handlers call in turn, and whatever events the kernel reports: no event is read outside the
  event array; and at every handle whose entry the kernel has not lost, the kernel polls the handle
  only if a handler is registered for it, and then with exactly the events of its mask, and every
  registered handle that is not marked as suspended is polled. Lost are the handles for which a call has
  failed for another reason than \<^verbatim>\<open>EEXIST\<close> or \<^verbatim>\<open>ENOENT\<close>, and those that were closed while they were registered; for them
  registration and polling may differ (\<open>modify_failure_hidden\<close>). What a lost handle does concerns no
  other one. A handle that is marked as suspended may be polled: if it was registered again
  (\<open>register_rearms_suspended\<close>). Closing and opening again is not a step (\<open>reopen_keeps_stale_events\<close>).\<close>

theorem reactor_runs_sync:
  assumes "kernel_laws ctl wait interest lost" "interest k = Map.empty" "nh \<noteq> null"
    "open_i ctl max_handles arr create k nh ntq pipe tq (reactor_new k0 q) = (0, r0)" "(r_step ctl wait hs)\<^sup>*\<^sup>* r0 r"
  shows "r_fault r = None
    \<and> (\<forall>h ev. h \<notin> lost (kern r) \<and> interest (kern r) h = Some ev \<longrightarrow>
         bound h r \<noteq> null \<and> ev = reactor_mask_to_epoll_event (rep_mask h (handler_rep r)))
    \<and> (\<forall>h. h \<notin> lost (kern r) \<and> bound h r \<noteq> null \<and> \<not> rep_suspended h (handler_rep r) \<longrightarrow> interest (kern r) h \<noteq> None)"
proof -
  have "sync_kept interest lost r \<and> events_ok r" using assms(5)
  proof (induction rule: rtranclp_induct)
    case base
    then show ?case using open_i_kept [OF assms(1-4)] by simp
  next
    case (step r r')
    then show ?case using r_step_ok [OF assms(1)] by blast
  qed
  then show ?thesis by (auto simp: sync_kept_def slot_sync_def events_ok_def rep_slot)
qed

text \<open>A kernel that refuses to modify the entry of handle 2, for want of memory: registering it for a second
  event succeeds all the same and loses it; handle 1 is polled for what it is registered for.\<close>

definition lossy_ctl :: "((int \<Rightarrow> mask option) \<times> int set) ctl" where
  "lossy_ctl op h ev k =
     (if h = 2 \<and> op = EPOLL_CTL_MOD then (Some (OtherErrno 12), (fst k, insert 2 (snd k)))
      else (fst (demo_ctl op h ev (fst k)), (snd (demo_ctl op h ev (fst k)), snd k)))"

definition lossy_wait :: "((int \<Rightarrow> mask option) \<times> int set) wait" where
  "lossy_wait ms k = (Inr [(1, EPOLLIN)], k)"

lemma lossy_laws: "kernel_laws lossy_ctl lossy_wait fst snd"
  by (auto simp: kernel_laws_def lossy_ctl_def lossy_wait_def demo_ctl_def)

definition lossy_open :: "int \<times> ((int \<Rightarrow> mask option) \<times> int set) reactor" where
  "lossy_open = open_i lossy_ctl 4 (replicate 4 (0, 0)) 9 (Map.empty, {}) 20 21 (Some 3) null (reactor_new (Map.empty, {}) (tq_new 10 3))"

definition lossy_call :: "int \<Rightarrow> addr \<Rightarrow> mask \<Rightarrow> ((int \<Rightarrow> mask option) \<times> int set) reactor \<Rightarrow> ((int \<Rightarrow> mask option) \<times> int set) reactor" where
  "lossy_call h eh m r = snd (register_handler (handle_opt_i lossy_ctl) h eh m r)"

lemma lossy_step: "r_step lossy_ctl lossy_wait demo_handlers r (lossy_call h eh m r)"
  using st_register [of lossy_ctl h eh m r _ "lossy_call h eh m r"] by (simp add: lossy_call_def prod_eq_iff)

lemma lossy_eval:
  "fst lossy_open = 0" "bound 1 (lossy_call 1 30 read_mask (lossy_call 2 31 write_mask (lossy_call 2 31 read_mask (snd lossy_open)))) = 30"
  "rep_mask 1 (handler_rep (lossy_call 1 30 read_mask (lossy_call 2 31 write_mask (lossy_call 2 31 read_mask (snd lossy_open))))) = read_mask"
  "\<not> rep_suspended 1 (handler_rep (lossy_call 1 30 read_mask (lossy_call 2 31 write_mask (lossy_call 2 31 read_mask (snd lossy_open)))))"
  "snd (kern (lossy_call 1 30 read_mask (lossy_call 2 31 write_mask (lossy_call 2 31 read_mask (snd lossy_open))))) = {2}"
  by (simp_all add: lossy_open_def lossy_call_def lossy_ctl_def reactor_eval read_mask_def write_mask_def set_bits_of_def with_rep_def rep_set_mask_def)

theorem reactor_runs_sync_witness:
  "\<exists>r. (r_step lossy_ctl lossy_wait demo_handlers)\<^sup>*\<^sup>* (snd lossy_open) r \<and> bound 1 r = 30 \<and> fst (kern r) 1 \<noteq> None \<and> snd (kern r) = {2}"
proof -
  let ?r = "lossy_call 1 30 read_mask (lossy_call 2 31 write_mask (lossy_call 2 31 read_mask (snd lossy_open)))"
  have run: "(r_step lossy_ctl lossy_wait demo_handlers)\<^sup>*\<^sup>* (snd lossy_open) ?r"
    by (meson lossy_step rtranclp.rtrancl_into_rtrancl rtranclp.rtrancl_refl)
  have o: "open_i lossy_ctl 4 (replicate 4 (0, 0)) 9 (Map.empty, {}) 20 21 (Some 3) null (reactor_new (Map.empty, {}) (tq_new 10 3)) = (0, snd lossy_open)"
    using lossy_eval(1) by (simp add: prod_eq_iff lossy_open_def)
  from reactor_runs_sync [OF lossy_laws _ _ o run] have "fst (kern ?r) 1 \<noteq> None" using lossy_eval by auto
  then show ?thesis using run lossy_eval by blast
qed

text \<open>C2: One call of \<^verbatim>\<open>dispatch_io_events\<close>, when every callback returns a result that is not negative and calls
  nothing (\<open>listens\<close>), and when the pending events are input, output and exceptional data only, so none with
  \<^verbatim>\<open>EPOLLHUP\<close> or \<^verbatim>\<open>EPOLLERR\<close> (\<open>plain_event\<close>): it makes the upcalls of the pending events in order -- input before
  output before exceptional data for each handle -- up to 32 of them; exactly the others are still pending
  afterwards. So no readiness is lost and none is reported twice. (A broken handle: \<open>broken_handle_closed\<close>.)\<close>

theorem dispatch_delivers:
  assumes "listens hs" "events_ok r" "\<forall>e \<in> set (pending_events r). plain_event (snd e)"
  shows "\<exists>r'. dispatch_io_events ctl hs r = Some (0, r')
    \<and> upcalls r' = rev (take 32 (pending_upcalls r)) @ upcalls r \<and> pending_upcalls r' = drop 32 (pending_upcalls r)
    \<and> handler_rep r' = handler_rep r \<and> kern r' = kern r"
  using listen_loop [OF assms, of ctl 0] by (auto simp: dispatch_io_events_def delivers_def process_limit_def)

definition demo_ready :: "(int \<Rightarrow> mask option) reactor" where
  "demo_ready = demo_reading\<lparr>r_events := [(1, EPOLLIN OR EPOLLOUT), (2, EPOLLIN)], start_pevents := 0, end_pevents := 2\<rparr>"

lemma demo_ready_pending: "pending_upcalls demo_ready = [HandleInput 30 1, HandleOutput 30 1]"
proof -
  have "pending_events demo_ready = [(1, EPOLLIN OR EPOLLOUT), (2, EPOLLIN)]" by (simp add: pending_events_def demo_ready_def)
  moreover have "bound 1 demo_ready = 30" "bound 2 demo_ready = null" using demo_reading_eval by (simp_all add: demo_ready_def)
  ultimately show ?thesis by (simp add: pending_upcalls_def event_upcalls_def bit_enabled_def epoll_defs)
qed

theorem dispatch_delivers_witness:
  "\<exists>r'. dispatch_io_events demo_ctl demo_handlers demo_ready = Some (0, r') \<and> upcalls r' = [HandleOutput 30 1, HandleInput 30 1]"
proof -
  have "listens demo_handlers" by (simp add: listens_def demo_handlers_def)
  moreover have "events_ok demo_ready" using demo_reading_ok(2) by (simp add: events_ok_def demo_ready_def)
  moreover have "\<forall>e \<in> set (pending_events demo_ready). plain_event (snd e)"
    by (simp add: pending_events_def demo_ready_def plain_event_def epoll_defs)
  ultimately have "\<exists>r'. dispatch_io_events demo_ctl demo_handlers demo_ready = Some (0, r')
      \<and> upcalls r' = rev (take 32 (pending_upcalls demo_ready)) @ upcalls demo_ready \<and> pending_upcalls r' = drop 32 (pending_upcalls demo_ready)
      \<and> handler_rep r' = handler_rep demo_ready \<and> kern r' = kern demo_ready" by (rule dispatch_delivers)
  then show ?thesis using demo_reading_eval(5) unfolding demo_ready_pending by (auto simp: demo_ready_def)
qed

text \<open>C3: \<^verbatim>\<open>dispatch_io_events\<close> returns, whatever the events and whatever else the callbacks do, if every
  \<^verbatim>\<open>handle_close\<close> removes handlers only with \<^verbatim>\<open>dont_call\<close>.\<close>

theorem dispatch_returns:
  assumes "closes_quietly hs"
  shows "\<exists>r'. dispatch_io_events ctl hs r = Some (0, r')"
  using dispatch_loop_returns [OF assms, of ctl 0 r] by (auto simp: dispatch_io_events_def)

theorem dispatch_returns_witness:
  "\<exists>r'. dispatch_io_events demo_ctl
     (\<lambda>us. case us of HandleClose eh h m # _ \<Rightarrow> Call (Remove h (m OR dont_call)) Return | _ \<Rightarrow> Return (-1)) demo_ready = Some (0, r')"
  by (rule dispatch_returns)
    (simp add: closes_quietly_def bit_enabled_def bit.conj_disj_distrib2 or_eq_0_iff dont_call_def)

end
