(* ===== verification/ReactorProps.thy ===== *)
theory ReactorProps
  imports ReactorDispatch
begin

unbundle bit_operations_syntax

text \<open>
  Single operations of the reactor: suspending and resuming, errors of the kernel, handlers that
  fail, the event loop with its timers, and what goes wrong with suspended handles, with refused
  modifications and with closing.
\<close>

section \<open>Suspending\<close>

text \<open>C10: With a kernel that refuses no call (\<open>epoll_healthy\<close>), suspending a registered handle that is not
  suspended takes it out of the kernel's interest set and keeps its registration; resuming it brings back
  exactly the state before: the same handler, mask and interest, for this handle and for every other one.\<close>

theorem suspend_resume_roundtrip:
  assumes "epoll_laws ctl interest" "epoll_healthy ctl" "sync interest r" "bound h r \<noteq> null"
    "\<not> rep_suspended h (handler_rep r)" "suspend_handler_i (handle_opt_i ctl) h r = (v1, r1)" "resume_handler_i (handle_opt_i ctl) h r1 = (v2, r2)"
  shows "v1 = 0 \<and> interest (kern r1) h = None \<and> bound h r1 = bound h r \<and> v2 = 0 \<and> interest (kern r2) = interest (kern r)
    \<and> (\<forall>h'. slot h' (handler_rep r2) = slot h' (handler_rep r))"
proof -
  let ?t = "slot h (handler_rep r)"
  have u1: "v1 = 0" "slot_update interest h (?t\<lparr>rt_suspended := True\<rparr>) None r r1"
    using suspend_effect [OF assms(1-3,6)] assms(4,5) by simp_all
  have s1: "sync interest r1" using sync_ops(3) [OF assms(1-3), of h] assms(6) by simp
  have t1: "slot h (handler_rep r1) = ?t\<lparr>rt_suspended := True\<rparr>" using u1(2) by (simp add: slot_update_def slot_becomes_def)
  have u2: "v2 = 0" "slot_update interest h (?t\<lparr>rt_suspended := False\<rparr>) (Some (reactor_mask_to_epoll_event (rt_mask ?t))) r1 r2"
    using resume_effect [OF assms(1,2) s1 assms(7)] assms(4) t1 by (simp_all add: rep_slot)
  have t: "?t\<lparr>rt_suspended := False\<rparr> = ?t" using assms(5) by (simp add: rep_slot)
  have "interest (kern r) h = Some (reactor_mask_to_epoll_event (rt_mask ?t))"
    using assms(3-5) by (auto simp: sync_def slot_sync_def rep_slot)
  then have "interest (kern r2) = interest (kern r)" using u1(2) u2(2) by (auto simp: slot_update_def fun_eq_iff)
  moreover have "interest (kern r1) h = None" using u1(2) by (simp add: slot_update_def)
  moreover have "\<forall>h'. slot h' (handler_rep r2) = slot h' (handler_rep r)"
    using u1(2) u2(2) unfolding t slot_update_def slot_becomes_def by auto
  ultimately show ?thesis using u1(1) u2(1) t1 by (simp add: rep_slot)
qed

theorem suspend_resume_roundtrip_witness:
  "fst (suspend_handler_i (handle_opt_i demo_ctl) 1 demo_reading) = 0 \<and> kern (snd (suspend_handler_i (handle_opt_i demo_ctl) 1 demo_reading)) 1 = None
   \<and> kern (snd (resume_handler_i (handle_opt_i demo_ctl) 1 (snd (suspend_handler_i (handle_opt_i demo_ctl) 1 demo_reading)))) = kern demo_reading"
  using suspend_resume_roundtrip [OF demo_laws demo_reading_ok(1) _ _ surjective_pairing surjective_pairing, of 1]
    demo_reading_eval by simp

text \<open>Registering a suspended handle for further events puts it back into the interest set although it
  stays marked as suspended: the handler gets events again, and suspending it once more reports
  success without doing anything. (The comment in \<^verbatim>\<open>suspend_handler_i\<close> promises that no events will be
  polled on a suspended handle.)\<close>

theorem register_rearms_suspended:
  assumes "epoll_laws ctl interest" "epoll_healthy ctl" "sync interest r" "bound h r \<noteq> null" "rep_suspended h (handler_rep r)"
    "eh \<noteq> null" "register_handler_i (handle_opt_i ctl) h eh m r = (v, r')"
  shows "v = 0 \<and> interest (kern r') h \<noteq> None \<and> rep_suspended h (handler_rep r') \<and> suspend_handler_i (handle_opt_i ctl) h r' = (0, r')"
proof -
  have "handle_in_range h (handler_rep r)" using assms(4) bound_in_range by (simp add: rep_slot)
  then have v: "v = 0" and u: "slot_update interest h ((slot h (handler_rep r))\<lparr>rt_mask := set_bits_of (rt_mask (slot h (handler_rep r))) m\<rparr>)
      (Some (reactor_mask_to_epoll_event (set_bits_of (rt_mask (slot h (handler_rep r))) m))) r r'"
    using register_effect [OF assms(1-3,6,7)] assms(4) by (simp_all add: Let_def)
  have t: "slot h (handler_rep r') = (slot h (handler_rep r))\<lparr>rt_mask := set_bits_of (rt_mask (slot h (handler_rep r))) m\<rparr>"
    using u by (simp add: slot_update_def slot_becomes_def)
  have "rep_suspended h (handler_rep r')" "bound h r' \<noteq> null" using t assms(4,5) by (simp_all add: rep_slot)
  then show ?thesis using v u by (simp add: slot_update_def suspend_handler_i_def)
qed

definition demo_suspended :: "(int \<Rightarrow> mask option) reactor" where
  "demo_suspended = snd (suspend_handler_i (handle_opt_i demo_ctl) 1 demo_reading)"

lemma demo_suspended_ok:
  "sync (\<lambda>k. k) demo_suspended" "bound 1 demo_suspended \<noteq> null" "rep_suspended 1 (handler_rep demo_suspended)"
proof -
  show "sync (\<lambda>k. k) demo_suspended" using sync_ops(3) [OF demo_laws demo_reading_ok(1)] by (simp add: demo_suspended_def)
  have "slot_update (\<lambda>k. k) 1 ((slot 1 (handler_rep demo_reading))\<lparr>rt_suspended := True\<rparr>) None demo_reading demo_suspended"
    using suspend_effect [OF demo_laws demo_reading_ok(1) surjective_pairing, of 1] demo_reading_eval
    by (simp add: demo_suspended_def)
  then show "bound 1 demo_suspended \<noteq> null" "rep_suspended 1 (handler_rep demo_suspended)"
    using demo_reading_eval(1) by (simp_all add: slot_update_def slot_becomes_def rep_slot)
qed

theorem register_rearms_suspended_witness:
  "kern (snd (register_handler_i (handle_opt_i demo_ctl) 1 30 write_mask demo_suspended)) 1 \<noteq> None
   \<and> rep_suspended 1 (handler_rep (snd (register_handler_i (handle_opt_i demo_ctl) 1 30 write_mask demo_suspended)))"
  using register_rearms_suspended [OF demo_laws demo_suspended_ok _ surjective_pairing, of 30 write_mask] by simp

section \<open>Errors of the kernel\<close>

text \<open>C37: If the kernel refuses to add a handle that has no handler yet, for another reason than that it is
  there already, registering it fails with -1, the kernel's interest set is as before, and so are handler,
  mask and suspension of every other handle; the binding made beforehand is undone: the handle has no
  handler and the empty mask, and is suspended if it was. (For a handle that is registered already see
  \<open>modify_failure_hidden\<close>: there a refusal is dropped.)\<close>

theorem register_rolls_back:
  assumes "epoll_laws ctl interest" "rep_ok (handler_rep r)" "bound h r = null"
    "fst (ctl EPOLL_CTL_ADD h (reactor_mask_to_epoll_event m) (kern r)) \<notin> {None, Some EEXIST}"
    "eh \<noteq> null" "register_handler_i (handle_opt_i ctl) h eh m r = (v, r')"
  shows "v = -1 \<and> interest (kern r') = interest (kern r)
    \<and> slot h (handler_rep r') = (slot h (handler_rep r))\<lparr>rt_event_handler := null, rt_mask := 0\<rparr>
    \<and> (\<forall>h'. h' \<noteq> h \<longrightarrow> slot h' (handler_rep r') = slot h' (handler_rep r))"
proof (cases "handle_in_range h (handler_rep r)")
  case True
  let ?ev = "reactor_mask_to_epoll_event m"
  obtain p where p: "rep_bind h eh m (handler_rep r) = (0, p)"
    using rep_bind_ok [OF assms(2), of h eh m] assms(5) True by (metis prod.collapse)
  note s1 = rep_ops_slot(1) [OF assms(2) p]
  have ok: "rep_ok p" and sl: "slot h p = (slot h (handler_rep r))\<lparr>rt_event_handler := eh, rt_mask := m\<rparr>"
    using s1 by (simp_all add: slot_becomes_def)
  have s2: "slot_becomes h ((slot h p)\<lparr>rt_event_handler := null, rt_mask := 0\<rparr>) (handler_rep r) (snd (rep_unbind h p))"
    by (rule slot_becomes_trans [OF s1 rep_ops_slot(2) [OF ok]]) (use sl assms(5) in simp)
  have r': "v = -1" "r' = r\<lparr>handler_rep := snd (rep_unbind h p), kern := snd (ctl EPOLL_CTL_ADD h ?ev (kern r))\<rparr>"
    using assms(3,4,6) p by (auto simp: register_handler_i_def handle_opt_i_def call_ctl_eq with_rep_def)
  have "ctl_law interest EPOLL_CTL_ADD h ?ev (kern r) (fst (ctl EPOLL_CTL_ADD h ?ev (kern r))) (snd (ctl EPOLL_CTL_ADD h ?ev (kern r)))"
    using assms(1) by (simp add: epoll_laws_def)
  then have "interest (kern r') = interest (kern r)" using assms(4) r' by (auto simp: ctl_law_def)
  then show ?thesis using r' s2 sl by (simp add: slot_becomes_def)
next
  case False
  then have "fst (rep_bind h eh m (handler_rep r)) = -1" using rep_bind_ok [OF assms(2), of h eh m] by auto
  then have "v = -1" "r' = r" using assms(3,6) by (auto simp: register_handler_i_def case_prod_beta' split: if_splits)
  then show ?thesis using False by (simp add: slot_def tuple_new_def)
qed

definition full_ctl :: "(int \<Rightarrow> mask option) ctl" where
  "full_ctl op h ev k = (if op = EPOLL_CTL_ADD \<and> k h = None then (Some (OtherErrno 28), k)
     else if op = EPOLL_CTL_MOD \<and> k h \<noteq> None then (Some (OtherErrno 12), k) else demo_ctl op h ev k)"

lemma full_laws: "epoll_laws full_ctl (\<lambda>k. k)"
  by (auto simp: epoll_laws_def ctl_law_def full_ctl_def demo_ctl_def)

text \<open>The kernel's limit of watches (error 28) is reached.\<close>

theorem register_rolls_back_witness:
  "fst (register_handler_i (handle_opt_i full_ctl) 2 31 read_mask demo_reading) = -1
   \<and> rt_event_handler (slot 2 (handler_rep (snd (register_handler_i (handle_opt_i full_ctl) 2 31 read_mask demo_reading)))) = null"
proof -
  have "rep_ok (handler_rep demo_reading)" using demo_reading_ok(1) by (simp add: sync_def)
  moreover have "kern demo_reading 2 = None"
    using demo_reading_ok(1) demo_reading_eval(6) by (fastforce simp: sync_def slot_sync_def rep_slot)
  ultimately show ?thesis
    using register_rolls_back [OF full_laws _ demo_reading_eval(6) _ _ surjective_pairing, of read_mask 31]
    by (simp add: full_ctl_def)
qed

text \<open>If the kernel refuses to modify the events of a registered handle for another reason than that
  the handle is gone, the error is dropped: \<^verbatim>\<open>register_handler_i\<close> reports success and records the new
  mask, while the kernel goes on polling for the old events.\<close>

theorem modify_failure_hidden:
  assumes "epoll_laws ctl interest" "rep_ok (handler_rep r)" "bound h r \<noteq> null"
    "new_mask = set_bits_of (rep_mask h (handler_rep r)) m"
    "fst (ctl EPOLL_CTL_MOD h (reactor_mask_to_epoll_event new_mask) (kern r)) \<notin> {None, Some ENOENT}"
    "register_handler_i (handle_opt_i ctl) h eh m r = (v, r')"
  shows "v = 0 \<and> rep_mask h (handler_rep r') = new_mask \<and> interest (kern r') = interest (kern r)"
proof -
  let ?ev = "reactor_mask_to_epoll_event new_mask"
  have nb: "rt_event_handler (slot h (handler_rep r)) \<noteq> null" using assms(3) by (simp add: rep_slot)
  have r': "v = 0" "r' = r\<lparr>handler_rep := rep_set_mask h new_mask (handler_rep r), kern := snd (ctl EPOLL_CTL_MOD h ?ev (kern r))\<rparr>"
    using assms(3-6) by (auto simp: register_handler_i_def Let_def handle_opt_i_def call_ctl_eq with_rep_def)
  have "ctl_law interest EPOLL_CTL_MOD h ?ev (kern r) (fst (ctl EPOLL_CTL_MOD h ?ev (kern r))) (snd (ctl EPOLL_CTL_MOD h ?ev (kern r)))"
    using assms(1) by (simp add: epoll_laws_def)
  then have "interest (kern r') = interest (kern r)" using assms(5) r' by (auto simp: ctl_law_def)
  then show ?thesis using r' rep_ops_slot(3) [OF assms(2) nb, of new_mask] by (simp add: rep_slot slot_becomes_def)
qed

theorem modify_failure_hidden_witness:
  "fst (register_handler_i (handle_opt_i full_ctl) 1 30 write_mask demo_reading) = 0
   \<and> kern (snd (register_handler_i (handle_opt_i full_ctl) 1 30 write_mask demo_reading)) = kern demo_reading"
proof -
  have s: "rep_ok (handler_rep demo_reading)" using demo_reading_ok(1) by (simp add: sync_def)
  have "kern demo_reading 1 \<noteq> None"
    using demo_reading_ok(1) demo_reading_eval(1,3) by (fastforce simp: sync_def slot_sync_def rep_slot)
  then show ?thesis
    using modify_failure_hidden [OF full_laws s _ refl _ surjective_pairing, of 1 write_mask 30] demo_reading_eval(1)
    by (simp add: full_ctl_def)
qed

section \<open>Handlers that fail and handles that break\<close>

lemma remove_mask_upcalls: "upcalls (snd (remove_mask (handle_opt_i ctl) h m r)) = upcalls r"
  by (simp add: remove_mask_def Let_def case_prod_beta' handle_opt_frame with_rep_def)

lemma remove_closing:
  assumes "bound h r \<noteq> null" "bit_disabled m dont_call" "hs (HandleClose (bound h r) h m # upcalls r) = Return w"
  shows "remove_handler_i (handle_opt_i ctl) (r_upcall (handle_opt_i ctl) hs) h m r =
    Some (remove_mask (handle_opt_i ctl) h m (r\<lparr>upcalls := HandleClose (bound h r) h m # upcalls r\<rparr>))"
  using assms by (simp add: remove_handler_i_def Let_def r_upcall_def)

text \<open>What is left of a handle after some of its events are removed.\<close>

definition unregistered :: "('k \<Rightarrow> int \<Rightarrow> mask option) \<Rightarrow> int \<Rightarrow> mask \<Rightarrow> 'k reactor \<Rightarrow> 'k reactor \<Rightarrow> bool" where
  "unregistered interest h m r r' \<longleftrightarrow>
     (let new = clr_bits_of (rep_mask h (handler_rep r)) m in
      if new = 0 then bound h r' = null \<and> interest (kern r') h = None
      else bound h r' = bound h r \<and> rep_mask h (handler_rep r') = new
         \<and> interest (kern r') h = Some (reactor_mask_to_epoll_event new))
     \<and> (\<forall>h'. h' \<noteq> h \<longrightarrow> slot h' (handler_rep r') = slot h' (handler_rep r) \<and> interest (kern r') h' = interest (kern r) h')"

lemma remove_mask_unregistered:
  assumes "epoll_laws ctl interest" "epoll_healthy ctl" "sync interest r" "bound h r \<noteq> null"
  shows "unregistered interest h m r (snd (remove_mask (handle_opt_i ctl) h m r))"
  using remove_mask_effect [OF assms surjective_pairing, of m]
  by (auto simp: unregistered_def Let_def slot_update_def slot_becomes_def rep_slot split: if_splits)

text \<open>C11: With a kernel that refuses no call (\<open>epoll_healthy\<close>), a handler whose \<^verbatim>\<open>handle_input\<close> returns a negative value
  and whose \<^verbatim>\<open>handle_close\<close> returns, both without calling the reactor, gets \<^verbatim>\<open>handle_close\<close> with the read mask next,
  and its handle is no longer registered for reading: without other events left it is out of the
  repository and of the kernel's interest set, else it stays with these. Other handles are not touched.
  (A callback that removes its own handler is not covered: then there is nothing left to close.)\<close>

theorem failing_input_unregisters:
  assumes "epoll_laws ctl interest" "epoll_healthy ctl" "sync interest r" "bound fd r \<noteq> null" "bit_enabled ev EPOLLIN"
    "hs (HandleInput (bound fd r) fd # upcalls r) = Return v" "v < 0"
    "hs (HandleClose (bound fd r) fd read_mask # HandleInput (bound fd r) fd # upcalls r) = Return w"
  shows "\<exists>r'. dispatch_event ctl hs (bound fd r) fd ev r = Some r'
    \<and> upcalls r' = HandleClose (bound fd r) fd read_mask # HandleInput (bound fd r) fd # upcalls r
    \<and> unregistered interest fd read_mask r r'"
proof -
  let ?eh = "bound fd r"
  let ?r1 = "r\<lparr>r_events := (r_events r)[start_pevents r := (fd, clr_bits_of ev EPOLLIN)]\<rparr>"
  let ?r2 = "?r1\<lparr>upcalls := HandleInput ?eh fd # upcalls r\<rparr>"
  let ?r3 = "?r2\<lparr>upcalls := HandleClose ?eh fd read_mask # HandleInput ?eh fd # upcalls r\<rparr>"
  have up: "r_upcall (handle_opt_i ctl) hs (HandleInput ?eh fd) ?r1 = Some (v, ?r2)" using assms(6) by (simp add: r_upcall_def)
  have rm: "remove_handler_i (handle_opt_i ctl) (r_upcall (handle_opt_i ctl) hs) fd read_mask ?r2 = Some (remove_mask (handle_opt_i ctl) fd read_mask ?r3)"
    using remove_closing [of fd ?r2 read_mask hs w ctl] assms(4,8) by (simp add: bit_disabled_def read_mask_def dont_call_def)
  have s3: "sync interest ?r3" using assms(3) by (simp add: sync_def)
  define r4 where "r4 = snd (remove_mask (handle_opt_i ctl) fd read_mask ?r3)"
  have u: "unregistered interest fd read_mask ?r3 r4"
    unfolding r4_def by (rule remove_mask_unregistered [OF assms(1,2) s3]) (use assms(4) in simp)
  have c: "upcalls r4 = HandleClose ?eh fd read_mask # HandleInput ?eh fd # upcalls r" by (simp add: r4_def remove_mask_upcalls)
  let ?r5 = "if snd (r_events r4 ! start_pevents r4) = 0 then advance_event r4 else r4"
  have "dispatch_event ctl hs ?eh fd ev r = Some ?r5"
    using assms(5,7) up rm by (simp add: dispatch_event_def dispatch_bit_def Let_def r4_def)
  moreover have "unregistered interest fd read_mask r ?r5" "upcalls ?r5 = upcalls r4"
    using u by (simp_all add: unregistered_def advance_event_def Let_def)
  ultimately show ?thesis using c by simp
qed

theorem failing_input_unregisters_witness:
  "\<exists>r'. dispatch_event demo_ctl (\<lambda>us. Return (-1)) 30 1 EPOLLIN demo_reading = Some r' \<and> bound 1 r' = null \<and> kern r' 1 = None"
proof -
  have "bit_enabled EPOLLIN EPOLLIN" by (simp add: bit_enabled_def EPOLLIN_def)
  then obtain r' where "dispatch_event demo_ctl (\<lambda>us. Return (-1)) (bound 1 demo_reading) 1 EPOLLIN demo_reading = Some r'"
    "unregistered (\<lambda>k. k) 1 read_mask demo_reading r'"
    using failing_input_unregisters [OF demo_laws demo_reading_ok(1), of 1 EPOLLIN "\<lambda>us. Return (-1)" "-1" "-1"] demo_reading_eval(1) by auto
  then show ?thesis using demo_reading_eval(1,2) by (auto simp: unregistered_def clr_bits_of_def)
qed

text \<open>A hang-up or an error on a handle whose events are all known ends its registration: the handler
  gets \<^verbatim>\<open>handle_close\<close> with all events, and neither the repository nor the kernel keeps the handle.\<close>

theorem broken_handle_closed:
  assumes "epoll_laws ctl interest" "epoll_healthy ctl" "sync interest r" "bound fd r \<noteq> null"
    "bit_disabled ev (EPOLLIN OR EPOLLOUT OR EPOLLPRI)" "bit_enabled ev (EPOLLHUP OR EPOLLERR)"
    "rep_mask fd (handler_rep r) AND NOT all_events_mask = 0"
    "hs (HandleClose (bound fd r) fd all_events_mask # upcalls r) = Return w"
  shows "\<exists>r'. dispatch_event ctl hs (bound fd r) fd ev r = Some r'
    \<and> upcalls r' = HandleClose (bound fd r) fd all_events_mask # upcalls r \<and> bound fd r' = null \<and> interest (kern r') fd = None
    \<and> start_pevents r' = Suc (start_pevents r)"
proof -
  let ?r2 = "r\<lparr>upcalls := HandleClose (bound fd r) fd all_events_mask # upcalls r\<rparr>"
  have b: "\<not> bit_enabled ev EPOLLIN" "\<not> bit_enabled ev EPOLLOUT" "\<not> bit_enabled ev EPOLLPRI"
    using assms(5) by (simp_all add: bit_disabled_def bit_enabled_def bit.conj_disj_distrib or_eq_0_iff)
  have "bit_disabled all_events_mask dont_call" by (simp add: bit_disabled_def mask_defs)
  note rm = remove_closing [of fd r all_events_mask hs w ctl, OF assms(4) this assms(8)]
  define r3 where "r3 = snd (remove_mask (handle_opt_i ctl) fd all_events_mask ?r2)"
  have s2: "sync interest ?r2" using assms(3) by (simp add: sync_def)
  have u: "unregistered interest fd all_events_mask ?r2 r3"
    unfolding r3_def by (rule remove_mask_unregistered [OF assms(1,2) s2]) (use assms(4) in simp)
  have "upcalls r3 = upcalls ?r2" "start_pevents r3 = start_pevents r"
    using ops_frame(2) [of ctl fd all_events_mask ?r2] by (simp_all add: r3_def remove_mask_upcalls r_frame_def)
  moreover have "dispatch_event ctl hs (bound fd r) fd ev r = Some (advance_event r3)"
    using b assms(6) rm by (simp add: dispatch_event_def r3_def case_prod_beta')
  ultimately show ?thesis using u assms(7) by (auto simp: unregistered_def Let_def clr_bits_of_def advance_event_def)
qed

theorem broken_handle_closed_witness:
  "\<exists>r'. dispatch_event demo_ctl demo_handlers 30 1 EPOLLHUP demo_reading = Some r' \<and> bound 1 r' = null \<and> kern r' 1 = None"
  using broken_handle_closed [OF demo_laws demo_reading_ok(1), of 1 EPOLLHUP demo_handlers 0] demo_reading_eval(1,2)
  by (auto simp: bit_disabled_def bit_enabled_def epoll_defs mask_defs demo_handlers_def)

section \<open>Timers in the event loop\<close>




lemma due_timeout:
  "0 < tq_curr_size q \<Longrightarrow> earliest_time q \<le> now \<Longrightarrow> calculate_timeout_into now max_wait (Some tv_zero) q = Some tv_zero"
  using leD [of "earliest_time q" now] by (simp add: calculate_timeout_into_def tq_is_empty_def)





text \<open>A caller that allows no time (\<^verbatim>\<open>handle_events\<close> with zero, to look once): the time to wait equals the caller's, so no
  timer counts as pending, and without events a due timer is not run.\<close>

theorem due_timer_missed:
  assumes "0 < tq_curr_size (r_timers r)" "earliest_time (r_timers r) \<le> clock 0" "start_pevents r = end_pevents r"
    "fst (wait (sint (ucast (tv_msec tv_zero) :: 32 word)) (kern r)) = Inr []"
  shows "\<exists>r'. handle_events_i (poll_events wait) io timeout close clock (Some tv_zero) r = Some (0, r') \<and> r_timers r' = r_timers r"
proof -
  note t = due_timeout [OF assms(1,2), of "Some tv_zero"]
  obtain k where k: "wait (sint (ucast (tv_msec tv_zero) :: 32 word)) (kern r) = (Inr [], k)" using assms(4) by (metis prod.collapse)
  have "poll_events wait (Some tv_zero) r = (0, r\<lparr>kern := k\<rparr>)" using assms(3) k by (simp add: poll_events_def Let_def)
  then have "poll_events_i (poll_events wait) (clock 0) (Some tv_zero) r = (0, r\<lparr>kern := k, active_fds := 0\<rparr>)"
    using t by (simp add: poll_events_i_def Let_def)
  then have "poll_loop (poll_events wait) clock 0 (Some tv_zero) r = Some (0, 1, r\<lparr>kern := k, active_fds := 0\<rparr>)"
    by (subst poll_loop.simps) (simp add: Let_def)
  then show ?thesis by (simp add: handle_events_i_def)
qed

section \<open>Closing\<close>

lemma close_i_sel:
  "start_pevents (snd (close_i r)) = start_pevents r" "end_pevents (snd (close_i r)) = end_pevents r"
  "r_events (snd (close_i r)) = []" "timer_queue_p r \<noteq> null \<Longrightarrow> timer_queue_p r \<in> set (deleted (snd (close_i r)))"
  by (simp_all add: close_i_def close_ii_def Let_def delete_obj_def with_rep_def)

lemma register_frame:
  "register_handler_i (handle_opt_i ctl) h eh m r = (v, r') \<Longrightarrow> start_pevents r' = start_pevents r \<and> end_pevents r' = end_pevents r
     \<and> timer_queue_p r' = timer_queue_p r \<and> delete_timer_queue r' = delete_timer_queue r"
  using ops_frame(1) [of ctl h eh m r] by (simp add: r_frame_def)

lemma open_i_sel:
  assumes "open_i ctl max_handles arr create k nh ntq pipe tq r = (0, r')"
  shows "start_pevents r' = start_pevents r \<and> end_pevents r' = end_pevents r
    \<and> (tq \<noteq> null \<longrightarrow> timer_queue_p r' = tq \<and> delete_timer_queue r' = delete_timer_queue r)"
  using assms by (cases "tq = null")
    (auto simp: open_i_def open_ii_def Let_def split: if_splits option.splits prod.splits dest!: register_frame)

text \<open>Closing a reactor deletes the timer queue its caller supplied, although \<^verbatim>\<open>delete_timer_queue_\<close> says that the
  reactor does not own it.\<close>

theorem close_deletes_foreign_timers:
  assumes "open_i ctl max_handles arr create k nh ntq pipe tq (reactor_new k0 q) = (0, r)" "tq \<noteq> null"
  shows "delete_timer_queue r = 0 \<and> tq \<in> set (deleted (snd (close_i r)))"
  using open_i_sel [OF assms(1)] close_i_sel(4) [of r] assms(2) by (simp add: reactor_new_def)

theorem close_deletes_foreign_timers_witness:
  "40 \<in> set (deleted (snd (close_i (snd
     (open_i demo_ctl 4 (replicate 4 (0, 0)) 9 Map.empty 20 21 (Some 3) 40 (reactor_new Map.empty (tq_new 10 3)))))))"
proof -
  let ?o = "open_i demo_ctl 4 (replicate 4 (0, 0)) 9 Map.empty 20 21 (Some 3) 40 (reactor_new Map.empty (tq_new 10 3))"
  have "fst ?o = 0"
    by (simp add: open_i_def open_ii_def Let_def reactor_new_def rep_open_def rep_new_def register_handler_i_def rep_find_def
        rep_bind_def handle_in_range_def is_invalid_handle_def tuple_new_def handle_opt_i_def call_ctl_def demo_ctl_def
        upd_tuple_def invalid_handle_def)
  then have "?o = (0, snd ?o)" by (simp add: prod_eq_iff)
  from close_deletes_foreign_timers [OF this] show ?thesis by simp
qed

text \<open>Closing a reactor with events left over from the last batch and opening it again leaves the
  pointers into the deleted event array: the next poll does not ask the kernel, it reports the old
  events.\<close>

theorem reopen_keeps_stale_events:
  assumes "start_pevents r \<noteq> end_pevents r"
    "open_i ctl max_handles arr create k nh ntq pipe tq (snd (close_i r)) = (0, r')"
  shows "r_events (snd (close_i r)) = [] \<and> poll_events wait timeout r' = (1, r')"
  using open_i_sel [OF assms(2)] close_i_sel(1-3) [of r] assms(1) by (simp add: poll_events_def)

theorem reopen_keeps_stale_events_witness:
  "poll_events demo_wait None (snd (open_i demo_ctl 4 (replicate 4 (0, 0)) 9 Map.empty 20 21 (Some 3) null (snd (close_i demo_ready))))
     = (1, snd (open_i demo_ctl 4 (replicate 4 (0, 0)) 9 Map.empty 20 21 (Some 3) null (snd (close_i demo_ready))))"
proof -
  let ?o = "open_i demo_ctl 4 (replicate 4 (0, 0)) 9 Map.empty 20 21 (Some 3) null (snd (close_i demo_ready))"
  have "handler_rep (snd (close_i demo_ready)) = rep_new"
    by (simp add: close_i_def close_ii_def Let_def with_rep_def delete_obj_def rep_close_def rep_new_def rep_ok_def demo_ready_def reactor_eval)
  then have "fst ?o = 0"
    by (simp add: open_i_def open_ii_def Let_def rep_open_def rep_new_def register_handler_i_def rep_find_def
        rep_bind_def handle_in_range_def is_invalid_handle_def tuple_new_def handle_opt_i_def call_ctl_def demo_ctl_def
        upd_tuple_def invalid_handle_def close_i_def close_ii_def with_rep_def delete_obj_def)
  then have "?o = (0, snd ?o)" by (simp add: prod_eq_iff)
  from reopen_keeps_stale_events [OF _ this] show ?thesis by (simp add: demo_ready_def)
qed

end
