(* ===== verification/SelectReactor.thy ===== *)
theory SelectReactor
  imports ReactorProps EpollReactor
begin

unbundle bit_operations_syntax

text \<open>
  \<^verbatim>\<open>select_reactor\<close> (\<^verbatim>\<open>ndk/select_reactor.h\<close>, \<^verbatim>\<open>.inl\<close>, \<^verbatim>\<open>.cpp\<close>): the other implementation of the methods that \<^verbatim>\<open>unix_reactor\<close>
  leaves open. The handles to wait for are in three linked lists of nodes, for reading, writing and
  exceptions; a fourth list holds the free nodes. The lists are shown to agree with the registrations
  whatever the callbacks do, which is also what the lists of \<open>epoll\<close> do (\<open>ReactorCorrect\<close>), so that the two
  reactors cannot be told apart by their clients.

  The lists live in \<open>kern\<close>, under the methods of the base class. A search along a list takes at most as
  many steps as there are nodes: it ends earlier unless the list is cyclic, which is excluded. An \<open>fd_set\<close>
  is a set of handles, or \<open>None\<close> once it is deleted. \<^verbatim>\<open>FD_SETSIZE\<close> is a parameter of \<open>sel_open_i\<close>.
\<close>

section \<open>State\<close>

record select_handle =
  sh_handle :: int
  sh_next :: addr

definition sh_new :: select_handle where "sh_new = \<lparr>sh_handle = invalid_handle, sh_next = null\<rparr>"

datatype sel_kind = RD | WR | EXC

record 'o select_base =
  sh_store :: "addr \<Rightarrow> select_handle"
  sh_nodes :: nat
  handle_list :: "sel_kind \<Rightarrow> addr"
  sel_free_node :: addr
  fd_sets :: "sel_kind \<Rightarrow> int set option"
  sel_os :: 'o

definition next_of :: "'o select_base \<Rightarrow> addr \<Rightarrow> addr" where "next_of k a = sh_next (sh_store k a)"
definition handle_of :: "'o select_base \<Rightarrow> addr \<Rightarrow> int" where "handle_of k a = sh_handle (sh_store k a)"

definition upd_sh :: "addr \<Rightarrow> (select_handle \<Rightarrow> select_handle) \<Rightarrow> 'o select_base \<Rightarrow> 'o select_base" where
  "upd_sh a f k = k\<lparr>sh_store := (sh_store k)(a := f (sh_store k a))\<rparr>"

definition set_handle_list :: "sel_kind \<Rightarrow> addr \<Rightarrow> 'o select_base \<Rightarrow> 'o select_base" where
  "set_handle_list c a k = k\<lparr>handle_list := (handle_list k)(c := a)\<rparr>"

definition sh_reset :: "addr \<Rightarrow> 'o select_base \<Rightarrow> 'o select_base" where
  "sh_reset a k = upd_sh a (\<lambda>n. n\<lparr>sh_handle := invalid_handle, sh_next := null\<rparr>) k"

section \<open>The lists\<close>

text \<open>\<open>sel_free_node\<close> is not null here; see \<open>append_handle\<close>.\<close>

definition alloc_handle :: "'o select_base \<Rightarrow> addr \<times> 'o select_base" where
  "alloc_handle k = (let p = sel_free_node k in (p, sh_reset p (k\<lparr>sel_free_node := next_of k p\<rparr>)))"

definition release_handle :: "addr \<Rightarrow> 'o select_base \<Rightarrow> 'o select_base" where
  "release_handle h k =
     (let k1 = sh_reset h k; k2 = upd_sh h (\<lambda>n. n\<lparr>sh_next := sel_free_node k1\<rparr>) k1 in k2\<lparr>sel_free_node := h\<rparr>)"

fun find_loop :: "nat \<Rightarrow> 'o select_base \<Rightarrow> int \<Rightarrow> addr \<Rightarrow> bool" where
  "find_loop 0 k h sh = False"
| "find_loop (Suc n) k h sh = (if sh = null then False else if handle_of k sh = h then True else find_loop n k h (next_of k sh))"

definition find_handle :: "int \<Rightarrow> addr \<Rightarrow> 'o select_base \<Rightarrow> int" where
  "find_handle h sh k = (if find_loop (sh_nodes k) k h sh then 0 else -1)"

text \<open>\<^verbatim>\<open>alloc_handle\<close> follows \<open>sel_free_node\<close> before its result is compared with null.\<close>

definition append_handle :: "int \<Rightarrow> sel_kind \<Rightarrow> 'o select_base \<Rightarrow> 'o select_base faulty_result" where
  "append_handle h c k =
     (if find_handle h (handle_list k c) k = 0 then Inr k
      else if sel_free_node k = null then Inl NullDeref
      else
       (let (p, k1) = alloc_handle k;
            k2 = upd_sh p (\<lambda>n. n\<lparr>sh_next := handle_list k1 c\<rparr>) k1;
            k3 = set_handle_list c p k2
        in Inr (upd_sh p (\<lambda>n. n\<lparr>sh_handle := h\<rparr>) k3)))"

fun remove_loop :: "nat \<Rightarrow> int \<Rightarrow> addr \<Rightarrow> addr \<Rightarrow> 'o select_base \<Rightarrow> 'o select_base" where
  "remove_loop 0 h prev itor k = k"
| "remove_loop (Suc n) h prev itor k =
     (if itor = null then k
      else if handle_of k itor = h then release_handle itor (upd_sh prev (\<lambda>s. s\<lparr>sh_next := next_of k itor\<rparr>) k)
      else remove_loop n h itor (next_of k itor) k)"

text \<open>Called with a list that is not empty.\<close>

definition remove_handle :: "int \<Rightarrow> sel_kind \<Rightarrow> 'o select_base \<Rightarrow> 'o select_base" where
  "remove_handle h c k =
     (let sh = handle_list k c
      in if handle_of k sh = h then release_handle sh (set_handle_list c (next_of k sh) k)
         else remove_loop (sh_nodes k) h sh (next_of k sh) k)"

section \<open>The interest in a handle\<close>

definition wants :: "sel_kind \<Rightarrow> mask \<Rightarrow> bool" where
  "wants c m = (case c of
     RD \<Rightarrow> bit_enabled m read_mask \<or> bit_enabled m accept_mask \<or> bit_enabled m connect_mask
   | WR \<Rightarrow> bit_enabled m connect_mask \<or> bit_enabled m write_mask
   | EXC \<Rightarrow> bit_enabled m except_mask)"

definition remove_from :: "int \<Rightarrow> (sel_kind \<Rightarrow> bool) \<Rightarrow> sel_kind \<Rightarrow> 'o select_base \<Rightarrow> 'o select_base" where
  "remove_from h keep c k = (if handle_list k c \<noteq> null \<and> \<not> keep c then remove_handle h c k else k)"

definition append_to :: "int \<Rightarrow> mask \<Rightarrow> sel_kind \<Rightarrow> 'o select_base \<Rightarrow> 'o select_base faulty_result" where
  "append_to h m c k = (if wants c m then append_handle h c k else Inr k)"

text \<open>The new lists. After a fault the program is gone; the fault is recorded.\<close>

definition sel_opt :: "int \<Rightarrow> mask \<Rightarrow> int \<Rightarrow> 'o select_base \<Rightarrow> 'o select_base faulty_result" where
  "sel_opt h m opt0 k =
     (let opt = (if m = null_mask then clr_mask else if opt0 = clr_mask then set_mask else opt0)
      in if opt = add_mask \<or> opt = set_mask then
           (let k1 = (if opt = set_mask then fold (remove_from h (\<lambda>c. wants c m)) [RD, WR, EXC] k else k)
            in bind_faulty (append_to h m RD k1) (\<lambda>k2. bind_faulty (append_to h m WR k2) (append_to h m EXC)))
         else if opt = clr_mask then Inr (fold (remove_from h (\<lambda>_. False)) [RD, WR, EXC] k)
         else Inr k)"

definition sel_handle_opt_i :: "'o select_base opt" where
  "sel_handle_opt_i h m opt r =
     (case sel_opt h m opt (kern r) of
        Inl f \<Rightarrow> (-1, r\<lparr>r_fault := Some f\<rparr>)
      | Inr k \<Rightarrow> (0, r\<lparr>kern := k\<rparr>))"

section \<open>Waiting\<close>

fun fill_loop :: "nat \<Rightarrow> 'o select_base \<Rightarrow> addr \<Rightarrow> int set \<times> int \<Rightarrow> int set \<times> int" where
  "fill_loop 0 k itor acc = acc"
| "fill_loop (Suc n) k itor (s, result) =
     (if itor = null then (s, result)
      else fill_loop n k (next_of k itor)
        (let h = handle_of k itor
         in if h \<noteq> invalid_handle then (insert h s, if h > result then h else result) else (s, result)))"

text \<open>One of the three sets: its content and the greatest handle so far.\<close>

definition fill_set :: "'o select_base \<Rightarrow> sel_kind \<Rightarrow> int \<Rightarrow> int set \<times> int" where
  "fill_set k c result = (if handle_list k c = null then ({}, result) else fill_loop (sh_nodes k) k (handle_list k c) ({}, result))"

text \<open>The result, which sets are passed to \<^verbatim>\<open>select\<close> (a set whose list is empty is not), and the sets.\<close>

definition reset_fd_set :: "'o select_base \<Rightarrow> (int \<times> (sel_kind \<Rightarrow> int set option) \<times> 'o select_base) faulty_result" where
  "reset_fd_set k =
     (if fd_sets k RD = None \<or> fd_sets k WR = None \<or> fd_sets k EXC = None then Inl NullDeref
      else
       (let (rd, m1) = fill_set k RD (-1); (wr, m2) = fill_set k WR m1; (ex, m3) = fill_set k EXC m2;
            sets = (\<lambda>c. case c of RD \<Rightarrow> rd | WR \<Rightarrow> wr | EXC \<Rightarrow> ex)
        in Inr (m3 + 1, \<lambda>c. if handle_list k c = null then None else Some (sets c), k\<lparr>fd_sets := \<lambda>c. Some (sets c)\<rparr>)))"

text \<open>\<^verbatim>\<open>select\<close> writes the ready handles to the sets it was given.\<close>

type_synonym 'o select_call =
  "int \<Rightarrow> (sel_kind \<Rightarrow> int set option) \<Rightarrow> time_value option \<Rightarrow> 'o \<Rightarrow> (errno + int \<times> (sel_kind \<Rightarrow> int set)) \<times> 'o"

definition sel_poll_events :: "'o select_call \<Rightarrow> 'o select_base poll" where
  "sel_poll_events sel timeout r =
     (case reset_fd_set (kern r) of
        Inl f \<Rightarrow> (-1, r\<lparr>r_fault := Some f\<rparr>)
      | Inr (max_handle, ptrs, k) \<Rightarrow>
          (case sel max_handle ptrs timeout (sel_os k) of
             (Inl e, os) \<Rightarrow> (-1, r\<lparr>kern := k\<lparr>sel_os := os\<rparr>, r_errno := Some e\<rparr>)
           | (Inr (n, ready), os) \<Rightarrow>
               (n, r\<lparr>kern := k\<lparr>sel_os := os, fd_sets := \<lambda>c. if ptrs c = None then fd_sets k c else Some (ready c)\<rparr>\<rparr>)))"

section \<open>Dispatching\<close>

definition kind_upcall :: "sel_kind \<Rightarrow> addr \<Rightarrow> int \<Rightarrow> upcall" where
  "kind_upcall c eh h = (case c of RD \<Rightarrow> HandleInput eh h | WR \<Rightarrow> HandleOutput eh h | EXC \<Rightarrow> HandleException eh h)"

definition kind_mask :: "sel_kind \<Rightarrow> mask" where
  "kind_mask c = (case c of RD \<Rightarrow> read_mask | WR \<Rightarrow> write_mask | EXC \<Rightarrow> except_mask)"

text \<open>The loop over one list. The next node is read before the callback runs. A failed assertion, or a
  fault in a callback, ends the program.\<close>

partial_function (option) sel_dispatch_list ::
    "handlers \<Rightarrow> sel_kind \<Rightarrow> addr \<Rightarrow> 'o select_base reactor \<Rightarrow> 'o select_base reactor option" where
  "sel_dispatch_list hs c itor r =
     (if itor = null \<or> r_fault r \<noteq> None then Some r
      else
       (let h = handle_of (kern r) itor; itor1 = next_of (kern r) itor
        in if h = invalid_handle then Some (r\<lparr>r_fault := Some AssertFailed\<rparr>)
           else if fd_sets (kern r) c = None then Some (r\<lparr>r_fault := Some NullDeref\<rparr>)
           else if h \<in> the (fd_sets (kern r) c) \<and> bound h r \<noteq> null then
             Option.bind (r_upcall sel_handle_opt_i hs (kind_upcall c (bound h r) h) r) (\<lambda>(v, r1).
             Option.bind (if v < 0 then map_option snd (remove_handler_i sel_handle_opt_i (r_upcall sel_handle_opt_i hs) h (kind_mask c) r1)
                          else Some r1)
               (sel_dispatch_list hs c itor1))
           else sel_dispatch_list hs c itor1 r))"

definition sel_dispatch_io_events :: "handlers \<Rightarrow> 'o select_base dispatch" where
  "sel_dispatch_io_events hs r =
     (if active_fds r < 1 then Some (0, r)
      else
        Option.bind (sel_dispatch_list hs RD (handle_list (kern r) RD) r) (\<lambda>r1.
        Option.bind (sel_dispatch_list hs WR (handle_list (kern r1) WR) r1) (\<lambda>r2.
        Option.bind (sel_dispatch_list hs EXC (handle_list (kern r2) EXC) r2) (\<lambda>r3. Some (0, r3)))))"

definition sel_handle_events :: "'o select_call \<Rightarrow> handlers \<Rightarrow> timeout_hook \<Rightarrow> close_hook \<Rightarrow> (nat \<Rightarrow> time_value) \<Rightarrow> time_value option
    \<Rightarrow> 'o select_base dispatch" where
  "sel_handle_events sel hs timeout close clock max_wait_time r =
     handle_events_i (sel_poll_events sel) (sel_dispatch_io_events hs) timeout close clock max_wait_time r"

section \<open>Opening and closing\<close>

definition select_base_new :: "'o \<Rightarrow> 'o select_base" where
  "select_base_new os = \<lparr>sh_store = \<lambda>_. sh_new, sh_nodes = 0, handle_list = \<lambda>_. null, sel_free_node = null, fd_sets = \<lambda>_. Some {}, sel_os = os\<rparr>"

text \<open>The nodes that are created one after the other, at the addresses of the list, each the next of the
  one before it.\<close>

fun link_nodes :: "addr list \<Rightarrow> 'o select_base \<Rightarrow> 'o select_base" where
  "link_nodes [] k = k"
| "link_nodes (a # ns) k = upd_sh a (\<lambda>_. sh_new\<lparr>sh_next := if ns = [] then null else hd ns\<rparr>) (link_nodes ns k)"

definition delete_list :: "addr \<Rightarrow> 'o select_base reactor \<Rightarrow> 'o select_base reactor" where
  "delete_list p r = fold delete_obj (walk (sh_nodes (kern r)) (next_of (kern r)) p) r"

definition sel_close_i :: "'o select_base reactor \<Rightarrow> int \<times> 'o select_base reactor" where
  "sel_close_i r =
     (let r1 = r\<lparr>initialized := False, kern := (kern r)\<lparr>fd_sets := \<lambda>_. None\<rparr>\<rparr>;
          k = kern r1;
          r2 = delete_list (handle_list k EXC) (delete_list (handle_list k WR) (delete_list (handle_list k RD) (delete_list (sel_free_node k) r1)))
      in close_ii (r2\<lparr>kern := k\<lparr>sel_free_node := null, handle_list := \<lambda>_. null\<rparr>\<rparr>))"

text \<open>\<open>setsize\<close> is \<^verbatim>\<open>FD_SETSIZE\<close>, \<open>ns\<close> the addresses of \<open>3 * setsize\<close> new nodes; the rest as for \<open>open_i\<close>.\<close>

definition sel_open_i :: "addr list \<Rightarrow> addr \<Rightarrow> addr \<Rightarrow> int option \<Rightarrow> int \<Rightarrow> addr \<Rightarrow> 'o select_base reactor \<Rightarrow> int \<times> 'o select_base reactor" where
  "sel_open_i ns nh ntq pipe setsize tq r =
     (if initialized r then (-1, r)
      else
       (let k = (link_nodes ns (kern r))\<lparr>sel_free_node := (if ns = [] then null else hd ns), sh_nodes := length ns\<rparr>;
            (v, r1) = open_ii sel_handle_opt_i nh ntq pipe setsize tq (r\<lparr>kern := k\<rparr>)
        in if v \<noteq> 0 then (-1, snd (sel_close_i r1)) else (0, r1\<lparr>initialized := True\<rparr>)))"

end
