(* ===== verification/SelectCorrect.thy ===== *)
theory SelectCorrect
  imports SelectReactor
begin

unbundle bit_operations_syntax

text \<open>
  The select reactor against its contract: the lists agree with the registrations, whatever the callbacks
  do; the sets passed to \<^verbatim>\<open>select\<close> are the handles of the lists; the upcalls of a dispatch are those of the
  ready handles.
\<close>

section \<open>The four lists\<close>

lemma walk_chain_le: "chain link p xs null \<Longrightarrow> length xs \<le> n \<Longrightarrow> walk n link p = xs"
proof (induction xs arbitrary: p n)
  case Nil
  then show ?case by (cases n) auto
next
  case (Cons a xs)
  then show ?case by (cases n) auto
qed

text \<open>\<open>L c\<close> are the nodes of the list \<open>c\<close>, \<open>F\<close> the free ones, \<open>n\<close> of them in all; no handle is twice in a list.\<close>

definition lists_part :: "nat \<Rightarrow> 'o select_base \<Rightarrow> (sel_kind \<Rightarrow> addr list) \<Rightarrow> addr list \<Rightarrow> bool" where
  "lists_part n k L F \<longleftrightarrow> (\<forall>c. chain (next_of k) (handle_list k c) (L c) null) \<and> chain (next_of k) (sel_free_node k) F null
     \<and> (\<forall>c d. c \<noteq> d \<longrightarrow> set (L c) \<inter> set (L d) = {}) \<and> (\<forall>c. set (L c) \<inter> set F = {})
     \<and> length (L RD) + length (L WR) + length (L EXC) + length F = n
     \<and> (\<forall>c. distinct (map (handle_of k) (L c)) \<and> invalid_handle \<notin> handle_of k ` set (L c))"

abbreviation lists_ok :: "'o select_base \<Rightarrow> (sel_kind \<Rightarrow> addr list) \<Rightarrow> addr list \<Rightarrow> bool" where
  "lists_ok k L F \<equiv> lists_part (sh_nodes k) k L F"

definition polled :: "'o select_base \<Rightarrow> sel_kind \<Rightarrow> int set" where
  "polled k c = handle_of k ` set (walk (sh_nodes k) (next_of k) (handle_list k c))"

lemma lists_part_length: "lists_part n k L F \<Longrightarrow> length (L c) \<le> n"
  by (cases c) (auto simp: lists_part_def)

lemma lists_partD:
  assumes "lists_part n k L F"
  shows "chain (next_of k) (handle_list k c) (L c) null" "chain (next_of k) (sel_free_node k) F null" "c \<noteq> d \<Longrightarrow> set (L c) \<inter> set (L d) = {}"
    "set (L c) \<inter> set F = {}" "length (L RD) + length (L WR) + length (L EXC) + length F = n" "distinct (map (handle_of k) (L c))"
    "invalid_handle \<notin> handle_of k ` set (L c)" "distinct (L c)" "null \<notin> set (L c)" "distinct F" "null \<notin> set F"
  using assms chain_distinct chain_not_null unfolding lists_part_def by blast+

lemma walk_list: "lists_ok k L F \<Longrightarrow> walk (sh_nodes k) (next_of k) (handle_list k c) = L c"
  using lists_part_length [of "sh_nodes k" k L F c] by (auto simp: lists_part_def intro: walk_chain_le)

lemma polled_list: "lists_ok k L F \<Longrightarrow> polled k c = handle_of k ` set (L c)"
  by (simp add: polled_def walk_list)

lemma sh_sel [simp]:
  "next_of (upd_sh a f k) = (next_of k)(a := sh_next (f (sh_store k a)))"
  "handle_of (upd_sh a f k) = (handle_of k)(a := sh_handle (f (sh_store k a)))"
  "handle_list (upd_sh a f k) = handle_list k" "sel_free_node (upd_sh a f k) = sel_free_node k" "sh_nodes (upd_sh a f k) = sh_nodes k"
  "fd_sets (upd_sh a f k) = fd_sets k" "sel_os (upd_sh a f k) = sel_os k" "sh_store (upd_sh a f k) = (sh_store k)(a := f (sh_store k a))"
  "next_of (set_handle_list c p k) = next_of k" "handle_of (set_handle_list c p k) = handle_of k"
  "sh_store (set_handle_list c p k) = sh_store k" "handle_list (set_handle_list c p k) = (handle_list k)(c := p)" "sel_free_node (set_handle_list c p k) = sel_free_node k"
  "sh_nodes (set_handle_list c p k) = sh_nodes k" "fd_sets (set_handle_list c p k) = fd_sets k" "sel_os (set_handle_list c p k) = sel_os k"
  "next_of (k\<lparr>sel_free_node := p\<rparr>) = next_of k" "handle_of (k\<lparr>sel_free_node := p\<rparr>) = handle_of k"
  by (auto simp: next_of_def [abs_def] handle_of_def [abs_def] upd_sh_def set_handle_list_def fun_eq_iff)

lemma find_loop_ok: "chain (next_of k) p xs null \<Longrightarrow> length xs \<le> n \<Longrightarrow> find_loop n k h p \<longleftrightarrow> h \<in> handle_of k ` set xs"
proof (induction xs arbitrary: p n)
  case Nil
  then show ?case by (cases n) auto
next
  case (Cons a xs)
  then show ?case by (cases n) auto
qed

lemma find_handle_ok: "lists_ok k L F \<Longrightarrow> find_handle h (handle_list k c) k = 0 \<longleftrightarrow> h \<in> polled k c"
  using find_loop_ok [of k "handle_list k c" "L c" "sh_nodes k" h] lists_part_length [of "sh_nodes k" k L F c]
  by (auto simp: find_handle_def polled_list lists_part_def)

text \<open>What no operation on the lists touches.\<close>

definition sel_frame :: "'o select_base \<Rightarrow> _" where
  "sel_frame k = (sh_nodes k, fd_sets k, sel_os k)"

lemma sel_frame_simps [simp]:
  "sel_frame (upd_sh a f k) = sel_frame k" "sel_frame (set_handle_list c p k) = sel_frame k" "sel_frame (k\<lparr>sel_free_node := p\<rparr>) = sel_frame k"
  by (auto simp: sel_frame_def upd_sh_def set_handle_list_def)

lemma frame_nodes: "sel_frame k' = sel_frame k \<Longrightarrow> sh_nodes k' = sh_nodes k"
  by (simp add: sel_frame_def)

lemma sel_release_ok:
  assumes "lists_part n k L F" "a \<noteq> null" "\<forall>c. a \<notin> set (L c)" "a \<notin> set F"
  shows "lists_part (Suc n) (release_handle a k) L (a # F)" "handle_of (release_handle a k) ` set (L c) = handle_of k ` set (L c)"
    "sel_frame (release_handle a k) = sel_frame k"
proof -
  show "lists_part (Suc n) (release_handle a k) L (a # F)"
    using assms by (auto simp: lists_part_def release_handle_def sh_reset_def Let_def)
  show "handle_of (release_handle a k) ` set (L c) = handle_of k ` set (L c)"
    using assms(3) by (auto simp: release_handle_def sh_reset_def Let_def intro!: image_cong)
  show "sel_frame (release_handle a k) = sel_frame k"
    by (simp add: release_handle_def sh_reset_def Let_def)
qed

lemma unlink_chain:
  "chain nx p (pre @ prev # a # rest) null \<Longrightarrow> chain (nx(prev := nx a)) p (pre @ prev # rest) null"
  using chain_distinct [of nx p "pre @ prev # a # rest"] by (auto simp: chain_append)

text \<open>Taking one node out of a list.\<close>

lemma take_out_ok:
  assumes "lists_part n k L F" "L c = pre @ a # rest"
    "chain (next_of k1) (handle_list k1 c) (pre @ rest) null" "\<forall>d. d \<noteq> c \<longrightarrow> handle_list k1 d = handle_list k d"
    "\<forall>b. b \<notin> set (L c) \<longrightarrow> next_of k1 b = next_of k b" "handle_of k1 = handle_of k" "sel_free_node k1 = sel_free_node k" "sel_frame k1 = sel_frame k"
  shows "lists_part n (release_handle a k1) (L(c := pre @ rest)) (a # F)" "sel_frame (release_handle a k1) = sel_frame k"
    "handle_of (release_handle a k1) ` set ((L(c := pre @ rest)) d) = (if d = c then handle_of k ` set (L c) - {handle_of k a} else handle_of k ` set (L d))"
proof -
  note l = lists_partD [OF assms(1)]
  have ch: "chain (next_of k1) (handle_list k1 d) ((L(c := pre @ rest)) d) null" for d
    using l(1) [of d] l(3) [of d c] assms(3,4) chain_cong [of "L d" "next_of k1" "next_of k" "handle_list k d" null] assms(5) by fastforce
  have fr: "chain (next_of k1) (sel_free_node k1) F null"
    using l(2,4) assms(5,7) chain_cong [of F "next_of k1" "next_of k" "sel_free_node k" null] by fastforce
  have a: "a \<notin> set (pre @ rest)" "a \<noteq> null" "a \<notin> set F" using l(4) [of c] l(8) [of c] l(9) [of c] assms(2) by auto
  have "a \<notin> set ((L(c := pre @ rest)) d)" for d using a(1) l(3) [of c d] assms(2) by (cases "d = c") auto
  then have na: "\<forall>d. a \<notin> set ((L(c := pre @ rest)) d)" ..
  have len: "length ((L(c := pre @ rest)) RD) + length ((L(c := pre @ rest)) WR) + length ((L(c := pre @ rest)) EXC) + length F = n - 1" "0 < n"
    using l(5) assms(2) by (cases c; auto)+
  have hd: "distinct (map (handle_of k) ((L(c := pre @ rest)) d))" "invalid_handle \<notin> handle_of k ` set ((L(c := pre @ rest)) d)" for d
    using l(6) [of d] l(7) [of d] l(6) [of c] l(7) [of c] assms(2) by auto
  have sub: "set ((L(c := pre @ rest)) d) \<subseteq> set (L d)" for d using assms(2) by auto
  have "lists_part (n - 1) k1 (L(c := pre @ rest)) F"
    unfolding lists_part_def assms(6) using ch fr len(1) hd l(3,4) sub by blast
  note r = sel_release_ok [OF this a(2) na a(3)]
  show "lists_part n (release_handle a k1) (L(c := pre @ rest)) (a # F)" using r(1) len(2) by (simp del: fun_upd_apply)
  show "sel_frame (release_handle a k1) = sel_frame k" using r(3) assms(8) by simp
  show "handle_of (release_handle a k1) ` set ((L(c := pre @ rest)) d) = (if d = c then handle_of k ` set (L c) - {handle_of k a} else handle_of k ` set (L d))"
  proof (cases "d = c")
    case True
    have "handle_of k a \<notin> handle_of k ` set (pre @ rest)" using l(6) [of c] assms(2) by auto
    then have "handle_of k ` set (pre @ a # rest) - {handle_of k a} = handle_of k ` set (pre @ rest)" by auto
    then show ?thesis using r(2) [of d] assms(2,6) True by simp
  qed (use r(2) [of d] assms(6) in simp)
qed

text \<open>The outcome of an operation: new lists, and the handles in them.\<close>

definition lists_become :: "'o select_base \<Rightarrow> (sel_kind \<Rightarrow> int set) \<Rightarrow> 'o select_base \<Rightarrow> bool" where
  "lists_become k P k' \<longleftrightarrow> (\<exists>L F. lists_ok k' L F) \<and> polled k' = P \<and> sel_frame k' = sel_frame k"

lemma lists_become_eq: "lists_become k P k' \<Longrightarrow> P = Q \<Longrightarrow> lists_become k Q k'"
  by simp

lemma lists_become_refl: "lists_ok k L F \<Longrightarrow> lists_become k (polled k) k"
  by (auto simp: lists_become_def)

lemma lists_become_trans: "lists_become k P k1 \<Longrightarrow> lists_become k1 Q k2 \<Longrightarrow> lists_become k Q k2"
  by (simp add: lists_become_def)

lemma taken_out:
  assumes "lists_ok k L F" "L c = pre @ a # rest" "chain (next_of k1) (handle_list k1 c) (pre @ rest) null"
    "\<forall>d. d \<noteq> c \<longrightarrow> handle_list k1 d = handle_list k d" "\<forall>b. b \<notin> set (L c) \<longrightarrow> next_of k1 b = next_of k b"
    "handle_of k1 = handle_of k" "sel_free_node k1 = sel_free_node k" "sel_frame k1 = sel_frame k"
  shows "lists_become k ((polled k)(c := polled k c - {handle_of k a})) (release_handle a k1)"
proof -
  note t = take_out_ok [OF assms]
  have "lists_ok (release_handle a k1) (L(c := pre @ rest)) (a # F)" using t(1) frame_nodes [OF t(2)] by (simp del: fun_upd_apply)
  moreover from polled_list [OF this] have "polled (release_handle a k1) = (polled k)(c := polled k c - {handle_of k a})"
    using t(3) polled_list [OF assms(1)] by (auto simp: fun_eq_iff)
  ultimately show ?thesis using t(2) unfolding lists_become_def by blast
qed

lemma remove_loop_ok:
  assumes "lists_ok k L F" "L c = pre @ prev # rest" "chain (next_of k) itor rest null" "length rest \<le> n"
    "h \<notin> handle_of k ` set (pre @ [prev])"
  shows "lists_become k ((polled k)(c := polled k c - {h})) (remove_loop n h prev itor k)"
  using assms(2-)
proof (induction n arbitrary: pre prev rest itor)
  case 0
  then have "h \<notin> polled k c" using assms(1) by (simp add: polled_list)
  then show ?case using lists_become_refl [OF assms(1)] 0 by (simp add: fun_upd_idem)
next
  case (Suc n)
  note l = lists_partD [OF assms(1)]
  show ?case
  proof (cases rest)
    case Nil
    then have "h \<notin> polled k c" using Suc.prems assms(1) by (simp add: polled_list)
    then show ?thesis using lists_become_refl [OF assms(1)] Suc.prems(2) Nil by (simp add: fun_upd_idem)
  next
    case (Cons a as)
    then have a: "itor = a" "a \<noteq> null" "chain (next_of k) (next_of k a) as null" using Suc.prems(2) by auto
    show ?thesis
    proof (cases "handle_of k a = h")
      case True
      let ?k1 = "upd_sh prev (\<lambda>s. s\<lparr>sh_next := next_of k a\<rparr>) k"
      have "chain (next_of k) (handle_list k c) (pre @ prev # a # as) null" using l(1) [of c] Suc.prems(1) Cons by simp
      from unlink_chain [OF this] have "chain (next_of ?k1) (handle_list ?k1 c) ((pre @ [prev]) @ as) null" by simp
      moreover have "L c = (pre @ [prev]) @ a # as" using Suc.prems(1) Cons by simp
      moreover have "handle_of ?k1 = handle_of k" by (auto simp: handle_of_def [abs_def])
      moreover have "\<forall>b. b \<notin> set (L c) \<longrightarrow> next_of ?k1 b = next_of k b" using Suc.prems(1) by simp
      ultimately have "lists_become k ((polled k)(c := polled k c - {handle_of k a})) (release_handle a ?k1)"
        by (intro taken_out [OF assms(1), of c "pre @ [prev]" a as ?k1]) simp_all
      then show ?thesis using True a(1,2) by (simp del: fun_upd_apply)
    next
      case False
      then show ?thesis using Suc.IH [of "pre @ [prev]" a as "next_of k a"] Suc.prems Cons a by simp
    qed
  qed
qed

lemma remove_handle_ok:
  assumes "lists_ok k L F" "handle_list k c \<noteq> null"
  shows "lists_become k ((polled k)(c := polled k c - {h})) (remove_handle h c k)"
proof -
  note l = lists_partD [OF assms(1)]
  obtain a as where L: "L c = a # as" using l(1) [of c] assms(2) by (cases "L c") auto
  then have a: "handle_list k c = a" "chain (next_of k) (next_of k a) as null" using l(1) [of c] by auto
  show ?thesis
  proof (cases "handle_of k a = h")
    case True
    have "handle_of (set_handle_list c (next_of k a) k) = handle_of k" by simp
    then show ?thesis using taken_out [OF assms(1), of c "[]" a as "set_handle_list c (next_of k a) k"] True L a
      by (simp add: remove_handle_def)
  next
    case False
    then show ?thesis using remove_loop_ok [OF assms(1), of c "[]" a as "next_of k a" "sh_nodes k" h] L a lists_part_length [OF assms(1), of c]
      by (simp add: remove_handle_def)
  qed
qed

lemma remove_from_ok:
  assumes "lists_ok k L F"
  shows "lists_become k ((polled k)(c := if keep c then polled k c else polled k c - {h})) (remove_from h keep c k)"
proof (cases "handle_list k c = null")
  case True
  then have "polled k c = {}" using lists_partD(1) [OF assms, of c] by (simp add: polled_list [OF assms])
  then show ?thesis using lists_become_refl [OF assms] True by (simp add: remove_from_def fun_upd_idem)
next
  case False
  then show ?thesis using lists_become_refl [OF assms] remove_handle_ok [OF assms False] by (simp add: remove_from_def)
qed

text \<open>There are three nodes for every handle.\<close>

definition sel_inv :: "int \<Rightarrow> 'o select_base \<Rightarrow> bool" where
  "sel_inv n k \<longleftrightarrow> (\<exists>L F. lists_ok k L F) \<and> (\<forall>c. polled k c \<subseteq> {0..<n}) \<and> int (sh_nodes k) = 3 * n"

lemma sel_inv_become: "sel_inv n k \<Longrightarrow> lists_become k P k' \<Longrightarrow> (\<And>c. P c \<subseteq> {0..<n}) \<Longrightarrow> sel_inv n k'"
  unfolding sel_inv_def lists_become_def by (metis frame_nodes)

lemma list_card: "lists_ok k L F \<Longrightarrow> length (L c) = card (polled k c)"
  using lists_partD(6) [of "sh_nodes k" k L F c] distinct_card [of "map (handle_of k) (L c)"] by (simp add: polled_list)

lemma free_left:
  assumes "sel_inv n k" "lists_ok k L F" "0 \<le> h" "h < n" "h \<notin> polled k c"
  shows "F \<noteq> []"
proof -
  have sub: "polled k d \<subseteq> {0..<n}" for d using assms(1) by (simp add: sel_inv_def)
  have "int (length (L d)) \<le> n" for d
    using card_mono [OF _ sub [of d]] assms(3,4) by (simp add: list_card [OF assms(2)] le_nat_iff)
  moreover have "int (length (L c)) < n"
  proof -
    have "insert h (polled k c) \<subseteq> {0..<n}" using sub [of c] assms(3,4) by simp
    then have "card (insert h (polled k c)) \<le> nat n" using card_mono [of "{0..<n}"] by fastforce
    moreover have "finite (polled k c)" using sub [of c] finite_subset by blast
    ultimately show ?thesis using assms(3-5) by (simp add: list_card [OF assms(2)])
  qed
  ultimately have "int (length (L RD) + length (L WR) + length (L EXC)) < 3 * n"
    by (cases c) (simp_all add: add_le_less_mono add_less_le_mono, smt+)
  moreover have "int (length (L RD) + length (L WR) + length (L EXC) + length F) = 3 * n"
    using lists_partD(5) [OF assms(2)] assms(1) by (simp add: sel_inv_def)
  ultimately show ?thesis by auto
qed

lemma append_ok:
  assumes "sel_inv n k" "0 \<le> h" "h < n"
  obtains k' where "append_handle h c k = Inr k'" "lists_become k ((polled k)(c := insert h (polled k c))) k'"
proof -
  obtain L F where ok: "lists_ok k L F" using assms(1) by (auto simp: sel_inv_def)
  note l = lists_partD [OF ok]
  show ?thesis
  proof (cases "h \<in> polled k c")
    case True
    then show ?thesis using find_handle_ok [OF ok, of h c] lists_become_refl [OF ok] that [of k]
      by (simp add: append_handle_def insert_absorb fun_upd_idem)
  next
    case False
    obtain f F' where F: "F = f # F'" using free_left [OF assms(1) ok assms(2,3) False] by (cases F) auto
    have f: "sel_free_node k = f" "f \<noteq> null" "chain (next_of k) (next_of k f) F' null" using l(2) F by auto
    have nf: "f \<notin> set (L d)" "f \<notin> set F'" for d using l(4) [of d] l(10) F by auto
    define k' where "k' = upd_sh f (\<lambda>n. n\<lparr>sh_handle := h\<rparr>) (set_handle_list c f (upd_sh f (\<lambda>n. n\<lparr>sh_next := handle_list k c\<rparr>)
      (sh_reset f (k\<lparr>sel_free_node := next_of k f\<rparr>))))"
    have e: "append_handle h c k = Inr k'"
      using False find_handle_ok [OF ok, of h c] f(1,2)
      by (simp add: append_handle_def alloc_handle_def k'_def Let_def sh_reset_def)
    have nx: "next_of k' = (next_of k)(f := handle_list k c)" and hd: "handle_of k' = (handle_of k)(f := h)"
      and hl: "handle_list k' = (handle_list k)(c := f)" and fr: "sel_free_node k' = next_of k f" and frm: "sel_frame k' = sel_frame k"
      by (simp_all add: k'_def sh_reset_def)
    have hdm: "map (handle_of k') (L d) = map (handle_of k) (L d)" for d using nf(1) by (simp add: hd)
    then have hdi: "handle_of k' ` set (L d) = handle_of k ` set (L d)" for d by (metis list.set_map)
    have hf: "handle_of k' f = h" by (simp add: hd)
    let ?L = "L(c := f # L c)"
    have a: "chain (next_of k') (handle_list k' d) (?L d) null" for d
      using l(1) [of d] nf(1) [of d] f(2) by (auto simp: nx hl)
    have b: "chain (next_of k') (sel_free_node k') F' null" using f(3) nf(2) by (simp add: nx fr)
    have s: "set (?L d) \<inter> set (?L e) = {}" if "d \<noteq> e" for d e using l(3) [OF that] nf(1) that by auto
    have t: "set (?L d) \<inter> set F' = {}" for d using l(4) [of d] nf(2) F by auto
    have u: "length (?L RD) + length (?L WR) + length (?L EXC) + length F' = sh_nodes k'"
      using l(5) F frame_nodes [OF frm] by (cases c) auto
    have hdd: "distinct (map (handle_of k') (L d))" for d unfolding hdm by (rule l(6))
    have v: "distinct (map (handle_of k') (?L d)) \<and> invalid_handle \<notin> handle_of k' ` set (?L d)" for d
      using l(7) [of d] False assms(2) hdd [of d] hdi [of d]
      by (cases "d = c") (simp_all add: hf polled_list [OF ok] invalid_handle_def)
    have "lists_ok k' ?L F'" unfolding lists_part_def using a b s t u v by blast
    moreover from polled_list [OF this] have "polled k' = (polled k)(c := insert h (polled k c))"
      by (simp add: fun_eq_iff polled_list [OF ok] hdi hf)
    ultimately show ?thesis using that [OF e] frm unfolding lists_become_def by blast
  qed
qed

definition new_polled :: "int \<Rightarrow> mask \<Rightarrow> int \<Rightarrow> (sel_kind \<Rightarrow> int set) \<Rightarrow> sel_kind \<Rightarrow> int set" where
  "new_polled h m opt P c =
     (if wants c m then insert h (P c) else if opt = add_mask \<and> m \<noteq> 0 then P c else P c - {h})"

lemma wants_zero [simp]: "\<not> wants c 0"
  by (cases c) (simp_all add: wants_def bit_enabled_def)

lemma remove_all_ok:
  assumes "sel_inv n k"
  shows "lists_become k (\<lambda>c. if keep c then polled k c else polled k c - {h}) (fold (remove_from h keep) [RD, WR, EXC] k)"
proof -
  have step: "lists_become k (P(c := if keep c then P c else P c - {h})) (remove_from h keep c k1)" if k1: "lists_become k P k1" for c P k1
  proof -
    obtain L F where "lists_ok k1 L F" using k1 unfolding lists_become_def by blast
    from remove_from_ok [OF this, of c keep h] show ?thesis using k1 by (simp add: lists_become_def)
  qed
  obtain L F where "lists_ok k L F" using assms by (auto simp: sel_inv_def)
  note s = step [OF step [OF step [OF lists_become_refl [OF this], of RD], of WR], of EXC]
  have "lists_become k (\<lambda>c. if keep c then polled k c else polled k c - {h}) (remove_from h keep EXC (remove_from h keep WR (remove_from h keep RD k)))"
    by (rule lists_become_eq [OF s]) (rule ext, case_tac c, simp_all)
  then show ?thesis by simp
qed

lemma append_to_ok:
  assumes k1: "sel_inv n k1" and "0 \<le> h" "h < n"
  shows "\<exists>k'. append_to h m c k1 = Inr k' \<and> lists_become k1 ((polled k1)(c := if wants c m then insert h (polled k1 c) else polled k1 c)) k' \<and> sel_inv n k'"
proof (cases "wants c m")
  case True
  obtain k' where "append_handle h c k1 = Inr k'" "lists_become k1 ((polled k1)(c := insert h (polled k1 c))) k'"
    by (rule append_ok [OF k1 assms(2,3)])
  moreover have "sel_inv n k'"
    by (rule sel_inv_become [OF k1 calculation(2)]) (use k1 assms(2,3) in \<open>auto simp: sel_inv_def\<close>)
  ultimately show ?thesis using True by (simp add: append_to_def)
next
  case False
  obtain L F where "lists_ok k1 L F" using \<open>sel_inv n k1\<close> unfolding sel_inv_def by blast
  from lists_become_refl [OF this] show ?thesis using False k1 by (simp add: append_to_def fun_upd_idem)
qed

lemma sel_opt_ok:
  assumes "sel_inv n k" "0 \<le> h" "h < n" "opt = add_mask \<or> opt = set_mask \<or> opt = clr_mask"
  obtains k' where "sel_opt h m opt k = Inr k'" "lists_become k (new_polled h m opt (polled k)) k'" "sel_inv n k'"
proof -
  have sub: "polled k c \<subseteq> {0..<n}" for c using assms(1) by (simp add: sel_inv_def)
  have inv: "sel_inv n k'" if "lists_become k (new_polled h m opt (polled k)) k'" for k'
    by (rule sel_inv_become [OF assms(1) that]) (use sub assms(2,3) in \<open>auto simp: new_polled_def\<close>)
  note app = append_to_ok [OF _ assms(2,3), where m = m]
  let ?opt = "if m = null_mask then clr_mask else if opt = clr_mask then set_mask else opt"
  show ?thesis
  proof (cases "m = null_mask")
    case True
    have "lists_become k (new_polled h m opt (polled k)) (fold (remove_from h (\<lambda>_. False)) [RD, WR, EXC] k)"
      by (rule lists_become_eq [OF remove_all_ok [OF assms(1)]]) (use True in \<open>simp add: new_polled_def null_mask_def fun_eq_iff\<close>)
    then show ?thesis using that [OF _ _ inv] True by (simp add: sel_opt_def)
  next
    case False
    define k1 where "k1 = (if ?opt = set_mask then fold (remove_from h (\<lambda>c. wants c m)) [RD, WR, EXC] k else k)"
    define P where "P = (\<lambda>c. if opt = add_mask \<or> wants c m then polled k c else polled k c - {h})"
    obtain L F where "lists_ok k L F" using assms(1) unfolding sel_inv_def by blast
    then have b1: "lists_become k P k1" using remove_all_ok [OF assms(1), of "\<lambda>c. wants c m" h] lists_become_refl [of k L F] False assms(4)
      by (auto simp: k1_def P_def)
    have "sel_inv n k1" by (rule sel_inv_become [OF assms(1) b1]) (use sub in \<open>auto simp: P_def\<close>)
    from app [OF this, of RD] obtain k2 where k2: "append_to h m RD k1 = Inr k2"
      "lists_become k1 ((polled k1)(RD := if wants RD m then insert h (polled k1 RD) else polled k1 RD)) k2" "sel_inv n k2" by blast
    from app [OF this(3), of WR] obtain k3 where k3: "append_to h m WR k2 = Inr k3"
      "lists_become k2 ((polled k2)(WR := if wants WR m then insert h (polled k2 WR) else polled k2 WR)) k3" "sel_inv n k3" by blast
    from app [OF this(3), of EXC] obtain k4 where k4: "append_to h m EXC k3 = Inr k4"
      "lists_become k3 ((polled k3)(EXC := if wants EXC m then insert h (polled k3 EXC) else polled k3 EXC)) k4" "sel_inv n k4" by blast
    have e: "sel_opt h m opt k = Inr k4" 
      unfolding sel_opt_def Let_def k1_def [symmetric] using False assms(4) k2(1) k3(1) k4(1) by auto
    have "polled k4 = new_polled h m opt (polled k)"
    proof
      fix c
      show "polled k4 c = new_polled h m opt (polled k) c"
        using b1 k2(2) k3(2) k4(2) False by (cases c) (auto simp: lists_become_def P_def new_polled_def null_mask_def)
    qed
    then have "lists_become k (new_polled h m opt (polled k)) k4" using b1 k2(2) k3(2) k4(2) by (simp add: lists_become_def)
    then show ?thesis using that [OF e _ inv] by blast
  qed
qed

section \<open>Registrations and lists\<close>

text \<open>A handle is in the lists of the kinds its mask asks for, if it is registered and not suspended, and in
  no list if it is not registered.\<close>

definition sel_slot :: "reactor_event_tuple \<Rightarrow> (sel_kind \<Rightarrow> bool) \<Rightarrow> bool" where
  "sel_slot t P \<longleftrightarrow> (P \<noteq> (\<lambda>_. False) \<longrightarrow> rt_event_handler t \<noteq> null \<and> P = (\<lambda>c. wants c (rt_mask t)))
     \<and> (rt_event_handler t \<noteq> null \<longrightarrow> rt_mask t \<noteq> 0 \<and> (\<not> rt_suspended t \<longrightarrow> P = (\<lambda>c. wants c (rt_mask t))))"

lemma sel_slot_polled: "sel_slot t P \<Longrightarrow> P c \<Longrightarrow> rt_event_handler t \<noteq> null \<and> wants c (rt_mask t)"
  unfolding sel_slot_def by metis

definition sel_sync :: "'o select_base reactor \<Rightarrow> bool" where
  "sel_sync r \<longleftrightarrow> rep_ok (handler_rep r) \<and> sel_inv (rep_max_size (handler_rep r)) (kern r)
     \<and> (\<forall>h. sel_slot (slot h (handler_rep r)) (\<lambda>c. h \<in> polled (kern r) c))"

definition sel_update :: "int \<Rightarrow> reactor_event_tuple \<Rightarrow> (sel_kind \<Rightarrow> bool) \<Rightarrow> 'o select_base reactor \<Rightarrow> 'o select_base reactor \<Rightarrow> bool" where
  "sel_update h t P r r' \<longleftrightarrow> r_frame r' = r_frame r \<and> upcalls r' = upcalls r \<and> slot_becomes h t (handler_rep r) (handler_rep r') \<and> rep_max_size (handler_rep r') = rep_max_size (handler_rep r)
     \<and> sel_inv (rep_max_size (handler_rep r)) (kern r') \<and> sel_frame (kern r') = sel_frame (kern r)
     \<and> (\<forall>c. h \<in> polled (kern r') c \<longleftrightarrow> P c) \<and> (\<forall>h' c. h' \<noteq> h \<longrightarrow> (h' \<in> polled (kern r') c \<longleftrightarrow> h' \<in> polled (kern r) c))"

lemma sel_update_sync: "sel_sync r \<Longrightarrow> sel_update h t P r r' \<Longrightarrow> sel_slot t P \<Longrightarrow> sel_sync r'"
  by (auto simp: sel_sync_def sel_update_def slot_becomes_def)

lemma sel_opt_effect:
  assumes "sel_inv (rep_max_size (handler_rep r)) (kern r)" "handle_in_range h (handler_rep r)" "opt = add_mask \<or> opt = set_mask \<or> opt = clr_mask"
  shows "\<exists>k'. sel_handle_opt_i h m opt r = (0, r\<lparr>kern := k'\<rparr>) \<and> (sel_inv (rep_max_size (handler_rep r)) k' \<and> sel_frame k' = sel_frame (kern r))
    \<and> (\<forall>c. h \<in> polled k' c \<longleftrightarrow> wants c m \<or> opt = add_mask \<and> m \<noteq> 0 \<and> h \<in> polled (kern r) c)
    \<and> (\<forall>h' c. h' \<noteq> h \<longrightarrow> (h' \<in> polled k' c \<longleftrightarrow> h' \<in> polled (kern r) c))"
proof -
  have "0 \<le> h" "h < rep_max_size (handler_rep r)" using assms(2) by (simp_all add: handle_in_range_def)
  from sel_opt_ok [OF assms(1) this assms(3), of m] obtain k' where
    k: "sel_opt h m opt (kern r) = Inr k'" "lists_become (kern r) (new_polled h m opt (polled (kern r))) k'" "sel_inv (rep_max_size (handler_rep r)) k'" .
  show ?thesis
  proof (intro exI conjI allI)
    show "sel_handle_opt_i h m opt r = (0, r\<lparr>kern := k'\<rparr>)" using k(1) by (simp add: sel_handle_opt_i_def)
  qed (use k(2,3) in \<open>auto simp: lists_become_def new_polled_def\<close>)
qed

lemma rep_ops_size [simp]:
  "rep_max_size (rep_set_mask h m p) = rep_max_size p" "rep_max_size (snd (rep_unbind h p)) = rep_max_size p"
  "rep_max_size (rep_suspend h p) = rep_max_size p" "rep_max_size (rep_resume h p) = rep_max_size p"
  "rep_bind h eh m p = (v, p') \<Longrightarrow> rep_max_size p' = rep_max_size p"
  by (auto simp: rep_set_mask_def rep_unbind_def rep_suspend_def rep_resume_def rep_bind_def upd_tuple_def split: if_splits)

lemma sel_register_effect:
  assumes "sel_sync r" "eh \<noteq> null" "register_handler_i sel_handle_opt_i h eh m r = (v, r')"
  shows "if handle_in_range h (handler_rep r)
         then v = 0 \<and> (let t = slot h (handler_rep r);
                new = (if bound h r = null then m else set_bits_of (rt_mask t) m)
              in sel_update h (if bound h r = null then t\<lparr>rt_event_handler := eh, rt_mask := new\<rparr> else t\<lparr>rt_mask := new\<rparr>)
                   (\<lambda>c. wants c new) r r')
         else v = -1 \<and> r' = r"
proof -
  have ok: "rep_ok (handler_rep r)" and inv: "sel_inv (rep_max_size (handler_rep r)) (kern r)" using assms(1) by (simp_all add: sel_sync_def)
  show ?thesis
  proof (cases "bound h r = null")
    case True
    then have no: "h \<notin> polled (kern r) c" for c using assms(1) by (fastforce simp: sel_sync_def sel_slot_def rep_slot fun_eq_iff)
    obtain b p where b: "rep_bind h eh m (handler_rep r) = (b, p)" by fastforce
    then have bv: "b = (if handle_in_range h (handler_rep r) then 0 else -1)" using rep_bind_ok [OF ok, of h eh m] assms(2) by simp
    show ?thesis
    proof (cases "handle_in_range h (handler_rep r)")
      case False
      then show ?thesis using True assms(3) b bv by (simp add: register_handler_i_def)
    next
      case in_range: True
      have b0: "rep_bind h eh m (handler_rep r) = (0, p)" using b bv in_range by simp
      note sb = rep_ops_slot(1) [OF ok b0]
      let ?r1 = "r\<lparr>handler_rep := p\<rparr>"
      have "sel_inv (rep_max_size (handler_rep ?r1)) (kern ?r1)" "handle_in_range h (handler_rep ?r1)"
        using inv in_range rep_ops_size(5) [OF b0] by (simp_all add: handle_in_range_def)
      from sel_opt_effect [OF this, of add_mask m, simplified] obtain k' where k: "sel_handle_opt_i h m add_mask ?r1 = (0, ?r1\<lparr>kern := k'\<rparr>)"
        "sel_inv (rep_max_size p) k' \<and> sel_frame k' = sel_frame (kern r)" "\<forall>c. h \<in> polled k' c \<longleftrightarrow> wants c m \<or> m \<noteq> 0 \<and> h \<in> polled (kern r) c" "\<forall>h' c. h' \<noteq> h \<longrightarrow> (h' \<in> polled k' c \<longleftrightarrow> h' \<in> polled (kern r) c)"
        by blast
      then show ?thesis using assms(3) True in_range b0 sb rep_ops_size(5) [OF b0]
        by (auto simp: register_handler_i_def Let_def sel_update_def no)
    qed
  next
    case False
    then have nb: "rt_event_handler (slot h (handler_rep r)) \<noteq> null" by (simp add: rep_slot)
    note rng = bound_in_range [OF nb]
    let ?m = "set_bits_of (rep_mask h (handler_rep r)) m"
    let ?r1 = "with_rep (rep_set_mask h ?m) r"
    note sb = rep_ops_slot(3) [OF ok nb, of ?m]
    have "sel_inv (rep_max_size (handler_rep ?r1)) (kern ?r1)" "handle_in_range h (handler_rep ?r1)"
      using inv rng by (simp_all add: handle_in_range_def with_rep_def)
    from sel_opt_effect [OF this, of set_mask ?m] obtain k' where k: "sel_handle_opt_i h ?m set_mask ?r1 = (0, ?r1\<lparr>kern := k'\<rparr>)"
      "sel_inv (rep_max_size (handler_rep r)) k' \<and> sel_frame k' = sel_frame (kern r)" "\<forall>c. h \<in> polled k' c \<longleftrightarrow> wants c ?m" "\<forall>h' c. h' \<noteq> h \<longrightarrow> (h' \<in> polled k' c \<longleftrightarrow> h' \<in> polled (kern r) c)"
      by (auto simp: with_rep_def)
    then show ?thesis using assms(3) False rng sb
      by (auto simp: register_handler_i_def Let_def sel_update_def with_rep_def rep_slot)
  qed
qed

lemma sel_remove_mask_effect:
  assumes "sel_sync r" "bound h r \<noteq> null" "remove_mask sel_handle_opt_i h m r = (v, r')"
  shows "v = 0 \<and> (let t = slot h (handler_rep r); new = clr_bits_of (rt_mask t) m in
     sel_update h (if new = 0 then t\<lparr>rt_event_handler := null, rt_mask := 0\<rparr> else t\<lparr>rt_mask := new\<rparr>) (\<lambda>c. wants c new) r r')"
proof -
  have ok: "rep_ok (handler_rep r)" and inv: "sel_inv (rep_max_size (handler_rep r)) (kern r)" using assms(1) by (simp_all add: sel_sync_def)
  have nb: "rt_event_handler (slot h (handler_rep r)) \<noteq> null" using assms(2) by (simp add: rep_slot)
  let ?m = "clr_bits_of (rt_mask (slot h (handler_rep r))) m" and ?p = "\<lambda>m. rep_set_mask h m (handler_rep r)"
  note s1 = rep_ops_slot(3) [OF ok nb, of ?m]
  have ok1: "rep_ok (?p ?m)" and sl: "slot h (?p ?m) = (slot h (handler_rep r))\<lparr>rt_mask := ?m\<rparr>"
    using s1 by (simp_all add: slot_becomes_def)
  have s2: "slot_becomes h ((slot h (handler_rep r))\<lparr>rt_event_handler := null, rt_mask := 0\<rparr>) (handler_rep r) (snd (rep_unbind h (?p ?m)))"
    using slot_becomes_trans [OF s1 rep_ops_slot(2) [OF ok1]] sl nb by simp
  let ?r1 = "with_rep (rep_set_mask h ?m) r"
  have inv1: "sel_inv (rep_max_size (handler_rep ?r1)) (kern ?r1)" "handle_in_range h (handler_rep ?r1)"
    using inv bound_in_range [OF nb] by (simp_all add: handle_in_range_def with_rep_def)
  define t where "t = (if ?m \<noteq> 0 then set_mask else clr_mask)"
  then have t: "t = add_mask \<or> t = set_mask \<or> t = clr_mask" "t \<noteq> add_mask" by auto
  from sel_opt_effect [OF inv1 t(1), of ?m] obtain k' where
    k: "sel_handle_opt_i h ?m t ?r1 = (0, ?r1\<lparr>kern := k'\<rparr>)"
      "sel_inv (rep_max_size (handler_rep r)) k' \<and> sel_frame k' = sel_frame (kern r)" "\<forall>c. h \<in> polled k' c \<longleftrightarrow> wants c ?m" "\<forall>h' c. h' \<noteq> h \<longrightarrow> (h' \<in> polled k' c \<longleftrightarrow> h' \<in> polled (kern r) c)"
    using t(2) by (auto simp: with_rep_def)
  have "handler_rep r' = (if ?m = 0 then snd (rep_unbind h (?p ?m)) else ?p ?m)" "kern r' = k'" "v = 0" "r_frame r' = r_frame r" "upcalls r' = upcalls r"
    using assms(3) k(1) unfolding t_def by (auto simp: remove_mask_def Let_def rep_slot null_mask_def with_rep_def split: if_splits)
  then show ?thesis using k(2-) s1 s2 by (cases "?m = 0") (simp_all add: sel_update_def Let_def)
qed

lemma sel_suspend_effect:
  assumes "sel_sync r" "suspend_handler_i sel_handle_opt_i h r = (v, r')"
  shows "if bound h r = null then v = -1 \<and> r' = r else v = 0 \<and>
     (if rep_suspended h (handler_rep r) then r' = r
      else sel_update h ((slot h (handler_rep r))\<lparr>rt_suspended := True\<rparr>) (\<lambda>_. False) r r')"
proof (cases "bound h r = null \<or> rep_suspended h (handler_rep r)")
  case True
  then show ?thesis using assms(2) by (auto simp: suspend_handler_i_def split: if_splits)
next
  case False
  have ok: "rep_ok (handler_rep r)" and inv: "sel_inv (rep_max_size (handler_rep r)) (kern r)" using assms(1) by (simp_all add: sel_sync_def)
  have nb: "rt_event_handler (slot h (handler_rep r)) \<noteq> null" using False by (simp add: rep_slot)
  from sel_opt_effect [OF inv bound_in_range [OF nb], of clr_mask null_mask, simplified] obtain k' where
    k: "sel_handle_opt_i h null_mask clr_mask r = (0, r\<lparr>kern := k'\<rparr>)" "sel_inv (rep_max_size (handler_rep r)) k' \<and> sel_frame k' = sel_frame (kern r)"
      "\<forall>c. h \<in> polled k' c \<longleftrightarrow> wants c null_mask" "\<forall>h' c. h' \<noteq> h \<longrightarrow> (h' \<in> polled k' c \<longleftrightarrow> h' \<in> polled (kern r) c)" by blast
  then show ?thesis using False assms(2) rep_ops_slot(4) [OF ok nb]
    by (auto simp: suspend_handler_i_def with_rep_def sel_update_def null_mask_def)
qed

lemma sel_resume_effect:
  assumes "sel_sync r" "resume_handler_i sel_handle_opt_i h r = (v, r')"
  shows "if bound h r = null \<or> \<not> rep_suspended h (handler_rep r) then v = -1 \<and> r' = r
    else v = 0 \<and> sel_update h ((slot h (handler_rep r))\<lparr>rt_suspended := False\<rparr>) (\<lambda>c. wants c (rep_mask h (handler_rep r))) r r'"
proof (cases "bound h r = null \<or> \<not> rep_suspended h (handler_rep r)")
  case True
  then show ?thesis using assms(2) by (auto simp: resume_handler_i_def)
next
  case False
  have ok: "rep_ok (handler_rep r)" and inv: "sel_inv (rep_max_size (handler_rep r)) (kern r)"
    and ss: "sel_slot (slot h (handler_rep r)) (\<lambda>c. h \<in> polled (kern r) c)" using assms(1) by (simp_all add: sel_sync_def)
  have nb: "rt_event_handler (slot h (handler_rep r)) \<noteq> null" using False by (simp add: rep_slot)
  let ?m = "rep_mask h (handler_rep r)"
  have m: "?m \<noteq> null_mask" using nb ss by (simp add: rep_slot sel_slot_def null_mask_def)
  have sub: "wants c ?m" if "h \<in> polled (kern r) c" for c
    using sel_slot_polled [OF ss that] by (simp add: rep_slot)
  from sel_opt_effect [OF inv bound_in_range [OF nb], of add_mask ?m, simplified] obtain k' where
    k: "sel_handle_opt_i h ?m add_mask r = (0, r\<lparr>kern := k'\<rparr>)" "sel_inv (rep_max_size (handler_rep r)) k' \<and> sel_frame k' = sel_frame (kern r)"
      "\<forall>c. h \<in> polled k' c \<longleftrightarrow> wants c ?m \<or> ?m \<noteq> 0 \<and> h \<in> polled (kern r) c" "\<forall>h' c. h' \<noteq> h \<longrightarrow> (h' \<in> polled k' c \<longleftrightarrow> h' \<in> polled (kern r) c)" by blast
  have "\<forall>c. h \<in> polled k' c \<longleftrightarrow> wants c ?m" using k(3) sub by blast
  moreover have "v = 0" "r' = with_rep (rep_resume h) (r\<lparr>kern := k'\<rparr>)"
    using False assms(2) m k(1) by (auto simp: resume_handler_i_def)
  ultimately show ?thesis using False k(2,4) rep_ops_slot(5) [OF ok nb] by (simp add: with_rep_def sel_update_def)
qed

lemma sel_sync_ops:
  assumes "sel_sync r"
  shows "eh \<noteq> null \<Longrightarrow> m \<noteq> 0 \<Longrightarrow> sel_sync (snd (register_handler_i sel_handle_opt_i h eh m r))"
    "bound h r \<noteq> null \<Longrightarrow> sel_sync (snd (remove_mask sel_handle_opt_i h m r))"
    "sel_sync (snd (suspend_handler_i sel_handle_opt_i h r))" "sel_sync (snd (resume_handler_i sel_handle_opt_i h r))"
proof -
  let ?t = "slot h (handler_rep r)"
  have ss: "sel_slot ?t (\<lambda>c. h \<in> polled (kern r) c)" using assms by (simp add: sel_sync_def)
  note u = sel_update_sync [OF assms]
  show "sel_sync (snd (register_handler_i sel_handle_opt_i h eh m r))" if "eh \<noteq> null" "m \<noteq> 0"
    using sel_register_effect [OF assms that(1) surjective_pairing, of h m] that ss assms u or_not_zero [OF that(2)]
    by (auto simp: Let_def sel_slot_def rep_slot split: if_splits)
  show "sel_sync (snd (remove_mask sel_handle_opt_i h m r))" if "bound h r \<noteq> null"
    using sel_remove_mask_effect [OF assms that surjective_pairing, of m] that ss u
    by (auto simp: Let_def sel_slot_def rep_slot split: if_splits)
  show "sel_sync (snd (suspend_handler_i sel_handle_opt_i h r))"
    using sel_suspend_effect [OF assms surjective_pairing, of h] ss u assms
    by (auto simp: sel_slot_def rep_slot split: if_splits)
  show "sel_sync (snd (resume_handler_i sel_handle_opt_i h r))"
    using sel_resume_effect [OF assms surjective_pairing, of h] ss u assms
    by (auto simp: sel_slot_def rep_slot split: if_splits)
qed

lemma sel_frame_ops:
  assumes "sel_sync r"
  shows "eh \<noteq> null \<Longrightarrow> r_frame (snd (register_handler_i sel_handle_opt_i h eh m r)) = r_frame r"
    "bound h r \<noteq> null \<Longrightarrow> r_frame (snd (remove_mask sel_handle_opt_i h m r)) = r_frame r"
    "r_frame (snd (suspend_handler_i sel_handle_opt_i h r)) = r_frame r" "r_frame (snd (resume_handler_i sel_handle_opt_i h r)) = r_frame r"
proof -
  show "r_frame (snd (register_handler_i sel_handle_opt_i h eh m r)) = r_frame r" if "eh \<noteq> null"
    using sel_register_effect [OF assms that surjective_pairing, of h m] by (auto simp: Let_def sel_update_def split: if_splits)
  show "r_frame (snd (remove_mask sel_handle_opt_i h m r)) = r_frame r" if "bound h r \<noteq> null"
    using sel_remove_mask_effect [OF assms that surjective_pairing, of m] by (auto simp: Let_def sel_update_def)
  show "r_frame (snd (suspend_handler_i sel_handle_opt_i h r)) = r_frame r"
    using sel_suspend_effect [OF assms surjective_pairing, of h] by (auto simp: sel_update_def split: if_splits)
  show "r_frame (snd (resume_handler_i sel_handle_opt_i h r)) = r_frame r"
    using sel_resume_effect [OF assms surjective_pairing, of h] by (auto simp: sel_update_def split: if_splits)
qed

lemma sel_sync_upd [simp]:
  "sel_sync (r\<lparr>upcalls := us\<rparr>) = sel_sync r" "sel_sync (r\<lparr>r_fault := f\<rparr>) = sel_sync r" "sel_sync (r\<lparr>active_fds := n\<rparr>) = sel_sync r"
  by (simp_all add: sel_sync_def)

interpretation ss: prog_inv sel_handle_opt_i "\<lambda>r. sel_sync r \<and> r_frame r = x" for x
  by unfold_locales (auto simp: sel_sync_ops sel_frame_ops null_mask_def)

section \<open>Two implementations that cannot be told apart\<close>

text \<open>If the primitive operations of two reactors give the same results in related states, so do all
  programs of calls, whatever the callbacks do, as long as the handles they register are among those for
  which registering does (\<open>okh\<close>).\<close>

primrec call_within :: "(int \<Rightarrow> bool) \<Rightarrow> call \<Rightarrow> bool" where
  "call_within okh (Register h eh m) \<longleftrightarrow> okh h"
| "call_within okh (Remove h m) \<longleftrightarrow> True"
| "call_within okh (Suspend h) \<longleftrightarrow> True"
| "call_within okh (Resume h) \<longleftrightarrow> True"

primrec within :: "(int \<Rightarrow> bool) \<Rightarrow> prog \<Rightarrow> bool" where
  "within okh (Return v) \<longleftrightarrow> True"
| "within okh (Call c k) \<longleftrightarrow> call_within okh c \<and> (\<forall>v. within okh (k v))"

definition handlers_within :: "(int \<Rightarrow> bool) \<Rightarrow> handlers \<Rightarrow> bool" where
  "handlers_within okh hs \<longleftrightarrow> (\<forall>us. within okh (hs us))"

definition up_sim :: "('k reactor \<Rightarrow> 'l reactor \<Rightarrow> bool) \<Rightarrow> 'k upcall_fun \<Rightarrow> 'l upcall_fun \<Rightarrow> bool" where
  "up_sim R up1 up2 \<longleftrightarrow> (\<forall>u r s v r'. R r s \<longrightarrow> up1 u r = Some (v, r') \<longrightarrow> (\<exists>s'. up2 u s = Some (v, s') \<and> R r' s'))"

locale opt_sim =
  fixes opt1 :: "'k opt" and opt2 :: "'l opt" and R :: "'k reactor \<Rightarrow> 'l reactor \<Rightarrow> bool"
    and okh :: "int \<Rightarrow> bool"
  assumes sim_register: "R r s \<Longrightarrow> eh \<noteq> null \<Longrightarrow> m \<noteq> null_mask \<Longrightarrow> okh h \<Longrightarrow>
      rel_prod (=) R (register_handler_i opt1 h eh m r) (register_handler_i opt2 h eh m s)"
    and sim_remove_mask: "R r s \<Longrightarrow> bound h r \<noteq> null \<Longrightarrow> rel_prod (=) R (remove_mask opt1 h m r) (remove_mask opt2 h m s)"
    and sim_suspend: "R r s \<Longrightarrow> rel_prod (=) R (suspend_handler_i opt1 h r) (suspend_handler_i opt2 h s)"
    and sim_resume: "R r s \<Longrightarrow> rel_prod (=) R (resume_handler_i opt1 h r) (resume_handler_i opt2 h s)"
    and sim_bound: "R r s \<Longrightarrow> bound h s = bound h r"
    and sim_upcalls: "R r s \<Longrightarrow> upcalls s = upcalls r"
    and sim_trace: "R r s \<Longrightarrow> R (r\<lparr>upcalls := us\<rparr>) (s\<lparr>upcalls := us\<rparr>)"
begin

lemma remove_sim:
  assumes "up_sim R up1 up2" "R r s" "remove_handler_i opt1 up1 h m r = Some (v, r')"
  shows "\<exists>s'. remove_handler_i opt2 up2 h m s = Some (v, s') \<and> R r' s'"
proof -
  have rm: "\<exists>s'. remove_mask opt2 h m s1 = (w, s') \<and> R r1' s'" if "R r1 s1" "bound h r1 \<noteq> null" "remove_mask opt1 h m r1 = (w, r1')" for r1 s1 w r1'
    using sim_remove_mask [OF that(1,2), of m] that(3) by (cases "remove_mask opt2 h m s1") simp
  show ?thesis
  proof (cases "bound h r \<noteq> null \<and> bit_disabled m dont_call")
    case True
    then obtain w r1 where u: "up1 (HandleClose (bound h r) h m) r = Some (w, r1)"
      "(if bound h r1 = null then Some (0, r1) else Some (remove_mask opt1 h m r1)) = Some (v, r')"
      using assms(3) by (auto simp: remove_handler_i_def Let_def bind_eq_Some_conv)
    obtain s1 where s1: "up2 (HandleClose (bound h r) h m) s = Some (w, s1)" "R r1 s1"
      using assms(1,2) u(1) unfolding up_sim_def by blast
    then show ?thesis using True u(2) rm [OF s1(2)] sim_bound [OF assms(2), of h] sim_bound [OF s1(2), of h]
      by (auto simp: remove_handler_i_def Let_def split: if_splits)
  next
    case False
    then show ?thesis using assms(2,3) rm [OF assms(2)] sim_bound [OF assms(2), of h]
      by (auto simp: remove_handler_i_def Let_def split: if_splits)
  qed
qed

lemma perform_sim:
  assumes "up_sim R up1 up2" "R r s" "perform opt1 up1 c r = Some (v, r')" "call_within okh c"
  shows "\<exists>s'. perform opt2 up2 c s = Some (v, s') \<and> R r' s'"
proof (cases c)
  case (Register h eh m)
  then show ?thesis using assms(2-4) sim_register [OF assms(2), of eh m h]
    by (cases "register_handler_i opt2 h eh m s") (auto simp: perform_def register_handler_def split: if_splits)
next
  case (Remove h m)
  then show ?thesis using assms(2,3) remove_sim [OF assms(1,2), of h m v r']
    by (auto simp: perform_def remove_handler_def split: if_splits)
next
  case (Suspend h)
  then show ?thesis using assms(2,3) sim_suspend [OF assms(2), of h]
    by (cases "suspend_handler_i opt2 h s") (auto simp: perform_def suspend_handler_def split: if_splits)
next
  case (Resume h)
  then show ?thesis using assms(2,3) sim_resume [OF assms(2), of h]
    by (cases "resume_handler_i opt2 h s") (auto simp: perform_def resume_handler_def split: if_splits)
qed

lemma run_prog_sim:
  assumes y: "run_prog opt1 hs p r = Some res" and w: "handlers_within okh hs" "within okh p"
  shows "R r s \<Longrightarrow> \<exists>s'. run_prog opt2 hs p s = Some (fst res, s') \<and> R (snd res) s'"
proof -
  have "opt1 = opt1 \<longrightarrow> handlers_within okh hs \<longrightarrow> within okh p \<longrightarrow> (\<forall>s. R r s \<longrightarrow> (\<exists>s'. run_prog opt2 hs p s = Some (fst res, s') \<and> R (snd res) s'))"
  proof (rule run_prog.raw_induct [where P = "\<lambda>c hs p r res. c = opt1 \<longrightarrow> handlers_within okh hs \<longrightarrow> within okh p \<longrightarrow>
      (\<forall>s. R r s \<longrightarrow> (\<exists>s'. run_prog opt2 hs p s = Some (fst res, s') \<and> R (snd res) s'))", OF _ y], goal_cases)
    case (1 f c hs p r res)
    show ?case
    proof (intro impI allI)
      fix s
      assume c: "c = opt1" and hw: "handlers_within okh hs" and pw: "within okh p" and i: "R r s"
      show "\<exists>s'. run_prog opt2 hs p s = Some (fst res, s') \<and> R (snd res) s'"
      proof (cases p)
        case (Return v)
        then show ?thesis using 1(2) i by auto
      next
        case (Call call k)
        let ?up = "\<lambda>u s. f opt1 hs (hs (u # upcalls s)) (s\<lparr>upcalls := u # upcalls s\<rparr>)"
        obtain v r1 where p1: "perform opt1 ?up call r = Some (v, r1)" "f opt1 hs (k v) r1 = Some res"
          using 1(2) c Call by (auto simp: bind_eq_Some_conv)
        have "\<exists>s'. r_upcall opt2 hs u s = Some (v, s') \<and> R r' s'" if "R r s" "?up u r = Some (v, r')" for u r s v r'
          using 1(1) [OF that(2)] hw sim_trace [OF that(1), of "u # upcalls r"] sim_upcalls [OF that(1)] by (simp add: r_upcall_def handlers_within_def)
        then have up: "up_sim R ?up (r_upcall opt2 hs)" unfolding up_sim_def by blast
        obtain s1 where s1: "perform opt2 (r_upcall opt2 hs) call s = Some (v, s1)" "R r1 s1"
          using perform_sim [OF up i p1(1)] pw Call by auto
        then show ?thesis using 1(1) [OF p1(2)] Call hw pw by (simp add: run_prog_Call)
      qed
    qed
  qed
  then show "R r s \<Longrightarrow> \<exists>s'. run_prog opt2 hs p s = Some (fst res, s') \<and> R (snd res) s'" using w by simp
qed

lemma opposite: "opt_sim opt2 opt1 (\<lambda>s r. R r s) okh"
proof -
  have flip: "rel_prod (=) (\<lambda>s r. R r s) y x" if "rel_prod (=) R x y" for x y using that by (cases x; cases y) simp
  show ?thesis
    by unfold_locales (auto intro!: flip sim_register sim_remove_mask sim_suspend sim_resume
      simp: sim_bound sim_upcalls sim_trace simp del: neq0_conv dest: sim_bound)
qed

lemma run_prog_rel:
  assumes "R r s" "handlers_within okh hs" "within okh p"
  shows "rel_option (rel_prod (=) R) (run_prog opt1 hs p r) (run_prog opt2 hs p s)"
proof (cases "run_prog opt1 hs p r")
  case (Some x)
  then show ?thesis using run_prog_sim [OF Some assms(2,3,1)] by (cases x) auto
next
  case None
  then show ?thesis using opt_sim.run_prog_sim [OF opposite _ assms(2,3), of s _ r] assms(1) by (cases "run_prog opt2 hs p s") auto
qed

end

definition kind_event :: "sel_kind \<Rightarrow> mask" where
  "kind_event c = (case c of RD \<Rightarrow> EPOLLIN | WR \<Rightarrow> EPOLLOUT | EXC \<Rightarrow> EPOLLPRI)"

lemma bit_enabled_or: "bit_enabled (set_bits_of w v) b \<longleftrightarrow> bit_enabled w b \<or> bit_enabled v b"
  by (simp add: bit_enabled_def set_bits_of_def bit.conj_disj_distrib2 or_eq_0_iff)

lemma event_wants: "bit_enabled (reactor_mask_to_epoll_event m) (kind_event c) \<longleftrightarrow> wants c m"
proof -
  have i: "bit_enabled (if b then set_bits_of w v else w) e \<longleftrightarrow> b \<and> bit_enabled v e \<or> bit_enabled w e" for b w v e
    by (auto simp: bit_enabled_or)
  have z: "bit_enabled (if b then set_bits_of 0 v else 0) e \<longleftrightarrow> b \<and> bit_enabled v e" for b v e
    using i [of b 0 v e] by (simp add: bit_enabled_def)
  have v: "\<not> bit_enabled 0 e" "bit_enabled EPOLLIN EPOLLIN" "bit_enabled EPOLLOUT EPOLLOUT" "bit_enabled EPOLLPRI EPOLLPRI" "\<not> bit_enabled EPOLLIN EPOLLOUT"
    "\<not> bit_enabled EPOLLIN EPOLLPRI" "\<not> bit_enabled EPOLLOUT EPOLLIN" "\<not> bit_enabled EPOLLOUT EPOLLPRI" "\<not> bit_enabled EPOLLPRI EPOLLIN"
    "\<not> bit_enabled EPOLLPRI EPOLLOUT" "\<not> bit_enabled EPOLLET EPOLLIN" "\<not> bit_enabled EPOLLET EPOLLOUT" "\<not> bit_enabled EPOLLET EPOLLPRI"
    "bit_enabled (EPOLLIN OR EPOLLOUT) EPOLLIN" "bit_enabled (EPOLLIN OR EPOLLOUT) EPOLLOUT" "\<not> bit_enabled (EPOLLIN OR EPOLLOUT) EPOLLPRI" for e
    by (simp_all add: bit_enabled_def epoll_defs)
  show ?thesis unfolding reactor_mask_to_epoll_event_def Let_def
    by (cases c) (auto simp: i z v kind_event_def wants_def)
qed

text \<open>The same registrations, and the same polled for them. A handle in \<open>okh\<close> is in the range of both or of neither.\<close>

definition same_polling :: "(int \<Rightarrow> bool) \<Rightarrow> ('k \<Rightarrow> int \<Rightarrow> mask option) \<Rightarrow> 'k reactor \<Rightarrow> 'o select_base reactor \<Rightarrow> bool" where
  "same_polling okh interest r s \<longleftrightarrow> sync interest r \<and> sel_sync s \<and> upcalls s = upcalls r
     \<and> (\<forall>h. slot h (handler_rep s) = slot h (handler_rep r) \<and> (okh h \<longrightarrow> handle_in_range h (handler_rep s) = handle_in_range h (handler_rep r)))
     \<and> (\<forall>h c. h \<in> polled (kern s) c \<longleftrightarrow> (\<exists>ev. interest (kern r) h = Some ev \<and> bit_enabled ev (kind_event c)))"

lemma same_polling_slot: "same_polling okh interest r s \<Longrightarrow> slot h (handler_rep s) = slot h (handler_rep r)"
  by (simp add: same_polling_def)

lemma same_polling_update:
  assumes "same_polling okh interest r s" "slot_update interest h t i r r'" "sel_update h t P s s'" "sync interest r'" "sel_sync s'"
    "upcalls r' = upcalls r" "\<And>c. P c \<longleftrightarrow> (\<exists>ev. i = Some ev \<and> bit_enabled ev (kind_event c))"
  shows "same_polling okh interest r' s'"
proof -
  have "h' \<in> polled (kern s') c \<longleftrightarrow> (\<exists>ev. interest (kern r') h' = Some ev \<and> bit_enabled ev (kind_event c))" for h' c
    using assms(1-3,7) by (cases "h' = h") (auto simp: same_polling_def slot_update_def sel_update_def)
  then show ?thesis using assms(1-6) by (simp add: same_polling_def slot_update_def sel_update_def slot_becomes_def)
qed

lemma epoll_upcalls:
  "upcalls (snd (register_handler_i (handle_opt_i ctl) h eh m r)) = upcalls r" "upcalls (snd (remove_mask (handle_opt_i ctl) h m r)) = upcalls r"
  "upcalls (snd (suspend_handler_i (handle_opt_i ctl) h r)) = upcalls r" "upcalls (snd (resume_handler_i (handle_opt_i ctl) h r)) = upcalls r"
  by (simp_all add: register_handler_i_def remove_mask_def suspend_handler_i_def resume_handler_i_def Let_def case_prod_beta' handle_opt_frame with_rep_def)

lemma same_polling_ops:
  assumes e: "epoll_laws ctl interest" "epoll_healthy ctl" and R: "same_polling okh interest r s"
  shows "eh \<noteq> null \<Longrightarrow> m \<noteq> 0 \<Longrightarrow> okh h \<Longrightarrow>
      rel_prod (=) (same_polling okh interest) (register_handler_i (handle_opt_i ctl) h eh m r) (register_handler_i sel_handle_opt_i h eh m s)"
    "bound h r \<noteq> null \<Longrightarrow>
      rel_prod (=) (same_polling okh interest) (remove_mask (handle_opt_i ctl) h m r) (remove_mask sel_handle_opt_i h m s)"
    "rel_prod (=) (same_polling okh interest) (suspend_handler_i (handle_opt_i ctl) h r) (suspend_handler_i sel_handle_opt_i h s)"
    "rel_prod (=) (same_polling okh interest) (resume_handler_i (handle_opt_i ctl) h r) (resume_handler_i sel_handle_opt_i h s)"
proof -
  have y: "sync interest r" and z: "sel_sync s" and rng: "okh h \<Longrightarrow> handle_in_range h (handler_rep s) = handle_in_range h (handler_rep r)"
    using R by (simp_all add: same_polling_def)
  note sl = same_polling_slot [OF R, of h] and u = same_polling_update [OF R] and so = sync_ops [OF e y] and zo = sel_sync_ops [OF z]
  have bd: "bound h s = bound h r" by (simp add: rep_slot sl)
  show "rel_prod (=) (same_polling okh interest) (register_handler_i (handle_opt_i ctl) h eh m r) (register_handler_i sel_handle_opt_i h eh m s)"
    if "eh \<noteq> null" "m \<noteq> 0" "okh h"
    using register_effect [OF e y that(1) surjective_pairing, of h m] sel_register_effect [OF z that(1) surjective_pairing, of h m]
      so(1) [OF that(1,2), of h] zo(1) [OF that(1,2), of h] epoll_upcalls(1) [of ctl h eh m r] R
    by (auto simp: rel_prod_sel bd rng [OF that(3)] sl Let_def event_wants split: if_splits elim!: u)
  show "rel_prod (=) (same_polling okh interest) (remove_mask (handle_opt_i ctl) h m r) (remove_mask sel_handle_opt_i h m s)" if "bound h r \<noteq> null"
    using remove_mask_effect [OF e y that surjective_pairing, of m] sel_remove_mask_effect [OF z _ surjective_pairing, of h m]
      so(2) [OF that, of m] zo(2) [of h m] epoll_upcalls(2) [of ctl h m r] that
    by (auto simp: rel_prod_sel bd sl Let_def event_wants split: if_splits elim!: u)
  show "rel_prod (=) (same_polling okh interest) (suspend_handler_i (handle_opt_i ctl) h r) (suspend_handler_i sel_handle_opt_i h s)"
    using suspend_effect [OF e y surjective_pairing, of h] sel_suspend_effect [OF z surjective_pairing, of h]
      so(3) [of h] zo(3) [of h] epoll_upcalls(3) [of ctl h r] R
    by (auto simp: rel_prod_sel bd sl rep_slot Let_def split: if_splits elim!: u)
  show "rel_prod (=) (same_polling okh interest) (resume_handler_i (handle_opt_i ctl) h r) (resume_handler_i sel_handle_opt_i h s)"
    using resume_effect [OF e y surjective_pairing, of h] sel_resume_effect [OF z surjective_pairing, of h]
      so(4) [of h] zo(4) [of h] epoll_upcalls(4) [of ctl h r] R
    by (auto simp: rel_prod_sel bd sl rep_slot Let_def event_wants split: if_splits elim!: u)
qed

lemma same_polling_simple:
  assumes "same_polling okh interest r s"
  shows "bound h s = bound h r" "upcalls s = upcalls r" "same_polling okh interest (r\<lparr>upcalls := us\<rparr>) (s\<lparr>upcalls := us\<rparr>)"
  using assms by (simp_all add: same_polling_def rep_slot)

lemma rel_prod_conj: "A \<Longrightarrow> B \<Longrightarrow> rel_prod (=) S x y \<Longrightarrow> rel_prod (=) (\<lambda>r s. A \<and> B \<and> S r s) x y"
  by (cases x; cases y) simp

interpretation es: opt_sim "handle_opt_i ctl" sel_handle_opt_i "\<lambda>r s. epoll_laws ctl interest \<and> epoll_healthy ctl \<and> same_polling okh interest r s" okh
    for ctl interest okh
  by unfold_locales
    (auto intro!: rel_prod_conj same_polling_ops simp: null_mask_def simp del: neq0_conv dest: same_polling_simple)

section \<open>Opening\<close>

lemma link_nodes_sel [simp]:
  "handle_list (link_nodes ns k) = handle_list k" "fd_sets (link_nodes ns k) = fd_sets k" "sel_os (link_nodes ns k) = sel_os k"
  by (induction ns) auto

lemma link_nodes_chain:
  "distinct ns \<Longrightarrow> null \<notin> set ns \<Longrightarrow> chain (next_of (link_nodes ns k)) (if ns = [] then null else hd ns) ns null"
  by (induction ns) auto

definition sel_opened :: "addr list \<Rightarrow> 'o \<Rightarrow> 'o select_base" where
  "sel_opened ns os = (link_nodes ns (select_base_new os))\<lparr>sel_free_node := (if ns = [] then null else hd ns), sh_nodes := length ns\<rparr>"

lemma sel_opened_ok:
  assumes "distinct ns" "null \<notin> set ns" "int (length ns) = 3 * n" "0 \<le> n"
  shows "sel_inv n (sel_opened ns os)" "polled (sel_opened ns os) c = {}"
proof -
  let ?k = "sel_opened ns os"
  have k: "next_of ?k = next_of (link_nodes ns (select_base_new os))" "handle_list ?k = (\<lambda>_. null)" "sh_nodes ?k = length ns"
    "sel_free_node ?k = (if ns = [] then null else hd ns)"
    by (auto simp: sel_opened_def next_of_def [abs_def] select_base_new_def)
  have ok: "lists_ok ?k (\<lambda>_. []) ns" using link_nodes_chain [OF assms(1,2), of "select_base_new os"] by (simp add: lists_part_def k)
  then show p: "polled ?k c = {}" for c by (simp add: polled_list)
  then show "sel_inv n ?k" using ok assms(3) k(3) unfolding sel_inv_def by fastforce
qed

lemma same_polling_initialized: "same_polling okh interest (r\<lparr>initialized := b\<rparr>) (s\<lparr>initialized := b'\<rparr>) \<longleftrightarrow> same_polling okh interest r s"
  by (simp add: same_polling_def sync_def sel_sync_def)

text \<open>Opening registers the notifier in a reactor without registrations.\<close>

definition sel_fresh :: "addr list \<Rightarrow> addr \<Rightarrow> addr \<Rightarrow> int \<Rightarrow> addr \<Rightarrow> 'o \<Rightarrow> timer_queue \<Rightarrow> 'o select_base reactor" where
  "sel_fresh ns nh ntq n tq os q = (reactor_new (select_base_new os) q)\<lparr>kern := sel_opened ns os, timer_queue_p := if tq = null then ntq else tq,
     r_size := n, notify_handler := nh, handler_rep := \<lparr>rep_max_size = n, rep_handlers = replicate (nat n) tuple_new\<rparr>,
     delete_timer_queue := if tq = null then 1 else 0\<rparr>"

lemma sel_open_shape:
  assumes "sel_open_i ns nh ntq pipe n tq (reactor_new (select_base_new os) q) = (0, s)"
  obtains fd where "pipe = Some fd" "0 < n" "fst (register_handler_i sel_handle_opt_i fd nh read_mask (sel_fresh ns nh ntq n tq os q)) \<noteq> -1"
    "s = (snd (register_handler_i sel_handle_opt_i fd nh read_mask (sel_fresh ns nh ntq n tq os q)))\<lparr>initialized := True\<rparr>"
  using assms
  by (auto simp: sel_open_i_def open_ii_def Let_def rep_open_def reactor_new_def rep_new_def sel_opened_def sel_fresh_def split: if_splits option.splits prod.splits)

lemma fresh_slot: "slot h \<lparr>rep_max_size = n, rep_handlers = replicate (nat n) tuple_new\<rparr> = tuple_new"
  by (simp add: slot_def handle_in_range_def nat_less_iff)

lemma tuple_new_sel [simp]: "rt_event_handler tuple_new = null" "rt_mask tuple_new = 0" "\<not> rt_suspended tuple_new"
  by (simp_all add: tuple_new_def)

lemma sel_fresh_sync:
  assumes "distinct ns" "null \<notin> set ns" "int (length ns) = 3 * n" "0 < n"
  shows "sel_sync (sel_fresh ns nh ntq n tq os q)"
  using sel_opened_ok [OF assms(1-3), of os] assms(4)
  by (simp add: sel_sync_def rep_ok_def sel_slot_def fresh_slot sel_fresh_def)

text \<open>A handle in the range of both tables or of neither.\<close>

definition same_range :: "int \<Rightarrow> int \<Rightarrow> int \<Rightarrow> bool" where
  "same_range n n' h \<longleftrightarrow> (0 \<le> h \<and> h < n \<longleftrightarrow> 0 \<le> h \<and> h < n')"

text \<open>The same arguments open both reactors into related states.\<close>

lemma open_same_polling:
  assumes "epoll_laws ctl interest" "epoll_healthy ctl" "interest k = Map.empty" "nh \<noteq> null"
    "open_i ctl n arr create k nh ntq pipe tq (reactor_new k0 q) = (0, r)"
    "sel_open_i ns nh ntq pipe n' tq (reactor_new (select_base_new os) q') = (0, s)"
    "distinct ns" "null \<notin> set ns" "int (length ns) = 3 * n'"
  shows "same_polling (same_range n n') interest r s"
proof -
  let ?p = "\<lparr>rep_max_size = n, rep_handlers = replicate (nat n) tuple_new\<rparr>"
  let ?t = "if tq = null then ntq else tq" and ?d = "if tq = null then 1 else 0"
  let ?r = "(reactor_new k0 q)\<lparr>r_events := arr, epoll_fd := create, kern := k, timer_queue_p := ?t, r_size := n,
      notify_handler := nh, handler_rep := ?p, delete_timer_queue := ?d\<rparr>"
  let ?s = "sel_fresh ns nh ntq n' tq os q'"
  have n: "0 < n" using assms(5) by (auto simp: open_i_def split: if_splits)
  obtain fd r1 where r1: "pipe = Some fd" "fst (register_handler_i (handle_opt_i ctl) fd nh read_mask ?r) \<noteq> -1"
    "r = (snd (register_handler_i (handle_opt_i ctl) fd nh read_mask ?r))\<lparr>initialized := True\<rparr>"
    using assms(5) by (auto simp: open_i_def open_ii_def Let_def rep_open_def reactor_new_def rep_new_def split: if_splits option.splits prod.splits)
  have s1: "0 < n'" "s = (snd (register_handler_i sel_handle_opt_i fd nh read_mask ?s))\<lparr>initialized := True\<rparr>"
    "fst (register_handler_i sel_handle_opt_i fd nh read_mask ?s) \<noteq> -1"
    by (rule sel_open_shape [OF assms(6)]; simp add: r1(1))+
  have y: "sync interest ?r" using assms(3) n by (simp add: sync_def rep_ok_def slot_sync_def reactor_new_def fresh_slot)
  have z: "sel_sync ?s" by (rule sel_fresh_sync [OF assms(7-9) s1(1)])
  have "same_polling (same_range n n') interest ?r ?s"
    using assms(3) y z sel_opened_ok(2) [OF assms(7-9), of os] s1(1)
    by (simp add: same_polling_def reactor_new_def fresh_slot sel_fresh_def same_range_def handle_in_range_def)
  moreover have "same_range n n' fd"
    using register_effect [OF assms(1,2) y assms(4) surjective_pairing, of fd read_mask] r1(2)
      sel_register_effect [OF z assms(4) surjective_pairing, of fd read_mask] s1(3)
    by (auto simp: same_range_def handle_in_range_def sel_fresh_def split: if_splits)
  ultimately have "same_polling (same_range n n') interest (snd (register_handler_i (handle_opt_i ctl) fd nh read_mask ?r)) (snd (register_handler_i sel_handle_opt_i fd nh read_mask ?s))"
    using same_polling_ops(1) [OF assms(1,2) _ assms(4), of "same_range n n'" ?r ?s read_mask fd] by (simp add: rel_prod_sel read_mask_def)
  then show ?thesis unfolding r1(3) s1(2) by (simp only: same_polling_initialized)
qed

section \<open>Waiting for the handles of the lists\<close>

lemma fill_loop_ok:
  "chain (next_of k) p xs null \<Longrightarrow> length xs \<le> n \<Longrightarrow> invalid_handle \<notin> handle_of k ` set xs
    \<Longrightarrow> fill_loop n k p (s, result) = (handle_of k ` set xs \<union> s, fold max (map (handle_of k) xs) result)"
proof (induction xs arbitrary: p n s result)
  case Nil
  then show ?case by (cases n) auto
next
  case (Cons a xs)
  then obtain n' where n: "n = Suc n'" by (cases n) auto
  have "(if handle_of k a > result then handle_of k a else result) = max (handle_of k a) result" by auto
  then show ?case using Cons n by (simp add: Let_def)
qed

lemma fold_max_bound: "fold max xs (r :: int) < n \<longleftrightarrow> r < n \<and> (\<forall>x \<in> set xs. x < n)"
  by (induction xs arbitrary: r) auto

lemma all_kinds: "(\<forall>c. Q c) \<longleftrightarrow> Q RD \<and> Q WR \<and> Q EXC"
  by (metis sel_kind.exhaust)

lemma fill_set_ok:
  assumes "lists_ok k L F"
  shows "fill_set k c result = (polled k c, fold max (map (handle_of k) (L c)) result)"
proof -
  note l = lists_partD [OF assms]
  show ?thesis using fill_loop_ok [OF l(1) lists_part_length [OF assms] l(7), of c "{}" result] l(1) [of c]
    by (auto simp: fill_set_def polled_list [OF assms])
qed

lemma reset_fd_set_ok:
  assumes "lists_ok k L F" "\<forall>c. fd_sets k c \<noteq> None"
  obtains top where "reset_fd_set k = Inr (top, \<lambda>c. if polled k c = {} then None else Some (polled k c), k\<lparr>fd_sets := \<lambda>c. Some (polled k c)\<rparr>)"
    "\<And>n. top \<le> n \<longleftrightarrow> 0 \<le> n \<and> (\<forall>c. \<forall>h \<in> polled k c. h < n)"
proof -
  let ?top = "fold max (map (handle_of k) (L EXC)) (fold max (map (handle_of k) (L WR)) (fold max (map (handle_of k) (L RD)) (-1))) + 1"
  have "(case c of RD \<Rightarrow> polled k RD | WR \<Rightarrow> polled k WR | EXC \<Rightarrow> polled k EXC) = polled k c" for c by (cases c) simp_all
  moreover have "handle_list k c = null \<longleftrightarrow> polled k c = {}" for c
    using lists_partD(1) [OF assms(1), of c] by (cases "L c") (auto simp: polled_list [OF assms(1)])
  ultimately have "reset_fd_set k = Inr (?top, \<lambda>c. if polled k c = {} then None else Some (polled k c), k\<lparr>fd_sets := \<lambda>c. Some (polled k c)\<rparr>)"
    using assms(2) by (simp add: reset_fd_set_def fill_set_ok [OF assms(1)] cong: if_cong)
  moreover have "?top \<le> n \<longleftrightarrow> 0 \<le> n \<and> (\<forall>c. \<forall>h \<in> polled k c. h < n)" for n
  proof -
    have "(\<forall>c. \<forall>h \<in> polled k c. h < n) \<longleftrightarrow> (\<forall>h \<in> polled k RD. h < n) \<and> (\<forall>h \<in> polled k WR. h < n) \<and> (\<forall>h \<in> polled k EXC. h < n)"
      by (rule all_kinds)
    moreover have "?top \<le> n \<longleftrightarrow> fold max (map (handle_of k) (L EXC)) (fold max (map (handle_of k) (L WR)) (fold max (map (handle_of k) (L RD)) (-1))) < n"
      by linarith
    ultimately show ?thesis by (simp only: fold_max_bound polled_list [OF assms(1)] set_map) auto
  qed
  ultimately show ?thesis using that by blast
qed

text \<open>The documented effect of \<^verbatim>\<open>select\<close>: the sets it leaves are parts of those it was given.\<close>

definition select_law :: "'o select_call \<Rightarrow> bool" where
  "select_law sel \<longleftrightarrow> (\<forall>n ptrs timeout os c. case fst (sel n ptrs timeout os) of
     Inl _ \<Rightarrow> True | Inr (m, ready) \<Rightarrow> (case ptrs c of None \<Rightarrow> True | Some hs \<Rightarrow> ready c \<subseteq> hs))"

lemma select_lawD:
  assumes "select_law sel" "sel n ptrs timeout os = (Inr (m, ready), os')" "ptrs c = Some hs"
  shows "ready c \<subseteq> hs"
proof -
  have "case fst (sel n ptrs timeout os) of Inl _ \<Rightarrow> True | Inr (m, ready) \<Rightarrow> (case ptrs c of None \<Rightarrow> True | Some hs \<Rightarrow> ready c \<subseteq> hs)"
    using assms(1) unfolding select_law_def by (elim allE)
  then show ?thesis using assms(2,3) by simp
qed

lemma sel_inv_sets [simp]: "lists_part n (k\<lparr>fd_sets := f\<rparr>) L F = lists_part n k L F" "lists_part n (k\<lparr>sel_os := os\<rparr>) L F = lists_part n k L F"
  "polled (k\<lparr>fd_sets := f\<rparr>) = polled k" "polled (k\<lparr>sel_os := os\<rparr>) = polled k"
  "sel_inv m (k\<lparr>fd_sets := f\<rparr>) = sel_inv m k" "sel_inv m (k\<lparr>sel_os := os\<rparr>) = sel_inv m k"
proof -
  have n: "next_of (k\<lparr>fd_sets := f\<rparr>) = next_of k" "handle_of (k\<lparr>fd_sets := f\<rparr>) = handle_of k"
    "next_of (k\<lparr>sel_os := os\<rparr>) = next_of k" "handle_of (k\<lparr>sel_os := os\<rparr>) = handle_of k"
    by (auto simp: next_of_def [abs_def] handle_of_def [abs_def])
  then show l: "lists_part n (k\<lparr>fd_sets := f\<rparr>) L F = lists_part n k L F" "lists_part n (k\<lparr>sel_os := os\<rparr>) L F = lists_part n k L F" for n L F
    by (simp_all add: lists_part_def)
  show p: "polled (k\<lparr>fd_sets := f\<rparr>) = polled k" "polled (k\<lparr>sel_os := os\<rparr>) = polled k" by (simp_all add: polled_def fun_eq_iff n)
  show "sel_inv m (k\<lparr>fd_sets := f\<rparr>) = sel_inv m k" "sel_inv m (k\<lparr>sel_os := os\<rparr>) = sel_inv m k" by (simp_all add: sel_inv_def l p)
qed

text \<open>What a poll leaves: the same lists, and the sets of the ready handles.\<close>

definition polled_into :: "'o select_base reactor \<Rightarrow> 'o select_base reactor \<Rightarrow> bool" where
  "polled_into r r' \<longleftrightarrow> (\<exists>ready os e. r' = r\<lparr>kern := (kern r)\<lparr>fd_sets := \<lambda>c. Some (ready c), sel_os := os\<rparr>, r_errno := e\<rparr>
     \<and> (\<forall>c. ready c \<subseteq> polled (kern r) c))"

lemma sel_poll_ok:
  assumes "sel_sync r" "select_law sel" "\<forall>c. fd_sets (kern r) c \<noteq> None"
  shows "polled_into r (snd (sel_poll_events sel timeout r))"
proof -
  obtain L F where ok: "lists_ok (kern r) L F" using assms(1) unfolding sel_sync_def sel_inv_def by blast
  let ?ptrs = "\<lambda>c. if polled (kern r) c = {} then None else Some (polled (kern r) c)"
  obtain top where t: "reset_fd_set (kern r) = Inr (top, ?ptrs, (kern r)\<lparr>fd_sets := \<lambda>c. Some (polled (kern r) c)\<rparr>)"
    by (rule reset_fd_set_ok [OF ok assms(3)])
  obtain res os where s: "sel top ?ptrs timeout (sel_os (kern r)) = (res, os)" by fastforce
  show ?thesis
  proof (cases res)
    case (Inl e)
    then show ?thesis using t s by (auto simp: sel_poll_events_def polled_into_def)
  next
    case (Inr x)
    obtain m ready where x: "x = (m, ready)" by fastforce
    have rd: "ready c \<subseteq> polled (kern r) c" if "polled (kern r) c \<noteq> {}" for c
      using select_lawD [OF assms(2), of top ?ptrs timeout "sel_os (kern r)" m ready os c] s Inr x that by simp
    let ?ready = "\<lambda>c. if polled (kern r) c = {} then {} else ready c"
    have "snd (sel_poll_events sel timeout r) = r\<lparr>kern := (kern r)\<lparr>fd_sets := \<lambda>c. Some (?ready c), sel_os := os\<rparr>, r_errno := r_errno r\<rparr>"
      using t s Inr x by (simp add: sel_poll_events_def if_distrib fun_eq_iff cong: if_cong)
    then show ?thesis unfolding polled_into_def using rd by (intro exI [of _ ?ready] exI [of _ os] exI [of _ "r_errno r"]) auto
  qed
qed

section \<open>Dispatching\<close>

lemma sel_ops_frame:
  assumes "sel_sync r"
  shows "eh \<noteq> null \<Longrightarrow> sel_frame (kern (snd (register_handler_i sel_handle_opt_i h eh m r))) = sel_frame (kern r)"
    "bound h r \<noteq> null \<Longrightarrow> sel_frame (kern (snd (remove_mask sel_handle_opt_i h m r))) = sel_frame (kern r)"
    "sel_frame (kern (snd (suspend_handler_i sel_handle_opt_i h r))) = sel_frame (kern r)"
    "sel_frame (kern (snd (resume_handler_i sel_handle_opt_i h r))) = sel_frame (kern r)"
proof -
  show "sel_frame (kern (snd (register_handler_i sel_handle_opt_i h eh m r))) = sel_frame (kern r)" if "eh \<noteq> null"
    using sel_register_effect [OF assms that surjective_pairing, of h m] by (auto simp: Let_def sel_update_def split: if_splits)
  show "sel_frame (kern (snd (remove_mask sel_handle_opt_i h m r))) = sel_frame (kern r)" if "bound h r \<noteq> null"
    using sel_remove_mask_effect [OF assms that surjective_pairing, of m] by (auto simp: Let_def sel_update_def)
  show "sel_frame (kern (snd (suspend_handler_i sel_handle_opt_i h r))) = sel_frame (kern r)"
    using sel_suspend_effect [OF assms surjective_pairing, of h] by (auto simp: sel_update_def split: if_splits)
  show "sel_frame (kern (snd (resume_handler_i sel_handle_opt_i h r))) = sel_frame (kern r)"
    using sel_resume_effect [OF assms surjective_pairing, of h] by (auto simp: sel_update_def split: if_splits)
qed

text \<open>The lists agree with the registrations, the sets exist, and the only fault there may be is the failed
  assertion of a dispatch.\<close>

definition sel_ok :: "'o select_base reactor \<Rightarrow> bool" where
  "sel_ok r \<longleftrightarrow> sel_sync r \<and> (\<forall>c. fd_sets (kern r) c \<noteq> None) \<and> r_fault r \<in> {None, Some AssertFailed}"

lemma sel_ok_frame: "sel_ok r \<Longrightarrow> sel_sync r' \<Longrightarrow> r_frame r' = r_frame r \<Longrightarrow> sel_frame (kern r') = sel_frame (kern r) \<Longrightarrow> sel_ok r'"
  by (simp add: sel_ok_def r_frame_def sel_frame_def)

lemma sel_ok_ops:
  assumes "sel_ok r"
  shows "eh \<noteq> null \<Longrightarrow> m \<noteq> 0 \<Longrightarrow> sel_ok (snd (register_handler_i sel_handle_opt_i h eh m r))"
    "bound h r \<noteq> null \<Longrightarrow> sel_ok (snd (remove_mask sel_handle_opt_i h m r))"
    "sel_ok (snd (suspend_handler_i sel_handle_opt_i h r))" "sel_ok (snd (resume_handler_i sel_handle_opt_i h r))"
proof -
  have z: "sel_sync r" using assms by (simp add: sel_ok_def)
  note f = sel_ok_frame [OF assms]
  show "sel_ok (snd (register_handler_i sel_handle_opt_i h eh m r))" if "eh \<noteq> null" "m \<noteq> 0"
    by (rule f [OF sel_sync_ops(1) [OF z that] sel_frame_ops(1) [OF z that(1)] sel_ops_frame(1) [OF z that(1)]])
  show "sel_ok (snd (remove_mask sel_handle_opt_i h m r))" if "bound h r \<noteq> null"
    by (rule f [OF sel_sync_ops(2) [OF z that] sel_frame_ops(2) [OF z that] sel_ops_frame(2) [OF z that]])
  show "sel_ok (snd (suspend_handler_i sel_handle_opt_i h r))"
    by (rule f [OF sel_sync_ops(3) [OF z] sel_frame_ops(3) [OF z] sel_ops_frame(3) [OF z]])
  show "sel_ok (snd (resume_handler_i sel_handle_opt_i h r))"
    by (rule f [OF sel_sync_ops(4) [OF z] sel_frame_ops(4) [OF z] sel_ops_frame(4) [OF z]])
qed

interpretation so: prog_inv sel_handle_opt_i sel_ok
  by unfold_locales (auto simp: sel_ok_ops null_mask_def, simp add: sel_ok_def)

lemma sel_dispatch_list_ok:
  assumes y: "sel_dispatch_list hs c itor r = Some r'"
  shows "sel_ok r \<longrightarrow> sel_ok r'"
proof (rule sel_dispatch_list.raw_induct [where P = "\<lambda>hs c itor r r'. sel_ok r \<longrightarrow> sel_ok r'", OF _ y], goal_cases)
  case (1 f hs c itor r r')
  note IH = 1(1) and eq = 1(2)
  let ?h = "handle_of (kern r) itor"
  show ?case
  proof
    assume i: "sel_ok r"
    then have fd: "fd_sets (kern r) c \<noteq> None" by (simp add: sel_ok_def)
    consider "itor = null \<or> r_fault r \<noteq> None" | "itor \<noteq> null" "r_fault r = None" "?h = invalid_handle"
      | "itor \<noteq> null" "r_fault r = None" "?h \<noteq> invalid_handle" "\<not> (?h \<in> the (fd_sets (kern r) c) \<and> bound ?h r \<noteq> null)"
      | "itor \<noteq> null" "r_fault r = None" "?h \<noteq> invalid_handle" "?h \<in> the (fd_sets (kern r) c)" "bound ?h r \<noteq> null" by blast
    then show "sel_ok r'"
    proof cases
      case 1
      then show ?thesis using i eq by auto
    next
      case 2
      then show ?thesis using i eq by (auto simp: sel_ok_def)
    next
      case 3
      then have "f hs c (next_of (kern r) itor) r = Some r'" using eq fd by (auto simp: Let_def split: if_splits)
      then show ?thesis using IH i by blast
    next
      case 4
      then obtain v r1 r2 where u: "r_upcall sel_handle_opt_i hs (kind_upcall c (bound ?h r) ?h) r = Some (v, r1)"
        "(if v < 0 then map_option snd (remove_handler_i sel_handle_opt_i (r_upcall sel_handle_opt_i hs) ?h (kind_mask c) r1) else Some r1) = Some r2"
        "f hs c (next_of (kern r) itor) r2 = Some r'"
        using eq fd by (auto simp: Let_def bind_eq_Some_conv)
      have "sel_ok r2" using u(2) so.upcall_inv [OF i u(1)] so.remove_upcall_inv by (fastforce split: if_splits)
      then show ?thesis using IH u(3) by blast
    qed
  qed
qed

lemma sel_dispatch_io_ok: "sel_ok r \<Longrightarrow> sel_dispatch_io_events hs r = Some (v, r') \<Longrightarrow> sel_ok r'"
  by (auto simp: sel_dispatch_io_events_def bind_eq_Some_conv dest!: sel_dispatch_list_ok split: if_splits)

lemma sel_poll_keeps: "sel_ok r \<Longrightarrow> select_law sel \<Longrightarrow> sel_ok (snd (sel_poll_events sel timeout r))"
  using sel_poll_ok [of r sel timeout] by (auto simp: sel_ok_def polled_into_def sel_sync_def)

text \<open>The upcalls of one list when the callbacks only return: the ready handles in the order of the list.\<close>

definition list_upcalls :: "'o select_base reactor \<Rightarrow> sel_kind \<Rightarrow> addr list \<Rightarrow> upcall list" where
  "list_upcalls r c xs = map (\<lambda>a. kind_upcall c (bound (handle_of (kern r) a) r) (handle_of (kern r) a))
     (filter (\<lambda>a. handle_of (kern r) a \<in> the (fd_sets (kern r) c) \<and> bound (handle_of (kern r) a) r \<noteq> null) xs)"

definition content_handlers :: "handlers \<Rightarrow> bool" where
  "content_handlers hs \<longleftrightarrow> (\<forall>us. case hs us of Return v \<Rightarrow> 0 \<le> v | Call _ _ \<Rightarrow> False)"

lemma content_upcall:
  assumes "content_handlers hs"
  obtains v where "0 \<le> v" "r_upcall opt hs u r = Some (v, r\<lparr>upcalls := u # upcalls r\<rparr>)"
proof -
  have "case hs (u # upcalls r) of Return v \<Rightarrow> 0 \<le> v | Call _ _ \<Rightarrow> False" using assms unfolding content_handlers_def by (elim allE)
  then show ?thesis using that by (cases "hs (u # upcalls r)") (auto simp: r_upcall_def)
qed

lemma sel_dispatch_list_content:
  assumes "content_handlers hs"
  shows "chain (next_of (kern r)) itor xs null \<Longrightarrow> r_fault r = None \<Longrightarrow> fd_sets (kern r) c \<noteq> None
    \<Longrightarrow> invalid_handle \<notin> handle_of (kern r) ` set xs
    \<Longrightarrow> sel_dispatch_list hs c itor r = Some (r\<lparr>upcalls := rev (list_upcalls r c xs) @ upcalls r\<rparr>)"
proof (induction xs arbitrary: itor r)
  case Nil
  then show ?case by (subst sel_dispatch_list.simps) (simp add: list_upcalls_def)
next
  case (Cons a xs)
  let ?h = "handle_of (kern r) a"
  have a: "itor = a" "a \<noteq> null" "chain (next_of (kern r)) (next_of (kern r) a) xs null" "?h \<noteq> invalid_handle"
    using Cons.prems(1,4) by auto
  show ?case
  proof (cases "?h \<in> the (fd_sets (kern r) c) \<and> bound ?h r \<noteq> null")
    case True
    let ?u = "kind_upcall c (bound ?h r) ?h" let ?r1 = "r\<lparr>upcalls := ?u # upcalls r\<rparr>"
    obtain v where v: "0 \<le> v" "r_upcall sel_handle_opt_i hs ?u r = Some (v, ?r1)" by (rule content_upcall [OF assms])
    have "sel_dispatch_list hs c (next_of (kern r) a) ?r1 = Some (?r1\<lparr>upcalls := rev (list_upcalls ?r1 c xs) @ upcalls ?r1\<rparr>)"
      by (rule Cons.IH) (use a(3) Cons.prems(2-4) in auto)
    moreover have "list_upcalls ?r1 c xs = list_upcalls r c xs" "list_upcalls r c (a # xs) = ?u # list_upcalls r c xs"
      using True by (simp_all add: list_upcalls_def)
    ultimately show ?thesis using a(1,2,4) Cons.prems(2,3) True v by (subst sel_dispatch_list.simps) (auto simp: Let_def)
  next
    case False
    have "sel_dispatch_list hs c (next_of (kern r) a) r = Some (r\<lparr>upcalls := rev (list_upcalls r c xs) @ upcalls r\<rparr>)"
      by (rule Cons.IH) (use a(3) Cons.prems(2-4) in auto)
    moreover have "list_upcalls r c (a # xs) = list_upcalls r c xs" using False by (simp add: list_upcalls_def)
    moreover obtain st where st: "fd_sets (kern r) c = Some st" using Cons.prems(3) by auto
    moreover have "\<not> (?h \<in> st \<and> bound ?h r \<noteq> null)" using False st by simp
    ultimately show ?thesis using a(1,2,4) Cons.prems(2) by (subst sel_dispatch_list.simps) (cases "?h \<in> st"; simp add: Let_def del: neq0_conv)
  qed
qed

lemma sel_dispatch_content:
  assumes "content_handlers hs" "sel_sync r" "r_fault r = None" "\<forall>c. fd_sets (kern r) c \<noteq> None" "1 \<le> active_fds r"
    "\<forall>c. the (fd_sets (kern r) c) \<subseteq> polled (kern r) c"
  obtains us where "sel_dispatch_io_events hs r = Some (0, r\<lparr>upcalls := rev (us RD @ us WR @ us EXC) @ upcalls r\<rparr>)"
    "\<And>c. distinct (us c)" "\<And>c. set (us c) = (\<lambda>h. kind_upcall c (bound h r) h) ` the (fd_sets (kern r) c)"
proof -
  obtain L F where ok: "lists_ok (kern r) L F" using assms(2) unfolding sel_sync_def sel_inv_def by blast
  note l = lists_partD [OF ok]
  let ?us = "\<lambda>c. list_upcalls r c (L c)"
  have d: "sel_dispatch_list hs c (handle_list (kern r) c) (r\<lparr>upcalls := vs\<rparr>) = Some (r\<lparr>upcalls := rev (?us c) @ vs\<rparr>)" for c vs
    using sel_dispatch_list_content [OF assms(1), of "r\<lparr>upcalls := vs\<rparr>" "handle_list (kern r) c" "L c" c] l(1,7) [of c] assms(3,4)
    by (simp add: list_upcalls_def)
  have A: "sel_dispatch_io_events hs r = Some (0, r\<lparr>upcalls := rev (?us RD @ ?us WR @ ?us EXC) @ upcalls r\<rparr>)"
    using assms(5) d [of RD "upcalls r"] d [of WR "rev (?us RD) @ upcalls r"] d [of EXC "rev (?us WR) @ rev (?us RD) @ upcalls r"]
    by (simp add: sel_dispatch_io_events_def)
  have S: "set (?us c) = (\<lambda>h. kind_upcall c (bound h r) h) ` the (fd_sets (kern r) c)" for c
  proof -
    have "bound h r \<noteq> null" if "h \<in> polled (kern r) c" for h
      using assms(2) sel_slot_polled [of "slot h (handler_rep r)" "\<lambda>c. h \<in> polled (kern r) c" c] that by (simp add: sel_sync_def rep_slot)
    then have "{h \<in> polled (kern r) c. h \<in> the (fd_sets (kern r) c) \<and> bound h r \<noteq> null} = the (fd_sets (kern r) c)" using assms(6) by blast
    moreover have "set (?us c) = (\<lambda>h. kind_upcall c (bound h r) h) ` {h \<in> polled (kern r) c. h \<in> the (fd_sets (kern r) c) \<and> bound h r \<noteq> null}"
      by (auto simp: list_upcalls_def polled_list [OF ok])
    ultimately show ?thesis by simp
  qed
  have D: "distinct (?us c)" for c
  proof -
    have "inj_on (handle_of (kern r)) (set (L c))" using l(6) [of c] by (simp add: distinct_map)
    then have "inj_on (\<lambda>a. kind_upcall c (bound (handle_of (kern r) a) r) (handle_of (kern r) a)) (set (L c))"
      by (auto simp: inj_on_def kind_upcall_def split: sel_kind.splits)
    then show ?thesis using l(8) [of c] by (auto simp: list_upcalls_def distinct_map intro: inj_on_subset)
  qed
  show ?thesis by (rule that [of ?us, OF A D S])
qed

end
