(* ===== verification/SelectProps.thy ===== *)
theory SelectProps
  imports SelectCorrect
begin

text \<open>
  The properties of the select reactor: its runs, its dispatch, and that its clients cannot tell it from
  \<^verbatim>\<open>epoll_reactor\<close>. (The thread-safe front end of \<^verbatim>\<open>ndk/select_reactor.inl\<close> is not modelled.)
\<close>

section \<open>Runs\<close>

inductive sel_step :: "'o select_call \<Rightarrow> handlers \<Rightarrow> 'o select_base reactor \<Rightarrow> 'o select_base reactor \<Rightarrow> bool" for sel hs where
  ss_register: "register_handler sel_handle_opt_i h eh m r = (v, r') \<Longrightarrow> sel_step sel hs r r'"
| ss_remove: "remove_handler sel_handle_opt_i (r_upcall sel_handle_opt_i hs) h m r = Some (v, r') \<Longrightarrow> sel_step sel hs r r'"
| ss_suspend: "suspend_handler sel_handle_opt_i h r = (v, r') \<Longrightarrow> sel_step sel hs r r'"
| ss_resume: "resume_handler sel_handle_opt_i h r = (v, r') \<Longrightarrow> sel_step sel hs r r'"
| ss_poll: "sel_poll_events sel timeout r = (v, r') \<Longrightarrow> sel_step sel hs r (r'\<lparr>active_fds := v\<rparr>)"
| ss_dispatch: "sel_dispatch_io_events hs r = Some (v, r') \<Longrightarrow> sel_step sel hs r r'"

lemma sel_ok_active [simp]: "sel_ok (r\<lparr>active_fds := n\<rparr>) = sel_ok r"
  by (simp add: sel_ok_def)

lemma sel_step_ok: "sel_step sel hs r r' \<Longrightarrow> select_law sel \<Longrightarrow> sel_ok r \<Longrightarrow> sel_ok r'"
proof (induction rule: sel_step.induct)
  case (ss_register h eh m r v r')
  then show ?case using sel_ok_ops(1) [of r eh m h] by (auto simp: register_handler_def null_mask_def split: if_splits)
next
  case (ss_remove h m r v r')
  then show ?case using so.remove_upcall_inv [of r hs h m v r'] by (auto simp: remove_handler_def split: if_splits)
next
  case (ss_suspend h r v r')
  then show ?case using sel_ok_ops(3) [of r h] by (auto simp: suspend_handler_def split: if_splits)
next
  case (ss_resume h r v r')
  then show ?case using sel_ok_ops(4) [of r h] by (auto simp: resume_handler_def split: if_splits)
next
  case (ss_poll timeout r v r')
  then show ?case using sel_poll_keeps [of r sel timeout] by simp
next
  case (ss_dispatch r v r')
  then show ?case using sel_dispatch_io_ok by blast
qed

lemma sel_open_ok:
  assumes "sel_open_i ns nh ntq pipe n tq (reactor_new (select_base_new os) q) = (0, r)" "nh \<noteq> null"
    "distinct ns" "null \<notin> set ns" "int (length ns) = 3 * n"
  shows "sel_ok r" "r_fault r = None"
proof -
  let ?s = "sel_fresh ns nh ntq n tq os q"
  obtain fd where fd: "0 < n" "r = (snd (register_handler_i sel_handle_opt_i fd nh read_mask ?s))\<lparr>initialized := True\<rparr>"
    by (rule sel_open_shape [OF assms(1)])
  have "sel_sync ?s" by (rule sel_fresh_sync [OF assms(3-5) fd(1)])
  moreover have f: "r_fault ?s = None" "fd_sets (kern ?s) c = Some {}" for c
    by (simp_all add: sel_fresh_def reactor_new_def sel_opened_def select_base_new_def)
  ultimately have "sel_ok ?s" by (simp add: sel_ok_def)
  from sel_ok_ops(1) [OF this assms(2), of read_mask fd] have "sel_ok (snd (register_handler_i sel_handle_opt_i fd nh read_mask ?s))"
    by (simp add: read_mask_def)
  moreover have "r_frame (snd (register_handler_i sel_handle_opt_i fd nh read_mask ?s)) = r_frame ?s"
    by (rule sel_frame_ops(1) [OF \<open>sel_sync ?s\<close> assms(2)])
  ultimately show "sel_ok r" "r_fault r = None" using f(1) unfolding fd(2) by (simp_all add: sel_ok_def sel_sync_def r_frame_def)
qed

section \<open>A reactor to run\<close>

text \<open>Four handles; the notifier (20) reads handle 3. Everything that is asked for is ready.\<close>

definition sel_demo :: "unit select_base reactor" where
  "sel_demo = snd (sel_open_i [40..<52] 20 21 (Some 3) 4 null (reactor_new (select_base_new ()) (tq_new 10 3)))"

definition demo_select :: "unit select_call" where
  "demo_select n ptrs timeout os =
     (Inr (2, \<lambda>c. case ptrs c of None \<Rightarrow> {} | Some hs \<Rightarrow> Set.filter (\<lambda>h. h \<in> {1, 2}) hs), os)"

text \<open>Handlers 30 and 31 read handles 1 and 2, 31 also writes.\<close>

definition sel_demo_reading :: "unit select_base reactor" where
  "sel_demo_reading = snd (register_handler sel_handle_opt_i 2 31 (read_mask OR write_mask)
     (snd (register_handler sel_handle_opt_i 1 30 read_mask sel_demo)))"

declare run_prog.simps [code] sel_dispatch_list.simps [code] fun_upd_def [code del] fun_upd_apply [code]

lemma sel_demo_open: "sel_open_i [40..<52] 20 21 (Some 3) 4 null (reactor_new (select_base_new ()) (tq_new 10 3)) = (0, sel_demo)"
proof -
  have "fst (sel_open_i [40..<52] 20 21 (Some 3) 4 null (reactor_new (select_base_new ()) (tq_new 10 3))) = 0" by code_simp
  then show ?thesis by (simp add: sel_demo_def prod_eq_iff)
qed

lemma demo_select_law: "select_law demo_select"
  by (auto simp: select_law_def demo_select_def split: option.splits)

lemma demo_step: "sel_step sel hs r (snd (register_handler sel_handle_opt_i h eh m r))"
  by (rule ss_register [OF surjective_pairing])

lemma sel_demo_ok: "sel_ok sel_demo" "sel_ok sel_demo_reading"
proof -
  show d: "sel_ok sel_demo" by (rule sel_open_ok [OF sel_demo_open]) simp_all
  show "sel_ok sel_demo_reading" unfolding sel_demo_reading_def
    using sel_step_ok [OF demo_step demo_select_law sel_step_ok [OF demo_step demo_select_law d]] .
qed

section \<open>Properties\<close>

text \<open>C8: From a newly opened select reactor until it is closed, whatever the clients and the callbacks call and
  whatever handles become ready: a handle is in a list only if a handler is registered for it that asks for
  this kind of event; every registered handle that is not marked as suspended is in all the lists it asks for
  (a suspended one is in them too once it is registered again, as with \<open>epoll\<close>: \<open>register_rearms_suspended\<close>);
  and the only fault is the assertion of a dispatch (\<open>dispatch_walks_released\<close>): no null pointer is followed.
  \<^verbatim>\<open>select\<close> leaves only handles in a set that were put there (\<open>select_law\<close>). Opening again after closing is not a
  step (\<open>reopened_select_faults\<close>).\<close>

theorem select_runs_sync:
  assumes "sel_open_i ns nh ntq pipe n tq (reactor_new (select_base_new os) q) = (0, r0)" "nh \<noteq> null"
    "distinct ns" "null \<notin> set ns" "int (length ns) = 3 * n" "select_law sel" "(sel_step sel hs)\<^sup>*\<^sup>* r0 r"
  shows "r_fault r \<in> {None, Some AssertFailed}
    \<and> (\<forall>h c. h \<in> polled (kern r) c \<longrightarrow> bound h r \<noteq> null \<and> wants c (rep_mask h (handler_rep r)))
    \<and> (\<forall>h c. bound h r \<noteq> null \<and> \<not> rep_suspended h (handler_rep r) \<and> wants c (rep_mask h (handler_rep r)) \<longrightarrow> h \<in> polled (kern r) c)"
proof -
  have "sel_ok r" using assms(7)
  proof induction
    case base
    then show ?case by (rule sel_open_ok [OF assms(1-5)])
  next
    case (step r1 r2)
    then show ?case using sel_step_ok [OF step.hyps(2) assms(6)] by blast
  qed
  then have f: "r_fault r \<in> {None, Some AssertFailed}" and s: "sel_slot (slot h (handler_rep r)) (\<lambda>c. h \<in> polled (kern r) c)" for h
    by (simp_all add: sel_ok_def sel_sync_def)
  have "bound h r \<noteq> null \<and> wants c (rep_mask h (handler_rep r))" if "h \<in> polled (kern r) c" for h c
    using sel_slot_polled [OF s, of h c] that by (simp add: rep_slot)
  moreover have "h \<in> polled (kern r) c"
    if "bound h r \<noteq> null" "\<not> rep_suspended h (handler_rep r)" "wants c (rep_mask h (handler_rep r))" for h c
  proof -
    have "(\<lambda>c. h \<in> polled (kern r) c) = (\<lambda>c. wants c (rep_mask h (handler_rep r)))" using s [of h] that(1,2) by (simp add: sel_slot_def rep_slot)
    from fun_cong [OF this, of c] show ?thesis using that(3) by simp
  qed
  ultimately show ?thesis using f by blast
qed

theorem select_runs_sync_witness:
  "2 \<in> polled (kern sel_demo_reading) RD \<and> bound 2 sel_demo_reading = 31 \<and> r_fault sel_demo_reading \<in> {None, Some AssertFailed}"
proof -
  have "(sel_step demo_select (\<lambda>_. Return 0))\<^sup>*\<^sup>* sel_demo (snd (register_handler sel_handle_opt_i 1 30 read_mask sel_demo))"
    using demo_step by (rule r_into_rtranclp)
  then have "(sel_step demo_select (\<lambda>_. Return 0))\<^sup>*\<^sup>* sel_demo sel_demo_reading"
    unfolding sel_demo_reading_def using demo_step by (rule rtranclp.rtrancl_into_rtrancl)
  note t = select_runs_sync [OF sel_demo_open _ _ _ _ demo_select_law this]
  moreover have "bound 2 sel_demo_reading = 31" "\<not> rep_suspended 2 (handler_rep sel_demo_reading)" "wants RD (rep_mask 2 (handler_rep sel_demo_reading))"
    by code_simp+
  ultimately show ?thesis by simp
qed

text \<open>C9: A dispatch of the select reactor after a poll that found something, when the callbacks call nothing and
  return no negative value (\<open>content_handlers\<close>): exactly one upcall for each handle that \<^verbatim>\<open>select\<close> left in a set, to
  the handler registered for it; input before output before exceptions.\<close>

theorem select_dispatch_delivers:
  assumes "sel_ok r" "r_fault r = None" "select_law sel" "content_handlers hs" "sel_poll_events sel timeout r = (n, r1)" "1 \<le> n"
  shows "\<exists>us r2. sel_dispatch_io_events hs (r1\<lparr>active_fds := n\<rparr>) = Some (0, r2) \<and> r_fault r2 = None
    \<and> upcalls r2 = rev (us RD @ us WR @ us EXC) @ upcalls r
    \<and> (\<forall>c. distinct (us c) \<and> set (us c) = (\<lambda>h. kind_upcall c (bound h r) h) ` the (fd_sets (kern r1) c))"
proof -
  have r: "sel_sync r" "\<forall>c. fd_sets (kern r) c \<noteq> None" using assms(1) by (simp_all add: sel_ok_def)
  obtain ready os e where r1: "r1 = r\<lparr>kern := (kern r)\<lparr>fd_sets := \<lambda>c. Some (ready c), sel_os := os\<rparr>, r_errno := e\<rparr>"
    "\<forall>c. ready c \<subseteq> polled (kern r) c"
    using sel_poll_ok [OF r(1) assms(3) r(2), of timeout] assms(5) by (auto simp: polled_into_def)
  let ?r = "r1\<lparr>active_fds := n\<rparr>"
  have same: "handler_rep ?r = handler_rep r" "upcalls ?r = upcalls r" "r_fault ?r = None" "\<forall>c. fd_sets (kern ?r) c \<noteq> None"
    "\<forall>c. the (fd_sets (kern ?r) c) \<subseteq> polled (kern ?r) c" "sel_sync ?r" "fd_sets (kern ?r) = fd_sets (kern r1)"
    using r1(2) assms(2) r(1) by (simp_all add: r1(1) sel_sync_def)
  from sel_dispatch_content [OF assms(4) same(6,3,4) _ same(5)] assms(6) obtain us where
    "sel_dispatch_io_events hs ?r = Some (0, ?r\<lparr>upcalls := rev (us RD @ us WR @ us EXC) @ upcalls ?r\<rparr>)"
    "\<And>c. distinct (us c)" "\<And>c. set (us c) = (\<lambda>h. kind_upcall c (bound h ?r) h) ` the (fd_sets (kern ?r) c)" by auto
  then show ?thesis using same by (intro exI [of _ us] exI [of _ "?r\<lparr>upcalls := rev (us RD @ us WR @ us EXC) @ upcalls ?r\<rparr>"]) simp
qed

theorem select_dispatch_delivers_witness:
  "map_option (\<lambda>(v, r). upcalls r) (sel_dispatch_io_events (\<lambda>_. Return 0)
       ((snd (sel_poll_events demo_select None sel_demo_reading))\<lparr>active_fds := 2\<rparr>)) =
     Some [HandleOutput 31 2, HandleInput 30 1, HandleInput 31 2] \<and>
   (\<exists>us r2. sel_dispatch_io_events (\<lambda>_. Return 0) ((snd (sel_poll_events demo_select None sel_demo_reading))\<lparr>active_fds := 2\<rparr>) = Some (0, r2)
      \<and> set (us WR) = (\<lambda>h. kind_upcall WR (bound h sel_demo_reading) h) ` the (fd_sets (kern (snd (sel_poll_events demo_select None sel_demo_reading))) WR))"
proof -
  have "fst (sel_poll_events demo_select None sel_demo_reading) = 2" "r_fault sel_demo_reading = None" by code_simp+
  then have p: "sel_poll_events demo_select None sel_demo_reading = (2, snd (sel_poll_events demo_select None sel_demo_reading))"
    by (simp add: prod_eq_iff)
  have c: "content_handlers (\<lambda>_. Return 0)" by (simp add: content_handlers_def)
  have "\<exists>us r2. sel_dispatch_io_events (\<lambda>_. Return 0) ((snd (sel_poll_events demo_select None sel_demo_reading))\<lparr>active_fds := 2\<rparr>) = Some (0, r2)
      \<and> set (us WR) = (\<lambda>h. kind_upcall WR (bound h sel_demo_reading) h) ` the (fd_sets (kern (snd (sel_poll_events demo_select None sel_demo_reading))) WR)"
    using select_dispatch_delivers [OF sel_demo_ok(2) \<open>r_fault sel_demo_reading = None\<close> demo_select_law c p] by fastforce
  moreover have "map_option (\<lambda>(v, r). upcalls r) (sel_dispatch_io_events (\<lambda>_. Return 0)
       ((snd (sel_poll_events demo_select None sel_demo_reading))\<lparr>active_fds := 2\<rparr>)) =
     Some [HandleOutput 31 2, HandleInput 30 1, HandleInput 31 2]" by code_simp
  ultimately show ?thesis by blast
qed

text \<open>C7: Opened with the same notifier and timer queue, the select reactor and the epoll reactor are
  interchangeable: any program of calls, with any callbacks, returns the same results on both and makes the
  same upcalls, and afterwards both hold the same registrations and poll the same handles for the same
  kinds of events. The tables may differ in size (\<open>n\<close> is the limit of the process, \<open>n'\<close> is \<^verbatim>\<open>FD_SETSIZE\<close>), but then
  the programs register only handles that lie in both or in neither (\<open>same_range\<close>); and the kernel of
  \<open>epoll\<close> refuses no call (\<open>epoll_healthy\<close>: regular files and closed handles, which it refuses and \<open>select\<close> does not
  until it waits, are excluded).\<close>

theorem select_equals_epoll:
  assumes "epoll_laws ctl interest" "epoll_healthy ctl" "interest k = Map.empty" "nh \<noteq> null"
    "open_i ctl n arr create k nh ntq pipe tq (reactor_new k0 q) = (0, r)"
    "sel_open_i ns nh ntq pipe n' tq (reactor_new (select_base_new os) q') = (0, s)"
    "distinct ns" "null \<notin> set ns" "int (length ns) = 3 * n'"
    "handlers_within (same_range n n') hs" "within (same_range n n') p"
  shows "rel_option (rel_prod (=) (\<lambda>r s. upcalls s = upcalls r
      \<and> (\<forall>h. bound h s = bound h r \<and> rep_mask h (handler_rep s) = rep_mask h (handler_rep r))
      \<and> (\<forall>h c. h \<in> polled (kern s) c \<longleftrightarrow> (\<exists>ev. interest (kern r) h = Some ev \<and> bit_enabled ev (kind_event c)))))
    (run_prog (handle_opt_i ctl) hs p r) (run_prog sel_handle_opt_i hs p s)"
proof -
  have "epoll_laws ctl interest \<and> epoll_healthy ctl \<and> same_polling (same_range n n') interest r s"
    using assms(1,2) open_same_polling [OF assms(1-9)] by blast
  from es.run_prog_rel [OF this assms(10,11)] show ?thesis
    by (rule option.rel_mono_strong, elim rel_prod.cases) (auto simp: same_polling_def rep_slot)
qed

text \<open>The epoll reactor has a table of 8 handles, the select reactor of 4.\<close>

definition demo_reactor8 :: "(int \<Rightarrow> mask option) reactor" where
  "demo_reactor8 = snd (open_i demo_ctl 8 (replicate 8 (0, 0)) 9 Map.empty 20 21 (Some 3) null (reactor_new Map.empty (tq_new 10 3)))"

lemma demo_open8:
  "open_i demo_ctl 8 (replicate 8 (0, 0)) 9 Map.empty 20 21 (Some 3) null (reactor_new Map.empty (tq_new 10 3)) = (0, demo_reactor8)"
proof -
  have "fst (open_i demo_ctl 8 (replicate 8 (0, 0)) 9 Map.empty 20 21 (Some 3) null (reactor_new Map.empty (tq_new 10 3))) = 0"
    by code_simp
  then show ?thesis by (simp add: demo_reactor8_def prod_eq_iff)
qed

theorem select_equals_epoll_witness:
  "rel_option (rel_prod (=) (\<lambda>r s. upcalls s = upcalls r
      \<and> (\<forall>h. bound h s = bound h r \<and> rep_mask h (handler_rep s) = rep_mask h (handler_rep r))
      \<and> (\<forall>h c. h \<in> polled (kern s) c \<longleftrightarrow> (\<exists>ev. kern r h = Some ev \<and> bit_enabled ev (kind_event c)))))
    (run_prog (handle_opt_i demo_ctl) (\<lambda>_. Return 0) (Call (Register 2 31 write_mask) (\<lambda>_. Call (Remove 3 read_mask) Return)) demo_reactor8)
    (run_prog sel_handle_opt_i (\<lambda>_. Return 0) (Call (Register 2 31 write_mask) (\<lambda>_. Call (Remove 3 read_mask) Return)) sel_demo)"
  by (rule select_equals_epoll [OF demo_laws _ _ demo_open8 sel_demo_open]) (simp_all add: handlers_within_def same_range_def)

section \<open>Defects\<close>

text \<open>The callback for handle 2 removes the handler of handle 1, whose node comes next in the list: the loop goes on
  with the released node and its assertion fails.\<close>

theorem dispatch_walks_released:
  "map_option (\<lambda>(v, r). (r_fault r, upcalls r)) (sel_dispatch_io_events
     (\<lambda>us. case us of HandleInput eh h # _ \<Rightarrow> if h = 2 then Call (Remove 1 (read_mask OR dont_call)) Return else Return 0 | _ \<Rightarrow> Return 0)
     ((snd (sel_poll_events demo_select None sel_demo_reading))\<lparr>active_fds := 2\<rparr>)) = Some (Some AssertFailed, [HandleInput 31 2])"
  by code_simp

text \<open>Closing deletes the sets, which only the constructor creates: a reactor that is opened again follows a null
  pointer when it waits.\<close>

theorem reopened_select_faults:
  "r_fault (snd (sel_poll_events demo_select None
     (snd (sel_open_i [60..<72] 22 23 (Some 3) 4 null (snd (sel_close_i sel_demo)))))) = Some NullDeref"
  by code_simp

end
