(* ===== verification/Spec2Isabelle.thy ===== *)
theory Spec2Isabelle
  imports TimeValue MessageBlock MessageQueue BinHeap TimerDispatch Cron CacheManager CacheHeap MemPoolCorrect NetIO Token EpollReactor SelectProps
begin

text \<open>
  \<^bold>\<open>cute-ndk, a network development kit in C++.\<close> The library under \<^verbatim>\<open>src/ndk\<close> is an event-driven server
  toolkit: a \<^emph>\<open>reactor\<close> waits for I/O with \<^verbatim>\<open>epoll\<close> or \<^verbatim>\<open>select\<close> and calls the methods of registered event handlers; a
  \<^emph>\<open>timer queue\<close> beside it runs one-shot, periodic and crontab timers; other threads wake the reactor
  through a \<^emph>\<open>notifier\<close> and serialise their calls with a recursive \<^emph>\<open>token\<close>; \<^emph>\<open>message queues\<close> of \<^emph>\<open>message
  blocks\<close> pass data between threads; a \<^emph>\<open>cache manager\<close> keeps reference-counted objects in an LRU
  \<^emph>\<open>deque\<close> or, by frequency of use, in a \<^emph>\<open>cache heap\<close>; an intrusive \<^emph>\<open>heap\<close> orders items by priority; a
  \<^emph>\<open>memory pool\<close> cuts slabs into blocks. The applications under \<^verbatim>\<open>src/apps\<close> and \<^verbatim>\<open>src/examples\<close>
  are clients of it.

  \<^bold>\<open>How the code is modelled.\<close> C++ objects live in stores (functions from addresses to records), and an
  intrusive list is its link fields in the store together with head and tail; address 0 is the null
  pointer. Every operation is one definition that returns the new state. Undefined behaviour and
  failed assertions are values: \<open>Inl fault\<close>, or a fault field of the state. Loops whose end is not
  evident are \<open>partial_function (option)\<close>: \<open>None\<close> means that the code does not return. That a loop ends is
  proved, or is a hypothesis on the callbacks it runs. Only the searches along the lists of the select reactor count their steps, up to the number of
  all nodes, which is enough because no list is cyclic. User code (callbacks) and the operating system (\<^verbatim>\<open>epoll\<close>, pipes,
  the clock, condition variables) are parameters; what is required of them is a named predicate
  (\<open>send_laws\<close>, \<open>recv_laws\<close>, \<open>kernel_laws\<close>, \<open>epoll_laws\<close>, \<open>epoll_healthy\<close>, \<open>select_law\<close>, \<open>pipe_yields\<close>, \<open>closes_quietly\<close>), and every property that uses one
  has a witness with a concrete instance. The text before each property names all its hypotheses.
  Machine words are used where a width matters (masks, cache sizes, byte counts); a sum that is
  returned as \<^verbatim>\<open>int\<close> or may exceed it is converted (\<open>to_int\<close>) or the fault \<open>IntOverflow\<close>; seconds, handles and
  counters far from overflow are integers.

  \<^bold>\<open>Theories, code and results.\<close>
  \<^item> \<open>Prelude\<close>: addresses, faults, linked lists in a store (\<open>chain\<close>, \<open>dll\<close>), lists updated by index.
    \<open>FifoQueue\<close>: the contract of a queue as a locale, with the theorem that interleaved puts and gets
    keep the order.
  \<^item> \<open>TimeValue\<close> (\<^verbatim>\<open>time_value.h\<close>, \<^verbatim>\<open>.cpp\<close>): \<open>normalize\<close> ends and keeps the amount; the operators agree with
    microseconds for times after the epoch.
  \<^item> \<open>MessageBlock\<close> (\<^verbatim>\<open>message_block.h\<close>), \<open>MessageQueue\<close> (\<^verbatim>\<open>message_queue.h\<close>, \<^verbatim>\<open>.cpp\<close>): typed values are read back as
    written; the queue is first-in first-out over all interleavings of producers and consumers, its
    blocking operations return once there is room, and its destructor deletes every block once.
  \<^item> \<open>IndexedHeap\<close>, \<open>BinHeap\<close> (\<^verbatim>\<open>heap.h\<close>): sifting proved once in a locale for heaps that record positions,
    interpreted by the intrusive heap (both orders) and by the timer heap; push, pop, erase and adjust
    keep the order, popping until empty sorts.
  \<^item> \<open>TimerQueue\<close>, \<open>TimerQueueCorrect\<close>, \<open>TimerDispatch\<close> (\<^verbatim>\<open>timer_queue.h\<close>, \<^verbatim>\<open>.cpp\<close>): the heap of timer nodes, the
    table of timer ids and the node pool refine a map from ids to timers; scheduling, cancelling and
    dispatching are operations on that map, over every run; a periodic timer is rescheduled behind the
    current time.
  \<^item> \<open>CString\<close>, \<open>Cron\<close> (\<^verbatim>\<open>timer_queue.cpp\<close>, \<^verbatim>\<open>ndk.cpp\<close>): parsing a printed crontab entry sets exactly the flags
    the entry denotes, and the elements that write outside the flags are characterised.
  \<^item> \<open>CacheDeque\<close>, \<open>CacheManager\<close> (\<^verbatim>\<open>cache_object.h\<close>, \<^verbatim>\<open>cache_deque.h\<close>, \<^verbatim>\<open>cache_manager.h\<close>, \<^verbatim>\<open>.cpp\<close>): over every run no
    object is destroyed while a client holds it and the map, the deque and the sizes agree.
    \<open>CacheHeap\<close> (\<^verbatim>\<open>cache_heap.h\<close>): the same objects in the intrusive heap, on the lemmas of \<open>BinHeap\<close>; the
    object taken out is one that no other precedes, and adjusting after a hit restores the order.
  \<^item> \<open>MemPool\<close>, \<open>MemPoolCorrect\<close> (\<^verbatim>\<open>mem_pool.h\<close>, \<^verbatim>\<open>.cpp\<close>): the chunks of a slab tile its memory and are linked in
    this order, the slabs are sorted by the largest chunk known to be free. Over every run of
    allocations (of at least one byte), releases and writes of clients, live blocks overlap neither each other nor a header.
  \<^item> \<open>NetIO\<close> (\<^verbatim>\<open>ndk.h\<close>, \<^verbatim>\<open>ndk.cpp\<close>): sending and receiving; the transfers of a given length return and pass the
    bytes in order, none twice, and put the mode of the handle back; those of vectors, as the build files
    configure them, only while no call stops inside a buffer.
  \<^item> \<open>Token\<close> (\<^verbatim>\<open>token.h\<close>, \<^verbatim>\<open>.cpp\<close>, \<^verbatim>\<open>reactor_token.h\<close>): a step relation of threads; at most one holds the token as
    long as waits do not time out, and release hands it to the first waiting writer, then reader, and
    signals it.
  \<^item> \<open>ReactorNotify\<close> (\<^verbatim>\<open>unix_reactor_notify\<close>): one byte in the pipe per queued message; the loop refines a loop
    over a list, and interleaved posts and reads, accepted or refused, keep the order.
  \<^item> \<open>Reactor\<close> (\<^verbatim>\<open>unix_reactor.h\<close>, \<^verbatim>\<open>.inl\<close>, \<^verbatim>\<open>.cpp\<close>, \<^verbatim>\<open>epoll_reactor.cpp\<close>, \<^verbatim>\<open>event_handler.h\<close>): the handler repository,
    registration, suspension, polling, dispatching, opening and closing. Callbacks are programs of
    reactor calls. \<open>ReactorCorrect\<close>: locales \<open>prog_inv\<close> and \<open>loop_inv\<close> lift an invariant of the primitive
    operations to callbacks and to the dispatch loop; interpreted for the agreement of repository and
    interest set, for the bounds of the event array, and for the parts that callbacks leave alone.
    \<open>ReactorKernel\<close>: the same agreement under a kernel that may refuse calls and drop closed handles, at
    every handle it has not lost.
    \<open>ReactorDispatch\<close>, \<open>ReactorProps\<close>: the properties of runs and of single operations, with the timer
    queue as part of the event loop.
  \<^item> \<open>EpollReactor\<close> (\<^verbatim>\<open>epoll_reactor.inl\<close>): the timer operations of the front end.
  \<^item> \<open>SelectReactor\<close>, \<open>SelectCorrect\<close>, \<open>SelectProps\<close> (\<^verbatim>\<open>select_reactor.h\<close>, \<^verbatim>\<open>.inl\<close>, \<^verbatim>\<open>.cpp\<close>): the second implementation of the
    virtual methods of \<^verbatim>\<open>unix_reactor\<close>, linked lists of handles. The lists agree with the registrations over
    every run, and a simulation, stated once as the locale \<open>opt_sim\<close> for two implementations of \<^verbatim>\<open>handle_opt_i\<close>,
    shows that no program of reactor calls can tell the two reactors apart, while \<^verbatim>\<open>epoll\<close> refuses no call and
    the handles lie in both tables or in neither.

  \<^bold>\<open>Bounds.\<close> \<open>process_limit\<close> is the 32 events per dispatch of the source; sizes of arrays are those of the
  lists that model them.

  \<^bold>\<open>Defects found.\<close> Theorems about concrete misbehaviour stand beside the components: adjusting and erasing
  in the heap, the id table of the timer queue after growth, crontab entries starting with @,
  \<^verbatim>\<open>reset_crontab\<close>, the destructor of the cache deque, evicted objects, timed-out waits for the token,
  allocations of no bytes and unmerged chunks in the memory pool, buffers sent twice, suspended handles that are polled
  again, refused modifications reported as success, a due timer that is not run when no time is allowed, crontab
  steps that are not checked, a foreign timer queue deleted, stale events after reopening,
  and list nodes released under a dispatch of the select reactor.

  \<^bold>\<open>Not modelled.\<close> Logging (\<^verbatim>\<open>log_manager\<close>, \<^verbatim>\<open>logger\<close>, \<^verbatim>\<open>strace\<close>) only has effects outside the
  process. The scheduler of asynchronous file I/O (\<^verbatim>\<open>asynch_file_io\<close>) is left to later work.
  Sockets, \<^verbatim>\<open>inet_addr\<close>, acceptor, connector and service handlers are wrappers of system calls.
  \<^verbatim>\<open>iniparser.c\<close> and \<^verbatim>\<open>dictionary.c\<close> are vendored. The kqueue reactor is an alternative for BSD.
  The applications are clients of the library. Timer callbacks act on the timer queue only. The
  thread-safe front ends of the reactors take a guard of the token around the operations modelled here; the
  token is modelled, its nested use by callbacks and by other threads during an operation is not.
\<close>

end
